(* ===== verification/Mynewt_Prelude.thy ===== *)
theory Mynewt_Prelude
  imports Main "HOL-Library.Word" "HOL-Library.Multiset" "HOL-Library.Monad_Syntax"
begin

text \<open>
  Shared vocabulary of the development: the fixed-width integer types of \<^verbatim>\<open>stdint.h\<close>, the
  intrusive queue macros of \<^verbatim>\<open>libs/os/include/os/queue.h\<close> read as operations on lists, the
  wrap-around tick comparisons of \<^verbatim>\<open>os_time.h\<close>, and the generic lemmas the component
  theories share.

  A value of type \<open>'a option\<close> returned by a model function is the outcome of running C code:
  \<open>None\<close> stands for a failed \<^verbatim>\<open>assert\<close> or for behaviour the C standard leaves undefined (a
  null dereference, a list macro applied to an element that is not linked, a copy outside its
  buffer). Error codes are ordinary values inside \<open>Some\<close>.
\<close>

unbundle bit_operations_syntax

type_synonym u8 = "8 word"
type_synonym u16 = "16 word"
type_synonym u32 = "32 word"

named_theorems queue_simps \<open>equations and invariants of the list readings of queue.h\<close>
named_theorems buf_simps \<open>reading and writing bytes of a buffer\<close>
named_theorems tick_simps \<open>facts on the wrap-around tick comparisons\<close>

text \<open>A call made \<open>n\<close> times in a row, each time on the state the last one left.\<close>

primrec repeat_op :: "nat \<Rightarrow> ('s \<Rightarrow> 's option) \<Rightarrow> 's \<Rightarrow> 's option" where
  "repeat_op 0 f s = Some s"
| "repeat_op (Suc n) f s = Option.bind (f s) (repeat_op n f)"

text \<open>A sequence of insertions, and a number of removals with what they return.\<close>

primrec put_all :: "('a \<Rightarrow> 's \<Rightarrow> 's option) \<Rightarrow> 'a list \<Rightarrow> 's \<Rightarrow> 's option" where
  "put_all put [] s = Some s"
| "put_all put (x # xs) s = Option.bind (put x s) (put_all put xs)"

primrec get_n :: "('s \<Rightarrow> ('a \<times> 's) option) \<Rightarrow> nat \<Rightarrow> 's \<Rightarrow> ('a list \<times> 's) option" where
  "get_n get 0 s = Some ([], s)"
| "get_n get (Suc n) s = do {
     (x, s1) \<leftarrow> get s;
     (xs, s2) \<leftarrow> get_n get n s1;
     Some (x # xs, s2)
   }"

subsection \<open>queue.h\<close>

text \<open>
  The idiom ``\<^verbatim>\<open>FOREACH(entry, head, f) if (p entry) break;\<close> then insert before \<^verbatim>\<open>entry\<close>, or at
  the tail when the loop ran to its end''.
\<close>

fun insert_before :: "('a \<Rightarrow> bool) \<Rightarrow> 'a \<Rightarrow> 'a list \<Rightarrow> 'a list" where
  "insert_before p x [] = [x]"
| "insert_before p x (y # ys) = (if p y then x # y # ys else y # insert_before p x ys)"

text \<open>
  \<^verbatim>\<open>TAILQ_REMOVE\<close>, \<^verbatim>\<open>STAILQ_REMOVE\<close> and \<^verbatim>\<open>SLIST_REMOVE\<close>: unlinking an element that is not on the
  list dereferences a null pointer or corrupts another list.
\<close>

definition queue_remove :: "'a \<Rightarrow> 'a list \<Rightarrow> 'a list option" where
  "queue_remove x xs = (if x \<in> set xs then Some (remove1 x xs) else None)"

text \<open>\<^verbatim>\<open>FIRST\<close>: the head of the queue, or \<^verbatim>\<open>NULL\<close>.\<close>

definition queue_first :: "'a list \<Rightarrow> 'a option" where
  "queue_first xs = (case xs of [] \<Rightarrow> None | x # _ \<Rightarrow> Some x)"

subsection \<open>Tick comparisons\<close>

text \<open>\<^verbatim>\<open>OS_TIME_TICK_LT/GT/GEQ\<close>: the sign of the 32-bit difference.\<close>

definition OS_TIME_TICK_LT :: "u32 \<Rightarrow> u32 \<Rightarrow> bool" where
  "OS_TIME_TICK_LT t1 t2 \<longleftrightarrow> sint (t1 - t2) < 0"

definition OS_TIME_TICK_GT :: "u32 \<Rightarrow> u32 \<Rightarrow> bool" where
  "OS_TIME_TICK_GT t1 t2 \<longleftrightarrow> sint (t1 - t2) > 0"

definition OS_TIME_TICK_GEQ :: "u32 \<Rightarrow> u32 \<Rightarrow> bool" where
  "OS_TIME_TICK_GEQ t1 t2 \<longleftrightarrow> sint (t1 - t2) \<ge> 0"

definition OS_TIMEOUT_NEVER :: u32 where
  "OS_TIMEOUT_NEVER = 0xFFFFFFFF"

subsection \<open>Byte buffers\<close>

text \<open>\<^verbatim>\<open>memcpy\<close> out of and into a buffer.\<close>

definition peek :: "int \<Rightarrow> nat \<Rightarrow> u8 list \<Rightarrow> u8 list option" where
  "peek off n buf = (if 0 \<le> off \<and> nat off + n \<le> length buf then Some (take n (drop (nat off) buf)) else None)"

definition poke :: "int \<Rightarrow> u8 list \<Rightarrow> u8 list \<Rightarrow> u8 list option" where
  "poke off bs buf = (if 0 \<le> off \<and> nat off + length bs \<le> length buf
     then Some (take (nat off) buf @ bs @ drop (nat off + length bs) buf) else None)"

text \<open>One byte read and written through a pointer into a buffer.\<close>

definition get8 :: "u8 list \<Rightarrow> nat \<Rightarrow> u8 option" where
  "get8 buf i = (if i < length buf then Some (buf ! i) else None)"

definition put8 :: "u8 list \<Rightarrow> nat \<Rightarrow> u8 \<Rightarrow> u8 list option" where
  "put8 buf i x = (if i < length buf then Some (buf[i := x]) else None)"

text \<open>A 16-bit value in memory, its low byte first.\<close>

definition le16 :: "u16 \<Rightarrow> u8 list" where
  "le16 w = [ucast w, ucast (drop_bit 8 w)]"

definition of_le16 :: "u8 list \<Rightarrow> u16" where
  "of_le16 bs = ucast (bs ! 0) + push_bit 8 (ucast (bs ! 1))"

subsection \<open>Lemmas on byte buffers\<close>

lemma put8_eq [buf_simps]: "i < length p \<Longrightarrow> put8 p i x = Some (p[i := x])"
  by (simp add: put8_def)

lemma get8_eq [buf_simps]: "i < length p \<Longrightarrow> get8 p i = Some (p ! i)"
  by (simp add: get8_def)

subsection \<open>Lemmas on queues\<close>

lemma set_insert_before [simp]: "set (insert_before p x xs) = insert x (set xs)"
  by (induction xs) auto

lemma mset_insert_before [queue_simps]: "mset (insert_before p x xs) = add_mset x (mset xs)"
  by (induction xs) auto

lemma length_insert_before [simp]: "length (insert_before p x xs) = Suc (length xs)"
  by (induction xs) auto

lemma distinct_insert_before [simp]:
  "distinct (insert_before p x xs) \<longleftrightarrow> x \<notin> set xs \<and> distinct xs"
  by (induction xs) auto

lemma insert_before_not_Nil [simp]: "insert_before p x xs \<noteq> []"
  by (cases xs) auto

lemma hd_insert_before:
  "hd (insert_before p x xs) = (if xs = [] \<or> p (hd xs) then x else hd xs)"
  by (cases xs) auto

lemma insert_before_cong:
  "(\<And>y. y \<in> set xs \<Longrightarrow> p y = q y) \<Longrightarrow> insert_before p x xs = insert_before q x xs"
  by (induction xs) auto

lemma sorted_wrt_insert_before:
  assumes "sorted_wrt R xs"
    and "\<And>y. y \<in> set xs \<Longrightarrow> p y \<Longrightarrow> R x y"
    and "\<And>y. y \<in> set xs \<Longrightarrow> \<not> p y \<Longrightarrow> R y x"
    and "\<And>y z. y \<in> set xs \<Longrightarrow> z \<in> set xs \<Longrightarrow> p y \<Longrightarrow> R y z \<Longrightarrow> p z"
  shows "sorted_wrt R (insert_before p x xs)"
  using assms
proof (induction xs)
  case (Cons y ys)
  show ?case
  proof (cases "p y")
    case True
    with Cons.prems(1,4) have "\<forall>z \<in> set (y # ys). p z"
      by (metis list.set_intros(1) set_ConsD sorted_wrt.simps(2))
    with Cons.prems(2) have "\<forall>z \<in> set (y # ys). R x z" by blast
    with True Cons.prems(1) show ?thesis by simp
  next
    case False
    have "sorted_wrt R (insert_before p x ys)"
      using Cons.prems by (intro Cons.IH) (simp, (meson list.set_intros(2))+)
    moreover have "R y x" using Cons.prems(3) False by simp
    ultimately show ?thesis using False Cons.prems(1) by simp
  qed
qed simp

lemma filter_insert_before_not:
  "\<not> q x \<Longrightarrow> filter q (insert_before p x xs) = filter q xs"
  by (induction xs) auto

lemma filter_insert_before_last:
  "q x \<Longrightarrow> (\<And>y. y \<in> set xs \<Longrightarrow> q y \<Longrightarrow> \<not> p y) \<Longrightarrow>
   (\<And>y z. y \<in> set xs \<Longrightarrow> z \<in> set xs \<Longrightarrow> p y \<Longrightarrow> R y z \<Longrightarrow> p z) \<Longrightarrow> sorted_wrt R xs \<Longrightarrow>
   filter q (insert_before p x xs) = filter q xs @ [x]"
proof (induction xs)
  case (Cons y ys)
  show ?case
  proof (cases "p y")
    case True
    with Cons.prems(3,4) have "\<forall>z \<in> set (y # ys). p z"
      by (metis list.set_intros(1) set_ConsD sorted_wrt.simps(2))
    with Cons.prems(2) have "filter q (y # ys) = []"
      by (metis filter_False)
    with True Cons.prems(1) show ?thesis by simp
  next
    case False
    have "filter q (insert_before p x ys) = filter q ys @ [x]"
      using Cons.prems by (intro Cons.IH) (meson list.set_intros(2) sorted_wrt.simps(2))+
    with False show ?thesis by simp
  qed
qed simp

lemma sorted_wrt_remove1: "sorted_wrt R xs \<Longrightarrow> sorted_wrt R (remove1 x xs)"
proof (induction xs)
  case (Cons y ys)
  then show ?case using set_remove1_subset [of x ys] by auto
qed simp

lemma queue_remove_Some [simp]:
  "queue_remove x xs = Some ys \<longleftrightarrow> x \<in> set xs \<and> ys = remove1 x xs"
  by (auto simp: queue_remove_def)

lemma queue_remove_None [simp]: "queue_remove x xs = None \<longleftrightarrow> x \<notin> set xs"
  by (simp add: queue_remove_def)

lemma queue_remove_in [simp]: "x \<in> set xs \<Longrightarrow> queue_remove x xs = Some (remove1 x xs)"
  by simp

lemma queue_first_simps [simp]:
  "queue_first [] = None" "queue_first (x # xs) = Some x"
  by (simp_all add: queue_first_def)

lemma queue_first_Some: "queue_first xs = Some x \<longleftrightarrow> xs \<noteq> [] \<and> x = hd xs"
  by (cases xs) auto

lemma queue_first_None [simp]: "queue_first xs = None \<longleftrightarrow> xs = []"
  by (cases xs) auto

subsection \<open>Lemmas on tick comparisons\<close>

text \<open>
  For times less than half the counter range ahead of \<open>now\<close> the comparisons order the
  remaining ticks.
\<close>

lemma sint_small_diff:
  fixes a b :: u32
  assumes "unat a < 2 ^ 31" "unat b < 2 ^ 31"
  shows "sint (a - b) = int (unat a) - int (unat b)"
proof -
  have sint_small: "sint w = int (unat w)" if "unat w < 2 ^ 31" for w :: u32
    using that uint_nat [of w]
    by (simp add: sint_uint signed_take_bit_int_eq_self_iff del: of_nat_unat)
  have "sint (a - b) = signed_take_bit 31 (int (unat a) - int (unat b))"
    using assms by (simp add: sint_word_ariths sint_small del: of_nat_unat)
  also have "\<dots> = int (unat a) - int (unat b)"
    using assms by (simp add: signed_take_bit_int_eq_self_iff del: of_nat_unat)
  finally show ?thesis .
qed

lemma sint_nonneg_unat: "0 \<le> sint (w :: u32) \<Longrightarrow> unat w < 2 ^ 31"
proof -
  assume w: "0 \<le> sint w"
  have lt: "sint w < 2 ^ 31" using sint_lt [of w] by simp
  have "uint w = take_bit 32 (sint w)" using uint_sint [of w] by simp
  also have "\<dots> = sint w" using w lt by (simp add: take_bit_int_eq_self_iff)
  finally have "uint w < 2 ^ 31" using lt by simp
  then show ?thesis using uint_nat [of w] by (simp del: of_nat_unat)
qed

lemma tick_gt_iff [tick_simps]:
  assumes "unat (t1 - now) < 2 ^ 31" "unat (t2 - now) < 2 ^ 31"
  shows "OS_TIME_TICK_GT t1 t2 \<longleftrightarrow> unat (t2 - now) < unat (t1 - now)"
  using sint_small_diff [OF assms] by (simp add: OS_TIME_TICK_GT_def del: of_nat_unat)

lemma tick_lt_iff [tick_simps]:
  assumes "unat (t1 - now) < 2 ^ 31" "unat (t2 - now) < 2 ^ 31"
  shows "OS_TIME_TICK_LT t1 t2 \<longleftrightarrow> unat (t1 - now) < unat (t2 - now)"
  using sint_small_diff [OF assms] by (simp add: OS_TIME_TICK_LT_def del: of_nat_unat)

lemma unat_until_tick [tick_simps]:
  assumes "0 < unat (t - now)" shows "unat (t - (now + 1)) = unat (t - now) - 1"
proof -
  have "t - now \<noteq> 0" using assms by (auto simp: unat_eq_0)
  then show ?thesis by (simp add: diff_diff_eq [symmetric] unat_minus_one)
qed

lemma tick_geq_now_iff [tick_simps]:
  assumes "unat (t - now) < 2 ^ 31"
  shows "OS_TIME_TICK_GEQ now t \<longleftrightarrow> unat (t - now) = 0"
  using sint_small_diff [of 0 "t - now"] assms by (simp add: OS_TIME_TICK_GEQ_def del: of_nat_unat)

subsection \<open>Lemmas on byte buffers\<close>

lemma peek_Some: "peek off n buf = Some bs \<longleftrightarrow> 0 \<le> off \<and> nat off + n \<le> length buf \<and> bs = take n (drop (nat off) buf)"
  by (auto simp: peek_def)

lemma poke_Some: "poke off bs buf = Some b \<longleftrightarrow> 0 \<le> off \<and> nat off + length bs \<le> length buf \<and>
     b = take (nat off) buf @ bs @ drop (nat off + length bs) buf"
  by (auto simp: poke_def)

lemma length_poke: "poke off bs buf = Some b \<Longrightarrow> length b = length buf"
  by (auto simp: poke_Some)

lemma peek_poke_same: "poke off bs m = Some m' \<Longrightarrow> length bs = n \<Longrightarrow> peek off n m' = Some bs"
  by (auto simp: poke_def peek_def split: if_splits)

lemma peek_poke_other:
  assumes "poke off bs m = Some m'" "p + int n \<le> off \<or> off + int (length bs) \<le> p"
  shows "peek p n m' = peek p n m"
proof (cases "0 \<le> p \<and> nat p + n \<le> length m")
  case True
  have off: "0 \<le> off" "nat off + length bs \<le> length m"
    and m': "m' = take (nat off) m @ bs @ drop (nat off + length bs) m"
    using assms(1) by (auto simp: poke_Some)
  have l: "length m' = length m" using length_poke [OF assms(1)] .
  have "take n (drop (nat p) m') = take n (drop (nat p) m)"
  proof (rule nth_equalityI)
    fix i assume "i < length (take n (drop (nat p) m'))"
    then have i: "i < n" by simp
    have "nat p + i < nat off \<or> nat off + length bs \<le> nat p + i" using assms(2) i True off(1) by linarith
    then have "m' ! (nat p + i) = m ! (nat p + i)"
    proof
      assume "nat p + i < nat off"
      then show ?thesis unfolding m' using off(2) by (subst nth_append) simp
    next
      assume a: "nat off + length bs \<le> nat p + i"
      then have "\<not> nat p + i < nat off" "\<not> nat p + i - nat off < length bs"
        "nat off + length bs + (nat p + i - nat off - length bs) = nat p + i" by linarith+
      moreover have "length (take (nat off) m) = nat off" using off(2) by simp
      ultimately show ?thesis unfolding m' using off(2) by (simp add: nth_append del: length_take)
    qed
    then show "take n (drop (nat p) m') ! i = take n (drop (nat p) m) ! i"
      using i True l by simp
  qed (use l in simp)
  then show ?thesis using length_poke [OF assms(1)] by (simp add: peek_def)
qed (use length_poke [OF assms(1)] in \<open>auto simp: peek_def\<close>)

lemma poke_ok: "p + length bs \<le> length m \<Longrightarrow> \<exists>m'. poke (int p) bs m = Some m'"
  by (simp add: poke_def)

lemma of_le16_le16: "of_le16 (le16 w) = w"
proof -
  have "unat (of_le16 (le16 w)) = unat w mod 256 + 256 * (unat w div 256 mod 256)"
    by (simp add: of_le16_def le16_def unat_word_ariths unsigned_ucast_eq unsigned_push_bit_eq unsigned_drop_bit_eq
        take_bit_eq_mod drop_bit_eq_div push_bit_eq_mult mod_mod_cancel)
  also have "\<dots> = unat w"
  proof -
    have "unat w < 65536" using unsigned_less [of w] by simp
    then show ?thesis by simp
  qed
  finally show ?thesis by (simp add: word_unat_eq_iff)
qed

lemma length_le16 [simp]: "length (le16 w) = 2"
  by (simp add: le16_def)

subsection \<open>Priority lists\<close>

text \<open>
  The contract of a queue kept in the order of a key, first come first served among equal keys.
  The run list, the wait lists of semaphores and mutexes and the callout list rely on it.
\<close>

locale prio_list =
  fixes key :: "'a \<Rightarrow> 'k::linorder"
    and ins :: "'a \<Rightarrow> 'a list \<Rightarrow> 'a list"
  assumes mset_ins: "mset (ins x xs) = add_mset x (mset xs)"
    and sorted_ins: "sorted_wrt (\<lambda>a b. key a \<le> key b) xs \<Longrightarrow>
      sorted_wrt (\<lambda>a b. key a \<le> key b) (ins x xs)"
    and stable_ins: "sorted_wrt (\<lambda>a b. key a \<le> key b) xs \<Longrightarrow>
      filter (\<lambda>y. key y = k) (ins x xs) =
      filter (\<lambda>y. key y = k) xs @ (if key x = k then [x] else [])"
begin

lemma set_ins: "set (ins x xs) = insert x (set xs)"
  by (metis mset_ins set_mset_add_mset_insert set_mset_mset)

lemma ins_not_Nil: "ins x xs \<noteq> []"
  using set_ins [of x xs] by auto

lemma hd_min:
  "sorted_wrt (\<lambda>a b. key a \<le> key b) xs \<Longrightarrow> y \<in> set xs \<Longrightarrow> key (hd xs) \<le> key y"
  by (cases xs) auto

lemma hd_filter_key: "xs \<noteq> [] \<Longrightarrow> hd (filter (\<lambda>y. key y = key (hd xs)) xs) = hd xs"
  by (cases xs) auto

text \<open>A new element becomes the head exactly when its key is strictly smaller.\<close>

lemma hd_ins:
  assumes sorted: "sorted_wrt (\<lambda>a b. key a \<le> key b) xs" and "xs \<noteq> []"
  shows "hd (ins x xs) = (if key x < key (hd xs) then x else hd xs)"
proof -
  let ?ys = "ins x xs"
  have ys: "hd ?ys \<in> insert x (set xs)"
    using ins_not_Nil [of x xs] set_ins [of x xs] hd_in_set by blast
  have low: "key (hd ?ys) \<le> key y" if "y \<in> insert x (set xs)" for y
    using hd_min [OF sorted_ins [OF sorted]] that by (simp add: set_ins)
  have first: "hd ?ys = hd (filter (\<lambda>y. key y = key (hd ?ys)) xs @
      (if key x = key (hd ?ys) then [x] else []))"
    using hd_filter_key [OF ins_not_Nil] stable_ins [OF sorted] by metis
  show ?thesis
  proof (cases "key x < key (hd xs)")
    case True
    have gt: "key x < key y" if "y \<in> set xs" for y
      using hd_min [OF sorted that] True by simp
    have "key (hd ?ys) \<le> key x" using low by simp
    with ys gt have "hd ?ys = x" by force
    with True show ?thesis by simp
  next
    case False
    have "key (hd ?ys) \<le> key (hd xs)" using low \<open>xs \<noteq> []\<close> by simp
    moreover have "key (hd xs) \<le> key (hd ?ys)"
      using ys False hd_min [OF sorted] by auto
    ultimately have "key (hd ?ys) = key (hd xs)" by simp
    with first False \<open>xs \<noteq> []\<close> show ?thesis
      by (cases xs) auto
  qed
qed

end

text \<open>Inserting before the first strictly larger key meets the contract.\<close>

lemma prio_list_insert_before:
  "prio_list key (\<lambda>x. insert_before (\<lambda>e. key x < key e) x)"
proof
  fix x :: 'a and xs and k
  show "mset (insert_before (\<lambda>e. key x < key e) x xs) = add_mset x (mset xs)"
    by (rule mset_insert_before)
  assume sorted: "sorted_wrt (\<lambda>a b. key a \<le> key b) xs"
  then show "sorted_wrt (\<lambda>a b. key a \<le> key b) (insert_before (\<lambda>e. key x < key e) x xs)"
    by (rule sorted_wrt_insert_before) auto
  show "filter (\<lambda>y. key y = k) (insert_before (\<lambda>e. key x < key e) x xs) =
      filter (\<lambda>y. key y = k) xs @ (if key x = k then [x] else [])"
  proof (cases "key x = k")
    case True
    have "filter (\<lambda>y. key y = k) (insert_before (\<lambda>e. key x < key e) x xs) =
        filter (\<lambda>y. key y = k) xs @ [x]"
      by (rule filter_insert_before_last [where R = "\<lambda>a b. key a \<le> key b"])
        (use True sorted in auto)
    with True show ?thesis by simp
  qed (simp add: filter_insert_before_not)
qed

subsection \<open>First-in first-out queues\<close>

text \<open>
  The contract shared by the queues of the system (event queues, mbuf queues, task-private
  queues): an element that is fresh for the queue is appended, and the first element comes out.
\<close>

locale fifo =
  fixes inv :: "'s \<Rightarrow> bool" and content :: "'s \<Rightarrow> 'a list" and fresh :: "'s \<Rightarrow> 'a \<Rightarrow> bool"
    and put :: "'a \<Rightarrow> 's \<Rightarrow> 's option" and get :: "'s \<Rightarrow> ('a \<times> 's) option"
  assumes put_law: "inv s \<Longrightarrow> fresh s x \<Longrightarrow> \<exists>s'. put x s = Some s' \<and> inv s' \<and>
      content s' = content s @ [x] \<and> (\<forall>y. y \<noteq> x \<longrightarrow> fresh s y \<longrightarrow> fresh s' y)"
    and get_law: "inv s \<Longrightarrow> content s = x # xs \<Longrightarrow>
      \<exists>s'. get s = Some (x, s') \<and> inv s' \<and> content s' = xs"
begin

lemma put_all_appends:
  "inv s \<Longrightarrow> distinct xs \<Longrightarrow> \<forall>x \<in> set xs. fresh s x \<Longrightarrow>
   \<exists>s'. put_all put xs s = Some s' \<and> inv s' \<and> content s' = content s @ xs"
proof (induction xs arbitrary: s)
  case (Cons x xs)
  from put_law [OF Cons.prems(1), of x] Cons.prems obtain s1 where s1: "put x s = Some s1" "inv s1"
    "content s1 = content s @ [x]" "\<forall>y. y \<noteq> x \<longrightarrow> fresh s y \<longrightarrow> fresh s1 y"
    by auto
  have "\<forall>y \<in> set xs. fresh s1 y" using s1(4) Cons.prems(2,3) by auto
  with Cons.IH [OF s1(2)] Cons.prems(2) s1(1,3) show ?case by auto
qed simp

lemma get_n_prefix:
  "inv s \<Longrightarrow> content s = xs @ ys \<Longrightarrow>
   \<exists>s'. get_n get (length xs) s = Some (xs, s') \<and> inv s' \<and> content s' = ys"
proof (induction xs arbitrary: s)
  case (Cons x xs)
  from get_law [OF Cons.prems(1), of x "xs @ ys"] Cons.prems(2)
  obtain s1 where "get s = Some (x, s1)" "inv s1" "content s1 = xs @ ys" by auto
  with Cons.IH [of s1] show ?case by auto
qed simp

lemma fifo_order:
  assumes "inv s" "distinct xs" "\<forall>x \<in> set xs. fresh s x"
  shows "\<exists>s1 s2. put_all put xs s = Some s1 \<and>
     get_n get (length (content s) + length xs) s1 = Some (content s @ xs, s2) \<and> content s2 = []"
proof -
  from put_all_appends [OF assms] obtain s1 where s1: "put_all put xs s = Some s1" "inv s1"
    "content s1 = content s @ xs" by blast
  from get_n_prefix [OF s1(2), of "content s @ xs" "[]"] s1 show ?thesis by auto
qed

end

end
