(* ===== verification/Os_Kernel.thy ===== *)
theory Os_Kernel
  imports Mynewt_Prelude
begin

text \<open>
  The data model of the kernel in \<^verbatim>\<open>libs/os\<close>: the structures of \<^verbatim>\<open>os_task.h\<close>, \<^verbatim>\<open>os_sem.h\<close>,
  \<^verbatim>\<open>os_mutex.h\<close>, \<^verbatim>\<open>os_eventq.h\<close>, \<^verbatim>\<open>os_callout.h\<close> and \<^verbatim>\<open>os_sanity.h\<close>, and one record for the
  kernel's memory. A pointer to a structure is a number into the memory of its kind and \<^verbatim>\<open>NULL\<close>
  is \<open>None\<close>. The intrusive links of \<^verbatim>\<open>queue.h\<close> are read as lists held by the queue heads.
\<close>

subsection \<open>Structures\<close>

datatype os_error =
    OS_OK | OS_ENOMEM | OS_EINVAL | OS_INVALID_PARM | OS_MEM_NOT_ALIGNED | OS_BAD_MUTEX
  | OS_TIMEOUT | OS_ERR_IN_ISR | OS_ERR_PRIV | OS_NOT_STARTED | OS_ENOENT

datatype os_task_state = OS_TASK_READY | OS_TASK_SLEEP

definition OS_TASK_FLAG_NO_TIMEOUT :: u16 where "OS_TASK_FLAG_NO_TIMEOUT = 0x0001"
definition OS_TASK_FLAG_SEM_WAIT :: u16 where "OS_TASK_FLAG_SEM_WAIT = 0x0002"
definition OS_TASK_FLAG_MUTEX_WAIT :: u16 where "OS_TASK_FLAG_MUTEX_WAIT = 0x0004"

type_synonym tid = nat

text \<open>
  What a task can wait on. \<^verbatim>\<open>struct os_task_obj\<close> overlays the first member of a semaphore or a
  mutex, the head of its chain of waiting tasks; that member is \<open>obj_head\<close> below.
\<close>

datatype os_task_obj = ObjSem nat | ObjMutex nat

record os_sanity_check =
  sc_checkin_last :: u32
  sc_checkin_itvl :: u32
  sc_func :: "nat option"
  sc_arg :: nat

record os_task =
  t_stack :: "u32 list"
  t_stacksize :: u16
  t_flags :: u16
  t_taskid :: u8
  t_prio :: u8
  t_state :: os_task_state
  t_name :: string
  t_func :: nat
  t_arg :: nat
  t_obj :: "os_task_obj option"
  t_sanity_check :: os_sanity_check
  t_next_wakeup :: u32
  t_run_time :: u32
  t_ctx_sw_cnt :: u32

record os_sem =
  sem_tokens :: u16

record os_mutex =
  mu_prio :: u8
  mu_level :: u16
  mu_owner :: "tid option"

record os_event =
  ev_queued :: u8
  ev_type :: u8
  ev_arg :: nat

record os_eventq =
  evq_task :: "tid option"
  evq_list :: "nat list"

text \<open>
  \<open>c_ev\<close> is the address of the event embedded in the callout, \<open>c_linked\<close> the test
  \<^verbatim>\<open>c_next.tqe_prev != NULL\<close> of \<^verbatim>\<open>os_callout_queued\<close>. The member \<^verbatim>\<open>cf_func\<close> of a
  \<^verbatim>\<open>struct os_callout_func\<close> is the component \<open>cf_funcs\<close> of the state, by the number of its callout.
\<close>

record os_callout =
  c_ev :: nat
  c_evq :: "nat option"
  c_ticks :: u32
  c_linked :: bool

record os_state =
  os_tasks :: "tid \<Rightarrow> os_task"
  obj_head :: "os_task_obj \<Rightarrow> tid list"
  g_os_task_list :: "tid list"
  g_task_id :: u8
  g_os_run_list :: "tid list"
  g_os_sleep_list :: "tid list"
  g_current_task :: "tid option"
  g_os_time :: u32
  g_os_last_ctx_sw_time :: u32
  g_os_started :: bool
  os_sems :: "nat \<Rightarrow> os_sem"
  os_mutexes :: "nat \<Rightarrow> os_mutex"
  os_events :: "nat \<Rightarrow> os_event"
  os_eventqs :: "nat \<Rightarrow> os_eventq"
  os_callouts :: "nat \<Rightarrow> os_callout"
  cf_funcs :: "nat \<Rightarrow> nat"
  g_callout_list :: "nat list"
  g_os_sanity_check_list :: "tid list"

subsection \<open>Field accesses through a pointer\<close>

definition upd_task :: "tid \<Rightarrow> (os_task \<Rightarrow> os_task) \<Rightarrow> os_state \<Rightarrow> os_state" where
  "upd_task t f s = s\<lparr>os_tasks := (os_tasks s)(t := f (os_tasks s t))\<rparr>"

definition upd_obj_head :: "os_task_obj \<Rightarrow> tid list \<Rightarrow> os_state \<Rightarrow> os_state" where
  "upd_obj_head ob ts s = s\<lparr>obj_head := (obj_head s)(ob := ts)\<rparr>"

definition upd_sem :: "nat \<Rightarrow> (os_sem \<Rightarrow> os_sem) \<Rightarrow> os_state \<Rightarrow> os_state" where
  "upd_sem i f s = s\<lparr>os_sems := (os_sems s)(i := f (os_sems s i))\<rparr>"

definition upd_mutex :: "nat \<Rightarrow> (os_mutex \<Rightarrow> os_mutex) \<Rightarrow> os_state \<Rightarrow> os_state" where
  "upd_mutex i f s = s\<lparr>os_mutexes := (os_mutexes s)(i := f (os_mutexes s i))\<rparr>"

definition upd_event :: "nat \<Rightarrow> (os_event \<Rightarrow> os_event) \<Rightarrow> os_state \<Rightarrow> os_state" where
  "upd_event e f s = s\<lparr>os_events := (os_events s)(e := f (os_events s e))\<rparr>"

definition upd_eventq :: "nat \<Rightarrow> (os_eventq \<Rightarrow> os_eventq) \<Rightarrow> os_state \<Rightarrow> os_state" where
  "upd_eventq q f s = s\<lparr>os_eventqs := (os_eventqs s)(q := f (os_eventqs s q))\<rparr>"

definition upd_callout :: "nat \<Rightarrow> (os_callout \<Rightarrow> os_callout) \<Rightarrow> os_state \<Rightarrow> os_state" where
  "upd_callout c f s = s\<lparr>os_callouts := (os_callouts s)(c := f (os_callouts s c))\<rparr>"

abbreviation task_prio :: "os_state \<Rightarrow> tid \<Rightarrow> u8" where
  "task_prio s t \<equiv> t_prio (os_tasks s t)"

text \<open>The test of \<^verbatim>\<open>t_flags & OS_TASK_FLAG_x\<close> in a condition.\<close>

definition flag_set :: "u16 \<Rightarrow> u16 \<Rightarrow> bool" where
  "flag_set flags f \<longleftrightarrow> flags AND f \<noteq> 0"

definition no_timeout :: "os_state \<Rightarrow> tid \<Rightarrow> bool" where
  "no_timeout s t \<longleftrightarrow> flag_set (t_flags (os_tasks s t)) OS_TASK_FLAG_NO_TIMEOUT"

text \<open>
  The insertion loop ``before the first entry of lower priority'' that the run list and the
  wait lists of semaphores and mutexes all use. A smaller number is a higher priority.
\<close>

definition prio_insert :: "os_state \<Rightarrow> tid \<Rightarrow> tid list \<Rightarrow> tid list" where
  "prio_insert s t xs = insert_before (\<lambda>e. task_prio s t < task_prio s e) t xs"

subsection \<open>Lemmas\<close>

lemmas upd_defs = upd_task_def upd_obj_head_def upd_sem_def upd_mutex_def upd_event_def
  upd_eventq_def upd_callout_def

lemma upd_task_simps [simp]:
  "os_tasks (upd_task t f s) x = (if x = t then f (os_tasks s t) else os_tasks s x)"
  "obj_head (upd_task t f s) = obj_head s"
  "g_os_task_list (upd_task t f s) = g_os_task_list s"
  "g_task_id (upd_task t f s) = g_task_id s"
  "g_os_run_list (upd_task t f s) = g_os_run_list s"
  "g_os_sleep_list (upd_task t f s) = g_os_sleep_list s"
  "g_current_task (upd_task t f s) = g_current_task s"
  "g_os_time (upd_task t f s) = g_os_time s"
  "g_os_last_ctx_sw_time (upd_task t f s) = g_os_last_ctx_sw_time s"
  "g_os_started (upd_task t f s) = g_os_started s"
  "os_sems (upd_task t f s) = os_sems s"
  "os_mutexes (upd_task t f s) = os_mutexes s"
  "os_events (upd_task t f s) = os_events s"
  "os_eventqs (upd_task t f s) = os_eventqs s"
  "os_callouts (upd_task t f s) = os_callouts s"
  "cf_funcs (upd_task t f s) = cf_funcs s"
  "g_callout_list (upd_task t f s) = g_callout_list s"
  "g_os_sanity_check_list (upd_task t f s) = g_os_sanity_check_list s"
  by (simp_all add: upd_task_def)

lemma upd_obj_head_simps [simp]:
  "obj_head (upd_obj_head ob ts s) x = (if x = ob then ts else obj_head s x)"
  "os_tasks (upd_obj_head ob ts s) = os_tasks s"
  "g_os_task_list (upd_obj_head ob ts s) = g_os_task_list s"
  "g_task_id (upd_obj_head ob ts s) = g_task_id s"
  "g_os_run_list (upd_obj_head ob ts s) = g_os_run_list s"
  "g_os_sleep_list (upd_obj_head ob ts s) = g_os_sleep_list s"
  "g_current_task (upd_obj_head ob ts s) = g_current_task s"
  "g_os_time (upd_obj_head ob ts s) = g_os_time s"
  "g_os_last_ctx_sw_time (upd_obj_head ob ts s) = g_os_last_ctx_sw_time s"
  "g_os_started (upd_obj_head ob ts s) = g_os_started s"
  "os_sems (upd_obj_head ob ts s) = os_sems s"
  "os_mutexes (upd_obj_head ob ts s) = os_mutexes s"
  "os_events (upd_obj_head ob ts s) = os_events s"
  "os_eventqs (upd_obj_head ob ts s) = os_eventqs s"
  "os_callouts (upd_obj_head ob ts s) = os_callouts s"
  "cf_funcs (upd_obj_head ob ts s) = cf_funcs s"
  "g_callout_list (upd_obj_head ob ts s) = g_callout_list s"
  "g_os_sanity_check_list (upd_obj_head ob ts s) = g_os_sanity_check_list s"
  by (simp_all add: upd_obj_head_def)

lemma upd_sem_simps [simp]:
  "os_sems (upd_sem i f s) x = (if x = i then f (os_sems s i) else os_sems s x)"
  "os_tasks (upd_sem i f s) = os_tasks s"
  "obj_head (upd_sem i f s) = obj_head s"
  "g_os_task_list (upd_sem i f s) = g_os_task_list s"
  "g_task_id (upd_sem i f s) = g_task_id s"
  "g_os_run_list (upd_sem i f s) = g_os_run_list s"
  "g_os_sleep_list (upd_sem i f s) = g_os_sleep_list s"
  "g_current_task (upd_sem i f s) = g_current_task s"
  "g_os_time (upd_sem i f s) = g_os_time s"
  "g_os_last_ctx_sw_time (upd_sem i f s) = g_os_last_ctx_sw_time s"
  "g_os_started (upd_sem i f s) = g_os_started s"
  "os_mutexes (upd_sem i f s) = os_mutexes s"
  "os_events (upd_sem i f s) = os_events s"
  "os_eventqs (upd_sem i f s) = os_eventqs s"
  "os_callouts (upd_sem i f s) = os_callouts s"
  "cf_funcs (upd_sem i f s) = cf_funcs s"
  "g_callout_list (upd_sem i f s) = g_callout_list s"
  "g_os_sanity_check_list (upd_sem i f s) = g_os_sanity_check_list s"
  by (simp_all add: upd_sem_def)

lemma upd_mutex_simps [simp]:
  "os_mutexes (upd_mutex i f s) x = (if x = i then f (os_mutexes s i) else os_mutexes s x)"
  "os_tasks (upd_mutex i f s) = os_tasks s"
  "obj_head (upd_mutex i f s) = obj_head s"
  "g_os_task_list (upd_mutex i f s) = g_os_task_list s"
  "g_task_id (upd_mutex i f s) = g_task_id s"
  "g_os_run_list (upd_mutex i f s) = g_os_run_list s"
  "g_os_sleep_list (upd_mutex i f s) = g_os_sleep_list s"
  "g_current_task (upd_mutex i f s) = g_current_task s"
  "g_os_time (upd_mutex i f s) = g_os_time s"
  "g_os_last_ctx_sw_time (upd_mutex i f s) = g_os_last_ctx_sw_time s"
  "g_os_started (upd_mutex i f s) = g_os_started s"
  "os_sems (upd_mutex i f s) = os_sems s"
  "os_events (upd_mutex i f s) = os_events s"
  "os_eventqs (upd_mutex i f s) = os_eventqs s"
  "os_callouts (upd_mutex i f s) = os_callouts s"
  "cf_funcs (upd_mutex i f s) = cf_funcs s"
  "g_callout_list (upd_mutex i f s) = g_callout_list s"
  "g_os_sanity_check_list (upd_mutex i f s) = g_os_sanity_check_list s"
  by (simp_all add: upd_mutex_def)

lemma upd_event_simps [simp]:
  "os_events (upd_event i f s) x = (if x = i then f (os_events s i) else os_events s x)"
  "os_tasks (upd_event i f s) = os_tasks s"
  "obj_head (upd_event i f s) = obj_head s"
  "g_os_task_list (upd_event i f s) = g_os_task_list s"
  "g_task_id (upd_event i f s) = g_task_id s"
  "g_os_run_list (upd_event i f s) = g_os_run_list s"
  "g_os_sleep_list (upd_event i f s) = g_os_sleep_list s"
  "g_current_task (upd_event i f s) = g_current_task s"
  "g_os_time (upd_event i f s) = g_os_time s"
  "g_os_last_ctx_sw_time (upd_event i f s) = g_os_last_ctx_sw_time s"
  "g_os_started (upd_event i f s) = g_os_started s"
  "os_sems (upd_event i f s) = os_sems s"
  "os_mutexes (upd_event i f s) = os_mutexes s"
  "os_eventqs (upd_event i f s) = os_eventqs s"
  "os_callouts (upd_event i f s) = os_callouts s"
  "cf_funcs (upd_event i f s) = cf_funcs s"
  "g_callout_list (upd_event i f s) = g_callout_list s"
  "g_os_sanity_check_list (upd_event i f s) = g_os_sanity_check_list s"
  by (simp_all add: upd_event_def)

lemma upd_eventq_simps [simp]:
  "os_eventqs (upd_eventq i f s) x = (if x = i then f (os_eventqs s i) else os_eventqs s x)"
  "os_tasks (upd_eventq i f s) = os_tasks s"
  "obj_head (upd_eventq i f s) = obj_head s"
  "g_os_task_list (upd_eventq i f s) = g_os_task_list s"
  "g_task_id (upd_eventq i f s) = g_task_id s"
  "g_os_run_list (upd_eventq i f s) = g_os_run_list s"
  "g_os_sleep_list (upd_eventq i f s) = g_os_sleep_list s"
  "g_current_task (upd_eventq i f s) = g_current_task s"
  "g_os_time (upd_eventq i f s) = g_os_time s"
  "g_os_last_ctx_sw_time (upd_eventq i f s) = g_os_last_ctx_sw_time s"
  "g_os_started (upd_eventq i f s) = g_os_started s"
  "os_sems (upd_eventq i f s) = os_sems s"
  "os_mutexes (upd_eventq i f s) = os_mutexes s"
  "os_events (upd_eventq i f s) = os_events s"
  "os_callouts (upd_eventq i f s) = os_callouts s"
  "cf_funcs (upd_eventq i f s) = cf_funcs s"
  "g_callout_list (upd_eventq i f s) = g_callout_list s"
  "g_os_sanity_check_list (upd_eventq i f s) = g_os_sanity_check_list s"
  by (simp_all add: upd_eventq_def)

lemma upd_callout_simps [simp]:
  "os_callouts (upd_callout i f s) x = (if x = i then f (os_callouts s i) else os_callouts s x)"
  "os_tasks (upd_callout i f s) = os_tasks s"
  "obj_head (upd_callout i f s) = obj_head s"
  "g_os_task_list (upd_callout i f s) = g_os_task_list s"
  "g_task_id (upd_callout i f s) = g_task_id s"
  "g_os_run_list (upd_callout i f s) = g_os_run_list s"
  "g_os_sleep_list (upd_callout i f s) = g_os_sleep_list s"
  "g_current_task (upd_callout i f s) = g_current_task s"
  "g_os_time (upd_callout i f s) = g_os_time s"
  "g_os_last_ctx_sw_time (upd_callout i f s) = g_os_last_ctx_sw_time s"
  "g_os_started (upd_callout i f s) = g_os_started s"
  "os_sems (upd_callout i f s) = os_sems s"
  "os_mutexes (upd_callout i f s) = os_mutexes s"
  "os_events (upd_callout i f s) = os_events s"
  "os_eventqs (upd_callout i f s) = os_eventqs s"
  "cf_funcs (upd_callout i f s) = cf_funcs s"
  "g_callout_list (upd_callout i f s) = g_callout_list s"
  "g_os_sanity_check_list (upd_callout i f s) = g_os_sanity_check_list s"
  by (simp_all add: upd_callout_def)

lemma flag_set_bit:
  "flag_set fl OS_TASK_FLAG_NO_TIMEOUT = bit fl 0"
  "flag_set fl OS_TASK_FLAG_SEM_WAIT = bit fl 1"
  "flag_set fl OS_TASK_FLAG_MUTEX_WAIT = bit fl 2"
  using and_exp_eq_0_iff_not_bit [of fl 0] and_exp_eq_0_iff_not_bit [of fl 1]
    and_exp_eq_0_iff_not_bit [of fl 2]
  by (simp_all add: flag_set_def OS_TASK_FLAG_NO_TIMEOUT_def OS_TASK_FLAG_SEM_WAIT_def
      OS_TASK_FLAG_MUTEX_WAIT_def)

lemma flag_bits:
  "bit OS_TASK_FLAG_NO_TIMEOUT n = (n = 0)"
  "bit OS_TASK_FLAG_SEM_WAIT n = (n = 1)"
  "bit OS_TASK_FLAG_MUTEX_WAIT n = (n = 2)"
  using bit_exp_iff [where 'a = u16, of 0 n] bit_exp_iff [where 'a = u16, of 1 n]
    bit_exp_iff [where 'a = u16, of 2 n]
  by (auto simp: OS_TASK_FLAG_NO_TIMEOUT_def OS_TASK_FLAG_SEM_WAIT_def
      OS_TASK_FLAG_MUTEX_WAIT_def)

lemma flag_set_simps [simp]:
  "flag_set (fl OR OS_TASK_FLAG_NO_TIMEOUT) OS_TASK_FLAG_NO_TIMEOUT"
  "\<not> flag_set (fl AND NOT OS_TASK_FLAG_NO_TIMEOUT) OS_TASK_FLAG_NO_TIMEOUT"
  "flag_set (fl OR OS_TASK_FLAG_SEM_WAIT) OS_TASK_FLAG_NO_TIMEOUT =
     flag_set fl OS_TASK_FLAG_NO_TIMEOUT"
  "flag_set (fl AND NOT OS_TASK_FLAG_SEM_WAIT) OS_TASK_FLAG_NO_TIMEOUT =
     flag_set fl OS_TASK_FLAG_NO_TIMEOUT"
  "flag_set (fl OR OS_TASK_FLAG_MUTEX_WAIT) OS_TASK_FLAG_NO_TIMEOUT =
     flag_set fl OS_TASK_FLAG_NO_TIMEOUT"
  "flag_set (fl AND NOT OS_TASK_FLAG_MUTEX_WAIT) OS_TASK_FLAG_NO_TIMEOUT =
     flag_set fl OS_TASK_FLAG_NO_TIMEOUT"
  "flag_set (fl OR OS_TASK_FLAG_SEM_WAIT) OS_TASK_FLAG_SEM_WAIT"
  "\<not> flag_set (fl AND NOT OS_TASK_FLAG_SEM_WAIT) OS_TASK_FLAG_SEM_WAIT"
  "flag_set (fl OR OS_TASK_FLAG_NO_TIMEOUT) OS_TASK_FLAG_SEM_WAIT =
     flag_set fl OS_TASK_FLAG_SEM_WAIT"
  "flag_set (fl AND NOT OS_TASK_FLAG_NO_TIMEOUT) OS_TASK_FLAG_SEM_WAIT =
     flag_set fl OS_TASK_FLAG_SEM_WAIT"
  "flag_set (fl OR OS_TASK_FLAG_MUTEX_WAIT) OS_TASK_FLAG_SEM_WAIT =
     flag_set fl OS_TASK_FLAG_SEM_WAIT"
  "flag_set (fl AND NOT OS_TASK_FLAG_MUTEX_WAIT) OS_TASK_FLAG_SEM_WAIT =
     flag_set fl OS_TASK_FLAG_SEM_WAIT"
  "flag_set (fl OR OS_TASK_FLAG_MUTEX_WAIT) OS_TASK_FLAG_MUTEX_WAIT"
  "\<not> flag_set (fl AND NOT OS_TASK_FLAG_MUTEX_WAIT) OS_TASK_FLAG_MUTEX_WAIT"
  "flag_set (fl OR OS_TASK_FLAG_NO_TIMEOUT) OS_TASK_FLAG_MUTEX_WAIT =
     flag_set fl OS_TASK_FLAG_MUTEX_WAIT"
  "flag_set (fl AND NOT OS_TASK_FLAG_NO_TIMEOUT) OS_TASK_FLAG_MUTEX_WAIT =
     flag_set fl OS_TASK_FLAG_MUTEX_WAIT"
  "flag_set (fl OR OS_TASK_FLAG_SEM_WAIT) OS_TASK_FLAG_MUTEX_WAIT =
     flag_set fl OS_TASK_FLAG_MUTEX_WAIT"
  "flag_set (fl AND NOT OS_TASK_FLAG_SEM_WAIT) OS_TASK_FLAG_MUTEX_WAIT =
     flag_set fl OS_TASK_FLAG_MUTEX_WAIT"
  by (simp_all add: flag_set_bit flag_bits bit_or_iff bit_and_iff bit_not_iff)

interpretation prio_queue: prio_list "task_prio s" "prio_insert s" for s
  unfolding prio_insert_def by (rule prio_list_insert_before)

end
