(* ===== verification/Os_Sched.thy ===== *)
theory Os_Sched
  imports Os_Kernel
begin

text \<open>
  The scheduler, \<^verbatim>\<open>libs/os/src/os_sched.c\<close>, with the tick counter of \<^verbatim>\<open>os_time.c\<close> and the state
  effect of the simulator's context switch (\<^verbatim>\<open>arch/sim/os_arch_sim.c\<close>). The invariants say that
  every task is on at most one of the two lists, that the lists agree with the task states, that
  the run list is in priority order, the sleep list in wake-up order, and that the wait list of
  an object holds exactly the tasks that point to it. Every operation keeps them, and under them
  no assertion of the scheduler fails.
\<close>

subsection \<open>os_sched.c and os_time.c\<close>

definition os_sched_insert :: "tid \<Rightarrow> os_state \<Rightarrow> (os_error \<times> os_state) option" where
  "os_sched_insert t s =
     (if t_state (os_tasks s t) \<noteq> OS_TASK_READY then Some (OS_EINVAL, s)
      else if t \<in> set (g_os_run_list s) \<or> t \<in> set (g_os_sleep_list s) then None
      else Some (OS_OK, s\<lparr>g_os_run_list := prio_insert s t (g_os_run_list s)\<rparr>))"

definition os_sched_ctx_sw_hook :: "tid \<Rightarrow> os_state \<Rightarrow> os_state option" where
  "os_sched_ctx_sw_hook next_t s =
     (if g_current_task s = Some next_t then Some s
      else case g_current_task s of
        None \<Rightarrow> None
      | Some cur \<Rightarrow>
          let s1 = upd_task next_t (\<lambda>t. t\<lparr>t_ctx_sw_cnt := t_ctx_sw_cnt t + 1\<rparr>) s;
              s2 = upd_task cur (\<lambda>t. t\<lparr>t_run_time :=
                     t_run_time t + (g_os_time s - g_os_last_ctx_sw_time s)\<rparr>) s1
          in Some (s2\<lparr>g_os_last_ctx_sw_time := g_os_time s\<rparr>))"

definition os_sched_get_current_task :: "os_state \<Rightarrow> tid option" where
  "os_sched_get_current_task s = g_current_task s"

definition os_sched_set_current_task :: "tid option \<Rightarrow> os_state \<Rightarrow> os_state" where
  "os_sched_set_current_task t s = s\<lparr>g_current_task := t\<rparr>"

definition os_sched_next_task :: "os_state \<Rightarrow> tid option" where
  "os_sched_next_task s = queue_first (g_os_run_list s)"

definition os_arch_ctx_sw :: "tid \<Rightarrow> os_state \<Rightarrow> os_state option" where
  "os_arch_ctx_sw next_t s = do {
     s1 \<leftarrow> os_sched_ctx_sw_hook next_t s;
     Some (os_sched_set_current_task (Some next_t) s1)
   }"

definition os_arch_ctx_sw_isr :: "tid \<Rightarrow> os_state \<Rightarrow> os_state option" where
  "os_arch_ctx_sw_isr next_t s = do {
     s1 \<leftarrow> os_sched_ctx_sw_hook next_t s;
     Some (os_sched_set_current_task (Some next_t) s1)
   }"

definition os_sched :: "tid option \<Rightarrow> bool \<Rightarrow> os_state \<Rightarrow> os_state option" where
  "os_sched next_t isr s =
     (let nx = (case next_t of None \<Rightarrow> os_sched_next_task s | Some t \<Rightarrow> Some t) in
      if nx \<noteq> g_current_task s then
        (case nx of
           None \<Rightarrow> None
         | Some t \<Rightarrow> if isr then os_arch_ctx_sw_isr t s else os_arch_ctx_sw t s)
      else Some s)"

definition os_time_get :: "os_state \<Rightarrow> u32" where
  "os_time_get s = g_os_time s"

text \<open>The test that ends the search for a task's place in the sleep list.\<close>

definition sleep_break :: "os_state \<Rightarrow> u32 \<Rightarrow> tid \<Rightarrow> bool" where
  "sleep_break s wakeup entry \<longleftrightarrow>
     no_timeout s entry \<or> OS_TIME_TICK_GT (t_next_wakeup (os_tasks s entry)) wakeup"

definition os_sched_sleep :: "tid \<Rightarrow> u32 \<Rightarrow> os_state \<Rightarrow> os_state option" where
  "os_sched_sleep t nticks s = do {
     run \<leftarrow> queue_remove t (g_os_run_list s);
     let s1 = upd_task t (\<lambda>k. k\<lparr>t_state := OS_TASK_SLEEP,
                                t_next_wakeup := os_time_get s + nticks\<rparr>)
                (s\<lparr>g_os_run_list := run\<rparr>);
     Some (if nticks = OS_TIMEOUT_NEVER
       then upd_task t (\<lambda>k. k\<lparr>t_flags := t_flags k OR OS_TASK_FLAG_NO_TIMEOUT\<rparr>)
              (s1\<lparr>g_os_sleep_list := g_os_sleep_list s1 @ [t]\<rparr>)
       else s1\<lparr>g_os_sleep_list :=
              insert_before (sleep_break s1 (t_next_wakeup (os_tasks s1 t))) t
                (g_os_sleep_list s1)\<rparr>)
   }"

definition os_sched_wakeup :: "tid \<Rightarrow> os_state \<Rightarrow> os_state option" where
  "os_sched_wakeup t s = do {
     s1 \<leftarrow> (if t_state (os_tasks s t) = OS_TASK_SLEEP then Some s else None);
     s2 \<leftarrow> (case t_obj (os_tasks s1 t) of
              None \<Rightarrow> Some s1
            | Some ob \<Rightarrow> do {
                ws \<leftarrow> queue_remove t (obj_head s1 ob);
                Some (upd_task t (\<lambda>k. k\<lparr>t_obj := None\<rparr>) (upd_obj_head ob ws s1))
              });
     let s3 = upd_task t (\<lambda>k. k\<lparr>t_state := OS_TASK_READY, t_next_wakeup := 0,
                 t_flags := t_flags k AND NOT OS_TASK_FLAG_NO_TIMEOUT\<rparr>) s2;
     sl \<leftarrow> queue_remove t (g_os_sleep_list s3);
     (_, s4) \<leftarrow> os_sched_insert t (s3\<lparr>g_os_sleep_list := sl\<rparr>);
     Some s4
   }"

text \<open>
  The loop of \<^verbatim>\<open>os_sched_os_timer_exp\<close>. It reads \<^verbatim>\<open>TAILQ_NEXT\<close> before it wakes a task, so it walks
  the sleep list as it was on entry.
\<close>

fun os_sched_os_timer_exp_loop :: "u32 \<Rightarrow> tid list \<Rightarrow> os_state \<Rightarrow> os_state option" where
  "os_sched_os_timer_exp_loop now [] s = Some s"
| "os_sched_os_timer_exp_loop now (t # ts) s =
     (if no_timeout s t then Some s
      else if OS_TIME_TICK_GEQ now (t_next_wakeup (os_tasks s t))
        then Option.bind (os_sched_wakeup t s) (os_sched_os_timer_exp_loop now ts)
      else Some s)"

definition os_sched_os_timer_exp :: "os_state \<Rightarrow> os_state option" where
  "os_sched_os_timer_exp s = os_sched_os_timer_exp_loop (os_time_get s) (g_os_sleep_list s) s"

definition os_sched_resort :: "tid \<Rightarrow> os_state \<Rightarrow> os_state option" where
  "os_sched_resort t s =
     (if t_state (os_tasks s t) = OS_TASK_READY then do {
        run \<leftarrow> queue_remove t (g_os_run_list s);
        (_, s1) \<leftarrow> os_sched_insert t (s\<lparr>g_os_run_list := run\<rparr>);
        Some s1
      } else Some s)"

definition os_time_tick :: "os_state \<Rightarrow> os_state" where
  "os_time_tick s = s\<lparr>g_os_time := g_os_time s + 1\<rparr>"

definition os_time_delay :: "u32 \<Rightarrow> os_state \<Rightarrow> os_state option" where
  "os_time_delay osticks s =
     (if sint osticks > 0 then do {
        t \<leftarrow> os_sched_get_current_task s;
        s1 \<leftarrow> os_sched_sleep t osticks s;
        os_sched None False s1
      } else Some s)"

subsection \<open>Invariants\<close>

definition lists_inv :: "os_state \<Rightarrow> bool" where
  "lists_inv s \<longleftrightarrow> distinct (g_os_run_list s @ g_os_sleep_list s) \<and>
     (\<forall>t \<in> set (g_os_run_list s).
        t_state (os_tasks s t) = OS_TASK_READY \<and> \<not> no_timeout s t) \<and>
     (\<forall>t \<in> set (g_os_sleep_list s). t_state (os_tasks s t) = OS_TASK_SLEEP)"

definition run_sorted :: "os_state \<Rightarrow> bool" where
  "run_sorted s \<longleftrightarrow> sorted_wrt (\<lambda>a b. task_prio s a \<le> task_prio s b) (g_os_run_list s)"

definition obj_inv :: "os_state \<Rightarrow> bool" where
  "obj_inv s \<longleftrightarrow>
     (\<forall>ob. distinct (obj_head s ob) \<and> set (obj_head s ob) \<subseteq> set (g_os_sleep_list s) \<and>
           (\<forall>t. t \<in> set (obj_head s ob) \<longleftrightarrow> t_obj (os_tasks s t) = Some ob))"

text \<open>Ticks until a sleeping task is due.\<close>

definition wake_in :: "os_state \<Rightarrow> tid \<Rightarrow> nat" where
  "wake_in s t = unat (t_next_wakeup (os_tasks s t) - g_os_time s)"

definition sleep_le :: "os_state \<Rightarrow> tid \<Rightarrow> tid \<Rightarrow> bool" where
  "sleep_le s a b \<longleftrightarrow> no_timeout s b \<or> (\<not> no_timeout s a \<and> wake_in s a \<le> wake_in s b)"

definition sleep_inv :: "nat \<Rightarrow> os_state \<Rightarrow> bool" where
  "sleep_inv lo s \<longleftrightarrow> sorted_wrt (sleep_le s) (g_os_sleep_list s) \<and>
     (\<forall>t \<in> set (g_os_sleep_list s). \<not> no_timeout s t \<longrightarrow> lo \<le> wake_in s t \<and> wake_in s t < 2 ^ 31)"

definition sched_inv :: "nat \<Rightarrow> os_state \<Rightarrow> bool" where
  "sched_inv lo s \<longleftrightarrow> lists_inv s \<and> run_sorted s \<and> obj_inv s \<and> sleep_inv lo s"

subsection \<open>The effects of the operations, in closed form\<close>

definition woken :: "tid \<Rightarrow> os_state \<Rightarrow> os_state" where
  "woken t s = s\<lparr>
     os_tasks := (os_tasks s)(t := (os_tasks s t)\<lparr>t_obj := None, t_state := OS_TASK_READY,
       t_next_wakeup := 0, t_flags := t_flags (os_tasks s t) AND NOT OS_TASK_FLAG_NO_TIMEOUT\<rparr>),
     obj_head := (\<lambda>ob. if t_obj (os_tasks s t) = Some ob then remove1 t (obj_head s ob)
                       else obj_head s ob),
     g_os_sleep_list := remove1 t (g_os_sleep_list s),
     g_os_run_list := prio_insert s t (g_os_run_list s)\<rparr>"

definition slept :: "tid \<Rightarrow> u32 \<Rightarrow> os_state \<Rightarrow> os_state" where
  "slept t n s = s\<lparr>
     os_tasks := (os_tasks s)(t := (os_tasks s t)\<lparr>t_state := OS_TASK_SLEEP,
       t_next_wakeup := g_os_time s + n,
       t_flags := (if n = OS_TIMEOUT_NEVER then t_flags (os_tasks s t) OR OS_TASK_FLAG_NO_TIMEOUT
                   else t_flags (os_tasks s t))\<rparr>),
     g_os_run_list := remove1 t (g_os_run_list s),
     g_os_sleep_list := (if n = OS_TIMEOUT_NEVER then g_os_sleep_list s @ [t]
       else insert_before (sleep_break s (g_os_time s + n)) t (g_os_sleep_list s))\<rparr>"

text \<open>The object invariant while a task is already linked to an object but not yet asleep.\<close>

definition obj_pre :: "tid \<Rightarrow> os_state \<Rightarrow> bool" where
  "obj_pre t s \<longleftrightarrow>
     (\<forall>ob. distinct (obj_head s ob) \<and>
           set (obj_head s ob) \<subseteq> insert t (set (g_os_sleep_list s)) \<and>
           (\<forall>x. x \<in> set (obj_head s ob) \<longleftrightarrow> t_obj (os_tasks s x) = Some ob))"

definition switched :: "tid \<Rightarrow> tid \<Rightarrow> os_state \<Rightarrow> os_state" where
  "switched cur nx s =
     (if cur = nx then s
      else s\<lparr>os_tasks := (os_tasks s)(
          nx := (os_tasks s nx)\<lparr>t_ctx_sw_cnt := t_ctx_sw_cnt (os_tasks s nx) + 1\<rparr>,
          cur := (os_tasks s cur)\<lparr>t_run_time := t_run_time (os_tasks s cur) +
            (g_os_time s - g_os_last_ctx_sw_time s)\<rparr>),
        g_os_last_ctx_sw_time := g_os_time s, g_current_task := Some nx\<rparr>)"

text \<open>A priority change followed by \<^verbatim>\<open>os_sched_resort\<close>.\<close>

definition reprio :: "tid \<Rightarrow> u8 \<Rightarrow> os_state \<Rightarrow> os_state" where
  "reprio t p s = (let s1 = upd_task t (\<lambda>k. k\<lparr>t_prio := p\<rparr>) s in
     s1\<lparr>g_os_run_list := (if t \<in> set (g_os_run_list s)
        then prio_insert s1 t (remove1 t (g_os_run_list s)) else g_os_run_list s)\<rparr>)"

text \<open>Fields and priorities that waking a task leaves alone.\<close>

definition same_frame :: "os_state \<Rightarrow> os_state \<Rightarrow> bool" where
  "same_frame s s' \<longleftrightarrow> (\<forall>x. task_prio s' x = task_prio s x) \<and>
     g_os_time s' = g_os_time s \<and> g_current_task s' = g_current_task s \<and>
     g_os_started s' = g_os_started s \<and> os_sems s' = os_sems s \<and> os_mutexes s' = os_mutexes s \<and>
     os_events s' = os_events s \<and> os_eventqs s' = os_eventqs s \<and> os_callouts s' = os_callouts s \<and>
     g_callout_list s' = g_callout_list s"

subsection \<open>Lemmas\<close>

lemma prio_insert_cong:
  "(\<And>x. task_prio s' x = task_prio s x) \<Longrightarrow> prio_insert s' = prio_insert s"
  by (simp add: prio_insert_def fun_eq_iff)

lemma os_sched_wakeup_woken:
  assumes "lists_inv s" "obj_inv s" "t \<in> set (g_os_sleep_list s)"
  shows "os_sched_wakeup t s = Some (woken t s)"
proof -
  have t: "t_state (os_tasks s t) = OS_TASK_SLEEP" "t \<notin> set (g_os_run_list s)"
    "distinct (g_os_sleep_list s)"
    using assms by (auto simp: lists_inv_def)
  show ?thesis
  proof (cases "t_obj (os_tasks s t)")
    case None
    then show ?thesis
      using assms(3) t by (simp add: os_sched_wakeup_def os_sched_insert_def upd_defs woken_def Let_def)
       (rule os_state.equality; auto simp: prio_insert_def fun_eq_iff intro!: insert_before_cong)
  next
    case (Some ob)
    then have "t \<in> set (obj_head s ob)" using assms(2) by (simp add: obj_inv_def)
    with Some show ?thesis
      using assms(3) t by (simp add: os_sched_wakeup_def os_sched_insert_def upd_defs woken_def Let_def)
       (rule os_state.equality; auto simp: prio_insert_def fun_eq_iff intro!: insert_before_cong)
  qed
qed

lemma woken_simps [simp]:
  "g_os_run_list (woken t s) = prio_insert s t (g_os_run_list s)"
  "g_os_sleep_list (woken t s) = remove1 t (g_os_sleep_list s)"
  "task_prio (woken t s) x = task_prio s x"
  "g_os_time (woken t s) = g_os_time s"
  "g_current_task (woken t s) = g_current_task s"
  "g_os_started (woken t s) = g_os_started s"
  "os_sems (woken t s) = os_sems s"
  "os_mutexes (woken t s) = os_mutexes s"
  "os_events (woken t s) = os_events s"
  "os_eventqs (woken t s) = os_eventqs s"
  "os_callouts (woken t s) = os_callouts s"
  "g_callout_list (woken t s) = g_callout_list s"
  "x \<noteq> t \<Longrightarrow> os_tasks (woken t s) x = os_tasks s x"
  "t_state (os_tasks (woken t s) x) = (if x = t then OS_TASK_READY else t_state (os_tasks s x))"
  "t_obj (os_tasks (woken t s) x) = (if x = t then None else t_obj (os_tasks s x))"
  by (simp_all add: woken_def)

lemma obj_head_woken [simp]:
  "obj_head (woken t s) ob =
     (if t_obj (os_tasks s t) = Some ob then remove1 t (obj_head s ob) else obj_head s ob)"
  by (simp add: woken_def)

lemma no_timeout_woken [simp]: "no_timeout (woken t s) x = (x \<noteq> t \<and> no_timeout s x)"
  by (cases "x = t") (simp_all add: no_timeout_def woken_def)

lemma set_prio_insert [simp]: "set (prio_insert s t xs) = insert t (set xs)"
  by (simp add: prio_insert_def)

lemma distinct_prio_insert [simp]: "distinct (prio_insert s t xs) = (t \<notin> set xs \<and> distinct xs)"
  by (simp add: prio_insert_def)

lemma lists_inv_woken:
  "lists_inv s \<Longrightarrow> t \<in> set (g_os_sleep_list s) \<Longrightarrow> lists_inv (woken t s)"
  by (auto simp: lists_inv_def)

lemma run_sorted_woken: "run_sorted s \<Longrightarrow> run_sorted (woken t s)"
  using prio_queue.sorted_ins [of s] by (simp add: run_sorted_def)

lemma obj_inv_woken:
  assumes "lists_inv s" "obj_inv s" shows "obj_inv (woken t s)"
  unfolding obj_inv_def
proof (intro allI conjI)
  fix ob x
  have d: "distinct (g_os_sleep_list s)" "distinct (obj_head s ob)"
    using assms by (simp_all add: lists_inv_def obj_inv_def)
  show "distinct (obj_head (woken t s) ob)" using d by simp
  show "set (obj_head (woken t s) ob) \<subseteq> set (g_os_sleep_list (woken t s))"
    using assms d by (auto simp: obj_inv_def)
  show "x \<in> set (obj_head (woken t s) ob) \<longleftrightarrow> t_obj (os_tasks (woken t s) x) = Some ob"
    using assms d by (cases "x = t") (auto simp: obj_inv_def)
qed

lemma wake_in_woken [simp]: "x \<noteq> t \<Longrightarrow> wake_in (woken t s) x = wake_in s x"
  by (simp add: wake_in_def)

lemma sleep_inv_woken:
  assumes "lists_inv s" "sleep_inv lo s" shows "sleep_inv lo (woken t s)"
proof -
  have d: "distinct (g_os_sleep_list s)" using assms(1) by (simp add: lists_inv_def)
  have "sorted_wrt (sleep_le (woken t s)) (remove1 t (g_os_sleep_list s))"
  proof (rule sorted_wrt_mono_rel)
    show "sorted_wrt (sleep_le s) (remove1 t (g_os_sleep_list s))"
      using assms(2) by (simp add: sleep_inv_def sorted_wrt_remove1)
  qed (use d in \<open>auto simp: sleep_le_def\<close>)
  with assms(2) d show ?thesis by (auto simp: sleep_inv_def)
qed

lemma sched_inv_woken:
  "sched_inv lo s \<Longrightarrow> t \<in> set (g_os_sleep_list s) \<Longrightarrow> sched_inv lo (woken t s)"
  by (simp add: sched_inv_def lists_inv_woken run_sorted_woken obj_inv_woken sleep_inv_woken)

lemma os_sched_sleep_slept:
  assumes "t \<in> set (g_os_run_list s)" "t \<notin> set (g_os_sleep_list s)"
  shows "os_sched_sleep t n s = Some (slept t n s)"
  using assms
  by (simp add: os_sched_sleep_def upd_defs slept_def os_time_get_def Let_def)
    (auto simp: sleep_break_def no_timeout_def split: if_splits
      intro!: insert_before_cong os_state.equality)

lemma slept_simps [simp]:
  "g_os_run_list (slept t n s) = remove1 t (g_os_run_list s)"
  "set (g_os_sleep_list (slept t n s)) = insert t (set (g_os_sleep_list s))"
  "distinct (g_os_sleep_list (slept t n s)) \<longleftrightarrow>
     t \<notin> set (g_os_sleep_list s) \<and> distinct (g_os_sleep_list s)"
  "task_prio (slept t n s) x = task_prio s x"
  "g_os_time (slept t n s) = g_os_time s"
  "g_current_task (slept t n s) = g_current_task s"
  "g_os_started (slept t n s) = g_os_started s"
  "obj_head (slept t n s) = obj_head s"
  "os_sems (slept t n s) = os_sems s"
  "os_mutexes (slept t n s) = os_mutexes s"
  "os_events (slept t n s) = os_events s"
  "os_eventqs (slept t n s) = os_eventqs s"
  "os_callouts (slept t n s) = os_callouts s"
  "g_callout_list (slept t n s) = g_callout_list s"
  "x \<noteq> t \<Longrightarrow> os_tasks (slept t n s) x = os_tasks s x"
  "t_state (os_tasks (slept t n s) x) = (if x = t then OS_TASK_SLEEP else t_state (os_tasks s x))"
  "t_obj (os_tasks (slept t n s) x) = t_obj (os_tasks s x)"
  by (auto simp add: slept_def)

lemma sleep_list_slept:
  "g_os_sleep_list (slept t n s) =
     (if n = OS_TIMEOUT_NEVER then g_os_sleep_list s @ [t]
      else insert_before (sleep_break s (g_os_time s + n)) t (g_os_sleep_list s))"
  by (simp add: slept_def)

lemma no_timeout_slept [simp]:
  "no_timeout (slept t n s) x = (no_timeout s x \<or> (x = t \<and> n = OS_TIMEOUT_NEVER))"
  by (auto simp: no_timeout_def slept_def)

lemma wake_in_slept [simp]: "wake_in (slept t n s) x = (if x = t then unat n else wake_in s x)"
  by (simp add: wake_in_def slept_def)

lemma lists_inv_slept:
  "lists_inv s \<Longrightarrow> t \<in> set (g_os_run_list s) \<Longrightarrow> lists_inv (slept t n s)"
  by (auto simp: lists_inv_def)

lemma run_sorted_slept: "run_sorted s \<Longrightarrow> run_sorted (slept t n s)"
  by (simp add: run_sorted_def sorted_wrt_remove1)

lemma obj_inv_pre: "obj_inv s \<Longrightarrow> obj_pre t s"
  by (auto simp: obj_inv_def obj_pre_def)

lemma obj_inv_slept: "obj_pre t s \<Longrightarrow> obj_inv (slept t n s)"
  by (simp add: obj_pre_def obj_inv_def)

lemma sleep_break_iff:
  assumes "wake_in s y < 2 ^ 31" "unat n < 2 ^ 31"
  shows "sleep_break s (g_os_time s + n) y \<longleftrightarrow> no_timeout s y \<or> unat n < wake_in s y"
  using tick_gt_iff [of "t_next_wakeup (os_tasks s y)" "g_os_time s" "g_os_time s + n"] assms
  by (simp add: sleep_break_def wake_in_def)

lemma sleep_inv_slept:
  assumes "sleep_inv lo s" "lists_inv s" "t \<in> set (g_os_run_list s)"
    and "lo \<le> unat n" "n = OS_TIMEOUT_NEVER \<or> unat n < 2 ^ 31"
  shows "sleep_inv lo (slept t n s)"
proof -
  have t: "t \<notin> set (g_os_sleep_list s)" "\<not> no_timeout s t"
    using assms(2,3) by (auto simp: lists_inv_def)
  have sorted: "sorted_wrt (sleep_le (slept t n s)) (g_os_sleep_list s)"
  proof (rule sorted_wrt_mono_rel)
    show "sorted_wrt (sleep_le s) (g_os_sleep_list s)" using assms(1) by (simp add: sleep_inv_def)
  qed (use t in \<open>auto simp: sleep_le_def\<close>)
  have bound: "wake_in s y < 2 ^ 31" if "y \<in> set (g_os_sleep_list s)" "\<not> no_timeout s y" for y
    using assms(1) that by (simp add: sleep_inv_def)
  have "sorted_wrt (sleep_le (slept t n s)) (g_os_sleep_list (slept t n s))"
  proof (cases "n = OS_TIMEOUT_NEVER")
    case True
    then show ?thesis
      using sorted by (simp add: sleep_list_slept sorted_wrt_append sleep_le_def)
  next
    case False
    with assms(5) have n: "unat n < 2 ^ 31" by simp
    have brk: "sleep_break s (g_os_time s + n) y \<longleftrightarrow> no_timeout s y \<or> unat n < wake_in s y"
      if "y \<in> set (g_os_sleep_list s)" for y
      using sleep_break_iff [OF _ n] bound [OF that] by (auto simp: sleep_break_def)
    have "sorted_wrt (sleep_le (slept t n s))
        (insert_before (sleep_break s (g_os_time s + n)) t (g_os_sleep_list s))"
      using sorted by (rule sorted_wrt_insert_before) 
        (use t False brk in \<open>auto simp: sleep_le_def split: if_splits\<close>)
    with False show ?thesis by (simp add: sleep_list_slept)
  qed
  with assms t show ?thesis by (auto simp: sleep_inv_def)
qed

lemma sched_inv_slept:
  assumes "lists_inv s" "run_sorted s" "obj_pre t s" "sleep_inv lo s" "t \<in> set (g_os_run_list s)"
    and "lo \<le> unat n" "n = OS_TIMEOUT_NEVER \<or> unat n < 2 ^ 31"
  shows "sched_inv lo (slept t n s)"
  using assms
  by (simp add: sched_inv_def lists_inv_slept run_sorted_slept obj_inv_slept sleep_inv_slept)

lemma os_sched_switched:
  assumes "g_current_task s = Some cur"
    and "(case next_t of None \<Rightarrow> os_sched_next_task s | Some t \<Rightarrow> Some t) = Some nx"
  shows "os_sched next_t isr s = Some (switched cur nx s)"
  using assms
  by (auto simp: os_sched_def Let_def os_arch_ctx_sw_def os_arch_ctx_sw_isr_def switched_def
      os_sched_ctx_sw_hook_def os_sched_set_current_task_def upd_defs)

lemma switched_simps [simp]:
  "g_os_run_list (switched cur nx s) = g_os_run_list s"
  "g_os_sleep_list (switched cur nx s) = g_os_sleep_list s"
  "g_os_time (switched cur nx s) = g_os_time s"
  "g_os_started (switched cur nx s) = g_os_started s"
  "obj_head (switched cur nx s) = obj_head s"
  "os_sems (switched cur nx s) = os_sems s"
  "os_mutexes (switched cur nx s) = os_mutexes s"
  "os_events (switched cur nx s) = os_events s"
  "os_eventqs (switched cur nx s) = os_eventqs s"
  "os_callouts (switched cur nx s) = os_callouts s"
  "g_callout_list (switched cur nx s) = g_callout_list s"
  "task_prio (switched cur nx s) x = task_prio s x"
  "t_state (os_tasks (switched cur nx s) x) = t_state (os_tasks s x)"
  "t_flags (os_tasks (switched cur nx s) x) = t_flags (os_tasks s x)"
  "t_obj (os_tasks (switched cur nx s) x) = t_obj (os_tasks s x)"
  "t_next_wakeup (os_tasks (switched cur nx s) x) = t_next_wakeup (os_tasks s x)"
  "no_timeout (switched cur nx s) x = no_timeout s x"
  "wake_in (switched cur nx s) x = wake_in s x"
  by (auto simp: switched_def no_timeout_def wake_in_def)

lemma current_switched [simp]:
  "g_current_task s = Some cur \<Longrightarrow> g_current_task (switched cur nx s) = Some nx"
  by (simp add: switched_def)

text \<open>The invariant reads the two lists, the wait lists, the clock and five fields of a task.\<close>

lemma sched_inv_cong:
  assumes "g_os_run_list s' = g_os_run_list s" "g_os_sleep_list s' = g_os_sleep_list s"
    "obj_head s' = obj_head s" "g_os_time s' = g_os_time s"
    and "\<And>x. t_state (os_tasks s' x) = t_state (os_tasks s x)"
    "\<And>x. task_prio s' x = task_prio s x" "\<And>x. t_obj (os_tasks s' x) = t_obj (os_tasks s x)"
    "\<And>x. t_next_wakeup (os_tasks s' x) = t_next_wakeup (os_tasks s x)"
    "\<And>x. no_timeout s' x = no_timeout s x"
  shows "sched_inv lo s' = sched_inv lo s"
proof -
  have "wake_in s' = wake_in s" using assms by (simp add: wake_in_def fun_eq_iff)
  moreover from this have "sleep_le s' = sleep_le s"
    using assms by (simp add: sleep_le_def fun_eq_iff)
  ultimately show ?thesis
    using assms by (simp add: sched_inv_def lists_inv_def run_sorted_def obj_inv_def sleep_inv_def)
qed

lemma sched_inv_switched [simp]: "sched_inv lo (switched cur nx s) = sched_inv lo s"
  by (rule sched_inv_cong) simp_all

lemma os_sched_resort_reprio:
  assumes "lists_inv s" "t \<in> set (g_os_run_list s) \<union> set (g_os_sleep_list s)"
  shows "os_sched_resort t (upd_task t (\<lambda>k. k\<lparr>t_prio := p\<rparr>) s) = Some (reprio t p s)"
  using assms
  by (auto simp: os_sched_resort_def os_sched_insert_def reprio_def upd_defs lists_inv_def Let_def
      prio_insert_def intro!: insert_before_cong os_state.equality)

lemma reprio_simps [simp]:
  "set (g_os_run_list (reprio t p s)) = set (g_os_run_list s)"
  "distinct (g_os_run_list s) \<Longrightarrow> distinct (g_os_run_list (reprio t p s))"
  "g_os_sleep_list (reprio t p s) = g_os_sleep_list s"
  "g_os_time (reprio t p s) = g_os_time s"
  "g_current_task (reprio t p s) = g_current_task s"
  "g_os_started (reprio t p s) = g_os_started s"
  "obj_head (reprio t p s) = obj_head s"
  "os_sems (reprio t p s) = os_sems s"
  "os_mutexes (reprio t p s) = os_mutexes s"
  "os_events (reprio t p s) = os_events s"
  "os_eventqs (reprio t p s) = os_eventqs s"
  "os_callouts (reprio t p s) = os_callouts s"
  "g_callout_list (reprio t p s) = g_callout_list s"
  "task_prio (reprio t p s) x = (if x = t then p else task_prio s x)"
  "t_state (os_tasks (reprio t p s) x) = t_state (os_tasks s x)"
  "t_flags (os_tasks (reprio t p s) x) = t_flags (os_tasks s x)"
  "t_obj (os_tasks (reprio t p s) x) = t_obj (os_tasks s x)"
  "t_next_wakeup (os_tasks (reprio t p s) x) = t_next_wakeup (os_tasks s x)"
  "no_timeout (reprio t p s) x = no_timeout s x"
  "wake_in (reprio t p s) x = wake_in s x"
  by (auto simp: reprio_def upd_defs no_timeout_def wake_in_def Let_def
      dest: notin_set_remove1 in_set_remove1 [THEN iffD2, rotated] set_remove1_subset [THEN subsetD])

lemma run_list_reprio:
  "g_os_run_list (reprio t p s) = (if t \<in> set (g_os_run_list s)
     then prio_insert (upd_task t (\<lambda>k. k\<lparr>t_prio := p\<rparr>) s) t (remove1 t (g_os_run_list s))
     else g_os_run_list s)"
  by (simp add: reprio_def Let_def upd_defs)

lemma run_sorted_reprio:
  assumes "run_sorted s" "distinct (g_os_run_list s)" shows "run_sorted (reprio t p s)"
proof -
  let ?s1 = "upd_task t (\<lambda>k. k\<lparr>t_prio := p\<rparr>) s"
  let ?le = "\<lambda>a b. task_prio ?s1 a \<le> task_prio ?s1 b"
  have le: "(\<lambda>a b. task_prio (reprio t p s) a \<le> task_prio (reprio t p s) b) = ?le"
    by (simp add: upd_defs fun_eq_iff)
  have "sorted_wrt ?le (remove1 t (g_os_run_list s))"
  proof (rule sorted_wrt_mono_rel)
    show "sorted_wrt (\<lambda>a b. task_prio s a \<le> task_prio s b) (remove1 t (g_os_run_list s))"
      using assms(1) by (simp add: run_sorted_def sorted_wrt_remove1)
  qed (use assms(2) in \<open>auto simp: upd_defs\<close>)
  then have "sorted_wrt ?le (g_os_run_list (reprio t p s))"
    using prio_queue.sorted_ins [of ?s1]
    by (cases "t \<in> set (g_os_run_list s)") (simp_all add: run_list_reprio remove1_idem)
  then show ?thesis unfolding run_sorted_def le .
qed

lemma sched_inv_reprio:
  assumes "sched_inv lo s" shows "sched_inv lo (reprio t p s)"
proof -
  have "sleep_le (reprio t p s) = sleep_le s" by (simp add: sleep_le_def fun_eq_iff)
  then have "sleep_inv lo (reprio t p s)" using assms by (simp add: sched_inv_def sleep_inv_def)
  moreover have "lists_inv (reprio t p s)" "obj_inv (reprio t p s)"
    using assms by (simp_all add: sched_inv_def lists_inv_def obj_inv_def)
  moreover have "run_sorted (reprio t p s)"
    using assms by (intro run_sorted_reprio) (simp_all add: sched_inv_def lists_inv_def)
  ultimately show ?thesis by (simp add: sched_inv_def)
qed

lemma same_frame_refl [simp]: "same_frame s s"
  by (simp add: same_frame_def)

lemma same_frame_trans: "same_frame s1 s2 \<Longrightarrow> same_frame s2 s3 \<Longrightarrow> same_frame s1 s3"
  by (simp add: same_frame_def)

lemma same_frame_woken [simp]: "same_frame s (woken t s)"
  by (simp add: same_frame_def)

lemma sleep_inv_first_late:
  assumes "sleep_inv 0 s" "g_os_sleep_list s = t # ts" "no_timeout s t \<or> wake_in s t \<noteq> 0"
  shows "sleep_inv 1 s" and "\<forall>x \<in> set (t # ts). no_timeout s x \<or> wake_in s x \<noteq> 0"
  using assms by (auto simp: sleep_inv_def sleep_le_def)

lemma timer_exp_loop:
  assumes "sched_inv 0 s" "g_os_sleep_list s = ts"
  shows "\<exists>s'. os_sched_os_timer_exp_loop (g_os_time s) ts s = Some s' \<and> sched_inv 1 s' \<and>
     g_os_sleep_list s' = filter (\<lambda>t. no_timeout s t \<or> wake_in s t \<noteq> 0) ts \<and>
     set (g_os_run_list s') =
       set (g_os_run_list s) \<union> {t \<in> set ts. \<not> no_timeout s t \<and> wake_in s t = 0} \<and>
     same_frame s s'"
  using assms
proof (induction ts arbitrary: s)
  case Nil
  then show ?case by (auto simp: sched_inv_def sleep_inv_def)
next
  case (Cons t ts)
  have t: "t \<in> set (g_os_sleep_list s)" "t \<notin> set ts"
    using Cons.prems by (auto simp: sched_inv_def lists_inv_def)
  show ?case
  proof (cases "no_timeout s t \<or> wake_in s t \<noteq> 0")
    case True
    from Cons.prems have "sleep_inv 0 s" by (simp add: sched_inv_def)
    from sleep_inv_first_late [OF this Cons.prems(2) True]
    have late: "sched_inv 1 s" "\<forall>x \<in> set (t # ts). no_timeout s x \<or> wake_in s x \<noteq> 0"
      using Cons.prems(1) by (auto simp: sched_inv_def)
    have "no_timeout s t \<or> \<not> OS_TIME_TICK_GEQ (g_os_time s) (t_next_wakeup (os_tasks s t))"
      using True t Cons.prems(1) tick_geq_now_iff
      by (auto simp: sched_inv_def sleep_inv_def wake_in_def)
    then have "os_sched_os_timer_exp_loop (g_os_time s) (t # ts) s = Some s" by auto
    with late Cons.prems(2) show ?thesis by (auto simp: filter_id_conv)
  next
    case False
    then have due: "OS_TIME_TICK_GEQ (g_os_time s) (t_next_wakeup (os_tasks s t))"
      using tick_geq_now_iff by (simp add: wake_in_def)
    let ?w = "woken t s"
    have w: "sched_inv 0 ?w" "g_os_sleep_list ?w = ts"
      using Cons.prems t sched_inv_woken by auto
    have step: "os_sched_wakeup t s = Some ?w"
      using Cons.prems(1) t by (intro os_sched_wakeup_woken) (simp_all add: sched_inv_def)
    have same: "no_timeout ?w x = no_timeout s x" "wake_in ?w x = wake_in s x" if "x \<in> set ts" for x
    proof -
      have "x \<noteq> t" using that t by blast
      then show "no_timeout ?w x = no_timeout s x" "wake_in ?w x = wake_in s x" by simp_all
    qed
    from Cons.IH [OF w] obtain s' where s':
      "os_sched_os_timer_exp_loop (g_os_time s) ts ?w = Some s'" "sched_inv 1 s'"
      "g_os_sleep_list s' = filter (\<lambda>t. no_timeout ?w t \<or> wake_in ?w t \<noteq> 0) ts"
      "set (g_os_run_list s') =
         set (g_os_run_list ?w) \<union> {t \<in> set ts. \<not> no_timeout ?w t \<and> wake_in ?w t = 0}"
      "same_frame ?w s'"
      by auto
    have "g_os_sleep_list s' = filter (\<lambda>t. no_timeout s t \<or> wake_in s t \<noteq> 0) (t # ts)"
      using s'(3) False same by (auto intro: filter_cong)
    moreover have "set (g_os_run_list s') =
        set (g_os_run_list s) \<union> {x \<in> set (t # ts). \<not> no_timeout s x \<and> wake_in s x = 0}"
      using s'(4) False same by auto
    moreover have "same_frame s s'" using s'(5) same_frame_trans same_frame_woken by blast
    ultimately show ?thesis using s'(1,2) step due False by auto
  qed
qed

lemma sched_inv_tick:
  assumes "sched_inv 1 s" shows "sched_inv 0 (os_time_tick s)"
proof -
  have wake: "wake_in (os_time_tick s) t = wake_in s t - 1" if "0 < wake_in s t" for t
  proof -
    have "t_next_wakeup (os_tasks s t) - g_os_time s \<noteq> 0"
      using that by (auto simp: wake_in_def)
    then show ?thesis
      by (simp add: wake_in_def os_time_tick_def diff_diff_eq [symmetric] unat_minus_one)
  qed
  have no [simp]: "no_timeout (os_time_tick s) t = no_timeout s t" for t
    by (simp add: no_timeout_def os_time_tick_def)
  have sel [simp]: "g_os_sleep_list (os_time_tick s) = g_os_sleep_list s"
    by (simp add: os_time_tick_def)
  have "sorted_wrt (sleep_le (os_time_tick s)) (g_os_sleep_list s)"
  proof (rule sorted_wrt_mono_rel)
    show "sorted_wrt (sleep_le s) (g_os_sleep_list s)"
      using assms by (simp add: sched_inv_def sleep_inv_def)
    fix a b assume "a \<in> set (g_os_sleep_list s)" "b \<in> set (g_os_sleep_list s)" "sleep_le s a b"
    then show "sleep_le (os_time_tick s) a b"
      using assms by (auto simp: sched_inv_def sleep_inv_def sleep_le_def wake)
  qed
  moreover have "wake_in (os_time_tick s) t < 2 ^ 31"
    if "t \<in> set (g_os_sleep_list s)" "\<not> no_timeout s t" for t
  proof -
    have "0 < wake_in s t" "wake_in s t < 2 ^ 31"
      using assms that by (auto simp: sched_inv_def sleep_inv_def Suc_le_eq)
    then show ?thesis by (simp add: wake)
  qed
  ultimately have "sleep_inv 0 (os_time_tick s)" by (simp add: sleep_inv_def)
  moreover have "lists_inv (os_time_tick s)" "run_sorted (os_time_tick s)" "obj_inv (os_time_tick s)"
    using assms by (simp_all add: sched_inv_def lists_inv_def run_sorted_def obj_inv_def os_time_tick_def
      no_timeout_def)
  ultimately show ?thesis by (simp add: sched_inv_def)
qed

end
