(* ===== verification/Os_Wait.thy ===== *)
theory Os_Wait
  imports Os_Sched
begin

text \<open>
  What the blocking services of the kernel share: the invariant of a started system between two
  kernel calls, the state after a task has queued itself on an object and gone to sleep
  (\<^verbatim>\<open>os_sem_pend\<close>, \<^verbatim>\<open>os_mutex_pend\<close>), and the state after a sleeping task has been woken and the
  scheduler has run. A small concrete system serves the witnesses of the component theories.
\<close>

subsection \<open>Invariant and effects\<close>

text \<open>
  The state between two kernel calls of a started system: the current task is the head of the
  run list, so no ready task has a higher priority, and the idle task is ready.
\<close>

definition os_inv :: "tid \<Rightarrow> os_state \<Rightarrow> bool" where
  "os_inv idle s \<longleftrightarrow> sched_inv 1 s \<and> g_os_started s \<and> idle \<in> set (g_os_run_list s) \<and>
     g_current_task s = queue_first (g_os_run_list s)"

text \<open>A task entered into the wait list of an object, just before it goes to sleep.\<close>

definition linked :: "os_task_obj \<Rightarrow> u16 \<Rightarrow> tid \<Rightarrow> os_state \<Rightarrow> os_state" where
  "linked ob f c s =
     upd_obj_head ob (prio_insert s c (obj_head s ob))
       (upd_task c (\<lambda>k. k\<lparr>t_obj := Some ob, t_flags := t_flags k OR f\<rparr>) s)"

text \<open>Timeouts the tick comparisons can handle: forever, or less than half the counter range.\<close>

definition timeout_ok :: "u32 \<Rightarrow> bool" where
  "timeout_ok n \<longleftrightarrow> n = OS_TIMEOUT_NEVER \<or> (0 < n \<and> n < 2 ^ 31)"

definition blocked :: "os_task_obj \<Rightarrow> u16 \<Rightarrow> u32 \<Rightarrow> tid \<Rightarrow> os_state \<Rightarrow> os_state" where
  "blocked ob f n c s = (let s2 = slept c n (linked ob f c s) in
     switched c (hd (g_os_run_list s2)) s2)"

definition live :: "os_state \<Rightarrow> tid \<Rightarrow> bool" where
  "live s t \<longleftrightarrow> t \<in> set (g_os_run_list s) \<or> t \<in> set (g_os_sleep_list s)"

text \<open>A task that sleeps without a timeout and waits for no semaphore or mutex.\<close>

definition deep :: "os_state \<Rightarrow> tid \<Rightarrow> bool" where
  "deep s t \<longleftrightarrow> t \<in> set (g_os_sleep_list s) \<and> no_timeout s t \<and> t_obj (os_tasks s t) = None"

text \<open>
  What the calls on semaphores and mutexes leave alone: which tasks exist, the tasks asleep for
  another reason, events, callouts and the clock; only the tasks in \<open>A\<close> may join a wait list.
\<close>

definition task_frame :: "tid set \<Rightarrow> os_state \<Rightarrow> os_state \<Rightarrow> bool" where
  "task_frame A s s' \<longleftrightarrow> (\<forall>t. live s' t = live s t) \<and> (\<forall>t. deep s t \<longrightarrow> deep s' t) \<and>
     (\<forall>t. t \<notin> A \<longrightarrow> t_obj (os_tasks s' t) = None \<or>
                   t_obj (os_tasks s' t) = t_obj (os_tasks s t)) \<and>
     os_events s' = os_events s \<and> os_eventqs s' = os_eventqs s \<and>
     os_callouts s' = os_callouts s \<and> g_callout_list s' = g_callout_list s \<and>
     g_os_time s' = g_os_time s"

subsection \<open>A concrete system\<close>

text \<open>
  Three ready tasks: number 0 is the idle task at priority 255, numbers 1 and 2 have priorities
  10 and 20, and task 1 runs.
\<close>

definition sample_sanity :: os_sanity_check where
  "sample_sanity = \<lparr>sc_checkin_last = 0, sc_checkin_itvl = 0, sc_func = None, sc_arg = 0\<rparr>"

definition sample_task :: "u8 \<Rightarrow> os_task" where
  "sample_task p = \<lparr>t_stack = [], t_stacksize = 0, t_flags = 0, t_taskid = 0, t_prio = p,
     t_state = OS_TASK_READY, t_name = [], t_func = 0, t_arg = 0, t_obj = None,
     t_sanity_check = sample_sanity, t_next_wakeup = 0, t_run_time = 0, t_ctx_sw_cnt = 0\<rparr>"

definition sample_os :: os_state where
  "sample_os = \<lparr>
     os_tasks = (\<lambda>t. sample_task (if t = 1 then 10 else if t = 2 then 20 else 255)),
     obj_head = (\<lambda>_. []), g_os_task_list = [0, 1, 2], g_task_id = 3,
     g_os_run_list = [1, 2, 0], g_os_sleep_list = [], g_current_task = Some 1,
     g_os_time = 0, g_os_last_ctx_sw_time = 0, g_os_started = True,
     os_sems = (\<lambda>_. \<lparr>sem_tokens = 0\<rparr>),
     os_mutexes = (\<lambda>_. \<lparr>mu_prio = 0, mu_level = 0, mu_owner = None\<rparr>),
     os_events = (\<lambda>_. \<lparr>ev_queued = 0, ev_type = 0, ev_arg = 0\<rparr>),
     os_eventqs = (\<lambda>_. \<lparr>evq_task = None, evq_list = []\<rparr>),
     os_callouts = (\<lambda>c. \<lparr>c_ev = c, c_evq = Some 0, c_ticks = 0, c_linked = False\<rparr>),
     cf_funcs = (\<lambda>_. 0), g_callout_list = [], g_os_sanity_check_list = []\<rparr>"

subsection \<open>Lemmas\<close>

lemma os_inv_current:
  assumes "os_inv idle s"
  obtains c where "g_current_task s = Some c" "c \<in> set (g_os_run_list s)"
    "c = hd (g_os_run_list s)" "c \<notin> set (g_os_sleep_list s)"
  using assms
  by (cases "g_os_run_list s") (auto simp: os_inv_def sched_inv_def lists_inv_def)

lemma os_inv_sched: "os_inv idle s \<Longrightarrow> sched_inv 1 s"
  by (simp add: os_inv_def)

lemma os_inv_started: "os_inv idle s \<Longrightarrow> g_os_started s"
  by (simp add: os_inv_def)

lemma os_inv_idle: "os_inv idle s \<Longrightarrow> idle \<in> set (g_os_run_list s)"
  by (simp add: os_inv_def)

lemma os_inv_hd:
  assumes "os_inv idle s" "g_current_task s = Some c"
  shows "c = hd (g_os_run_list s)" "c \<in> set (g_os_run_list s)" "c \<notin> set (g_os_sleep_list s)"
    "g_os_run_list s \<noteq> []"
  using assms by (auto elim: os_inv_current)

lemma os_inv_highest:
  assumes "os_inv idle s" "g_current_task s = Some c" "t \<in> set (g_os_run_list s)"
  shows "task_prio s c \<le> task_prio s t"
  using assms(1,3) prio_queue.hd_min [of s "g_os_run_list s" t] os_inv_hd(1) [OF assms(1,2)]
  by (simp add: os_inv_def sched_inv_def run_sorted_def)

lemma os_inv_cong:
  assumes "sched_inv 1 s' = sched_inv 1 s" "g_os_run_list s' = g_os_run_list s"
    "g_current_task s' = g_current_task s" "g_os_started s' = g_os_started s"
  shows "os_inv idle s' = os_inv idle s"
  using assms by (simp add: os_inv_def)

lemma sched_inv_flags:
  assumes "\<And>fl. flag_set (f fl) OS_TASK_FLAG_NO_TIMEOUT = flag_set fl OS_TASK_FLAG_NO_TIMEOUT"
  shows "sched_inv lo (upd_task t (\<lambda>k. k\<lparr>t_flags := f (t_flags k)\<rparr>) s) = sched_inv lo s"
  by (rule sched_inv_cong) (use assms in \<open>auto simp: upd_defs no_timeout_def\<close>)

lemma os_inv_flags:
  assumes "\<And>fl. flag_set (f fl) OS_TASK_FLAG_NO_TIMEOUT = flag_set fl OS_TASK_FLAG_NO_TIMEOUT"
  shows "os_inv idle (upd_task t (\<lambda>k. k\<lparr>t_flags := f (t_flags k)\<rparr>) s) = os_inv idle s"
  by (rule os_inv_cong) (simp_all add: sched_inv_flags assms)

lemmas inv_flag_ops [simp] =
  sched_inv_flags [of "\<lambda>fl. fl AND NOT OS_TASK_FLAG_SEM_WAIT", simplified]
  sched_inv_flags [of "\<lambda>fl. fl AND NOT OS_TASK_FLAG_MUTEX_WAIT", simplified]
  os_inv_flags [of "\<lambda>fl. fl AND NOT OS_TASK_FLAG_SEM_WAIT", simplified]
  os_inv_flags [of "\<lambda>fl. fl AND NOT OS_TASK_FLAG_MUTEX_WAIT", simplified]

lemma sched_inv_upd_objs [simp]:
  "sched_inv lo (upd_sem i f s) = sched_inv lo s"
  "sched_inv lo (upd_mutex i g s) = sched_inv lo s"
  "sched_inv lo (upd_event e ge s) = sched_inv lo s"
  "sched_inv lo (upd_eventq q gq s) = sched_inv lo s"
  "sched_inv lo (upd_callout c gc s) = sched_inv lo s"
  "sched_inv lo (s\<lparr>g_callout_list := cs\<rparr>) = sched_inv lo s"
  by (rule sched_inv_cong; simp add: no_timeout_def)+

lemma os_inv_upd_objs [simp]:
  "os_inv idle (upd_sem i f s) = os_inv idle s"
  "os_inv idle (upd_mutex i g s) = os_inv idle s"
  "os_inv idle (upd_event e ge s) = os_inv idle s"
  "os_inv idle (upd_eventq q gq s) = os_inv idle s"
  "os_inv idle (upd_callout c gc s) = os_inv idle s"
  "os_inv idle (s\<lparr>g_callout_list := cs\<rparr>) = os_inv idle s"
  by (rule os_inv_cong; simp)+

lemma waiter_asleep: "sched_inv lo s \<Longrightarrow> t \<in> set (obj_head s ob) \<Longrightarrow> t \<in> set (g_os_sleep_list s)"
  by (auto simp: sched_inv_def obj_inv_def)

lemma waiter_obj: "sched_inv lo s \<Longrightarrow> t \<in> set (obj_head s ob) \<longleftrightarrow> t_obj (os_tasks s t) = Some ob"
  by (simp add: sched_inv_def obj_inv_def)

lemma obj_inv_not_asleep:
  assumes "obj_inv s" "c \<notin> set (g_os_sleep_list s)"
  shows "t_obj (os_tasks s c) = None" "c \<notin> set (obj_head s ob)"
proof -
  show "c \<notin> set (obj_head s ob)" using assms by (auto simp: obj_inv_def)
  show "t_obj (os_tasks s c) = None"
    using assms by (cases "t_obj (os_tasks s c)") (auto simp: obj_inv_def)
qed

lemma linked_simps [simp]:
  "g_os_run_list (linked ob f c s) = g_os_run_list s"
  "g_os_sleep_list (linked ob f c s) = g_os_sleep_list s"
  "g_os_time (linked ob f c s) = g_os_time s"
  "g_os_started (linked ob f c s) = g_os_started s"
  "g_current_task (linked ob f c s) = g_current_task s"
  "os_sems (linked ob f c s) = os_sems s"
  "os_mutexes (linked ob f c s) = os_mutexes s"
  "os_events (linked ob f c s) = os_events s"
  "os_eventqs (linked ob f c s) = os_eventqs s"
  "os_callouts (linked ob f c s) = os_callouts s"
  "g_callout_list (linked ob f c s) = g_callout_list s"
  "task_prio (linked ob f c s) x = task_prio s x"
  "t_state (os_tasks (linked ob f c s) x) = t_state (os_tasks s x)"
  "t_obj (os_tasks (linked ob f c s) x) = (if x = c then Some ob else t_obj (os_tasks s x))"
  "obj_head (linked ob f c s) ob' =
     (if ob' = ob then prio_insert s c (obj_head s ob) else obj_head s ob')"
  "wake_in (linked ob f c s) x = wake_in s x"
  by (auto simp: linked_def upd_defs wake_in_def)

lemma linked_inv:
  assumes inv: "sched_inv lo s" and c: "c \<in> set (g_os_run_list s)"
    and f: "f = OS_TASK_FLAG_SEM_WAIT \<or> f = OS_TASK_FLAG_MUTEX_WAIT"
  shows "lists_inv (linked ob f c s)" "run_sorted (linked ob f c s)" "obj_pre c (linked ob f c s)"
    "sleep_inv lo (linked ob f c s)"
proof -
  have no [simp]: "no_timeout (linked ob f c s) x = no_timeout s x" for x
    using f by (auto simp: no_timeout_def linked_def upd_defs)
  have "sleep_le (linked ob f c s) = sleep_le s" by (simp add: sleep_le_def fun_eq_iff)
  then show "sleep_inv lo (linked ob f c s)" using inv by (simp add: sched_inv_def sleep_inv_def)
  show "lists_inv (linked ob f c s)" "run_sorted (linked ob f c s)"
    using inv by (simp_all add: sched_inv_def lists_inv_def run_sorted_def)
  have "c \<notin> set (g_os_sleep_list s)" using inv c by (auto simp: sched_inv_def lists_inv_def)
  with inv have "t_obj (os_tasks s c) = None" "\<And>ob. c \<notin> set (obj_head s ob)"
    using obj_inv_not_asleep [of s c] by (auto simp: sched_inv_def)
  with inv show "obj_pre c (linked ob f c s)"
    by (auto simp: sched_inv_def obj_inv_def obj_pre_def)
qed

lemma timeout_ok_slept:
  "timeout_ok n \<Longrightarrow> 1 \<le> unat n \<and> (n = OS_TIMEOUT_NEVER \<or> unat n < 2 ^ 31)"
  by (auto simp: timeout_ok_def OS_TIMEOUT_NEVER_def word_less_nat_alt Suc_le_eq)

lemma os_inv_switchedI:
  assumes "sched_inv 1 s" "g_os_started s" "idle \<in> set (g_os_run_list s)"
    and "g_current_task s = Some c" "nx = hd (g_os_run_list s)"
  shows "os_inv idle (switched c nx s)"
  using assms by (cases "g_os_run_list s") (auto simp: os_inv_def)

lemma os_inv_blocked:
  assumes inv: "os_inv idle s" and c: "g_current_task s = Some c" "c \<noteq> idle"
    and n: "timeout_ok n" and f: "f = OS_TASK_FLAG_SEM_WAIT \<or> f = OS_TASK_FLAG_MUTEX_WAIT"
  shows "os_inv idle (blocked ob f n c s)"
proof -
  have run: "c \<in> set (g_os_run_list s)" using inv c(1) by (auto elim: os_inv_current)
  have idle: "idle \<in> set (remove1 c (g_os_run_list s))"
    using inv c(2) by (auto simp: os_inv_def)
  have "sched_inv 1 (slept c n (linked ob f c s))"
    using linked_inv [OF os_inv_sched [OF inv] run f] run timeout_ok_slept [OF n]
    by (intro sched_inv_slept) auto
  then show ?thesis
    unfolding blocked_def Let_def using inv c idle
    by (intro os_inv_switchedI) (auto simp: os_inv_def)
qed

text \<open>The two scheduler calls that end every blocking service.\<close>

lemma block_steps:
  assumes inv: "os_inv idle s" and c: "g_current_task s = Some c" "c \<noteq> idle"
  shows "os_sched_sleep c n (linked ob f c s) = Some (slept c n (linked ob f c s))"
    and "os_sched None False (slept c n (linked ob f c s)) = Some (blocked ob f n c s)"
proof -
  let ?s2 = "slept c n (linked ob f c s)"
  show "os_sched_sleep c n (linked ob f c s) = Some ?s2"
    using os_inv_hd [OF inv c(1)] by (intro os_sched_sleep_slept) simp_all
  have "idle \<in> set (g_os_run_list ?s2)" using os_inv_idle [OF inv] c(2) by simp
  then have "os_sched_next_task ?s2 = Some (hd (g_os_run_list ?s2))"
    by (cases "g_os_run_list ?s2") (auto simp: os_sched_next_task_def)
  then show "os_sched None False ?s2 = Some (blocked ob f n c s)"
    using os_sched_switched [of ?s2 c None] c(1) by (simp add: blocked_def Let_def)
qed

lemma blocked_simps:
  assumes inv: "os_inv idle s" and c: "g_current_task s = Some c" "c \<noteq> idle"
  shows "obj_head (blocked ob f n c s) ob' =
      (if ob' = ob then prio_insert s c (obj_head s ob) else obj_head s ob')"
    "os_sems (blocked ob f n c s) = os_sems s"
    "os_mutexes (blocked ob f n c s) = os_mutexes s"
    "task_prio (blocked ob f n c s) x = task_prio s x"
    "g_os_run_list (blocked ob f n c s) = remove1 c (g_os_run_list s)"
    "g_current_task (blocked ob f n c s) = Some (hd (remove1 c (g_os_run_list s)))"
    "g_current_task (blocked ob f n c s) \<noteq> Some c"
    "c \<in> set (g_os_sleep_list (blocked ob f n c s))"
    "f = OS_TASK_FLAG_SEM_WAIT \<or> f = OS_TASK_FLAG_MUTEX_WAIT \<Longrightarrow>
     flag_set (t_flags (os_tasks (blocked ob f n c s) c)) f"
proof -
  have run: "distinct (g_os_run_list s)" "idle \<in> set (remove1 c (g_os_run_list s))"
    using inv c by (auto simp: os_inv_def sched_inv_def lists_inv_def)
  then have "hd (remove1 c (g_os_run_list s)) \<in> set (remove1 c (g_os_run_list s))"
    by (cases "remove1 c (g_os_run_list s)") auto
  with run(1) have ne: "hd (remove1 c (g_os_run_list s)) \<noteq> c" by auto
  then show "g_current_task (blocked ob f n c s) \<noteq> Some c"
    "g_current_task (blocked ob f n c s) = Some (hd (remove1 c (g_os_run_list s)))"
    using c by (simp_all add: blocked_def Let_def)
  show "f = OS_TASK_FLAG_SEM_WAIT \<or> f = OS_TASK_FLAG_MUTEX_WAIT \<Longrightarrow>
     flag_set (t_flags (os_tasks (blocked ob f n c s) c)) f"
    using ne by (auto simp: blocked_def Let_def slept_def linked_def)
qed (simp_all add: blocked_def Let_def)

text \<open>Waking a task and switching to it when it has become the head of the run list.\<close>

lemma hd_run_woken:
  assumes "os_inv idle s" "g_current_task s = Some c"
  shows "hd (g_os_run_list (woken t s)) = (if task_prio s t < task_prio s c then t else c)"
  using assms(1) prio_queue.hd_ins [of s "g_os_run_list s" t] os_inv_hd(1,4) [OF assms]
  by (simp add: os_inv_def sched_inv_def run_sorted_def)

lemma os_inv_woken_switched:
  assumes "os_inv idle s" "g_current_task s = Some c" "t \<in> set (g_os_sleep_list s)"
  shows "os_inv idle (switched c (if task_prio s t < task_prio s c then t else c) (woken t s))"
  using assms hd_run_woken [OF assms(1,2), of t]
  by (intro os_inv_switchedI) (auto simp: os_inv_def sched_inv_woken)

text \<open>Waking a whole wait list, first to last.\<close>

lemma waiter_woken:
  assumes "sched_inv lo s" "obj_head s ob = w # ws"
  shows "os_sched_wakeup w s = Some (woken w s)" "sched_inv lo (woken w s)"
    "obj_head (woken w s) ob = ws" "ob' \<noteq> ob \<Longrightarrow> obj_head (woken w s) ob' = obj_head s ob'"
    "t_obj (os_tasks s w) = Some ob"
proof -
  have w: "w \<in> set (obj_head s ob)" using assms(2) by simp
  note asleep = waiter_asleep [OF assms(1) w]
  show obj: "t_obj (os_tasks s w) = Some ob" using waiter_obj [OF assms(1)] w by blast
  show "os_sched_wakeup w s = Some (woken w s)"
    using assms(1) asleep by (intro os_sched_wakeup_woken) (simp_all add: sched_inv_def)
  show "sched_inv lo (woken w s)" using assms(1) asleep by (rule sched_inv_woken)
  show "obj_head (woken w s) ob = ws" "ob' \<noteq> ob \<Longrightarrow> obj_head (woken w s) ob' = obj_head s ob'"
    using obj assms(2) by simp_all
qed

lemma woken_all:
  assumes "sched_inv lo s" "obj_head s ob = ws"
  shows "sched_inv lo (fold woken ws s) \<and> obj_head (fold woken ws s) ob = [] \<and>
     (\<forall>ob'. ob' \<noteq> ob \<longrightarrow> obj_head (fold woken ws s) ob' = obj_head s ob') \<and>
     set (g_os_run_list (fold woken ws s)) = set (g_os_run_list s) \<union> set ws \<and>
     same_frame s (fold woken ws s)"
  using assms
proof (induction ws arbitrary: s)
  case (Cons w ws)
  note w = waiter_woken [OF Cons.prems]
  from Cons.IH [OF w(2,3)] w(4) show ?case
    using same_frame_trans [OF same_frame_woken] by auto
qed simp

lemma hd_run_woken_all:
  assumes "sched_inv lo s" "obj_head s ob = ws" "g_os_run_list s \<noteq> []"
    and "\<forall>w \<in> set ws. task_prio s (hd (g_os_run_list s)) \<le> task_prio s w"
  shows "hd (g_os_run_list (fold woken ws s)) = hd (g_os_run_list s)"
  using assms
proof (induction ws arbitrary: s)
  case (Cons w ws)
  note w = waiter_woken [OF Cons.prems(1,2)]
  have "hd (g_os_run_list (woken w s)) = hd (g_os_run_list s)" "g_os_run_list (woken w s) \<noteq> []"
    using prio_queue.hd_ins [of s "g_os_run_list s" w] prio_queue.ins_not_Nil Cons.prems
    by (auto simp: sched_inv_def run_sorted_def)
  with Cons.IH [OF w(2,3)] Cons.prems(4) show ?case by simp
qed simp

lemma os_sched_head:
  assumes "sched_inv 1 s" "g_os_started s" "idle \<in> set (g_os_run_list s)" "g_current_task s = Some c"
  shows "(if os_sched_next_task s \<noteq> Some c then os_sched (os_sched_next_task s) isr s else Some s) =
      Some (switched c (hd (g_os_run_list s)) s)"
    and "os_sched None isr s = Some (switched c (hd (g_os_run_list s)) s)"
    and "os_inv idle (switched c (hd (g_os_run_list s)) s)"
proof -
  have nx: "os_sched_next_task s = Some (hd (g_os_run_list s))"
    using assms(3) by (cases "g_os_run_list s") (auto simp: os_sched_next_task_def)
  show "(if os_sched_next_task s \<noteq> Some c then os_sched (os_sched_next_task s) isr s else Some s) =
      Some (switched c (hd (g_os_run_list s)) s)"
    "os_sched None isr s = Some (switched c (hd (g_os_run_list s)) s)"
    using os_sched_switched [OF assms(4)] nx by (auto simp: switched_def)
  show "os_inv idle (switched c (hd (g_os_run_list s)) s)"
    using assms by (intro os_inv_switchedI) simp_all
qed

lemma maybe_reprio:
  assumes "sched_inv lo s" "live s t"
  shows "(if b then os_sched_resort t (upd_task t (\<lambda>k. k\<lparr>t_prio := p\<rparr>) s) else Some s) =
     Some (if b then reprio t p s else s)"
    and "sched_inv lo (if b then reprio t p s else s)"
  using assms os_sched_resort_reprio [of s t p] sched_inv_reprio
  by (auto simp: sched_inv_def live_def)

lemma live_simps [simp]:
  "live (switched cur nx s) = live s"
  "live (reprio t p s) = live s"
  "live (upd_mutex i f s) = live s"
  "live (upd_sem i g s) = live s"
  "live (upd_task t h s) = live s"
  "live (upd_event e ge s) = live s"
  "live (upd_eventq q gq s) = live s"
  "live (upd_callout c gc s) = live s"
  "live (s\<lparr>g_callout_list := cs\<rparr>) = live s"
  by (auto simp: live_def fun_eq_iff)

lemma live_woken [simp]: "live s t \<Longrightarrow> live (woken t s) = live s"
  by (auto simp: live_def fun_eq_iff dest: in_set_remove1 [THEN iffD2, rotated]
      set_remove1_subset [THEN subsetD])

lemma live_waiter: "sched_inv lo s \<Longrightarrow> t \<in> set (obj_head s ob) \<Longrightarrow> live s t"
  by (auto simp: live_def dest: waiter_asleep)

lemma task_frame_refl [simp]: "task_frame A s s"
  by (simp add: task_frame_def)

lemma task_frame_trans: "task_frame A s1 s2 \<Longrightarrow> task_frame A s2 s3 \<Longrightarrow> task_frame A s1 s3"
  unfolding task_frame_def by metis

lemma task_frame_cong:
  assumes "live s2 = live s1" "deep s2 = deep s1"
    "\<And>t. t_obj (os_tasks s2 t) = t_obj (os_tasks s1 t)" "os_events s2 = os_events s1"
    "os_eventqs s2 = os_eventqs s1" "os_callouts s2 = os_callouts s1"
    "g_callout_list s2 = g_callout_list s1" "g_os_time s2 = g_os_time s1"
  shows "task_frame A s s2 = task_frame A s s1"
  using assms by (simp add: task_frame_def)

lemma task_frame_upd [simp]:
  "task_frame A s (upd_mutex i f s1) = task_frame A s s1"
  "task_frame A s (upd_sem i g s1) = task_frame A s s1"
  "task_frame A s (switched c nx s1) = task_frame A s s1"
  "task_frame A s (reprio t p s1) = task_frame A s s1"
  "task_frame A s (upd_task t (\<lambda>k. k\<lparr>t_flags := t_flags k AND NOT OS_TASK_FLAG_SEM_WAIT\<rparr>) s1) =
   task_frame A s s1"
  "task_frame A s (upd_task t (\<lambda>k. k\<lparr>t_flags := t_flags k AND NOT OS_TASK_FLAG_MUTEX_WAIT\<rparr>) s1) =
   task_frame A s s1"
  by (rule task_frame_cong; auto simp: deep_def no_timeout_def fun_eq_iff)+

lemma deep_simps [simp]:
  "deep (switched cur nx s) = deep s"
  "deep (reprio t p s) = deep s"
  "deep (upd_mutex i f s) = deep s"
  "deep (upd_sem i g s) = deep s"
  "deep (upd_event e ge s) = deep s"
  "deep (upd_eventq q gq s) = deep s"
  "deep (upd_callout c gc s) = deep s"
  "deep (s\<lparr>g_callout_list := cs\<rparr>) = deep s"
  by (auto simp: deep_def no_timeout_def fun_eq_iff)

lemma deep_woken [simp]:
  "distinct (g_os_sleep_list s) \<Longrightarrow> deep (woken t s) x = (x \<noteq> t \<and> deep s x)"
  by (auto simp: deep_def)

lemma task_frame_woken:
  assumes "live s t" "\<not> deep s t" shows "task_frame A s (woken t s)"
proof -
  have "deep (woken t s) x" if "deep s x" for x
    using that assms(2) by (cases "x = t") (auto simp: deep_def)
  then show ?thesis using assms(1) by (auto simp: task_frame_def)
qed

lemma waiter_not_deep:
  "sched_inv lo s \<Longrightarrow> t \<in> set (obj_head s ob) \<Longrightarrow> live s t \<and> \<not> deep s t"
  using waiter_obj [of lo s t ob] by (auto simp: deep_def live_waiter)

lemma task_frame_woken_all:
  assumes "sched_inv lo s" "obj_head s ob = ws"
  shows "task_frame A s (fold woken ws s)"
  using assms
proof (induction ws arbitrary: s)
  case (Cons w ws)
  note w = waiter_woken [OF Cons.prems]
  have "live s w \<and> \<not> deep s w" using waiter_not_deep [OF Cons.prems(1), of w ob] Cons.prems(2) by simp
  then have "task_frame A s (woken w s)" by (simp add: task_frame_woken)
  from task_frame_trans [OF this Cons.IH [OF w(2,3)]] show ?case by simp
qed simp

text \<open>The sleep timer wakes no task that sleeps without a timeout, and links none to an object.\<close>

lemma timer_exp_frame:
  assumes "sched_inv 0 s" "g_os_sleep_list s = ts"
    and "os_sched_os_timer_exp_loop now ts s = Some s'"
  shows "task_frame {} s s' \<and> (\<forall>ob. set (obj_head s' ob) \<subseteq> set (obj_head s ob)) \<and>
     (\<forall>x. no_timeout s' x \<longrightarrow> no_timeout s x) \<and>
     (\<forall>x \<in> set (g_os_sleep_list s').
        x \<in> set ts \<and> t_next_wakeup (os_tasks s' x) = t_next_wakeup (os_tasks s x))"
  using assms
proof (induction ts arbitrary: s)
  case (Cons t ts)
  have t: "t \<in> set (g_os_sleep_list s)" using Cons.prems(2) by simp
  show ?case
  proof (cases "\<not> no_timeout s t \<and> OS_TIME_TICK_GEQ now (t_next_wakeup (os_tasks s t))")
    case True
    have "os_sched_wakeup t s = Some (woken t s)"
      using Cons.prems(1) t by (intro os_sched_wakeup_woken) (simp_all add: sched_inv_def)
    with Cons.prems(3) True have s': "os_sched_os_timer_exp_loop now ts (woken t s) = Some s'" by simp
    have w: "sched_inv 0 (woken t s)" "g_os_sleep_list (woken t s) = ts"
      using sched_inv_woken [OF Cons.prems(1) t] Cons.prems(2) by simp_all
    have "task_frame {} s (woken t s)"
      using t True by (intro task_frame_woken) (auto simp: live_def deep_def)
    moreover have "set (obj_head (woken t s) ob) \<subseteq> set (obj_head s ob)" for ob
      by (simp add: set_remove1_subset)
    moreover have "no_timeout (woken t s) x \<longrightarrow> no_timeout s x" for x by simp
    moreover have "t \<notin> set ts" using Cons.prems(1,2) by (auto simp: sched_inv_def lists_inv_def)
    then have "x \<in> set ts \<Longrightarrow> os_tasks (woken t s) x = os_tasks s x" for x by (cases "x = t") auto
    ultimately show ?thesis using Cons.IH [OF w s'] task_frame_trans by fastforce
  qed (use Cons.prems(2,3) in \<open>auto split: if_splits\<close>)
qed simp

lemma live_blocked [simp]:
  assumes "os_inv idle s" "g_current_task s = Some c"
  shows "live (blocked ob f n c s) = live s"
  using os_inv_hd(2) [OF assms] by (auto simp: live_def blocked_def Let_def fun_eq_iff sleep_list_slept
      dest: in_set_remove1 [THEN iffD2, rotated] set_remove1_subset [THEN subsetD])

lemma task_frame_blocked:
  assumes "os_inv idle s" "g_current_task s = Some c"
    and f: "f = OS_TASK_FLAG_SEM_WAIT \<or> f = OS_TASK_FLAG_MUTEX_WAIT"
  shows "task_frame {c} s (blocked ob f n c s)"
proof -
  have [simp]: "no_timeout (linked ob f c s) x = no_timeout s x" for x
    using f by (auto simp: no_timeout_def linked_def)
  have "c \<notin> set (g_os_sleep_list s)" using os_inv_hd [OF assms(1,2)] by simp
  then have "deep (blocked ob f n c s) x" if "deep s x" for x
    using that by (auto simp: deep_def blocked_def Let_def sleep_list_slept)
  moreover have "t_obj (os_tasks (blocked ob f n c s) x) = t_obj (os_tasks s x)" if "x \<noteq> c" for x
    using that by (simp add: blocked_def Let_def)
  ultimately show ?thesis
    using live_blocked [OF assms(1,2), of ob f n] by (simp add: task_frame_def) (simp add: blocked_def Let_def)
qed

text \<open>Raising another task to a priority not above the current one leaves the current task first.\<close>

lemma os_inv_reprio_other:
  assumes inv: "os_inv idle s" and c: "g_current_task s = Some c" and t: "t \<noteq> c"
    and p: "task_prio s c \<le> p"
  shows "os_inv idle (reprio t p s)"
proof -
  obtain rs where rs: "g_os_run_list s = c # rs"
    using os_inv_hd(1,4) [OF inv c] by (cases "g_os_run_list s") auto
  have "queue_first (g_os_run_list (reprio t p s)) = Some c"
    using rs t p by (auto simp: run_list_reprio prio_insert_def not_less [symmetric])
  then show ?thesis
    using inv c sched_inv_reprio by (simp add: os_inv_def)
qed

lemma os_inv_sample: "os_inv 0 sample_os"
  by (simp add: os_inv_def sched_inv_def lists_inv_def run_sorted_def obj_inv_def sleep_inv_def
      sample_os_def sample_task_def no_timeout_def flag_set_def)

end
