(* ===== verification/Os_Sem.thy ===== *)
theory Os_Sem
  imports Os_Wait
begin

text \<open>
  Semaphores, \<^verbatim>\<open>libs/os/src/os_sem.c\<close>. A semaphore pointer is an optional number. The part of
  \<^verbatim>\<open>os_sem_pend\<close> after its call of the scheduler runs when the task is switched to again, so the
  model has it as an operation of its own, \<open>os_sem_pend_resume\<close>.
\<close>

subsection \<open>os_sem.c\<close>

datatype pend_result = Pend_Return os_error | Pend_Blocked

definition os_sem_init :: "nat option \<Rightarrow> u16 \<Rightarrow> os_state \<Rightarrow> os_error \<times> os_state" where
  "os_sem_init sem tokens s =
     (case sem of
        None \<Rightarrow> (OS_INVALID_PARM, s)
      | Some i \<Rightarrow> (OS_OK, upd_obj_head (ObjSem i) []
                    (upd_sem i (\<lambda>m. m\<lparr>sem_tokens := tokens\<rparr>) s)))"

definition os_sem_release :: "nat option \<Rightarrow> os_state \<Rightarrow> (os_error \<times> os_state) option" where
  "os_sem_release sem s =
     (if \<not> g_os_started s then Some (OS_NOT_STARTED, s)
      else case sem of
        None \<Rightarrow> Some (OS_INVALID_PARM, s)
      | Some i \<Rightarrow>
          (case queue_first (obj_head s (ObjSem i)) of
             None \<Rightarrow> Some (OS_OK, upd_sem i (\<lambda>m. m\<lparr>sem_tokens := sem_tokens m + 1\<rparr>) s)
           | Some rdy \<Rightarrow> do {
               current \<leftarrow> os_sched_get_current_task s;
               let s1 = upd_task rdy (\<lambda>k. k\<lparr>t_flags := t_flags k AND NOT OS_TASK_FLAG_SEM_WAIT\<rparr>) s;
               s2 \<leftarrow> os_sched_wakeup rdy s1;
               s3 \<leftarrow> (if task_prio s2 current > task_prio s2 rdy
                      then os_sched (Some rdy) False s2 else Some s2);
               Some (OS_OK, s3)
             }))"

definition os_sem_pend ::
    "nat option \<Rightarrow> u32 \<Rightarrow> os_state \<Rightarrow> (pend_result \<times> os_state) option" where
  "os_sem_pend sem timeout s =
     (if \<not> g_os_started s then Some (Pend_Return OS_NOT_STARTED, s)
      else case sem of
        None \<Rightarrow> Some (Pend_Return OS_INVALID_PARM, s)
      | Some i \<Rightarrow>
          if sem_tokens (os_sems s i) \<noteq> 0 then
            Some (Pend_Return OS_OK, upd_sem i (\<lambda>m. m\<lparr>sem_tokens := sem_tokens m - 1\<rparr>) s)
          else if timeout = 0 then Some (Pend_Return OS_TIMEOUT, s)
          else do {
            current \<leftarrow> os_sched_get_current_task s;
            let s1 = upd_task current (\<lambda>k. k\<lparr>t_obj := Some (ObjSem i),
                       t_flags := t_flags k OR OS_TASK_FLAG_SEM_WAIT\<rparr>) s;
            let s2 = upd_obj_head (ObjSem i) (prio_insert s1 current (obj_head s1 (ObjSem i))) s1;
            s3 \<leftarrow> os_sched_sleep current timeout s2;
            s4 \<leftarrow> os_sched None False s3;
            Some (Pend_Blocked, s4)
          })"

definition os_sem_pend_resume :: "tid \<Rightarrow> os_state \<Rightarrow> os_error \<times> os_state" where
  "os_sem_pend_resume current s =
     (if flag_set (t_flags (os_tasks s current)) OS_TASK_FLAG_SEM_WAIT
      then (OS_TIMEOUT, upd_task current
              (\<lambda>k. k\<lparr>t_flags := t_flags k AND NOT OS_TASK_FLAG_SEM_WAIT\<rparr>) s)
      else (OS_OK, s))"

text \<open>The loop of \<^verbatim>\<open>os_sem_delete\<close> that wakes every waiting task.\<close>

partial_function (option) os_sem_delete_loop :: "nat \<Rightarrow> os_state \<Rightarrow> os_state option" where
  "os_sem_delete_loop i s =
     (case queue_first (obj_head s (ObjSem i)) of
        None \<Rightarrow> Some s
      | Some rdy \<Rightarrow> Option.bind (os_sched_wakeup rdy s) (\<lambda>s'. os_sem_delete_loop i s'))"

text \<open>After the loop \<^verbatim>\<open>rdy\<close> is \<^verbatim>\<open>NULL\<close>, so a reschedule picks the head of the run list.\<close>

definition os_sem_delete :: "nat option \<Rightarrow> os_state \<Rightarrow> (os_error \<times> os_state) option" where
  "os_sem_delete sem s =
     (if \<not> g_os_started s then Some (OS_NOT_STARTED, s)
      else case sem of
        None \<Rightarrow> Some (OS_INVALID_PARM, s)
      | Some i \<Rightarrow>
          let s1 = upd_sem i (\<lambda>m. m\<lparr>sem_tokens := 0\<rparr>) s in
          (case queue_first (obj_head s1 (ObjSem i)) of
             None \<Rightarrow> Some (OS_OK, s1)
           | Some rdy \<Rightarrow> do {
               current \<leftarrow> os_sched_get_current_task s1;
               s2 \<leftarrow> os_sem_delete_loop i s1;
               s3 \<leftarrow> (if task_prio s1 current > task_prio s1 rdy
                      then os_sched None False s2 else Some s2);
               Some (OS_OK, s3)
             }))"

subsection \<open>Invariant\<close>

text \<open>No wake-up is lost: while a semaphore has a token no task waits for it.\<close>

definition sem_inv :: "os_state \<Rightarrow> bool" where
  "sem_inv s \<longleftrightarrow> (\<forall>i. sem_tokens (os_sems s i) = 0 \<or> obj_head s (ObjSem i) = [])"

text \<open>The state after a release that finds a waiting task.\<close>

definition sem_handed :: "tid \<Rightarrow> tid \<Rightarrow> os_state \<Rightarrow> os_state" where
  "sem_handed c w s = switched c (if task_prio s w < task_prio s c then w else c)
     (woken w (upd_task w (\<lambda>k. k\<lparr>t_flags := t_flags k AND NOT OS_TASK_FLAG_SEM_WAIT\<rparr>) s))"

text \<open>
  The abstract semaphore: the number of tokens, counted modulo \<open>2^16\<close>, and the queue of waiting tasks.
\<close>

definition abs_sem :: "os_state \<Rightarrow> nat \<Rightarrow> nat \<times> tid list" where
  "abs_sem s i = (unat (sem_tokens (os_sems s i)), obj_head s (ObjSem i))"

fun sem_spec_release :: "nat \<times> tid list \<Rightarrow> nat \<times> tid list" where
  "sem_spec_release (n, []) = (Suc n mod 65536, [])"
| "sem_spec_release (n, w # ws) = (n, ws)"

fun sem_spec_pend :: "(tid list \<Rightarrow> tid list) \<Rightarrow> nat \<times> tid list \<Rightarrow> nat \<times> tid list" where
  "sem_spec_pend ins (Suc n, ws) = (n, ws)"
| "sem_spec_pend ins (0, ws) = (0, ins ws)"

text \<open>Several releases in a row by the running tasks.\<close>

definition os_sem_release_times :: "nat \<Rightarrow> nat \<Rightarrow> os_state \<Rightarrow> os_state option" where
  "os_sem_release_times i n = repeat_op n (\<lambda>s. map_option snd (os_sem_release (Some i) s))"

text \<open>The sample system after its task 1 has blocked on semaphore 0.\<close>

definition sample_waiting :: os_state where
  "sample_waiting = snd (the (os_sem_pend (Some 0) OS_TIMEOUT_NEVER sample_os))"

subsection \<open>Lemmas\<close>

lemma os_sem_release_waiter:
  assumes inv: "os_inv idle s" and c: "g_current_task s = Some c"
    and w: "obj_head s (ObjSem i) = w # ws"
  shows "os_sem_release (Some i) s = Some (OS_OK, sem_handed c w s)"
    and "os_inv idle (sem_handed c w s)"
proof -
  let ?s1 = "upd_task w (\<lambda>k. k\<lparr>t_flags := t_flags k AND NOT OS_TASK_FLAG_SEM_WAIT\<rparr>) s"
  have inv1: "os_inv idle ?s1" using inv by simp
  have asleep: "w \<in> set (g_os_sleep_list ?s1)"
    using waiter_asleep [OF os_inv_sched [OF inv], of w "ObjSem i"] w by (simp add: upd_defs)
  have prio: "task_prio ?s1 x = task_prio s x" for x by simp
  have c1: "g_current_task ?s1 = Some c" using c by (simp add: upd_defs)
  have wake: "os_sched_wakeup w ?s1 = Some (woken w ?s1)"
    using os_inv_sched [OF inv1] asleep by (intro os_sched_wakeup_woken) (simp_all add: sched_inv_def)
  show "os_sem_release (Some i) s = Some (OS_OK, sem_handed c w s)"
    using os_inv_started [OF inv] c w wake c1
    by (simp add: os_sem_release_def os_sched_get_current_task_def Let_def sem_handed_def
        os_sched_switched [of _ c] switched_def [of c c])
  show "os_inv idle (sem_handed c w s)"
    unfolding sem_handed_def by (rule os_inv_woken_switched [OF inv1 c1 asleep, unfolded prio])
qed

lemma sem_handed_simps:
  assumes "sched_inv lo s" "obj_head s (ObjSem i) = w # ws" "g_current_task s = Some c"
  shows "obj_head (sem_handed c w s) (ObjSem i) = ws"
    "ob \<noteq> ObjSem i \<Longrightarrow> obj_head (sem_handed c w s) ob = obj_head s ob"
    "os_sems (sem_handed c w s) = os_sems s"
    "w \<in> set (g_os_run_list (sem_handed c w s))"
    "\<not> flag_set (t_flags (os_tasks (sem_handed c w s) w)) OS_TASK_FLAG_SEM_WAIT"
    "g_current_task (sem_handed c w s) = Some (if task_prio s w < task_prio s c then w else c)"
proof -
  have "t_obj (os_tasks s w) = Some (ObjSem i)"
    using waiter_obj [OF assms(1), of w "ObjSem i"] assms(2) by simp
  then show "obj_head (sem_handed c w s) (ObjSem i) = ws"
    "ob \<noteq> ObjSem i \<Longrightarrow> obj_head (sem_handed c w s) ob = obj_head s ob"
    using assms(2) by (simp_all add: sem_handed_def upd_defs)
qed (use assms in \<open>simp_all add: sem_handed_def upd_defs woken_def\<close>)

lemma os_sem_pend_blocked:
  assumes inv: "os_inv idle s" and c: "g_current_task s = Some c" "c \<noteq> idle"
    and tok: "sem_tokens (os_sems s i) = 0" and n: "n \<noteq> 0"
  shows "os_sem_pend (Some i) n s =
     Some (Pend_Blocked, blocked (ObjSem i) OS_TASK_FLAG_SEM_WAIT n c s)"
proof -
  let ?s1 = "upd_task c (\<lambda>k. k\<lparr>t_obj := Some (ObjSem i),
      t_flags := t_flags k OR OS_TASK_FLAG_SEM_WAIT\<rparr>) s"
  have "prio_insert ?s1 = prio_insert s" "obj_head ?s1 = obj_head s"
    by (rule prio_insert_cong) (simp_all add: upd_defs)
  then have "upd_obj_head (ObjSem i) (prio_insert ?s1 c (obj_head ?s1 (ObjSem i))) ?s1 =
      linked (ObjSem i) OS_TASK_FLAG_SEM_WAIT c s"
    by (simp add: linked_def)
  with os_inv_started [OF inv] tok n c(1) block_steps [OF inv c] show ?thesis
    by (simp add: os_sem_pend_def os_sched_get_current_task_def Let_def)
qed

lemma os_sem_delete_loop_woken:
  "sched_inv lo s \<Longrightarrow> obj_head s (ObjSem i) = ws \<Longrightarrow>
   os_sem_delete_loop i s = Some (fold woken ws s)"
proof (induction ws arbitrary: s)
  case (Cons w ws)
  note w = waiter_woken [OF Cons.prems]
  from Cons.IH [OF w(2,3)] w(1) Cons.prems(2) show ?case
    by (simp add: os_sem_delete_loop.simps [of i s])
qed (simp add: os_sem_delete_loop.simps)

text \<open>
  Deleting a semaphore makes every waiting task ready. The code looks at the first waiting task to
  decide whether to switch, so that the right task runs afterwards when the first one has the
  highest priority of them.
\<close>

lemma os_sem_delete_all:
  assumes inv: "os_inv idle s"
    and first: "\<forall>w \<in> set (obj_head s (ObjSem i)). task_prio s (hd (obj_head s (ObjSem i))) \<le> task_prio s w"
  shows "\<exists>s'. os_sem_delete (Some i) s = Some (OS_OK, s') \<and> os_inv idle s' \<and> task_frame {} s s' \<and>
     os_mutexes s' = os_mutexes s \<and> obj_head s' = (obj_head s)(ObjSem i := []) \<and>
     (\<forall>j. sem_tokens (os_sems s' j) = (if j = i then 0 else sem_tokens (os_sems s j))) \<and>
     set (obj_head s (ObjSem i)) \<subseteq> set (g_os_run_list s')"
proof (cases "obj_head s (ObjSem i)")
  case Nil
  with inv show ?thesis by (simp add: os_sem_delete_def os_inv_started Let_def fun_upd_idem)
next
  case (Cons rdy ws)
  obtain c where c1: "g_current_task s = Some c" by (rule os_inv_current [OF inv])
  note c = c1 os_inv_hd(1,4) [OF inv c1]
  define s1 where "s1 = upd_sem i (\<lambda>m. m\<lparr>sem_tokens := 0\<rparr>) s"
  define s2 where "s2 = fold woken (rdy # ws) s1"
  have s1: "sched_inv 1 s1" "obj_head s1 (ObjSem i) = rdy # ws" "g_current_task s1 = Some c"
    "g_os_run_list s1 = g_os_run_list s" "\<And>x. task_prio s1 x = task_prio s x"
    "g_os_started s1" "obj_head s1 = obj_head s" "os_mutexes s1 = os_mutexes s" "task_frame {} s s1"
    "\<And>j. sem_tokens (os_sems s1 j) = (if j = i then 0 else sem_tokens (os_sems s j))"
    using os_inv_sched [OF inv] os_inv_started [OF inv] c Cons by (simp_all add: s1_def)
  have s2: "sched_inv 1 s2" "obj_head s2 = (obj_head s)(ObjSem i := [])" "same_frame s1 s2"
    "set (g_os_run_list s2) = set (g_os_run_list s) \<union> set (rdy # ws)" "task_frame {} s s2"
    using woken_all [OF s1(1,2)] s1(4,7) task_frame_trans [OF s1(9) task_frame_woken_all [OF s1(1,2)]]
    by (auto simp: s2_def fun_eq_iff)
  have c2: "g_current_task s2 = Some c" "g_os_started s2" "idle \<in> set (g_os_run_list s2)"
    using s2(3,4) s1(3,6) os_inv_idle [OF inv] by (auto simp: same_frame_def)
  define nx where "nx = (if task_prio s c > task_prio s rdy then hd (g_os_run_list s2) else c)"
  have del: "os_sem_delete (Some i) s = Some (OS_OK, switched c nx s2)"
    using os_inv_started [OF inv] s1(2,3,5) os_sem_delete_loop_woken [OF s1(1,2), folded s2_def]
      os_sched_head(2) [OF s2(1) c2(2,3,1)]
    by (simp add: os_sem_delete_def Let_def os_sched_get_current_task_def switched_def [of c c]
        nx_def flip: s1_def)
  have "hd (g_os_run_list s2) = c" if "\<not> task_prio s c > task_prio s rdy"
    using hd_run_woken_all [OF s1(1,2)] s1(4,5) c that first Cons by (force simp: s2_def)
  then have "os_inv idle (switched c nx s2)"
    using s2(1) c2 by (intro os_inv_switchedI) (auto simp: nx_def)
  with del s1(8,10) s2 Cons show ?thesis by (auto simp: same_frame_def)
qed

lemma os_sem_release_refines:
  assumes inv: "os_inv idle s"
  shows "\<exists>s'. os_sem_release (Some i) s = Some (OS_OK, s') \<and> os_inv idle s' \<and>
     abs_sem s' i = sem_spec_release (abs_sem s i) \<and>
     set (g_os_run_list s) \<union> set (take 1 (obj_head s (ObjSem i))) \<subseteq> set (g_os_run_list s')"
proof (cases "obj_head s (ObjSem i)")
  case Nil
  have "unat (sem_tokens (os_sems s i) + 1) = Suc (unat (sem_tokens (os_sems s i))) mod 65536"
    by (simp add: unat_word_ariths)
  with Nil inv show ?thesis
    by (simp add: os_sem_release_def os_inv_started abs_sem_def)
next
  case (Cons w ws)
  obtain c where c: "g_current_task s = Some c" by (rule os_inv_current [OF inv])
  note r = os_sem_release_waiter [OF inv c Cons]
  note h = sem_handed_simps [OF os_inv_sched [OF inv] Cons c]
  have "set (g_os_run_list s) \<subseteq> set (g_os_run_list (sem_handed c w s))"
    by (auto simp: sem_handed_def)
  with r h Cons show ?thesis by (simp add: abs_sem_def)
qed

text \<open>
  What a client of a semaphore relies on: a release hands a token to the first waiting task and
  makes it ready, or counts it when nobody waits, and no release makes a ready task wait. The
  count is kept modulo \<open>m\<close>.
\<close>

locale sem_contract =
  fixes inv :: "'s \<Rightarrow> bool" and abs :: "'s \<Rightarrow> nat \<times> 't list" and ready :: "'s \<Rightarrow> 't set"
    and release :: "'s \<Rightarrow> 's option" and m :: nat
  assumes release_waiter: "inv s \<Longrightarrow> abs s = (n, w # ws) \<Longrightarrow>
      \<exists>s'. release s = Some s' \<and> inv s' \<and> abs s' = (n, ws) \<and> insert w (ready s) \<subseteq> ready s'"
    and release_idle: "inv s \<Longrightarrow> abs s = (n, []) \<Longrightarrow>
      \<exists>s'. release s = Some s' \<and> inv s' \<and> abs s' = (Suc n mod m, []) \<and> ready s \<subseteq> ready s'"
    and count_range: "abs s = (n, ws) \<Longrightarrow> n < m"
begin

lemma releases_wake_in_order:
  "inv s \<Longrightarrow> abs s = (n, ws) \<Longrightarrow>
   \<exists>s'. repeat_op k release s = Some s' \<and> inv s' \<and> abs s' = ((n + (k - length ws)) mod m, drop k ws) \<and>
        set (take k ws) \<union> ready s \<subseteq> ready s'"
proof (induction k arbitrary: s n ws)
  case 0
  with count_range [of s n ws] show ?case by simp
next
  case (Suc k)
  show ?case
  proof (cases ws)
    case Nil
    with Suc.prems obtain s1 where s1: "release s = Some s1" "inv s1" "abs s1 = (Suc n mod m, [])"
      "ready s \<subseteq> ready s1"
      using release_idle [of s n] by auto
    have "(Suc n mod m + k) mod m = (n + Suc k) mod m" by (simp add: mod_simps)
    with Suc.IH [OF s1(2,3)] s1 Nil show ?thesis by auto
  next
    case (Cons w ws')
    with Suc.prems obtain s1 where s1: "release s = Some s1" "inv s1" "abs s1 = (n, ws')"
      "insert w (ready s) \<subseteq> ready s1"
      using release_waiter [of s n w ws'] by auto
    with Suc.IH [OF s1(2,3)] Cons show ?thesis by fastforce
  qed
qed

end

interpretation sem: sem_contract "os_inv idle" "\<lambda>s. abs_sem s i" "\<lambda>s. set (g_os_run_list s)"
  "\<lambda>s. map_option snd (os_sem_release (Some i) s)" 65536 for idle i
proof
  fix s n w ws
  assume "os_inv idle s" "abs_sem s i = (n, w # ws)"
  with os_sem_release_refines [of idle s i]
  show "\<exists>s'. map_option snd (os_sem_release (Some i) s) = Some s' \<and> os_inv idle s' \<and>
      abs_sem s' i = (n, ws) \<and> insert w (set (g_os_run_list s)) \<subseteq> set (g_os_run_list s')"
    by (auto simp: abs_sem_def)
next
  fix s n
  assume "os_inv idle s" "abs_sem s i = (n, [])"
  with os_sem_release_refines [of idle s i]
  show "\<exists>s'. map_option snd (os_sem_release (Some i) s) = Some s' \<and> os_inv idle s' \<and>
      abs_sem s' i = (Suc n mod 65536, []) \<and> set (g_os_run_list s) \<subseteq> set (g_os_run_list s')"
    by (auto simp: abs_sem_def)
next
  fix s n ws
  assume "abs_sem s i = (n, ws)"
  then show "n < 65536" by (auto simp: abs_sem_def intro: order_less_le_trans [OF unsigned_less])
qed

text \<open>
  C7: Releasing a semaphore \<open>n\<close> times wakes the first \<open>n\<close> waiting tasks, in the order of the
  wait list. The releases that find no waiting task are added to the tokens, whose counter has 16
  bits: the new count is the sum modulo \<open>2^16\<close>, so that every such release is a token as long as the
  sum stays below \<open>2^16\<close>, and tokens are lost when it does not (\<open>os_sem_release_wraps\<close>). No assertion
  fails and the current task stays the one of highest priority.
\<close>

theorem os_sem_release_many:
  assumes "os_inv idle s"
  shows "\<exists>s'. os_sem_release_times i n s = Some s' \<and> os_inv idle s' \<and>
     obj_head s' (ObjSem i) = drop n (obj_head s (ObjSem i)) \<and>
     set (take n (obj_head s (ObjSem i))) \<subseteq> set (g_os_run_list s') \<and>
     unat (sem_tokens (os_sems s' i)) =
       (unat (sem_tokens (os_sems s i)) + (n - length (obj_head s (ObjSem i)))) mod 65536"
  using sem.releases_wake_in_order [OF assms, of i _ _ n]
  by (fastforce simp: abs_sem_def os_sem_release_times_def)

lemma unat_dec: "w \<noteq> 0 \<Longrightarrow> unat (w :: u16) = Suc (unat (w - 1))"
  by (metis Suc_pred' unat_gt_0 unat_minus_one)

lemma os_inv_sample_waiting: "os_inv 0 sample_waiting"
  and sample_waiting_eq: "sample_waiting = blocked (ObjSem 0) OS_TASK_FLAG_SEM_WAIT OS_TIMEOUT_NEVER 1 sample_os"
proof -
  have c: "g_current_task sample_os = Some 1" "sem_tokens (os_sems sample_os 0) = 0"
    by (simp_all add: sample_os_def)
  show eq: "sample_waiting = blocked (ObjSem 0) OS_TASK_FLAG_SEM_WAIT OS_TIMEOUT_NEVER 1 sample_os"
    using os_sem_pend_blocked [OF os_inv_sample c(1) _ c(2), of OS_TIMEOUT_NEVER]
    by (simp add: sample_waiting_def OS_TIMEOUT_NEVER_def)
  show "os_inv 0 sample_waiting"
    unfolding eq by (rule os_inv_blocked [OF os_inv_sample c(1)]) (simp_all add: timeout_ok_def)
qed

lemma sample_waiting_simps [simp]:
  "obj_head sample_waiting (ObjSem 0) = [1]"
  "os_sems sample_waiting = os_sems sample_os"
  "g_current_task sample_waiting = Some 2"
  unfolding sample_waiting_eq
  by (simp_all add: blocked_def Let_def sample_os_def prio_insert_def)

text \<open>
  C12: Semaphore pend, every outcome. A token is taken when there is one; with a zero timeout the
  call returns \<^verbatim>\<open>OS_TIMEOUT\<close> and changes nothing; otherwise the running task joins the wait list
  in priority order, sleeps with its wait flag set, and another task runs.
\<close>

theorem os_sem_pend_spec:
  assumes inv: "os_inv idle s" and c: "g_current_task s = Some c" "c \<noteq> idle"
    and n: "n = 0 \<or> timeout_ok n"
  shows "\<exists>r s'. os_sem_pend (Some i) n s = Some (r, s') \<and> os_inv idle s' \<and>
    (if sem_tokens (os_sems s i) \<noteq> 0
     then r = Pend_Return OS_OK \<and> abs_sem s' i = sem_spec_pend (prio_insert s c) (abs_sem s i)
     else if n = 0 then r = Pend_Return OS_TIMEOUT \<and> s' = s
     else r = Pend_Blocked \<and> abs_sem s' i = sem_spec_pend (prio_insert s c) (abs_sem s i) \<and>
       g_current_task s' \<noteq> Some c \<and> c \<in> set (g_os_sleep_list s') \<and>
       flag_set (t_flags (os_tasks s' c)) OS_TASK_FLAG_SEM_WAIT)"
proof (cases "sem_tokens (os_sems s i) = 0 \<and> n \<noteq> 0")
  case True
  with n have n': "timeout_ok n" by simp
  show ?thesis
    using os_sem_pend_blocked [OF inv c, of i n] os_inv_blocked [OF inv c n'] True
      blocked_simps [OF inv c, where f = OS_TASK_FLAG_SEM_WAIT and ob = "ObjSem i" and n = n]
    by (simp add: abs_sem_def)
next
  case False
  then show ?thesis
    using inv os_inv_started [OF inv] unat_dec [of "sem_tokens (os_sems s i)"]
    by (auto simp: os_sem_pend_def abs_sem_def)
qed

theorem os_sem_pend_spec_witness: 
  "\<exists>r s'. os_sem_pend (Some 0) OS_TIMEOUT_NEVER sample_os = Some (r, s') \<and> r = Pend_Blocked \<and>
     abs_sem s' 0 = (0, [1])"
  using os_sem_pend_spec [OF os_inv_sample, of 1 OS_TIMEOUT_NEVER 0]
  by (auto simp: sample_os_def timeout_ok_def OS_TIMEOUT_NEVER_def abs_sem_def prio_insert_def)

theorem os_sem_release_many_witness:
  "\<exists>s'. os_sem_release_times 0 3 sample_waiting = Some s' \<and> os_inv 0 s' \<and>
     obj_head s' (ObjSem 0) = [] \<and> 1 \<in> set (g_os_run_list s') \<and> unat (sem_tokens (os_sems s' 0)) = 2"
  using os_sem_release_many [OF os_inv_sample_waiting, of 0 3]
  by (auto simp: sample_os_def)

text \<open>Finding: the token counter is 16 bits wide and a release does not check it.\<close>

lemma os_sem_release_wraps:
  assumes "os_inv idle s" "sem_tokens (os_sems s i) = 65535" "obj_head s (ObjSem i) = []"
  shows "\<exists>s'. os_sem_release (Some i) s = Some (OS_OK, s') \<and> sem_tokens (os_sems s' i) = 0"
  using assms by (simp add: os_sem_release_def os_inv_started)

end
