(* ===== verification/Os_Mutex.thy ===== *)
theory Os_Mutex
  imports Os_Sem
begin

text \<open>
  Mutexes with priority inheritance, \<^verbatim>\<open>libs/os/src/os_mutex.c\<close>. As for semaphores, the part of
  \<^verbatim>\<open>os_mutex_pend\<close> after its call of the scheduler is the operation \<open>os_mutex_pend_resume\<close>. The
  invariant says that a free mutex has no owner and no waiting task and that the owner of a
  taken one is a live task that does not wait for it; the operations keep it, hand a released
  mutex to the first waiting task, and never fail an assertion.
\<close>

subsection \<open>os_mutex.c\<close>

definition os_mutex_init :: "nat option \<Rightarrow> os_state \<Rightarrow> os_error \<times> os_state" where
  "os_mutex_init mu s =
     (case mu of
        None \<Rightarrow> (OS_INVALID_PARM, s)
      | Some i \<Rightarrow> (OS_OK, upd_obj_head (ObjMutex i) []
          (upd_mutex i (\<lambda>m. m\<lparr>mu_prio := 0, mu_level := 0, mu_owner := None\<rparr>) s)))"

text \<open>
  The inner part of \<^verbatim>\<open>os_mutex_release\<close>: restore the priority of the owner, hand the mutex to the
  first waiting task or leave it free, and run the scheduler.
\<close>

definition os_mutex_hand_over :: "nat \<Rightarrow> tid \<Rightarrow> os_state \<Rightarrow> os_state option" where
  "os_mutex_hand_over i current s = do {
     s1 \<leftarrow> (if task_prio s current \<noteq> mu_prio (os_mutexes s i)
            then os_sched_resort current
                   (upd_task current (\<lambda>k. k\<lparr>t_prio := mu_prio (os_mutexes s i)\<rparr>) s)
            else Some s);
     let rdy = queue_first (obj_head s1 (ObjMutex i));
     s2 \<leftarrow> (case rdy of
              None \<Rightarrow> Some s1
            | Some r \<Rightarrow>
                if t_obj (os_tasks s1 r) = None then None
                else do {
                  s' \<leftarrow> os_sched_wakeup r s1;
                  Some (upd_mutex i (\<lambda>m. m\<lparr>mu_level := 1, mu_prio := task_prio s' r\<rparr>) s')
                });
     let s3 = upd_mutex i (\<lambda>m. m\<lparr>mu_owner := rdy\<rparr>) s2;
     let nx = os_sched_next_task s3;
     if nx \<noteq> Some current then os_sched nx False s3 else Some s3
   }"

definition os_mutex_release :: "nat option \<Rightarrow> os_state \<Rightarrow> (os_error \<times> os_state) option" where
  "os_mutex_release mu s =
     (if \<not> g_os_started s then Some (OS_NOT_STARTED, s)
      else case mu of
        None \<Rightarrow> Some (OS_INVALID_PARM, s)
      | Some i \<Rightarrow>
          let current = os_sched_get_current_task s in
          if mu_level (os_mutexes s i) = 0 \<or> mu_owner (os_mutexes s i) \<noteq> current
          then Some (OS_BAD_MUTEX, s)
          else
            let s1 = upd_mutex i (\<lambda>m. m\<lparr>mu_level := mu_level m - 1\<rparr>) s in
            if mu_level (os_mutexes s1 i) \<noteq> 0 then Some (OS_OK, s1)
            else do {
              c \<leftarrow> current;
              s2 \<leftarrow> os_mutex_hand_over i c s1;
              Some (OS_OK, s2)
            })"

definition os_mutex_pend ::
    "nat option \<Rightarrow> u32 \<Rightarrow> os_state \<Rightarrow> (pend_result \<times> os_state) option" where
  "os_mutex_pend mu timeout s =
     (if \<not> g_os_started s then Some (Pend_Return OS_NOT_STARTED, s)
      else case mu of
        None \<Rightarrow> Some (Pend_Return OS_INVALID_PARM, s)
      | Some i \<Rightarrow> do {
          current \<leftarrow> os_sched_get_current_task s;
          if mu_level (os_mutexes s i) = 0 then
            Some (Pend_Return OS_OK, upd_mutex i (\<lambda>m. m\<lparr>mu_owner := Some current,
                mu_prio := task_prio s current, mu_level := 1\<rparr>) s)
          else if mu_owner (os_mutexes s i) = Some current then
            Some (Pend_Return OS_OK, upd_mutex i (\<lambda>m. m\<lparr>mu_level := mu_level m + 1\<rparr>) s)
          else if timeout = 0 then Some (Pend_Return OS_TIMEOUT, s)
          else do {
            owner \<leftarrow> mu_owner (os_mutexes s i);
            s1 \<leftarrow> (if task_prio s owner > task_prio s current
                   then os_sched_resort owner
                          (upd_task owner (\<lambda>k. k\<lparr>t_prio := task_prio s current\<rparr>) s)
                   else Some s);
            let s2 = upd_obj_head (ObjMutex i)
                       (prio_insert s1 current (obj_head s1 (ObjMutex i))) s1;
            let s3 = upd_task current (\<lambda>k. k\<lparr>t_obj := Some (ObjMutex i),
                       t_flags := t_flags k OR OS_TASK_FLAG_MUTEX_WAIT\<rparr>) s2;
            s4 \<leftarrow> os_sched_sleep current timeout s3;
            s5 \<leftarrow> os_sched None False s4;
            Some (Pend_Blocked, s5)
          }
        })"

definition os_mutex_pend_resume :: "nat \<Rightarrow> tid \<Rightarrow> os_state \<Rightarrow> os_error \<times> os_state" where
  "os_mutex_pend_resume i current s =
     (let s1 = upd_task current (\<lambda>k. k\<lparr>t_flags := t_flags k AND NOT OS_TASK_FLAG_MUTEX_WAIT\<rparr>) s in
      (if mu_owner (os_mutexes s1 i) = Some current then OS_OK else OS_TIMEOUT, s1))"

partial_function (option) os_mutex_delete_loop :: "nat \<Rightarrow> os_state \<Rightarrow> os_state option" where
  "os_mutex_delete_loop i s =
     (case queue_first (obj_head s (ObjMutex i)) of
        None \<Rightarrow> Some s
      | Some rdy \<Rightarrow>
          if t_obj (os_tasks s rdy) = None then None
          else Option.bind (os_sched_wakeup rdy s) (\<lambda>s'. os_mutex_delete_loop i s'))"

definition os_mutex_delete :: "nat option \<Rightarrow> os_state \<Rightarrow> (os_error \<times> os_state) option" where
  "os_mutex_delete mu s =
     (if \<not> g_os_started s then Some (OS_NOT_STARTED, s)
      else case mu of
        None \<Rightarrow> Some (OS_INVALID_PARM, s)
      | Some i \<Rightarrow> do {
          let current = os_sched_get_current_task s;
          s1 \<leftarrow> (if mu_level (os_mutexes s i) \<noteq> 0 then do {
                   owner \<leftarrow> mu_owner (os_mutexes s i);
                   if task_prio s owner \<noteq> mu_prio (os_mutexes s i)
                   then os_sched_resort owner
                          (upd_task owner (\<lambda>k. k\<lparr>t_prio := mu_prio (os_mutexes s i)\<rparr>) s)
                   else Some s
                 } else Some s);
          s2 \<leftarrow> os_mutex_delete_loop i s1;
          let nx = os_sched_next_task s2;
          s3 \<leftarrow> (if nx \<noteq> current then os_sched nx False s2 else Some s2);
          Some (OS_OK, s3)
        })"

subsection \<open>Invariant\<close>

definition mutex_ok :: "os_state \<Rightarrow> nat \<Rightarrow> bool" where
  "mutex_ok s i \<longleftrightarrow>
     (if mu_level (os_mutexes s i) = 0
      then mu_owner (os_mutexes s i) = None \<and> obj_head s (ObjMutex i) = []
      else case mu_owner (os_mutexes s i) of
             None \<Rightarrow> False
           | Some t \<Rightarrow> live s t \<and> t \<notin> set (obj_head s (ObjMutex i)))"

definition mutex_inv :: "os_state \<Rightarrow> bool" where
  "mutex_inv s \<longleftrightarrow> (\<forall>i. mutex_ok s i)"

text \<open>The state in which a released mutex has its new owner, before the scheduler runs.\<close>

definition mutex_handed :: "nat \<Rightarrow> tid \<Rightarrow> os_state \<Rightarrow> os_state" where
  "mutex_handed i c s =
     (let s1 = (if task_prio s c \<noteq> mu_prio (os_mutexes s i)
                then reprio c (mu_prio (os_mutexes s i)) s else s)
      in case obj_head s (ObjMutex i) of
           [] \<Rightarrow> upd_mutex i (\<lambda>m. m\<lparr>mu_owner := None\<rparr>) s1
         | w # _ \<Rightarrow> upd_mutex i (\<lambda>m. m\<lparr>mu_owner := Some w\<rparr>)
             (upd_mutex i (\<lambda>m. m\<lparr>mu_level := 1, mu_prio := task_prio s1 w\<rparr>) (woken w s1)))"

text \<open>
  Concrete systems for the witnesses: mutex 0 owned by task 2, then also wanted by task 1; and
  mutexes 0 and 1 held by task 1, whose priority 15 had been raised to 10 when it took mutex 1.
\<close>

definition sample_owned :: os_state where
  "sample_owned = upd_mutex 0 (\<lambda>_. \<lparr>mu_prio = 20, mu_level = 1, mu_owner = Some 2\<rparr>) sample_os"

definition sample_contended :: os_state where
  "sample_contended = snd (the (os_mutex_pend (Some 0) OS_TIMEOUT_NEVER sample_owned))"

definition sample_nested :: os_state where
  "sample_nested = upd_mutex 0 (\<lambda>_. \<lparr>mu_prio = 15, mu_level = 1, mu_owner = Some 1\<rparr>)
     (upd_mutex 1 (\<lambda>_. \<lparr>mu_prio = 10, mu_level = 1, mu_owner = Some 1\<rparr>) sample_os)"

subsection \<open>Lemmas\<close>

lemma os_mutex_hand_over:
  fixes i :: nat and c :: tid and s :: os_state
  assumes inv: "os_inv idle s" and c: "g_current_task s = Some c"
  defines "s' \<equiv> mutex_handed i c s"
  shows "os_mutex_hand_over i c s = Some (switched c (hd (g_os_run_list s')) s')"
    and "os_inv idle (switched c (hd (g_os_run_list s')) s')"
    and "obj_head s' = (obj_head s)(ObjMutex i := tl (obj_head s (ObjMutex i)))"
    and "os_sems s' = os_sems s"
    and "\<forall>j. j \<noteq> i \<longrightarrow> os_mutexes s' j = os_mutexes s j"
proof -
  let ?p = "mu_prio (os_mutexes s i)"
  define s1 where "s1 = (if task_prio s c \<noteq> ?p then reprio c ?p s else s)"
  have live: "live s c" using os_inv_hd(2) [OF inv c] by (simp add: live_def)
  note r = maybe_reprio [OF os_inv_sched [OF inv] live, of "task_prio s c \<noteq> ?p" ?p, folded s1_def]
  have s1: "obj_head s1 = obj_head s" "g_current_task s1 = Some c" "g_os_started s1"
    "set (g_os_run_list s1) = set (g_os_run_list s)" "os_mutexes s1 = os_mutexes s"
    "live s1 = live s" "\<And>t. t_obj (os_tasks s1 t) = t_obj (os_tasks s t)" "os_sems s1 = os_sems s"
    using c os_inv_started [OF inv] by (simp_all add: s1_def)
  have s': "s' = (case obj_head s (ObjMutex i) of
           [] \<Rightarrow> upd_mutex i (\<lambda>m. m\<lparr>mu_owner := None\<rparr>) s1
         | w # _ \<Rightarrow> upd_mutex i (\<lambda>m. m\<lparr>mu_owner := Some w\<rparr>)
             (upd_mutex i (\<lambda>m. m\<lparr>mu_level := 1, mu_prio := task_prio s1 w\<rparr>) (woken w s1)))"
    unfolding s'_def mutex_handed_def s1_def Let_def ..
  have "sched_inv 1 s' \<and> g_os_started s' \<and> idle \<in> set (g_os_run_list s') \<and>
      g_current_task s' = Some c \<and>
      os_mutex_hand_over i c s = (if os_sched_next_task s' \<noteq> Some c
        then os_sched (os_sched_next_task s') False s' else Some s') \<and>
      obj_head s' = (obj_head s)(ObjMutex i := tl (obj_head s (ObjMutex i))) \<and>
      os_sems s' = os_sems s \<and> (\<forall>j. j \<noteq> i \<longrightarrow> os_mutexes s' j = os_mutexes s j)"
  proof (cases "obj_head s (ObjMutex i)")
    case Nil
    then show ?thesis
      using r s1 os_inv_idle [OF inv] by (auto simp: s' os_mutex_hand_over_def Let_def)
  next
    case (Cons w ws)
    then have w: "obj_head s1 (ObjMutex i) = w # ws" using s1 by simp
    note w' = waiter_woken [OF r(2) w]
    have lw: "live s w" using live_waiter [OF os_inv_sched [OF inv], of w "ObjMutex i"] Cons by simp
    have "obj_head (woken w s1) = (obj_head s)(ObjMutex i := ws)"
      using w'(3,4) s1(1) by (auto simp: fun_eq_iff)
    with Cons show ?thesis
      using r s1 os_inv_idle [OF inv] w' w lw
      by (auto simp: s' os_mutex_hand_over_def Let_def)
  qed
  then show "os_mutex_hand_over i c s = Some (switched c (hd (g_os_run_list s')) s')"
    "os_inv idle (switched c (hd (g_os_run_list s')) s')"
    "obj_head s' = (obj_head s)(ObjMutex i := tl (obj_head s (ObjMutex i)))"
    "os_sems s' = os_sems s"
    "\<forall>j. j \<noteq> i \<longrightarrow> os_mutexes s' j = os_mutexes s j"
    using os_sched_head [of s' idle c] by auto
qed

lemma task_frame_mutex_handed:
  assumes "sched_inv lo s" shows "task_frame {} s (mutex_handed i c s)"
proof -
  let ?p = "mu_prio (os_mutexes s i)"
  define s1 where "s1 = (if task_prio s c \<noteq> ?p then reprio c ?p s else s)"
  have s1: "task_frame {} s s1" "sched_inv lo s1" "obj_head s1 = obj_head s"
    using assms by (auto simp: s1_def sched_inv_reprio)
  show ?thesis
  proof (cases "obj_head s (ObjMutex i)")
    case Nil
    with s1(1) show ?thesis unfolding mutex_handed_def Let_def s1_def [symmetric] by simp
  next
    case (Cons w ws)
    then have "task_frame {} s1 (woken w s1)"
      using waiter_not_deep [OF s1(2), of w "ObjMutex i"] s1(3) by (simp add: task_frame_woken)
    from task_frame_trans [OF s1(1) this] Cons show ?thesis
      unfolding mutex_handed_def Let_def s1_def [symmetric] by simp
  qed
qed

lemma mutex_okD:
  assumes "mutex_inv s"
  shows "mu_level (os_mutexes s i) = 0 \<Longrightarrow> mu_owner (os_mutexes s i) = None"
    "mu_level (os_mutexes s i) = 0 \<Longrightarrow> obj_head s (ObjMutex i) = []"
    "mu_owner (os_mutexes s i) = Some t \<Longrightarrow> mu_level (os_mutexes s i) \<noteq> 0"
    "mu_owner (os_mutexes s i) = Some t \<Longrightarrow> live s t"
    "mu_owner (os_mutexes s i) = Some t \<Longrightarrow> t \<notin> set (obj_head s (ObjMutex i))"
    "mu_level (os_mutexes s i) \<noteq> 0 \<Longrightarrow> \<exists>t. mu_owner (os_mutexes s i) = Some t"
  using assms [unfolded mutex_inv_def, rule_format, of i]
  by (auto simp: mutex_ok_def split: if_splits option.splits)

lemma mutex_ok_frame:
  assumes "mutex_ok s j" "os_mutexes s' j = os_mutexes s j"
    "set (obj_head s' (ObjMutex j)) \<subseteq> set (obj_head s (ObjMutex j))" "\<forall>t. live s' t = live s t"
  shows "mutex_ok s' j"
  using assms by (auto simp: mutex_ok_def split: option.splits if_splits)

lemma mutex_ok_switched [simp]: "mutex_ok (switched c nx s) i = mutex_ok s i"
  by (simp add: mutex_ok_def split: option.split)

lemma mutex_handed_simps:
  assumes "os_inv idle s"
  shows "mu_level (os_mutexes s i) = 0 \<Longrightarrow> mutex_ok (mutex_handed i c s) i"
    "mu_owner (os_mutexes (mutex_handed i c s) i) = queue_first (obj_head s (ObjMutex i))"
    "mu_level (os_mutexes (mutex_handed i c s) i) =
       (if obj_head s (ObjMutex i) = [] then mu_level (os_mutexes s i) else 1)"
    "task_prio (mutex_handed i c s) t = (if t = c then mu_prio (os_mutexes s i) else task_prio s t)"
    "set (take 1 (obj_head s (ObjMutex i))) \<subseteq> set (g_os_run_list (mutex_handed i c s))"
proof -
  have obj: "w \<in> set (obj_head s (ObjMutex i)) \<Longrightarrow>
      t_obj (os_tasks s w) = Some (ObjMutex i) \<and> live s w" for w
    using waiter_obj [OF os_inv_sched [OF assms]] live_waiter [OF os_inv_sched [OF assms]] by blast
  have "distinct (obj_head s (ObjMutex i))"
    using assms by (simp add: os_inv_def sched_inv_def obj_inv_def)
  with obj show "mu_level (os_mutexes s i) = 0 \<Longrightarrow> mutex_ok (mutex_handed i c s) i"
    by (cases "obj_head s (ObjMutex i)") (auto simp: mutex_ok_def mutex_handed_def Let_def)
qed (auto simp: mutex_handed_def Let_def split: list.splits)

lemma os_mutex_release_owner:
  assumes inv: "os_inv idle s" and m: "mutex_inv s" and c: "g_current_task s = Some c"
    and own: "mu_owner (os_mutexes s i) = Some c" and level: "mu_level (os_mutexes s i) = 1"
  shows "\<exists>s'. os_mutex_release (Some i) s = Some (OS_OK, s') \<and> os_inv idle s' \<and> mutex_inv s' \<and>
     task_frame {} s s' \<and> os_sems s' = os_sems s \<and>
     (\<forall>j. j \<noteq> i \<longrightarrow> os_mutexes s' j = os_mutexes s j) \<and>
     obj_head s' = (obj_head s)(ObjMutex i := tl (obj_head s (ObjMutex i))) \<and>
     mu_owner (os_mutexes s' i) = queue_first (obj_head s (ObjMutex i)) \<and>
     mu_level (os_mutexes s' i) = (if obj_head s (ObjMutex i) = [] then 0 else 1) \<and>
     task_prio s' c = mu_prio (os_mutexes s i) \<and>
     set (take 1 (obj_head s (ObjMutex i))) \<subseteq> set (g_os_run_list s')"
proof -
  let ?s1 = "upd_mutex i (\<lambda>m. m\<lparr>mu_level := mu_level m - 1\<rparr>) s"
  have s1: "os_inv idle ?s1" "g_current_task ?s1 = Some c" "mu_level (os_mutexes ?s1 i) = 0"
    using inv c level by simp_all
  define F where "F = mutex_handed i c ?s1"
  define S where "S = switched c (hd (g_os_run_list F)) F"
  note h = os_mutex_hand_over [OF s1(1,2), of i, folded F_def, folded S_def]
  note e = mutex_handed_simps [OF s1(1), of i c, folded F_def]
  have fr: "task_frame {} s (switched c (hd (g_os_run_list F)) F)"
    using task_frame_trans [OF _ task_frame_mutex_handed [OF os_inv_sched [OF s1(1)]]]
    by (simp add: F_def)
  have F: "obj_head S = (obj_head s)(ObjMutex i := tl (obj_head s (ObjMutex i)))"
    "task_frame {} s S" "os_sems S = os_sems s" "\<And>j. j \<noteq> i \<Longrightarrow> os_mutexes S j = os_mutexes s j"
    "mu_owner (os_mutexes S i) = queue_first (obj_head s (ObjMutex i))"
    "mu_level (os_mutexes S i) = (if obj_head s (ObjMutex i) = [] then 0 else 1)"
    "task_prio S c = mu_prio (os_mutexes s i)" "mutex_ok S i"
    "set (take 1 (obj_head s (ObjMutex i))) \<subseteq> set (g_os_run_list S)"
    using h(3-5) e s1(3) fr by (simp_all add: S_def)
  have rel: "os_mutex_release (Some i) s = Some (OS_OK, S)"
    using h(1) os_inv_started [OF inv] c own level
    by (simp add: os_mutex_release_def os_sched_get_current_task_def Let_def)
  have "mutex_ok S j" for j
  proof (cases "j = i")
    case False
    show ?thesis
    proof (rule mutex_ok_frame [of s])
      show "mutex_ok s j" using m by (simp add: mutex_inv_def)
    qed (use F False in \<open>simp_all add: task_frame_def\<close>)
  qed (use F(8) in simp)
  then have "mutex_inv S" unfolding mutex_inv_def by blast
  with rel h(2) F show ?thesis by simp
qed

lemma os_mutex_pend_blocked:
  assumes inv: "os_inv idle s" and c: "g_current_task s = Some c" "c \<noteq> idle"
    and own: "mu_level (os_mutexes s i) \<noteq> 0" "mu_owner (os_mutexes s i) = Some t" "t \<noteq> c"
    and live: "live s t" and n: "n \<noteq> 0"
  defines "s1 \<equiv> if task_prio s t > task_prio s c then reprio t (task_prio s c) s else s"
  shows "os_inv idle s1" "g_current_task s1 = Some c"
    and "os_mutex_pend (Some i) n s =
      Some (Pend_Blocked, blocked (ObjMutex i) OS_TASK_FLAG_MUTEX_WAIT n c s1)"
proof -
  note r = maybe_reprio [OF os_inv_sched [OF inv] live,
      of "task_prio s t > task_prio s c" "task_prio s c", folded s1_def]
  show s1: "os_inv idle s1" "g_current_task s1 = Some c"
    using inv os_inv_reprio_other [OF inv c(1) own(3), of "task_prio s c"] c by (auto simp: s1_def)
  have "upd_task c (\<lambda>k. k\<lparr>t_obj := Some (ObjMutex i),
        t_flags := t_flags k OR OS_TASK_FLAG_MUTEX_WAIT\<rparr>)
      (upd_obj_head (ObjMutex i) (prio_insert s1 c (obj_head s1 (ObjMutex i))) s1) =
      linked (ObjMutex i) OS_TASK_FLAG_MUTEX_WAIT c s1"
    by (simp add: linked_def upd_defs)
  with os_inv_started [OF inv] own n c(1) block_steps [OF s1 c(2)] r(1)
  show "os_mutex_pend (Some i) n s =
      Some (Pend_Blocked, blocked (ObjMutex i) OS_TASK_FLAG_MUTEX_WAIT n c s1)"
    by (simp add: os_mutex_pend_def os_sched_get_current_task_def Let_def)
qed

lemma os_mutex_pend_waits:
  assumes inv: "os_inv idle s" and m: "mutex_inv s"
    and c: "g_current_task s = Some c" "c \<noteq> idle"
    and own: "mu_owner (os_mutexes s i) = Some t" "t \<noteq> c" and n: "timeout_ok n"
  shows "\<exists>s'. os_mutex_pend (Some i) n s = Some (Pend_Blocked, s') \<and> os_inv idle s' \<and> mutex_inv s' \<and>
     os_mutexes s' = os_mutexes s \<and> os_sems s' = os_sems s \<and> task_frame {c} s s' \<and>
     obj_head s' = (obj_head s)(ObjMutex i := obj_head s' (ObjMutex i)) \<and>
     mset (obj_head s' (ObjMutex i)) = add_mset c (mset (obj_head s (ObjMutex i))) \<and>
     task_prio s' t = min (task_prio s t) (task_prio s c) \<and>
     (\<forall>x. t_obj (os_tasks s' x) = (if x = c then Some (ObjMutex i) else t_obj (os_tasks s x))) \<and>
     c \<in> set (g_os_sleep_list s') \<and> g_current_task s' \<noteq> Some c"
proof -
  have level: "mu_level (os_mutexes s i) \<noteq> 0" "live s t" "n \<noteq> 0"
    using mutex_okD [OF m] own n by (auto simp: timeout_ok_def OS_TIMEOUT_NEVER_def)
  define s1 where "s1 = (if task_prio s t > task_prio s c then reprio t (task_prio s c) s else s)"
  note b = os_mutex_pend_blocked [OF inv c level(1) own level(2,3), folded s1_def]
  define S where "S = blocked (ObjMutex i) OS_TASK_FLAG_MUTEX_WAIT n c s1"
  have s1: "os_mutexes s1 = os_mutexes s" "os_sems s1 = os_sems s" "obj_head s1 = obj_head s"
    "live s1 = live s" "\<And>x. t_obj (os_tasks s1 x) = t_obj (os_tasks s x)"
    "task_prio s1 t = min (task_prio s t) (task_prio s c)"
    by (auto simp: s1_def min_def)
  note e = blocked_simps [OF b(1,2) c(2), where n = n and ob = "ObjMutex i" and
      f = OS_TASK_FLAG_MUTEX_WAIT, folded S_def]
  have S: "os_mutexes S = os_mutexes s" "os_sems S = os_sems s" "live S = live s"
    "obj_head S = (obj_head s)(ObjMutex i := prio_insert s1 c (obj_head s (ObjMutex i)))"
    "task_prio S t = min (task_prio s t) (task_prio s c)"
    "\<And>x. t_obj (os_tasks S x) = (if x = c then Some (ObjMutex i) else t_obj (os_tasks s x))"
    using e s1 live_blocked [OF b(1,2), of "ObjMutex i" OS_TASK_FLAG_MUTEX_WAIT n]
    by (auto simp: S_def blocked_def Let_def)
  have "mutex_ok S j" for j
  proof (cases "j = i")
    case True
    then show ?thesis
      using S own level mutex_okD(5) [OF m own(1)] by (simp add: mutex_ok_def)
  next
    case False
    show ?thesis
    proof (rule mutex_ok_frame [of s])
      show "mutex_ok s j" using m by (simp add: mutex_inv_def)
    qed (use S False in simp_all)
  qed
  then have "mutex_inv S" unfolding mutex_inv_def by blast
  moreover have "task_frame {c} s S"
    using task_frame_trans [OF _ task_frame_blocked [OF b(1,2)], of s] by (simp add: S_def s1_def)
  ultimately show ?thesis
    using b(3) S e(7,8) prio_queue.mset_ins os_inv_blocked [OF b(1,2) c(2) n, of OS_TASK_FLAG_MUTEX_WAIT "ObjMutex i"]
    by (simp add: S_def [symmetric])
qed

lemma os_mutex_delete_loop_woken:
  "sched_inv lo s \<Longrightarrow> obj_head s (ObjMutex i) = ws \<Longrightarrow>
   os_mutex_delete_loop i s = Some (fold woken ws s)"
proof (induction ws arbitrary: s)
  case (Cons w ws)
  note w = waiter_woken [OF Cons.prems]
  from Cons.IH [OF w(2,3)] w(1,5) Cons.prems(2) show ?case
    by (simp add: os_mutex_delete_loop.simps [of i s])
qed (simp add: os_mutex_delete_loop.simps)

lemma os_mutex_delete_all:
  assumes inv: "os_inv idle s" and m: "mutex_inv s"
  shows "\<exists>s'. os_mutex_delete (Some i) s = Some (OS_OK, s') \<and> os_inv idle s' \<and> mutex_inv s' \<and>
     os_mutexes s' = os_mutexes s \<and> os_sems s' = os_sems s \<and> task_frame {} s s' \<and>
     obj_head s' = (obj_head s)(ObjMutex i := []) \<and>
     set (obj_head s (ObjMutex i)) \<subseteq> set (g_os_run_list s') \<and>
     (\<forall>t. mu_owner (os_mutexes s i) = Some t \<longrightarrow> task_prio s' t = mu_prio (os_mutexes s i))"
proof -
  obtain c where c: "g_current_task s = Some c" by (rule os_inv_current [OF inv])
  let ?p = "mu_prio (os_mutexes s i)" and ?ws = "obj_head s (ObjMutex i)"
  obtain s1 where s1: "sched_inv 1 s1" "obj_head s1 = obj_head s" "g_current_task s1 = Some c"
    "g_os_started s1" "set (g_os_run_list s1) = set (g_os_run_list s)" "os_mutexes s1 = os_mutexes s"
    "task_frame {} s s1" "os_sems s1 = os_sems s"
    "\<forall>t. mu_owner (os_mutexes s i) = Some t \<longrightarrow> task_prio s1 t = ?p"
    "(if mu_level (os_mutexes s i) \<noteq> 0 then do {
        owner \<leftarrow> mu_owner (os_mutexes s i);
        if task_prio s owner \<noteq> ?p then os_sched_resort owner (upd_task owner (\<lambda>k. k\<lparr>t_prio := ?p\<rparr>) s)
        else Some s } else Some s) = Some s1"
  proof (cases "mu_owner (os_mutexes s i)")
    case None
    then have "mu_level (os_mutexes s i) = 0" using mutex_okD(6) [OF m] by fastforce
    with None show ?thesis using that [of s] inv c by (simp add: os_inv_def)
  next
    case (Some t)
    note o = mutex_okD(3,4) [OF m Some]
    show ?thesis
      using that [of "if task_prio s t \<noteq> ?p then reprio t ?p s else s"] Some o c
        maybe_reprio [OF os_inv_sched [OF inv] o(2), of "task_prio s t \<noteq> ?p" ?p] os_inv_started [OF inv]
      by (auto split: if_splits)
  qed
  let ?s2 = "fold woken ?ws s1"
  have ws: "obj_head s1 (ObjMutex i) = ?ws" using s1(2) by simp
  note w = woken_all [OF s1(1) ws]
  have fr: "g_current_task ?s2 = Some c" "g_os_started ?s2" "idle \<in> set (g_os_run_list ?s2)"
    "os_mutexes ?s2 = os_mutexes s" "os_sems ?s2 = os_sems s" "\<And>x. task_prio ?s2 x = task_prio s1 x"
    using w s1 os_inv_idle [OF inv] by (auto simp: same_frame_def)
  note h = os_sched_head [OF conjunct1 [OF w] fr(2,3,1)]
  define S where "S = switched c (hd (g_os_run_list ?s2)) ?s2"
  have rel: "os_mutex_delete (Some i) s = Some (OS_OK, S)"
    using os_inv_started [OF inv] c s1(10) os_mutex_delete_loop_woken [OF s1(1) ws] h(1)
    by (simp add: os_mutex_delete_def os_sched_get_current_task_def Let_def S_def)
  have S: "obj_head S = (obj_head s)(ObjMutex i := [])" "os_mutexes S = os_mutexes s"
    "os_sems S = os_sems s" "task_frame {} s S" "set ?ws \<subseteq> set (g_os_run_list S)"
    "\<And>x. task_prio S x = task_prio s1 x"
    using w s1(2) fr task_frame_trans [OF s1(7) task_frame_woken_all [OF s1(1) ws]]
    by (simp_all add: fun_eq_iff S_def)
  have "mutex_ok S j" for j
  proof (rule mutex_ok_frame [of s])
    show "mutex_ok s j" using m by (simp add: mutex_inv_def)
  qed (use S in \<open>simp_all add: task_frame_def\<close>)
  then have "mutex_inv S" unfolding mutex_inv_def by blast
  with rel h(3) S s1(9) show ?thesis by (simp add: S_def [symmetric])
qed

lemma sample_owned_inv:
  "os_inv 0 sample_owned" "mutex_inv sample_owned" "g_current_task sample_owned = Some 1"
  "mu_owner (os_mutexes sample_owned 0) = Some 2" "task_prio sample_owned 1 = 10"
  "task_prio sample_owned 2 = 20" "obj_head sample_owned ob = []"
  using os_inv_sample
  by (simp_all add: sample_owned_def)
   (auto simp: sample_os_def mutex_inv_def mutex_ok_def live_def sample_task_def)

lemma sample_contended_eq:
  "sample_contended = blocked (ObjMutex 0) OS_TASK_FLAG_MUTEX_WAIT OS_TIMEOUT_NEVER 1
     (reprio 2 10 sample_owned)"
  and sample_contended_inv:
    "os_inv 0 sample_contended" "mutex_inv sample_contended"
    "mu_owner (os_mutexes sample_contended 0) = Some 2"
    "mu_level (os_mutexes sample_contended 0) = 1"
    "mu_prio (os_mutexes sample_contended 0) = 20"
    "obj_head sample_contended (ObjMutex 0) = [1]"
proof -
  note o = sample_owned_inv
  have "mu_level (os_mutexes sample_owned 0) \<noteq> 0" "live sample_owned 2"
    using mutex_okD(3,4) [OF o(2,4)] by auto
  from os_mutex_pend_blocked(3) [OF o(1,3) _ this(1) o(4) _ this(2), of OS_TIMEOUT_NEVER]
  have p: "os_mutex_pend (Some 0) OS_TIMEOUT_NEVER sample_owned = Some (Pend_Blocked,
      blocked (ObjMutex 0) OS_TASK_FLAG_MUTEX_WAIT OS_TIMEOUT_NEVER 1 (reprio 2 10 sample_owned))"
    by (simp add: o [unfolded One_nat_def] OS_TIMEOUT_NEVER_def)
  then show "sample_contended = blocked (ObjMutex 0) OS_TASK_FLAG_MUTEX_WAIT OS_TIMEOUT_NEVER 1
     (reprio 2 10 sample_owned)"
    by (simp add: sample_contended_def)
  from os_mutex_pend_waits [OF o(1-3) _ o(4), of OS_TIMEOUT_NEVER]
  obtain s' where s': "os_mutex_pend (Some 0) OS_TIMEOUT_NEVER sample_owned = Some (Pend_Blocked, s')"
    "os_inv 0 s'" "mutex_inv s'" "os_mutexes s' = os_mutexes sample_owned"
    "mset (obj_head s' (ObjMutex 0)) = {#1#}"
    by (auto simp: timeout_ok_def o)
  then have "sample_contended = s'" by (simp add: sample_contended_def)
  with s' show "os_inv 0 sample_contended" "mutex_inv sample_contended"
    "mu_owner (os_mutexes sample_contended 0) = Some 2"
    "mu_level (os_mutexes sample_contended 0) = 1"
    "mu_prio (os_mutexes sample_contended 0) = 20"
    "obj_head sample_contended (ObjMutex 0) = [1]"
    by (simp_all add: sample_owned_def)
qed

lemma sample_contended_current: "g_current_task sample_contended = Some 2"
  unfolding sample_contended_eq
  by (simp add: blocked_def Let_def run_list_reprio sample_owned_def sample_os_def sample_task_def
      prio_insert_def)

text \<open>
  C10: Mutex release. The owner that leaves its outermost level gets the priority that the mutex
  saved when this task became its owner, and the mutex goes to the first waiting task, which becomes
  ready and owns it at level one; without a waiting task the mutex is free. No other mutex and no
  semaphore changes. The saved priority is the one the task had at that time; when it held another
  mutex then, this can be an inherited one (\<open>nested_release_keeps_boost\<close>).
\<close>

theorem os_mutex_release_hands_over:
  assumes "os_inv idle s" "mutex_inv s" "g_current_task s = Some c"
    and "mu_owner (os_mutexes s i) = Some c" "mu_level (os_mutexes s i) = 1"
  shows "\<exists>s'. os_mutex_release (Some i) s = Some (OS_OK, s') \<and> os_inv idle s' \<and> mutex_inv s' \<and>
     task_prio s' c = mu_prio (os_mutexes s i) \<and>
     mu_owner (os_mutexes s' i) = queue_first (obj_head s (ObjMutex i)) \<and>
     mu_level (os_mutexes s' i) = (if obj_head s (ObjMutex i) = [] then 0 else 1) \<and>
     obj_head s' = (obj_head s)(ObjMutex i := tl (obj_head s (ObjMutex i))) \<and>
     set (take 1 (obj_head s (ObjMutex i))) \<subseteq> set (g_os_run_list s') \<and>
     os_sems s' = os_sems s \<and> (\<forall>j. j \<noteq> i \<longrightarrow> os_mutexes s' j = os_mutexes s j)"
  using os_mutex_release_owner [OF assms] by blast

theorem os_mutex_release_hands_over_witness:
  "\<exists>s'. os_mutex_release (Some 0) sample_contended = Some (OS_OK, s') \<and>
     mu_owner (os_mutexes s' 0) = Some 1 \<and> task_prio s' 2 = 20 \<and> 1 \<in> set (g_os_run_list s')"
  using os_mutex_release_hands_over [OF sample_contended_inv(1,2) sample_contended_current
    sample_contended_inv(3,4)]
  by (auto simp: sample_contended_inv)

text \<open>
  C11: Priority inheritance. A task that pends on a mutex owned by another task goes to sleep on
  its wait list, the owner gets the priority of the waiting task when that is the higher one, and
  ownership is untouched.
\<close>

theorem os_mutex_pend_inherits:
  assumes "os_inv idle s" "mutex_inv s" "g_current_task s = Some c" "c \<noteq> idle"
    and "mu_owner (os_mutexes s i) = Some t" "t \<noteq> c" "timeout_ok n"
  shows "\<exists>s'. os_mutex_pend (Some i) n s = Some (Pend_Blocked, s') \<and> os_inv idle s' \<and> mutex_inv s' \<and>
     task_prio s' t = min (task_prio s t) (task_prio s c) \<and> os_mutexes s' = os_mutexes s \<and>
     mset (obj_head s' (ObjMutex i)) = add_mset c (mset (obj_head s (ObjMutex i))) \<and>
     c \<in> set (g_os_sleep_list s') \<and> g_current_task s' \<noteq> Some c"
  using os_mutex_pend_waits [OF assms] by blast

theorem os_mutex_pend_inherits_witness:
  "\<exists>s'. os_mutex_pend (Some 0) 5 sample_owned = Some (Pend_Blocked, s') \<and>
     task_prio s' 2 = 10 \<and> g_current_task s' \<noteq> Some 1"
  using os_mutex_pend_inherits [OF sample_owned_inv(1-3) _ sample_owned_inv(4), of 5]
  by (auto simp: sample_owned_inv [unfolded One_nat_def] timeout_ok_def)

text \<open>
  Deleting a mutex makes every waiting task ready, gives its owner the saved priority back, and
  leaves the owner and the nesting level as they were.
\<close>

lemma os_mutex_delete_contended:
  "\<exists>s'. os_mutex_delete (Some 0) sample_contended = Some (OS_OK, s') \<and>
     1 \<in> set (g_os_run_list s') \<and> task_prio s' 2 = 20 \<and> mu_owner (os_mutexes s' 0) = Some 2"
  using os_mutex_delete_all [OF sample_contended_inv(1,2), of 0]
  by (auto simp: sample_contended_inv)

text \<open>
  Finding: a mutex saves the priority its owner has when it takes the mutex, which may be an
  inherited one. Released in the order of acquisition, two mutexes leave the owner at the
  inherited priority although it holds no mutex any more.
\<close>

lemma nested_release_keeps_boost:
  "\<exists>s1 s2. os_mutex_release (Some 0) sample_nested = Some (OS_OK, s1) \<and> task_prio s1 1 = 15 \<and>
     os_mutex_release (Some 1) s1 = Some (OS_OK, s2) \<and> task_prio s2 1 = 10 \<and>
     (\<forall>i. mu_owner (os_mutexes s2 i) \<noteq> Some 1)"
  by (simp add: sample_nested_def sample_os_def os_mutex_release_def os_mutex_hand_over_def
      os_sched_get_current_task_def sample_task_def os_sched_resort_def os_sched_insert_def
      prio_insert_def os_sched_next_task_def Let_def queue_remove_def upd_defs)

end
