(* ===== verification/Os_Eventq.thy ===== *)
theory Os_Eventq
  imports Os_Mutex
begin

text \<open>
  Event queues, \<^verbatim>\<open>libs/os/src/os_eventq.c\<close>. The loop of \<^verbatim>\<open>os_eventq_get\<close> leaves the model when the
  task sleeps; \<open>os_eventq_get_resume\<close> is the jump back after the task runs again. The invariant ties the flag \<^verbatim>\<open>ev_queued\<close> to membership
  in a queue and the registered consumer of a queue to a sleeping task; under it events come out
  in the order they were put and none is lost or duplicated.
\<close>

subsection \<open>os_eventq.c\<close>

definition OS_EVENT_QUEUED :: "os_state \<Rightarrow> nat \<Rightarrow> bool" where
  "OS_EVENT_QUEUED s e \<longleftrightarrow> ev_queued (os_events s e) \<noteq> 0"

definition os_eventq_init :: "nat \<Rightarrow> os_state \<Rightarrow> os_state" where
  "os_eventq_init q s = upd_eventq q (\<lambda>_. \<lparr>evq_task = None, evq_list = []\<rparr>) s"

definition os_eventq_put2 :: "nat \<Rightarrow> nat \<Rightarrow> bool \<Rightarrow> os_state \<Rightarrow> os_state option" where
  "os_eventq_put2 q e isr s =
     (if OS_EVENT_QUEUED s e then Some s
      else
        let s1 = upd_event e (\<lambda>v. v\<lparr>ev_queued := 1\<rparr>) s;
            s2 = upd_eventq q (\<lambda>k. k\<lparr>evq_list := evq_list k @ [e]\<rparr>) s1
        in (case evq_task (os_eventqs s2 q) of
              None \<Rightarrow> Some s2
            | Some t \<Rightarrow> do {
                s3 \<leftarrow> os_sched_wakeup t s2;
                os_sched None isr (upd_eventq q (\<lambda>k. k\<lparr>evq_task := None\<rparr>) s3)
              }))"

definition os_eventq_put :: "nat \<Rightarrow> nat \<Rightarrow> os_state \<Rightarrow> os_state option" where
  "os_eventq_put q e s = os_eventq_put2 q e False s"

datatype get_result = Get_Event nat | Get_Blocked

definition os_eventq_get :: "nat \<Rightarrow> os_state \<Rightarrow> (get_result \<times> os_state) option" where
  "os_eventq_get q s =
     (case queue_first (evq_list (os_eventqs s q)) of
        Some e \<Rightarrow> do {
          es \<leftarrow> queue_remove e (evq_list (os_eventqs s q));
          Some (Get_Event e, upd_event e (\<lambda>v. v\<lparr>ev_queued := 0\<rparr>)
                  (upd_eventq q (\<lambda>k. k\<lparr>evq_list := es\<rparr>) s))
        }
      | None \<Rightarrow> do {
          let s1 = upd_eventq q (\<lambda>k. k\<lparr>evq_task := os_sched_get_current_task s\<rparr>) s;
          t \<leftarrow> evq_task (os_eventqs s1 q);
          s2 \<leftarrow> os_sched_sleep t OS_TIMEOUT_NEVER s1;
          s3 \<leftarrow> os_sched None False s2;
          Some (Get_Blocked, s3)
        })"

definition os_eventq_get_resume :: "nat \<Rightarrow> os_state \<Rightarrow> (get_result \<times> os_state) option" where
  "os_eventq_get_resume q s = os_eventq_get q (upd_eventq q (\<lambda>k. k\<lparr>evq_task := None\<rparr>) s)"

definition os_eventq_remove :: "nat \<Rightarrow> nat \<Rightarrow> os_state \<Rightarrow> os_state option" where
  "os_eventq_remove q e s = do {
     s1 \<leftarrow> (if OS_EVENT_QUEUED s e then do {
              es \<leftarrow> queue_remove e (evq_list (os_eventqs s q));
              Some (upd_eventq q (\<lambda>k. k\<lparr>evq_list := es\<rparr>) s)
            } else Some s);
     Some (upd_event e (\<lambda>v. v\<lparr>ev_queued := 0\<rparr>) s1)
   }"

subsection \<open>Invariant and effects\<close>

definition evq_wf :: "os_state \<Rightarrow> bool" where
  "evq_wf s \<longleftrightarrow> (\<forall>q. distinct (evq_list (os_eventqs s q))) \<and>
     (\<forall>q q' e. e \<in> set (evq_list (os_eventqs s q)) \<longrightarrow> e \<in> set (evq_list (os_eventqs s q')) \<longrightarrow> q = q') \<and>
     (\<forall>e. OS_EVENT_QUEUED s e \<longleftrightarrow> (\<exists>q. e \<in> set (evq_list (os_eventqs s q))))"

definition evq_tasks :: "os_state \<Rightarrow> bool" where
  "evq_tasks s \<longleftrightarrow>
     (\<forall>q t. evq_task (os_eventqs s q) = Some t \<longrightarrow> deep s t \<and> evq_list (os_eventqs s q) = []) \<and>
     (\<forall>q q' t. evq_task (os_eventqs s q) = Some t \<longrightarrow> evq_task (os_eventqs s q') = Some t \<longrightarrow> q = q')"

definition evq_inv :: "os_state \<Rightarrow> bool" where
  "evq_inv s \<longleftrightarrow> evq_wf s \<and> evq_tasks s"

text \<open>What holds all through an interrupt handler, where the current task need not be the head.\<close>

definition isr_inv :: "nat \<Rightarrow> tid \<Rightarrow> os_state \<Rightarrow> bool" where
  "isr_inv lo idle s \<longleftrightarrow> sched_inv lo s \<and> g_os_started s \<and> idle \<in> set (g_os_run_list s) \<and>
     g_current_task s \<noteq> None"

definition ev_posted :: "nat \<Rightarrow> nat \<Rightarrow> os_state \<Rightarrow> os_state" where
  "ev_posted q e s = upd_eventq q (\<lambda>k. k\<lparr>evq_list := evq_list k @ [e]\<rparr>)
     (upd_event e (\<lambda>v. v\<lparr>ev_queued := 1\<rparr>) s)"

text \<open>A task that sleeps with a timeout.\<close>

definition timed :: "os_state \<Rightarrow> tid \<Rightarrow> bool" where
  "timed s t \<longleftrightarrow> t \<in> set (g_os_sleep_list s) \<and> \<not> no_timeout s t"

definition evq_frame :: "os_state \<Rightarrow> os_state \<Rightarrow> bool" where
  "evq_frame s s' \<longleftrightarrow> os_sems s' = os_sems s \<and> os_mutexes s' = os_mutexes s \<and>
     obj_head s' = obj_head s \<and> live s' = live s \<and>
     (\<forall>t. t_obj (os_tasks s' t) = t_obj (os_tasks s t)) \<and> os_callouts s' = os_callouts s \<and>
     g_callout_list s' = g_callout_list s \<and> g_os_time s' = g_os_time s \<and>
     (\<forall>t. timed s t \<longrightarrow> timed s' t \<and> t_next_wakeup (os_tasks s' t) = t_next_wakeup (os_tasks s t))"

definition ev_taken :: "nat \<Rightarrow> nat \<Rightarrow> os_state \<Rightarrow> os_state" where
  "ev_taken q e s = upd_event e (\<lambda>v. v\<lparr>ev_queued := 0\<rparr>)
     (upd_eventq q (\<lambda>k. k\<lparr>evq_list := remove1 e (evq_list k)\<rparr>) s)"

text \<open>A get that finds an event.\<close>

definition eventq_take :: "nat \<Rightarrow> os_state \<Rightarrow> (nat \<times> os_state) option" where
  "eventq_take q s =
     (case os_eventq_get q s of Some (Get_Event e, s') \<Rightarrow> Some (e, s') | _ \<Rightarrow> None)"

subsection \<open>Lemmas\<close>

lemma timed_simps [simp]:
  "timed (switched cur nx s) = timed s"
  "timed (upd_event e ge s) = timed s"
  "timed (upd_eventq q gq s) = timed s"
  "timed (upd_callout c gc s) = timed s"
  "timed (s\<lparr>g_callout_list := cs\<rparr>) = timed s"
  by (auto simp: timed_def no_timeout_def fun_eq_iff)

lemma ev_posted_simps [simp]:
  "sched_inv lo (ev_posted q e s) = sched_inv lo s"
  "os_inv idle (ev_posted q e s) = os_inv idle s"
  "deep (ev_posted q e s) = deep s" "live (ev_posted q e s) = live s"
  "g_os_run_list (ev_posted q e s) = g_os_run_list s"
  "g_os_sleep_list (ev_posted q e s) = g_os_sleep_list s"
  "g_current_task (ev_posted q e s) = g_current_task s"
  "g_os_started (ev_posted q e s) = g_os_started s"
  "g_os_time (ev_posted q e s) = g_os_time s"
  "os_callouts (ev_posted q e s) = os_callouts s"
  "g_callout_list (ev_posted q e s) = g_callout_list s"
  "os_sems (ev_posted q e s) = os_sems s"
  "os_mutexes (ev_posted q e s) = os_mutexes s"
  "obj_head (ev_posted q e s) = obj_head s"
  "evq_task (os_eventqs (ev_posted q e s) x) = evq_task (os_eventqs s x)"
  "evq_list (os_eventqs (ev_posted q e s) x) =
     (if x = q then evq_list (os_eventqs s q) @ [e] else evq_list (os_eventqs s x))"
  "OS_EVENT_QUEUED (ev_posted q e s) x = (x = e \<or> OS_EVENT_QUEUED s x)"
  "timed (ev_posted q e s) = timed s"
  by (simp_all add: ev_posted_def OS_EVENT_QUEUED_def)

lemma os_sched_head_lo:
  assumes "isr_inv lo idle s" "g_current_task s = Some c"
  shows "os_sched None isr s = Some (switched c (hd (g_os_run_list s)) s)"
    and "isr_inv lo idle (switched c (hd (g_os_run_list s)) s)"
proof -
  have "os_sched_next_task s = Some (hd (g_os_run_list s))"
    using assms(1) by (cases "g_os_run_list s") (auto simp: os_sched_next_task_def isr_inv_def)
  then show "os_sched None isr s = Some (switched c (hd (g_os_run_list s)) s)"
    using os_sched_switched [OF assms(2), of None] by simp
  show "isr_inv lo idle (switched c (hd (g_os_run_list s)) s)"
    using assms by (simp add: isr_inv_def)
qed

lemma evq_wf_cong:
  assumes "\<And>q. evq_list (os_eventqs s' q) = evq_list (os_eventqs s q)"
    "\<And>e. OS_EVENT_QUEUED s' e = OS_EVENT_QUEUED s e"
  shows "evq_wf s' = evq_wf s"
  using assms by (simp add: evq_wf_def)

lemma evq_inv_cong:
  assumes "os_eventqs s' = os_eventqs s" "os_events s' = os_events s"
    and "\<And>q t. evq_task (os_eventqs s q) = Some t \<Longrightarrow> deep s t \<Longrightarrow> deep s' t"
    and "evq_inv s"
  shows "evq_inv s'"
  using assms evq_wf_cong [of s' s] by (auto simp: evq_inv_def evq_tasks_def OS_EVENT_QUEUED_def)

lemma evq_inv_posted:
  assumes "evq_wf s" "\<not> OS_EVENT_QUEUED s e" shows "evq_wf (ev_posted q e s)"
  using assms by (auto simp: evq_wf_def split: if_splits)

lemma evq_consumer:
  assumes "evq_inv s" "evq_task (os_eventqs s q) = Some t"
  shows "deep s t" "evq_list (os_eventqs s q) = []"
    "evq_task (os_eventqs s q') = Some t \<Longrightarrow> q' = q"
  using assms by (auto simp: evq_inv_def evq_tasks_def)

lemma deep_asleep: "deep s t \<Longrightarrow> t \<in> set (g_os_sleep_list s)" "deep s t \<Longrightarrow> t_obj (os_tasks s t) = None"
  "deep s t \<Longrightarrow> live s t"
  by (simp_all add: deep_def live_def)

lemma isr_inv_os_inv: "os_inv idle s \<Longrightarrow> isr_inv 1 idle s"
  by (auto simp: os_inv_def isr_inv_def elim: os_inv_current)

lemma queued_iff:
  "evq_inv s \<Longrightarrow> OS_EVENT_QUEUED s e \<longleftrightarrow> (\<exists>q. e \<in> set (evq_list (os_eventqs s q)))"
  unfolding evq_inv_def evq_wf_def by blast

lemma os_eventq_put2_wakes:
  assumes inv: "isr_inv lo idle s" and ev: "evq_inv s" and q: "\<not> OS_EVENT_QUEUED s e"
    and t: "evq_task (os_eventqs s q) = Some t"
  shows "\<exists>s'. os_eventq_put2 q e isr s = Some s' \<and> isr_inv lo idle s' \<and> evq_inv s' \<and> evq_frame s s' \<and>
     g_current_task s' = queue_first (g_os_run_list s') \<and> t \<in> set (g_os_run_list s') \<and>
     (\<forall>x t. evq_task (os_eventqs s' x) = Some t \<longrightarrow> evq_task (os_eventqs s x) = Some t) \<and>
     (\<forall>x. evq_list (os_eventqs s' x) = (if x = q then evq_list (os_eventqs s x) @ [e]
                                       else evq_list (os_eventqs s x)))"
proof -
  let ?s1 = "ev_posted q e s"
  define s2 where "s2 = upd_eventq q (\<lambda>k. k\<lparr>evq_task := None\<rparr>) (woken t ?s1)"
  define s' where "s' = switched (the (g_current_task s)) (hd (g_os_run_list s2)) s2"
  obtain c where c: "g_current_task s = Some c" using inv by (auto simp: isr_inv_def)
  note d = evq_consumer [OF ev t] and a = deep_asleep [OF evq_consumer(1) [OF ev t]]
  have s1: "sched_inv lo ?s1" "t \<in> set (g_os_sleep_list ?s1)"
    using inv a(1) by (simp_all add: isr_inv_def)
  have dist: "distinct (g_os_sleep_list ?s1)"
    using s1(1) by (simp add: sched_inv_def lists_inv_def)
  have wake: "os_sched_wakeup t ?s1 = Some (woken t ?s1)"
    using s1 by (intro os_sched_wakeup_woken) (simp_all add: sched_inv_def)
  have s2: "isr_inv lo idle s2" "g_current_task s2 = Some c"
    "\<And>x. evq_list (os_eventqs s2 x) = (if x = q then evq_list (os_eventqs s x) @ [e]
       else evq_list (os_eventqs s x))"
    "\<And>x. evq_task (os_eventqs s2 x) = (if x = q then None else evq_task (os_eventqs s x))"
    "\<And>x. deep s2 x \<longleftrightarrow> x \<noteq> t \<and> deep s x" "live s2 = live s" "t \<in> set (g_os_run_list s2)"
    "\<And>x. OS_EVENT_QUEUED s2 x = (x = e \<or> OS_EVENT_QUEUED s x)"
    "os_sems s2 = os_sems s" "os_mutexes s2 = os_mutexes s" "os_callouts s2 = os_callouts s"
    "g_callout_list s2 = g_callout_list s" "g_os_time s2 = g_os_time s"
    using inv c sched_inv_woken [OF s1] a(3) dist
    by (auto simp: s2_def isr_inv_def OS_EVENT_QUEUED_def ev_posted_def)
  have obj: "obj_head s2 = obj_head s" "\<And>x. t_obj (os_tasks s2 x) = t_obj (os_tasks s x)"
    using a(2) by (auto simp: s2_def fun_eq_iff ev_posted_def)
  have timed: "timed s2 x \<and> t_next_wakeup (os_tasks s2 x) = t_next_wakeup (os_tasks s x)"
    if "timed s x" for x
    using that d(1)
    by (cases "x = t") (auto simp: s2_def timed_def deep_def ev_posted_def no_timeout_def)
  have "evq_wf s2 = evq_wf ?s1" by (rule evq_wf_cong) (simp_all add: s2(3,8))
  then have "evq_wf s2" using evq_inv_posted [of s e q] ev q by (simp add: evq_inv_def)
  moreover have "evq_tasks s2"
    using ev d(3) t s2(3-5) by (auto simp: evq_tasks_def evq_inv_def split: if_splits)
  ultimately have "evq_inv s2" by (simp add: evq_inv_def)
  then have "evq_inv s'" by (rule evq_inv_cong [rotated 3]) (simp_all add: s'_def)
  moreover have "os_eventq_put2 q e isr s = Some s'"
    using os_sched_head_lo(1) [OF s2(1,2)] q t wake c
    by (simp add: os_eventq_put2_def Let_def ev_posted_def [symmetric] s2_def [symmetric] s'_def)
  moreover have "evq_frame s s'" using s2 obj timed by (simp add: evq_frame_def s'_def)
  moreover have "g_current_task s' = queue_first (g_os_run_list s')"
    using s2(2,7) c by (cases "g_os_run_list s2") (auto simp: s'_def)
  ultimately show ?thesis
    using os_sched_head_lo(2) [OF s2(1,2)] s2(3,4,7) c by (simp add: s'_def)
qed

lemma os_eventq_put2_posts:
  assumes inv: "isr_inv lo idle s" and ev: "evq_inv s"
  shows "\<exists>s'. os_eventq_put2 q e isr s = Some s' \<and> isr_inv lo idle s' \<and> evq_inv s' \<and> evq_frame s s' \<and>
     (g_current_task s = queue_first (g_os_run_list s) \<longrightarrow>
      g_current_task s' = queue_first (g_os_run_list s')) \<and>
     (\<forall>x. OS_EVENT_QUEUED s' x \<longrightarrow> x = e \<or> OS_EVENT_QUEUED s x) \<and>
     (\<forall>x t. evq_task (os_eventqs s' x) = Some t \<longrightarrow> evq_task (os_eventqs s x) = Some t) \<and>
     (\<forall>x. evq_list (os_eventqs s' x) = (if x = q \<and> \<not> OS_EVENT_QUEUED s e
        then evq_list (os_eventqs s x) @ [e] else evq_list (os_eventqs s x)))"
proof (cases "OS_EVENT_QUEUED s e")
  case True
  then show ?thesis using inv ev by (simp add: os_eventq_put2_def evq_frame_def)
next
  case new: False
  show ?thesis
  proof (cases "evq_task (os_eventqs s q)")
    case None
    have "os_eventq_put2 q e isr s = Some (ev_posted q e s)"
      using new None by (simp add: os_eventq_put2_def Let_def ev_posted_def)
    moreover have "isr_inv lo idle (ev_posted q e s)" using inv by (simp add: isr_inv_def)
    moreover have "evq_inv (ev_posted q e s)"
      using evq_inv_posted [of s e q] new ev None by (auto simp: evq_inv_def evq_tasks_def)
    moreover have "evq_frame s (ev_posted q e s)"
      by (simp add: evq_frame_def) (simp add: ev_posted_def)
    ultimately show ?thesis using new by simp
  next
    case (Some t)
    from os_eventq_put2_wakes [OF inv ev new Some, of isr] obtain s' where s':
      "os_eventq_put2 q e isr s = Some s'" "isr_inv lo idle s'" "evq_inv s'" "evq_frame s s'"
      "g_current_task s' = queue_first (g_os_run_list s')"
      "\<forall>x t. evq_task (os_eventqs s' x) = Some t \<longrightarrow> evq_task (os_eventqs s x) = Some t"
      "\<forall>x. evq_list (os_eventqs s' x) = (if x = q then evq_list (os_eventqs s x) @ [e]
                                       else evq_list (os_eventqs s x))"
      by blast
    have "OS_EVENT_QUEUED s' x \<longrightarrow> x = e \<or> OS_EVENT_QUEUED s x" for x
      unfolding queued_iff [OF s'(3)] queued_iff [OF ev] using s'(7) by auto
    with s' new show ?thesis by simp
  qed
qed

lemma os_inv_isr: "os_inv idle s \<longleftrightarrow>
    isr_inv 1 idle s \<and> g_current_task s = queue_first (g_os_run_list s)"
  using isr_inv_os_inv [of idle s] unfolding os_inv_def isr_inv_def by blast

lemma evq_inv_taken:
  assumes "evq_inv s" "e \<in> set (evq_list (os_eventqs s q))"
  shows "evq_inv (ev_taken q e s)"
proof -
  have q: "OS_EVENT_QUEUED (ev_taken q e s) x = (x \<noteq> e \<and> OS_EVENT_QUEUED s x)" for x
    by (simp add: ev_taken_def OS_EVENT_QUEUED_def)
  have l: "evq_list (os_eventqs (ev_taken q e s) x) =
      (if x = q then remove1 e (evq_list (os_eventqs s q)) else evq_list (os_eventqs s x))"
    "evq_task (os_eventqs (ev_taken q e s) x) = evq_task (os_eventqs s x)"
    "deep (ev_taken q e s) = deep s" for x
    by (simp_all add: ev_taken_def)
  have "evq_tasks (ev_taken q e s)"
    using assms by (auto simp: evq_inv_def evq_tasks_def l)
  moreover have "evq_wf (ev_taken q e s)"
    using assms unfolding evq_inv_def evq_wf_def q l by (auto split: if_splits)
  ultimately show ?thesis by (simp add: evq_inv_def)
qed

lemma os_eventq_get_first:
  assumes "os_inv idle s" "evq_inv s" "evq_list (os_eventqs s q) = e # es"
  shows "os_eventq_get q s = Some (Get_Event e, ev_taken q e s)"
    "os_inv idle (ev_taken q e s)" "evq_inv (ev_taken q e s)" "evq_frame s (ev_taken q e s)"
    "evq_list (os_eventqs (ev_taken q e s) x) =
       (if x = q then es else evq_list (os_eventqs s x))"
proof -
  have "upd_eventq q (\<lambda>k. k\<lparr>evq_list := es\<rparr>) s =
      upd_eventq q (\<lambda>k. k\<lparr>evq_list := remove1 e (evq_list k)\<rparr>) s"
    using assms(3) by (simp add: upd_eventq_def)
  then show "os_eventq_get q s = Some (Get_Event e, ev_taken q e s)"
    using assms(3) by (simp add: os_eventq_get_def ev_taken_def)
  show "evq_inv (ev_taken q e s)" using assms by (intro evq_inv_taken) simp_all
qed (use assms in \<open>simp_all add: os_eventq_get_def ev_taken_def evq_frame_def\<close>)

lemma os_eventq_get_blocks:
  assumes inv: "os_inv idle s" and ev: "evq_inv s" and c: "g_current_task s = Some c" "c \<noteq> idle"
    and empty: "evq_list (os_eventqs s q) = []" and free: "evq_task (os_eventqs s q) = None"
  shows "\<exists>s'. os_eventq_get q s = Some (Get_Blocked, s') \<and> os_inv idle s' \<and> evq_inv s' \<and>
     evq_frame s s' \<and> deep s' c \<and>
     (\<forall>x. evq_task (os_eventqs s' x) = (if x = q then Some c else evq_task (os_eventqs s x))) \<and>
     (\<forall>x. evq_list (os_eventqs s' x) = evq_list (os_eventqs s x))"
proof -
  let ?s1 = "upd_eventq q (\<lambda>k. k\<lparr>evq_task := Some c\<rparr>) s"
  define s2 where "s2 = slept c OS_TIMEOUT_NEVER ?s1"
  define s' where "s' = switched c (hd (g_os_run_list s2)) s2"
  note h = os_inv_hd [OF inv c(1)]
  have s1: "sched_inv 1 ?s1" using os_inv_sched [OF inv] by simp
  then have obj: "obj_inv ?s1" by (simp add: sched_inv_def)
  note nobj = obj_inv_not_asleep [OF obj, of c]
  have sleep: "os_sched_sleep c OS_TIMEOUT_NEVER ?s1 = Some s2"
    unfolding s2_def using h by (intro os_sched_sleep_slept) simp_all
  have "sched_inv 1 s2"
    unfolding s2_def using s1 obj_inv_pre [OF obj] h
    by (intro sched_inv_slept) (auto simp: sched_inv_def OS_TIMEOUT_NEVER_def)
  then have s2: "sched_inv 1 s2" "g_os_started s2" "idle \<in> set (g_os_run_list s2)"
    "g_current_task s2 = Some c"
    using os_inv_started [OF inv] os_inv_idle [OF inv] c by (simp_all add: s2_def)
  note sch = os_sched_head [OF s2, folded s'_def]
  have get: "os_eventq_get q s = Some (Get_Blocked, s')"
    using empty c(1) sleep sch(2) by (simp add: os_eventq_get_def os_sched_get_current_task_def)
  have deep: "deep s' x \<longleftrightarrow> x = c \<or> deep s x" for x
    using nobj h(3) by (auto simp: s'_def s2_def deep_def sleep_list_slept no_timeout_def slept_def)
  have q: "evq_task (os_eventqs s' x) = (if x = q then Some c else evq_task (os_eventqs s x))"
    "evq_list (os_eventqs s' x) = evq_list (os_eventqs s x)"
    "OS_EVENT_QUEUED s' e = OS_EVENT_QUEUED s e" for x e
    by (simp_all add: s'_def s2_def OS_EVENT_QUEUED_def)
  have "\<not> deep s c" using h(3) by (simp add: deep_def)
  then have "evq_tasks s'"
    using ev empty by (auto simp: evq_inv_def evq_tasks_def q deep split: if_splits)
  moreover have "evq_wf s'" using ev evq_wf_cong [of s' s] q by (simp add: evq_inv_def)
  moreover have "evq_frame s s'"
    using h(2,3) by (auto simp: evq_frame_def s'_def s2_def live_def fun_eq_iff sleep_list_slept
        timed_def no_timeout_def slept_def dest: in_set_remove1 [THEN iffD2, rotated] set_remove1_subset [THEN subsetD])
  ultimately show ?thesis using get sch(3) q(1,2) deep [of c] by (simp add: evq_inv_def)
qed

interpretation evq: fifo "\<lambda>s. os_inv idle s \<and> evq_inv s" "\<lambda>s. evq_list (os_eventqs s q)"
  "\<lambda>s e. \<not> OS_EVENT_QUEUED s e" "os_eventq_put q" "eventq_take q" for idle q
proof
  fix s e assume s: "os_inv idle s \<and> evq_inv s" and e: "\<not> OS_EVENT_QUEUED s e"
  from os_eventq_put2_posts [of 1 idle s q e False] s e
  show "\<exists>s'. os_eventq_put q e s = Some s' \<and> (os_inv idle s' \<and> evq_inv s') \<and>
      evq_list (os_eventqs s' q) = evq_list (os_eventqs s q) @ [e] \<and>
      (\<forall>y. y \<noteq> e \<longrightarrow> \<not> OS_EVENT_QUEUED s y \<longrightarrow> \<not> OS_EVENT_QUEUED s' y)"
    by (auto simp: os_eventq_put_def os_inv_isr)
next
  fix s e es assume "os_inv idle s \<and> evq_inv s" "evq_list (os_eventqs s q) = e # es"
  with os_eventq_get_first [of idle s q e es]
  show "\<exists>s'. eventq_take q s = Some (e, s') \<and> (os_inv idle s' \<and> evq_inv s') \<and>
      evq_list (os_eventqs s' q) = es"
    by (simp add: eventq_take_def)
qed

text \<open>
  C8: Event queues are first in, first out. Events that are not queued yet come out of
  \<^verbatim>\<open>os_eventq_get\<close> in the order in which \<^verbatim>\<open>os_eventq_put\<close> queued them, behind the events that were
  there before, each exactly once, whether or not a task was waiting.
\<close>

theorem os_eventq_fifo:
  assumes "os_inv idle s" "evq_inv s" "distinct es" "\<forall>e \<in> set es. \<not> OS_EVENT_QUEUED s e"
  shows "\<exists>s1 s2. put_all (os_eventq_put q) es s = Some s1 \<and>
     get_n (eventq_take q) (length (evq_list (os_eventqs s q)) + length es) s1 =
       Some (evq_list (os_eventqs s q) @ es, s2) \<and> evq_list (os_eventqs s2 q) = []"
  by (rule evq.fifo_order) (use assms in auto)

lemma evq_inv_sample: "evq_inv sample_os"
  by (simp add: evq_inv_def evq_wf_def evq_tasks_def OS_EVENT_QUEUED_def sample_os_def)

theorem os_eventq_fifo_witness:
  "\<exists>s1 s2. put_all (os_eventq_put 0) [7, 5, 6] sample_os = Some s1 \<and>
     get_n (eventq_take 0) 3 s1 = Some ([7, 5, 6], s2)"
proof -
  have "evq_list (os_eventqs sample_os 0) = []" "\<not> OS_EVENT_QUEUED sample_os e" for e
    by (simp_all add: sample_os_def OS_EVENT_QUEUED_def)
  then show ?thesis
    using os_eventq_fifo [OF os_inv_sample evq_inv_sample, of "[7, 5, 6]" 0]
    by (auto simp: numeral_3_eq_3 simp del: get_n.simps put_all.simps)
qed

text \<open>
  C9: A task that finds its event queue empty sleeps without a timeout, registered as the
  consumer of the queue, and the next put of a fresh event makes it ready again; when it runs,
  \<^verbatim>\<open>os_eventq_get\<close> returns that event.
\<close>

theorem os_eventq_get_wakes:
  assumes inv: "os_inv idle s" and ev: "evq_inv s" and c: "g_current_task s = Some c" "c \<noteq> idle"
    and empty: "evq_list (os_eventqs s q) = []" and free: "evq_task (os_eventqs s q) = None"
    and e: "\<not> OS_EVENT_QUEUED s e"
  shows "\<exists>s1 s2. os_eventq_get q s = Some (Get_Blocked, s1) \<and> c \<in> set (g_os_sleep_list s1) \<and>
     os_eventq_put q e s1 = Some s2 \<and> c \<in> set (g_os_run_list s2) \<and> os_inv idle s2 \<and> evq_inv s2 \<and>
     (\<exists>s3. os_eventq_get_resume q s2 = Some (Get_Event e, s3))"
proof -
  from os_eventq_get_blocks [OF inv ev c empty free] obtain s1 where s1:
    "os_eventq_get q s = Some (Get_Blocked, s1)" "os_inv idle s1" "evq_inv s1"
    "evq_task (os_eventqs s1 q) = Some c" "deep s1 c"
    "\<forall>x. evq_list (os_eventqs s1 x) = evq_list (os_eventqs s x)"
    by auto
  have "\<not> OS_EVENT_QUEUED s1 e" using e queued_iff [OF ev] queued_iff [OF s1(3)] s1(6) by simp
  from os_eventq_put2_wakes [OF isr_inv_os_inv [OF s1(2)] s1(3) this s1(4), of False]
  obtain s2 where s2: "os_eventq_put q e s1 = Some s2" "os_inv idle s2" "evq_inv s2"
    "c \<in> set (g_os_run_list s2)" "evq_list (os_eventqs s2 q) = [e]"
    using s1(6) empty by (auto simp: os_eventq_put_def os_inv_isr)
  have "\<exists>s3. os_eventq_get_resume q s2 = Some (Get_Event e, s3)"
    using s2(5) by (simp add: os_eventq_get_resume_def os_eventq_get_def)
  with s1 s2 deep_asleep(1) show ?thesis by blast
qed

theorem os_eventq_get_wakes_witness:
  "\<exists>s1 s2. os_eventq_get 0 sample_os = Some (Get_Blocked, s1) \<and> 1 \<in> set (g_os_sleep_list s1) \<and>
     os_eventq_put 0 7 s1 = Some s2 \<and> 1 \<in> set (g_os_run_list s2) \<and>
     (\<exists>s3. os_eventq_get_resume 0 s2 = Some (Get_Event 7, s3))"
  using os_eventq_get_wakes [OF os_inv_sample evq_inv_sample, of 1 0 7]
  by (auto simp: sample_os_def OS_EVENT_QUEUED_def)

end
