(* ===== verification/Os_Callout.thy ===== *)
theory Os_Callout
  imports Os_Eventq
begin

text \<open>
  Callouts, \<^verbatim>\<open>libs/os/src/os_callout.c\<close>, and the tick interrupt that drives them, the sleeping
  tasks and the scheduler. The invariant keeps the callout list in the order of expiry; a tick
  moves exactly the callouts that are due to their event queues, and the loop that does it ends.
\<close>

subsection \<open>os_callout.c\<close>

definition OS_EVENT_T_TIMER :: u8 where "OS_EVENT_T_TIMER = 1"

definition os_callout_queued :: "os_state \<Rightarrow> nat \<Rightarrow> bool" where
  "os_callout_queued s c \<longleftrightarrow> c_linked (os_callouts s c)"

definition os_callout_init :: "nat \<Rightarrow> nat option \<Rightarrow> nat \<Rightarrow> os_state \<Rightarrow> os_state" where
  "os_callout_init c evq arg s =
     (let e = c_ev (os_callouts s c) in
      upd_callout c (\<lambda>k. k\<lparr>c_evq := evq, c_ticks := 0, c_linked := False\<rparr>)
        (upd_event e (\<lambda>_. \<lparr>ev_queued = 0, ev_type = OS_EVENT_T_TIMER, ev_arg = arg\<rparr>) s))"

definition os_callout_func_init ::
    "nat \<Rightarrow> nat option \<Rightarrow> nat \<Rightarrow> nat \<Rightarrow> os_state \<Rightarrow> os_state" where
  "os_callout_func_init cf evq timo_func arg s =
     (let s1 = os_callout_init cf evq arg s in s1\<lparr>cf_funcs := (cf_funcs s1)(cf := timo_func)\<rparr>)"

definition os_callout_stop :: "nat \<Rightarrow> os_state \<Rightarrow> os_state option" where
  "os_callout_stop c s = do {
     s1 \<leftarrow> (if os_callout_queued s c then do {
              cs \<leftarrow> queue_remove c (g_callout_list s);
              Some (upd_callout c (\<lambda>k. k\<lparr>c_linked := False\<rparr>) (s\<lparr>g_callout_list := cs\<rparr>))
            } else Some s);
     (case c_evq (os_callouts s1 c) of
        None \<Rightarrow> Some s1
      | Some q \<Rightarrow> os_eventq_remove q (c_ev (os_callouts s1 c)) s1)
   }"

definition os_callout_reset :: "nat \<Rightarrow> u32 \<Rightarrow> os_state \<Rightarrow> (os_error \<times> os_state) option" where
  "os_callout_reset c ticks s =
     (if sint ticks < 0 then Some (OS_EINVAL, s)
      else do {
        s1 \<leftarrow> os_callout_stop c s;
        let ticks' = (if ticks = 0 then 1 else ticks);
        let s2 = upd_callout c (\<lambda>k. k\<lparr>c_ticks := os_time_get s1 + ticks'\<rparr>) s1;
        let s3 = s2\<lparr>g_callout_list := insert_before
            (\<lambda>entry. OS_TIME_TICK_LT (c_ticks (os_callouts s2 c)) (c_ticks (os_callouts s2 entry)))
            c (g_callout_list s2)\<rparr>;
        Some (OS_OK, upd_callout c (\<lambda>k. k\<lparr>c_linked := True\<rparr>) s3)
      })"

text \<open>The loop of \<^verbatim>\<open>os_callout_tick\<close>: it ends at the first callout that is not yet due.\<close>

partial_function (option) os_callout_tick_loop :: "u32 \<Rightarrow> os_state \<Rightarrow> os_state option" where
  "os_callout_tick_loop now s =
     (case queue_first (g_callout_list s) of
        None \<Rightarrow> Some s
      | Some c \<Rightarrow>
          if OS_TIME_TICK_GEQ now (c_ticks (os_callouts s c)) then
            Option.bind (queue_remove c (g_callout_list s)) (\<lambda>cs.
              let s1 = upd_callout c (\<lambda>k. k\<lparr>c_linked := False\<rparr>) (s\<lparr>g_callout_list := cs\<rparr>) in
              Option.bind (c_evq (os_callouts s1 c)) (\<lambda>q.
                Option.bind (os_eventq_put2 q (c_ev (os_callouts s1 c)) True s1)
                  (\<lambda>s2. os_callout_tick_loop now s2)))
          else Some s)"

definition os_callout_tick :: "os_state \<Rightarrow> os_state option" where
  "os_callout_tick s = os_callout_tick_loop (os_time_get s) s"

text \<open>
  The tick interrupt, \<^verbatim>\<open>timer_handler\<close> of \<^verbatim>\<open>arch/cortex_m4/os_arch_arm.c\<close>. There the switch that the
  scheduler asks for is pending until the interrupt returns; the model counts it to the handler.
\<close>

definition timer_handler :: "os_state \<Rightarrow> os_state option" where
  "timer_handler s = do {
     let s1 = os_time_tick s;
     s2 \<leftarrow> os_callout_tick s1;
     s3 \<leftarrow> os_sched_os_timer_exp s2;
     os_sched None True s3
   }"

text \<open>Ticks until a callout expires.\<close>

definition c_in :: "os_state \<Rightarrow> nat \<Rightarrow> nat" where
  "c_in s c = unat (c_ticks (os_callouts s c) - g_os_time s)"

definition callout_list_inv :: "nat \<Rightarrow> os_state \<Rightarrow> bool" where
  "callout_list_inv lo s \<longleftrightarrow> distinct (g_callout_list s) \<and>
     (\<forall>c. os_callout_queued s c \<longleftrightarrow> c \<in> set (g_callout_list s)) \<and>
     sorted_wrt (\<lambda>a b. c_in s a \<le> c_in s b) (g_callout_list s) \<and>
     (\<forall>c \<in> set (g_callout_list s). lo \<le> c_in s c \<and> c_in s c < 2 ^ 31 \<and>
        c_evq (os_callouts s c) \<noteq> None)"

text \<open>The event of a callout is embedded in it, and is only ever queued on the callout's queue.\<close>

definition callout_events :: "os_state \<Rightarrow> bool" where
  "callout_events s \<longleftrightarrow> inj (\<lambda>c. c_ev (os_callouts s c)) \<and>
     (\<forall>c q. c_evq (os_callouts s c) = Some q \<longrightarrow> OS_EVENT_QUEUED s (c_ev (os_callouts s c)) \<longrightarrow>
        c_ev (os_callouts s c) \<in> set (evq_list (os_eventqs s q)))"

definition callout_inv :: "nat \<Rightarrow> os_state \<Rightarrow> bool" where
  "callout_inv lo s \<longleftrightarrow> callout_list_inv lo s \<and> callout_events s"

text \<open>What a tick of the callout list leaves alone.\<close>

definition callout_frame :: "os_state \<Rightarrow> os_state \<Rightarrow> bool" where
  "callout_frame s s' \<longleftrightarrow>
     (\<forall>q t. evq_task (os_eventqs s' q) = Some t \<longrightarrow> evq_task (os_eventqs s q) = Some t) \<and> os_sems s' = os_sems s \<and> os_mutexes s' = os_mutexes s \<and>
     obj_head s' = obj_head s \<and> live s' = live s \<and>
     (\<forall>t. t_obj (os_tasks s' t) = t_obj (os_tasks s t)) \<and> g_os_time s' = g_os_time s \<and>
     (\<forall>c. c_ev (os_callouts s' c) = c_ev (os_callouts s c) \<and>
          c_evq (os_callouts s' c) = c_evq (os_callouts s c) \<and>
          c_ticks (os_callouts s' c) = c_ticks (os_callouts s c)) \<and>
     (\<forall>t. timed s t \<longrightarrow> timed s' t \<and> t_next_wakeup (os_tasks s' t) = t_next_wakeup (os_tasks s t))"

text \<open>What setting and stopping callouts leaves alone.\<close>

definition same_kernel :: "os_state \<Rightarrow> os_state \<Rightarrow> bool" where
  "same_kernel s s' \<longleftrightarrow> os_sems s' = os_sems s \<and> os_mutexes s' = os_mutexes s \<and>
     obj_head s' = obj_head s \<and> os_tasks s' = os_tasks s \<and> g_os_run_list s' = g_os_run_list s \<and>
     g_os_sleep_list s' = g_os_sleep_list s \<and>
     (\<forall>q. evq_task (os_eventqs s' q) = evq_task (os_eventqs s q))"

text \<open>A callout taken off the list.\<close>

definition c_unlinked :: "nat \<Rightarrow> os_state \<Rightarrow> os_state" where
  "c_unlinked c s = upd_callout c (\<lambda>k. k\<lparr>c_linked := False\<rparr>)
     (s\<lparr>g_callout_list := remove1 c (g_callout_list s)\<rparr>)"

text \<open>The state after the event of a callout has been taken off its queue.\<close>

definition c_silenced :: "nat \<Rightarrow> os_state \<Rightarrow> os_state" where
  "c_silenced c s =
     (case c_evq (os_callouts s c) of
        None \<Rightarrow> s
      | Some q \<Rightarrow>
          let e = c_ev (os_callouts s c) in
          if OS_EVENT_QUEUED s e then ev_taken q e s else upd_event e (\<lambda>v. v\<lparr>ev_queued := 0\<rparr>) s)"

text \<open>A callout entered into the list.\<close>

definition c_armed :: "nat \<Rightarrow> u32 \<Rightarrow> os_state \<Rightarrow> os_state" where
  "c_armed c n s =
     (let s1 = upd_callout c (\<lambda>k. k\<lparr>c_ticks := g_os_time s + n\<rparr>) s
      in upd_callout c (\<lambda>k. k\<lparr>c_linked := True\<rparr>)
           (s1\<lparr>g_callout_list := insert_before
              (\<lambda>e. OS_TIME_TICK_LT (g_os_time s + n) (c_ticks (os_callouts s1 e)))
              c (g_callout_list s)\<rparr>))"

definition reset_ticks :: "u32 \<Rightarrow> u32" where
  "reset_ticks ticks = (if ticks = 0 then 1 else ticks)"

definition sample_delayed :: os_state where
  "sample_delayed = the (os_time_delay 1 sample_os)"

subsection \<open>Lemmas\<close>

lemma c_unlinked_simps [simp]:
  "g_callout_list (c_unlinked c s) = remove1 c (g_callout_list s)"
  "g_os_time (c_unlinked c s) = g_os_time s"
  "os_eventqs (c_unlinked c s) = os_eventqs s"
  "os_events (c_unlinked c s) = os_events s"
  "c_ev (os_callouts (c_unlinked c s) x) = c_ev (os_callouts s x)"
  "c_evq (os_callouts (c_unlinked c s) x) = c_evq (os_callouts s x)"
  "c_ticks (os_callouts (c_unlinked c s) x) = c_ticks (os_callouts s x)"
  "c_linked (os_callouts (c_unlinked c s) x) = (x \<noteq> c \<and> c_linked (os_callouts s x))"
  "isr_inv lo idle (c_unlinked c s) = isr_inv lo idle s"
  "os_inv idle (c_unlinked c s) = os_inv idle s"
  "deep (c_unlinked c s) = deep s"
  "OS_EVENT_QUEUED (c_unlinked c s) e = OS_EVENT_QUEUED s e"
  "c_in (c_unlinked c s) x = c_in s x"
  "callout_frame s0 (c_unlinked c s) = callout_frame s0 s"
  by (auto simp: c_unlinked_def isr_inv_def OS_EVENT_QUEUED_def c_in_def callout_frame_def)

lemma evq_inv_unlinked [simp]: "evq_inv s \<Longrightarrow> evq_inv (c_unlinked c s)"
  by (erule evq_inv_cong [rotated 3]) simp_all

lemma callout_inv_unlinked:
  "callout_inv lo s \<Longrightarrow> callout_inv lo (c_unlinked c s)"
  by (auto simp: callout_inv_def callout_list_inv_def callout_events_def os_callout_queued_def
      sorted_wrt_remove1)

lemma callout_list_inv_cong:
  assumes "g_callout_list s' = g_callout_list s" "os_callouts s' = os_callouts s"
    "g_os_time s' = g_os_time s"
  shows "callout_list_inv lo s' = callout_list_inv lo s"
  using assms by (simp add: callout_list_inv_def c_in_def os_callout_queued_def)

lemma callout_inv_posted:
  assumes "callout_inv lo s" "evq_frame s s'" "c_evq (os_callouts s c) = Some q"
    and "\<And>x. OS_EVENT_QUEUED s' x \<Longrightarrow> x = c_ev (os_callouts s c) \<or> OS_EVENT_QUEUED s x"
    and "\<And>x. set (evq_list (os_eventqs s x)) \<subseteq> set (evq_list (os_eventqs s' x))"
    and "c_ev (os_callouts s c) \<in> set (evq_list (os_eventqs s' q))"
  shows "callout_inv lo s'"
proof -
  have same: "os_callouts s' = os_callouts s" using assms(2) by (simp add: evq_frame_def)
  have "callout_list_inv lo s'"
    using callout_list_inv_cong [of s' s] assms(1,2) by (simp add: callout_inv_def evq_frame_def)
  moreover have "c_ev (os_callouts s c') \<in> set (evq_list (os_eventqs s' q'))"
    if "c_evq (os_callouts s c') = Some q'" "OS_EVENT_QUEUED s' (c_ev (os_callouts s c'))" for c' q'
  proof (cases "c_ev (os_callouts s c') = c_ev (os_callouts s c)")
    case True
    then have "c' = c" using assms(1) by (auto simp: callout_inv_def callout_events_def inj_def)
    with that assms(3,6) show ?thesis by simp
  next
    case False
    with that assms(1,4,5) show ?thesis by (fastforce simp: callout_inv_def callout_events_def)
  qed
  ultimately show ?thesis
    using assms(1) by (simp add: callout_inv_def callout_events_def same)
qed

text \<open>One round of the loop: a due callout is unlinked and its event is put.\<close>

lemma callout_fires:
  assumes inv: "isr_inv lo idle s" and ev: "evq_inv s" and co: "callout_inv 0 s"
    and c: "c \<in> set (g_callout_list s)" and q: "c_evq (os_callouts s c) = Some q"
  shows "\<exists>s'. os_eventq_put2 q (c_ev (os_callouts s c)) True (c_unlinked c s) = Some s' \<and>
     isr_inv lo idle s' \<and> evq_inv s' \<and> callout_inv 0 s' \<and> callout_frame s s' \<and>
     g_callout_list s' = remove1 c (g_callout_list s) \<and>
     (\<forall>x. set (evq_list (os_eventqs s x)) \<subseteq> set (evq_list (os_eventqs s' x))) \<and>
     c_ev (os_callouts s c) \<in> set (evq_list (os_eventqs s' q))"
proof -
  let ?s1 = "c_unlinked c s" and ?e = "c_ev (os_callouts s c)"
  have s1: "isr_inv lo idle ?s1" "evq_inv ?s1" "callout_inv 0 ?s1"
    using inv ev callout_inv_unlinked [OF co] by simp_all
  from os_eventq_put2_posts [OF s1(1,2), of q ?e True] obtain s' where s':
    "os_eventq_put2 q ?e True ?s1 = Some s'" "isr_inv lo idle s'" "evq_inv s'" "evq_frame ?s1 s'"
    "\<And>x. OS_EVENT_QUEUED s' x \<Longrightarrow> x = ?e \<or> OS_EVENT_QUEUED ?s1 x"
    "\<And>x t. evq_task (os_eventqs s' x) = Some t \<Longrightarrow> evq_task (os_eventqs ?s1 x) = Some t"
    "\<And>x. evq_list (os_eventqs s' x) = (if x = q \<and> \<not> OS_EVENT_QUEUED ?s1 ?e
        then evq_list (os_eventqs ?s1 x) @ [?e] else evq_list (os_eventqs ?s1 x))"
    by metis
  have sub: "set (evq_list (os_eventqs s x)) \<subseteq> set (evq_list (os_eventqs s' x))" for x
    by (auto simp: s'(7))
  have "?e \<in> set (evq_list (os_eventqs s q))" if "OS_EVENT_QUEUED s ?e"
    using co q that by (simp add: callout_inv_def callout_events_def)
  then have queued: "?e \<in> set (evq_list (os_eventqs s' q))" by (simp add: s'(7))
  have "callout_inv 0 s'"
    by (rule callout_inv_posted [OF s1(3) s'(4), of c q]) (use q s'(5) sub queued in simp_all)
  moreover have "callout_frame s s'" using s'(4,6)
    by (simp add: callout_frame_def evq_frame_def) (simp add: c_unlinked_def)
  ultimately show ?thesis using s'(1-4) sub queued by (simp add: evq_frame_def)
qed

lemma callout_frame_trans:
  "callout_frame s1 s2 \<Longrightarrow> callout_frame s2 s3 \<Longrightarrow> callout_frame s1 s3"
  by (simp add: callout_frame_def)

lemma callout_list_all_late:
  assumes "callout_inv 0 s" "g_callout_list s = c # cs" "c_in s c \<noteq> 0"
  shows "callout_inv 1 s" "\<forall>x \<in> set (c # cs). c_in s x \<noteq> 0"
  using assms by (auto simp: callout_inv_def callout_list_inv_def Suc_le_eq)

lemma callout_tick_loop:
  assumes "isr_inv lo idle s" "evq_inv s" "callout_inv 0 s" "g_callout_list s = cs"
  shows "\<exists>s'. os_callout_tick_loop (g_os_time s) s = Some s' \<and> isr_inv lo idle s' \<and> evq_inv s' \<and>
     callout_inv 1 s' \<and> callout_frame s s' \<and> g_callout_list s' = filter (\<lambda>c. c_in s c \<noteq> 0) cs \<and>
     (\<forall>x. set (evq_list (os_eventqs s x)) \<subseteq> set (evq_list (os_eventqs s' x))) \<and>
     (\<forall>c \<in> set cs. \<forall>q. c_in s c = 0 \<longrightarrow> c_evq (os_callouts s c) = Some q \<longrightarrow>
        c_ev (os_callouts s c) \<in> set (evq_list (os_eventqs s' q)))"
  using assms
proof (induction cs arbitrary: s)
  case Nil
  then have "callout_inv 1 s" by (simp add: callout_inv_def callout_list_inv_def)
  with Nil show ?case by (simp add: os_callout_tick_loop.simps [of _ s] callout_frame_def)
next
  case (Cons c cs)
  have c: "c_in s c < 2 ^ 31" "c_evq (os_callouts s c) \<noteq> None"
    using Cons.prems(3,4) by (auto simp: callout_inv_def callout_list_inv_def)
  then obtain q where q: "c_evq (os_callouts s c) = Some q" by blast
  have due: "OS_TIME_TICK_GEQ (g_os_time s) (c_ticks (os_callouts s c)) \<longleftrightarrow> c_in s c = 0"
    using c(1) tick_geq_now_iff by (simp add: c_in_def)
  show ?case
  proof (cases "c_in s c = 0")
    case False
    with callout_list_all_late [OF Cons.prems(3,4)] due Cons.prems show ?thesis
      by (auto simp: os_callout_tick_loop.simps [of _ s] callout_frame_def filter_id_conv)
  next
    case True
    from callout_fires [OF Cons.prems(1-3) _ q] Cons.prems(4) obtain s1 where s1:
      "os_eventq_put2 q (c_ev (os_callouts s c)) True (c_unlinked c s) = Some s1"
      "isr_inv lo idle s1" "evq_inv s1" "callout_inv 0 s1" "callout_frame s s1"
      "g_callout_list s1 = cs"
      "\<And>x. set (evq_list (os_eventqs s x)) \<subseteq> set (evq_list (os_eventqs s1 x))"
      "c_ev (os_callouts s c) \<in> set (evq_list (os_eventqs s1 q))"
      by auto
    have same: "g_os_time s1 = g_os_time s" "\<And>x. c_in s1 x = c_in s x"
      "\<And>x. c_evq (os_callouts s1 x) = c_evq (os_callouts s x)"
      "\<And>x. c_ev (os_callouts s1 x) = c_ev (os_callouts s x)"
      using s1(5) by (simp_all add: callout_frame_def c_in_def)
    have step: "os_callout_tick_loop (g_os_time s) s = os_callout_tick_loop (g_os_time s) s1"
      using True due q s1(1) Cons.prems(4)
      by (subst os_callout_tick_loop.simps) (simp add: c_unlinked_def Let_def)
    from Cons.IH [OF s1(2-4,6)] obtain s' where s':
      "os_callout_tick_loop (g_os_time s) s1 = Some s'" "isr_inv lo idle s'" "evq_inv s'"
      "callout_inv 1 s'" "callout_frame s1 s'" "g_callout_list s' = filter (\<lambda>c. c_in s c \<noteq> 0) cs"
      "\<And>x. set (evq_list (os_eventqs s1 x)) \<subseteq> set (evq_list (os_eventqs s' x))"
      "\<And>c q. c \<in> set cs \<Longrightarrow> c_in s c = 0 \<Longrightarrow> c_evq (os_callouts s c) = Some q \<Longrightarrow>
        c_ev (os_callouts s c) \<in> set (evq_list (os_eventqs s' q))"
      unfolding same by blast
    show ?thesis
      using step s'(1-6) callout_frame_trans [OF s1(5) s'(5)] True q s'(8)
        subset_trans [OF s1(7) s'(7)] subsetD [OF s'(7) s1(8)] by simp
  qed
qed

lemma tick_simps_time [simp]:
  "deep (os_time_tick s) = deep s" "timed (os_time_tick s) = timed s"
  "os_eventqs (os_time_tick s) = os_eventqs s" "os_events (os_time_tick s) = os_events s"
  "os_callouts (os_time_tick s) = os_callouts s" "live (os_time_tick s) = live s"
  "g_callout_list (os_time_tick s) = g_callout_list s" "g_os_run_list (os_time_tick s) = g_os_run_list s"
  "g_os_sleep_list (os_time_tick s) = g_os_sleep_list s" "g_os_started (os_time_tick s) = g_os_started s"
  "g_current_task (os_time_tick s) = g_current_task s" "g_os_time (os_time_tick s) = g_os_time s + 1"
  "os_sems (os_time_tick s) = os_sems s" "os_mutexes (os_time_tick s) = os_mutexes s"
  "obj_head (os_time_tick s) = obj_head s" "os_tasks (os_time_tick s) = os_tasks s"
  by (auto simp: os_time_tick_def deep_def timed_def no_timeout_def live_def fun_eq_iff)

lemma c_in_tick: "0 < c_in s c \<Longrightarrow> c_in (os_time_tick s) c = c_in s c - 1"
  unfolding c_in_def by (simp add: unat_until_tick)

lemma callout_inv_tick: assumes "callout_inv 1 s" shows "callout_inv 0 (os_time_tick s)"
proof -
  have "sorted_wrt (\<lambda>a b. c_in (os_time_tick s) a \<le> c_in (os_time_tick s) b) (g_callout_list s)"
  proof (rule sorted_wrt_mono_rel)
    show "sorted_wrt (\<lambda>a b. c_in s a \<le> c_in s b) (g_callout_list s)"
      using assms by (simp add: callout_inv_def callout_list_inv_def)
  qed (use assms in \<open>auto simp: callout_inv_def callout_list_inv_def c_in_tick\<close>)
  moreover have "c_in (os_time_tick s) c < 2 ^ 31" if "c \<in> set (g_callout_list s)" for c
  proof -
    have "1 \<le> c_in s c" "c_in s c < 2 ^ 31"
      using assms that by (auto simp: callout_inv_def callout_list_inv_def)
    then show ?thesis using c_in_tick [of s c] by linarith
  qed
  ultimately show ?thesis
    using assms by (auto simp: callout_inv_def callout_list_inv_def callout_events_def
        os_callout_queued_def OS_EVENT_QUEUED_def)
qed

lemma wake_in_tick: "0 < wake_in s t \<Longrightarrow> wake_in (os_time_tick s) t = wake_in s t - 1"
  unfolding wake_in_def by (simp add: unat_until_tick)

lemma os_callout_tick_fires:
  assumes inv: "os_inv idle s" and ev: "evq_inv s" and co: "callout_inv 1 s"
  shows "\<exists>s'. os_callout_tick (os_time_tick s) = Some s' \<and> isr_inv 0 idle s' \<and> evq_inv s' \<and>
     callout_inv 1 s' \<and> callout_frame (os_time_tick s) s' \<and>
     g_callout_list s' = filter (\<lambda>c. c_in s c \<noteq> 1) (g_callout_list s) \<and>
     (\<forall>c \<in> set (g_callout_list s). \<forall>q. c_in s c = 1 \<longrightarrow> c_evq (os_callouts s c) = Some q \<longrightarrow>
        c_ev (os_callouts s c) \<in> set (evq_list (os_eventqs s' q)))"
proof -
  let ?s1 = "os_time_tick s"
  have s1: "isr_inv 0 idle ?s1" "evq_inv ?s1" "callout_inv 0 ?s1"
    using sched_inv_tick [OF os_inv_sched [OF inv]] isr_inv_os_inv [OF inv] evq_inv_cong [OF _ _ _ ev]
      callout_inv_tick [OF co] by (simp_all add: isr_inv_def)
  have iff: "c_in ?s1 c = 0 \<longleftrightarrow> c_in s c = 1" if "c \<in> set (g_callout_list s)" for c
    using that co c_in_tick [of s c] by (auto simp: callout_inv_def callout_list_inv_def Suc_le_eq)
  have "filter (\<lambda>c. c_in ?s1 c \<noteq> 0) (g_callout_list s) = filter (\<lambda>c. c_in s c \<noteq> 1) (g_callout_list s)"
    by (rule filter_cong [OF refl]) (simp only: iff)
  with callout_tick_loop [OF s1 refl] iff show ?thesis
    by (simp add: os_callout_tick_def os_time_get_def) blast
qed

lemma timer_handler_ticks:
  assumes inv: "os_inv idle s" and ev: "evq_inv s" and co: "callout_inv 1 s"
  shows "\<exists>s'. timer_handler s = Some s' \<and> os_inv idle s' \<and> evq_inv s' \<and> callout_inv 1 s' \<and>
     g_os_time s' = g_os_time s + 1 \<and>
     g_callout_list s' = filter (\<lambda>c. c_in s c \<noteq> 1) (g_callout_list s) \<and>
     (\<forall>c \<in> set (g_callout_list s). \<forall>q. c_in s c = 1 \<longrightarrow> c_evq (os_callouts s c) = Some q \<longrightarrow>
        c_ev (os_callouts s c) \<in> set (evq_list (os_eventqs s' q))) \<and>
     (\<forall>t. timed s t \<longrightarrow> (if wake_in s t = 1 then t \<in> set (g_os_run_list s')
        else timed s' t \<and> wake_in s' t = wake_in s t - 1)) \<and>
     (\<forall>c. c_ev (os_callouts s' c) = c_ev (os_callouts s c) \<and>
          c_evq (os_callouts s' c) = c_evq (os_callouts s c) \<and>
          c_ticks (os_callouts s' c) = c_ticks (os_callouts s c)) \<and>
     os_sems s' = os_sems s \<and> os_mutexes s' = os_mutexes s \<and> live s' = live s \<and>
     (\<forall>ob. set (obj_head s' ob) \<subseteq> set (obj_head s ob)) \<and>
     (\<forall>q t. evq_task (os_eventqs s' q) = Some t \<longrightarrow> evq_task (os_eventqs s q) = Some t) \<and>
     (\<forall>t. t_obj (os_tasks s' t) = None \<or> t_obj (os_tasks s' t) = t_obj (os_tasks s t))"
proof -
  let ?s1 = "os_time_tick s"
  from os_callout_tick_fires [OF inv ev co] obtain s2 where s2:
    "os_callout_tick ?s1 = Some s2" "isr_inv 0 idle s2" "evq_inv s2" "callout_inv 1 s2"
    "callout_frame ?s1 s2" "g_callout_list s2 = filter (\<lambda>c. c_in s c \<noteq> 1) (g_callout_list s)"
    "\<And>c q. c \<in> set (g_callout_list s) \<Longrightarrow> c_in s c = 1 \<Longrightarrow> c_evq (os_callouts s c) = Some q \<Longrightarrow>
      c_ev (os_callouts s c) \<in> set (evq_list (os_eventqs s2 q))"
    by blast
  have inv2: "sched_inv 0 s2" using s2(2) by (simp add: isr_inv_def)
  from timer_exp_loop [OF inv2 refl] obtain s3 where s3:
    "os_sched_os_timer_exp s2 = Some s3" "sched_inv 1 s3"
    "g_os_sleep_list s3 = filter (\<lambda>t. no_timeout s2 t \<or> wake_in s2 t \<noteq> 0) (g_os_sleep_list s2)"
    "set (g_os_run_list s3) = set (g_os_run_list s2) \<union>
       {t \<in> set (g_os_sleep_list s2). \<not> no_timeout s2 t \<and> wake_in s2 t = 0}"
    "same_frame s2 s3"
    by (auto simp: os_sched_os_timer_exp_def os_time_get_def)
  have fr: "task_frame {} s2 s3" "\<And>ob. set (obj_head s3 ob) \<subseteq> set (obj_head s2 ob)"
    "\<And>x. no_timeout s3 x \<Longrightarrow> no_timeout s2 x"
    "\<And>x. x \<in> set (g_os_sleep_list s3) \<Longrightarrow>
       t_next_wakeup (os_tasks s3 x) = t_next_wakeup (os_tasks s2 x)"
    using timer_exp_frame [OF inv2 refl] s3(1) by (auto simp: os_sched_os_timer_exp_def)
  obtain c where c: "g_current_task s3 = Some c" using s2(2) s3(5) by (auto simp: isr_inv_def same_frame_def)
  have s3': "g_os_started s3" "idle \<in> set (g_os_run_list s3)"
    using s2(2) s3 by (auto simp: isr_inv_def same_frame_def)
  define s' where "s' = switched c (hd (g_os_run_list s3)) s3"
  note sch = os_sched_head [OF s3(2) s3' c, folded s'_def]
  have th: "timer_handler s = Some s'"
    using s2(1) s3(1) sch(2) by (simp add: timer_handler_def)
  have same: "os_eventqs s' = os_eventqs s2" "os_events s' = os_events s2"
    "os_callouts s' = os_callouts s2" "g_callout_list s' = g_callout_list s2"
    "g_os_time s' = g_os_time s2" "os_sems s' = os_sems s2" "os_mutexes s' = os_mutexes s2"
    "live s' = live s2" "obj_head s' = obj_head s3"
    "\<And>t. t_obj (os_tasks s' t) = None \<or> t_obj (os_tasks s' t) = t_obj (os_tasks s2 t)"
    using fr(1) s3(5) by (auto simp: s'_def same_frame_def task_frame_def)
  have "evq_inv s'"
    by (rule evq_inv_cong [OF same(1,2) _ s2(3)]) (use fr(1) in \<open>simp add: s'_def task_frame_def\<close>)
  moreover have "callout_inv 1 s'"
    using s2(4) callout_list_inv_cong [OF same(4,3,5)]
    by (simp add: callout_inv_def callout_events_def same OS_EVENT_QUEUED_def)
  moreover have "if wake_in s t = 1 then t \<in> set (g_os_run_list s')
      else timed s' t \<and> wake_in s' t = wake_in s t - 1" if t: "timed s t" for t
  proof -
    have "timed s2 t" "wake_in s2 t = wake_in ?s1 t"
      using s2(5) t by (auto simp: callout_frame_def wake_in_def)
    moreover have "1 \<le> wake_in s t"
      using os_inv_sched [OF inv] t by (simp add: sched_inv_def sleep_inv_def timed_def)
    then have "wake_in ?s1 t = wake_in s t - 1" "wake_in s t \<noteq> 0" using wake_in_tick [of s t] by simp_all
    ultimately show ?thesis
      using s3(3,4) fr(1,3,4) by (auto simp: s'_def timed_def wake_in_def task_frame_def)
  qed
  ultimately show ?thesis
    using th sch(3) s2(5-7) same fr(2) by (simp add: callout_frame_def)
qed

lemma ev_taken_simps [simp]:
  "os_callouts (ev_taken q e s) = os_callouts s" "g_callout_list (ev_taken q e s) = g_callout_list s"
  "g_os_time (ev_taken q e s) = g_os_time s" "os_inv idle (ev_taken q e s) = os_inv idle s"
  "evq_task (os_eventqs (ev_taken q e s) x) = evq_task (os_eventqs s x)"
  "evq_list (os_eventqs (ev_taken q e s) x) =
     (if x = q then remove1 e (evq_list (os_eventqs s q)) else evq_list (os_eventqs s x))"
  "OS_EVENT_QUEUED (ev_taken q e s) x = (x \<noteq> e \<and> OS_EVENT_QUEUED s x)"
  by (simp_all add: ev_taken_def OS_EVENT_QUEUED_def)

lemma c_silenced_simps [simp]:
  "os_callouts (c_silenced c s) = os_callouts s" "g_callout_list (c_silenced c s) = g_callout_list s"
  "g_os_time (c_silenced c s) = g_os_time s" "os_inv idle (c_silenced c s) = os_inv idle s"
  by (simp_all add: c_silenced_def Let_def split: option.split)

lemma c_silenced_inv:
  assumes ev: "evq_inv s" and co: "callout_inv lo s" and q: "c_evq (os_callouts s c) = Some q"
  shows "os_eventq_remove q (c_ev (os_callouts s c)) s = Some (c_silenced c s)"
    "evq_inv (c_silenced c s)" "callout_inv lo (c_silenced c s)"
    "\<not> OS_EVENT_QUEUED (c_silenced c s) (c_ev (os_callouts s c))"
proof -
  let ?e = "c_ev (os_callouts s c)"
  have mem: "?e \<in> set (evq_list (os_eventqs s q))" if "OS_EVENT_QUEUED s ?e"
    using co q that by (simp add: callout_inv_def callout_events_def)
  have "upd_eventq q (\<lambda>k. k\<lparr>evq_list := remove1 ?e (evq_list (os_eventqs s q))\<rparr>) s =
      upd_eventq q (\<lambda>k. k\<lparr>evq_list := remove1 ?e (evq_list k)\<rparr>) s"
    by (simp add: upd_eventq_def)
  then show "os_eventq_remove q ?e s = Some (c_silenced c s)"
    using mem q by (simp add: os_eventq_remove_def c_silenced_def ev_taken_def Let_def)
  show "\<not> OS_EVENT_QUEUED (c_silenced c s) ?e"
    using q by (simp add: c_silenced_def Let_def) (simp add: OS_EVENT_QUEUED_def)
  have idle: "evq_inv (upd_event ?e (\<lambda>v. v\<lparr>ev_queued := 0\<rparr>) s)"
    "callout_events (upd_event ?e (\<lambda>v. v\<lparr>ev_queued := 0\<rparr>) s)" if "\<not> OS_EVENT_QUEUED s ?e"
  proof -
    have "OS_EVENT_QUEUED (upd_event ?e (\<lambda>v. v\<lparr>ev_queued := 0\<rparr>) s) x = OS_EVENT_QUEUED s x" for x
      using that by (simp add: OS_EVENT_QUEUED_def)
    then show "evq_inv (upd_event ?e (\<lambda>v. v\<lparr>ev_queued := 0\<rparr>) s)"
      "callout_events (upd_event ?e (\<lambda>v. v\<lparr>ev_queued := 0\<rparr>) s)"
      using ev co evq_wf_cong [of "upd_event ?e (\<lambda>v. v\<lparr>ev_queued := 0\<rparr>) s" s]
      by (simp_all add: evq_inv_def evq_tasks_def callout_inv_def callout_events_def)
  qed
  show "evq_inv (c_silenced c s)"
    using idle(1) evq_inv_taken [OF ev, of ?e q] mem q by (simp add: c_silenced_def Let_def)
  have "callout_events (ev_taken q ?e s)"
    using co by (auto simp: callout_inv_def callout_events_def)
  then have "callout_events (c_silenced c s)"
    using idle(2) q by (simp add: c_silenced_def Let_def)
  with co callout_list_inv_cong [of "c_silenced c s" s] show "callout_inv lo (c_silenced c s)"
    by (simp add: callout_inv_def)
qed

lemma os_callout_stop_ok:
  assumes ev: "evq_inv s" and co: "callout_inv lo s" and q: "c_evq (os_callouts s c) = Some q"
  shows "os_callout_stop c s =
      Some (c_silenced c (if os_callout_queued s c then c_unlinked c s else s))"
proof -
  let ?s1 = "if os_callout_queued s c then c_unlinked c s else s"
  have s1: "evq_inv ?s1" "callout_inv lo ?s1" "c_evq (os_callouts ?s1 c) = Some q"
    using assms callout_inv_unlinked by auto
  have "queue_remove c (g_callout_list s) = Some (remove1 c (g_callout_list s))" if "os_callout_queued s c"
    using co that by (simp add: callout_inv_def callout_list_inv_def)
  with c_silenced_inv(1) [OF s1] s1(3) show ?thesis
    by (auto simp: os_callout_stop_def c_unlinked_def split: if_splits)
qed

lemma c_armed_inv:
  assumes co: "callout_inv 1 s" and c: "\<not> os_callout_queued s c" "c_evq (os_callouts s c) \<noteq> None"
    and n: "1 \<le> unat n" "unat n < 2 ^ 31"
  shows "callout_inv 1 (c_armed c n s)" "c_in (c_armed c n s) c = unat n"
    "os_callout_queued (c_armed c n s) c" "set (g_callout_list (c_armed c n s)) = insert c (set (g_callout_list s))"
proof -
  have cin: "c_in (c_armed c n s) x = (if x = c then unat n else c_in s x)" for x
    by (simp add: c_armed_def Let_def c_in_def)
  let ?key = "\<lambda>x. if x = c then unat n else c_in s x"
  have fresh: "c \<notin> set (g_callout_list s)" using co c by (simp add: callout_inv_def callout_list_inv_def)
  have "g_callout_list (c_armed c n s) = insert_before (\<lambda>e. OS_TIME_TICK_LT (g_os_time s + n)
      (c_ticks (os_callouts (upd_callout c (\<lambda>k. k\<lparr>c_ticks := g_os_time s + n\<rparr>) s) e))) c
      (g_callout_list s)"
    by (simp add: c_armed_def Let_def)
  also have "\<dots> = insert_before (\<lambda>e. ?key c < ?key e) c (g_callout_list s)"
  proof (rule insert_before_cong)
    fix x assume x: "x \<in> set (g_callout_list s)"
    then have "x \<noteq> c" "unat (c_ticks (os_callouts s x) - g_os_time s) < 2 ^ 31"
      using fresh co by (auto simp: callout_inv_def callout_list_inv_def c_in_def)
    then show "OS_TIME_TICK_LT (g_os_time s + n)
        (c_ticks (os_callouts (upd_callout c (\<lambda>k. k\<lparr>c_ticks := g_os_time s + n\<rparr>) s) x)) \<longleftrightarrow> ?key c < ?key x"
      using n tick_lt_iff [of "g_os_time s + n" "g_os_time s" "c_ticks (os_callouts s x)"]
      by (simp add: c_in_def)
  qed
  finally have l: "g_callout_list (c_armed c n s) = insert_before (\<lambda>e. ?key c < ?key e) c (g_callout_list s)" .
  have "sorted_wrt (\<lambda>a b. ?key a \<le> ?key b) (g_callout_list s)"
  proof (rule sorted_wrt_mono_rel)
    show "sorted_wrt (\<lambda>a b. c_in s a \<le> c_in s b) (g_callout_list s)"
      using co by (simp add: callout_inv_def callout_list_inv_def)
  qed (use fresh in auto)
  from prio_list.sorted_ins [OF prio_list_insert_before this, of c]
  have sorted: "sorted_wrt (\<lambda>a b. c_in (c_armed c n s) a \<le> c_in (c_armed c n s) b) (g_callout_list (c_armed c n s))"
    unfolding cin l .
  have rest: "c_evq (os_callouts (c_armed c n s) x) = c_evq (os_callouts s x)"
    "c_ev (os_callouts (c_armed c n s) x) = c_ev (os_callouts s x)"
    "c_linked (os_callouts (c_armed c n s) x) = (x = c \<or> c_linked (os_callouts s x))"
    "os_eventqs (c_armed c n s) = os_eventqs s" "os_events (c_armed c n s) = os_events s" for x
    by (simp_all add: c_armed_def Let_def)
  show "set (g_callout_list (c_armed c n s)) = insert c (set (g_callout_list s))" by (simp add: l)
  show "c_in (c_armed c n s) c = unat n" by (simp add: cin)
  show "os_callout_queued (c_armed c n s) c" by (simp add: os_callout_queued_def rest)
  have "callout_list_inv 1 (c_armed c n s)"
    using co fresh c(2) n sorted
    by (auto simp: callout_inv_def callout_list_inv_def os_callout_queued_def rest cin l)
  then show "callout_inv 1 (c_armed c n s)"
    using co by (simp add: callout_inv_def callout_events_def rest OS_EVENT_QUEUED_def)
qed

lemma reset_ticks_range:
  "0 \<le> sint ticks \<Longrightarrow> 1 \<le> unat (reset_ticks ticks) \<and> unat (reset_ticks ticks) < 2 ^ 31"
  using sint_nonneg_unat [of ticks] by (auto simp: reset_ticks_def Suc_le_eq unat_gt_0)

lemma os_callout_reset_armed:
  assumes inv: "os_inv idle s" and ev: "evq_inv s" and co: "callout_inv 1 s"
    and q: "c_evq (os_callouts s c) = Some q" and ticks: "0 \<le> sint ticks"
  shows "\<exists>s'. os_callout_reset c ticks s = Some (OS_OK, s') \<and> os_inv idle s' \<and> evq_inv s' \<and>
     callout_inv 1 s' \<and> os_callout_queued s' c \<and> c_in s' c = unat (reset_ticks ticks) \<and>
     \<not> OS_EVENT_QUEUED s' (c_ev (os_callouts s c)) \<and> c_evq (os_callouts s' c) = Some q \<and>
     c_ev (os_callouts s' c) = c_ev (os_callouts s c) \<and>
     set (g_callout_list s') = insert c (set (g_callout_list s)) \<and> same_kernel s s'"
proof -
  define s1 where "s1 = (if os_callout_queued s c then c_unlinked c s else s)"
  have s1: "os_inv idle s1" "evq_inv s1" "callout_inv 1 s1" "c_evq (os_callouts s1 c) = Some q"
    "c_ev (os_callouts s1 c) = c_ev (os_callouts s c)" "\<not> os_callout_queued s1 c"
    "insert c (set (g_callout_list s1)) = insert c (set (g_callout_list s))"
    using inv ev co q callout_inv_unlinked
    by (auto simp: s1_def os_callout_queued_def callout_inv_def callout_list_inv_def)
  note e = c_silenced_inv [OF s1(2-4)]
  define s2 where "s2 = c_silenced c s1"
  let ?n = "reset_ticks ticks"
  have s2: "os_inv idle s2" "evq_inv s2" "callout_inv 1 s2" "c_evq (os_callouts s2 c) = Some q"
    "\<not> OS_EVENT_QUEUED s2 (c_ev (os_callouts s c))" "\<not> os_callout_queued s2 c"
    "g_callout_list s2 = g_callout_list s1" "c_ev (os_callouts s2 c) = c_ev (os_callouts s c)"
    using s1 e by (simp_all add: s2_def os_callout_queued_def)
  note n = reset_ticks_range [OF ticks]
  note a = c_armed_inv [OF s2(3,6), of ?n] 
  have reset: "os_callout_reset c ticks s = Some (OS_OK, c_armed c ?n s2)"
    using os_callout_stop_ok [OF ev co q, folded s1_def, folded s2_def] ticks
    by (simp add: os_callout_reset_def c_armed_def Let_def os_time_get_def reset_ticks_def)
  have "os_inv idle (c_armed c ?n s2)" using s2(1) by (simp add: c_armed_def Let_def)
  moreover have "evq_inv (c_armed c ?n s2)"
    by (rule evq_inv_cong [OF _ _ _ s2(2)]) (simp_all add: c_armed_def Let_def)
  moreover have "OS_EVENT_QUEUED (c_armed c ?n s2) = OS_EVENT_QUEUED s2"
    by (simp add: c_armed_def Let_def OS_EVENT_QUEUED_def fun_eq_iff)
  moreover have "c_evq (os_callouts (c_armed c ?n s2) c) = Some q"
    "c_ev (os_callouts (c_armed c ?n s2) c) = c_ev (os_callouts s c)"
    using s2(4,8) by (simp_all add: c_armed_def Let_def)
  moreover have "same_kernel s (c_armed c ?n s2)"
    by (auto simp: same_kernel_def c_armed_def Let_def s2_def s1_def c_silenced_def c_unlinked_def
        ev_taken_def split: option.split)
  ultimately show ?thesis using reset a n s2 s1(7) by simp
qed

lemma callout_pending:
  assumes "os_inv idle s" "evq_inv s" "callout_inv 1 s" "os_callout_queued s c"
    and "c_evq (os_callouts s c) = Some q" "m \<le> c_in s c"
  shows "\<exists>s'. repeat_op m timer_handler s = Some s' \<and> os_inv idle s' \<and> evq_inv s' \<and> callout_inv 1 s' \<and>
     (if m < c_in s c then os_callout_queued s' c
      else \<not> os_callout_queued s' c \<and> c_ev (os_callouts s c) \<in> set (evq_list (os_eventqs s' q)))"
  using assms
proof (induction m arbitrary: s)
  case 0
  have "1 \<le> c_in s c" using 0 by (auto simp: callout_inv_def callout_list_inv_def)
  with 0 show ?case by simp
next
  case (Suc m)
  have c: "c \<in> set (g_callout_list s)"
    using Suc.prems(3,4) by (simp add: callout_inv_def callout_list_inv_def)
  from timer_handler_ticks [OF Suc.prems(1-3)] obtain s1 where s1:
    "timer_handler s = Some s1" "os_inv idle s1" "evq_inv s1" "callout_inv 1 s1"
    "g_os_time s1 = g_os_time s + 1"
    "g_callout_list s1 = filter (\<lambda>c. c_in s c \<noteq> 1) (g_callout_list s)"
    "c_in s c = 1 \<Longrightarrow> c_ev (os_callouts s c) \<in> set (evq_list (os_eventqs s1 q))"
    "c_ev (os_callouts s1 c) = c_ev (os_callouts s c)"
    "c_evq (os_callouts s1 c) = Some q" "c_ticks (os_callouts s1 c) = c_ticks (os_callouts s c)"
    using c Suc.prems(5) by auto
  have cin: "c_in s1 c = c_in s c - 1"
    using s1(5,10) unat_until_tick [of "c_ticks (os_callouts s c)" "g_os_time s"] Suc.prems(6)
    by (simp add: c_in_def)
  have q1: "os_callout_queued s1 c \<longleftrightarrow> c_in s c \<noteq> 1"
    using s1(4,6) c by (simp add: callout_inv_def callout_list_inv_def)
  show ?case
  proof (cases "c_in s c = 1")
    case True
    with Suc.prems(6) have "m = 0" by simp
    with s1 q1 True show ?thesis by simp
  next
    case False
    have m: "m \<le> c_in s1 c" "m < c_in s1 c \<longleftrightarrow> Suc m < c_in s c" using cin Suc.prems(6) by auto
    from Suc.IH [OF s1(2-4) _ s1(9) m(1)] q1 False s1(1,8) show ?thesis unfolding m(2) by auto
  qed
qed

text \<open>
  C5: Callouts fire on time. After \<^verbatim>\<open>os_callout_reset\<close> with \<open>n\<close> ticks (at least one) the callout stays
  pending through the first \<open>n - 1\<close> tick interrupts and its event is on its queue after the
  \<open>n\<close>-th, whatever the other callouts and sleeping tasks do; no tick interrupt fails.
\<close>

theorem os_callout_on_time:
  assumes "os_inv idle s" "evq_inv s" "callout_inv 1 s"
    and "c_evq (os_callouts s c) = Some q" "0 \<le> sint ticks" "m \<le> unat (reset_ticks ticks)"
  shows "\<exists>s1 s2. os_callout_reset c ticks s = Some (OS_OK, s1) \<and>
     repeat_op m timer_handler s1 = Some s2 \<and> os_inv idle s2 \<and> evq_inv s2 \<and> callout_inv 1 s2 \<and>
     (if m < unat (reset_ticks ticks) then os_callout_queued s2 c
      else \<not> os_callout_queued s2 c \<and> c_ev (os_callouts s c) \<in> set (evq_list (os_eventqs s2 q)))"
proof -
  from os_callout_reset_armed [OF assms(1-5)] obtain s1 where s1:
    "os_callout_reset c ticks s = Some (OS_OK, s1)" "os_inv idle s1" "evq_inv s1" "callout_inv 1 s1"
    "os_callout_queued s1 c" "c_in s1 c = unat (reset_ticks ticks)"
    "c_evq (os_callouts s1 c) = Some q" "c_ev (os_callouts s1 c) = c_ev (os_callouts s c)"
    by blast
  from callout_pending [OF s1(2-5,7), of m] s1 assms(6) show ?thesis by auto
qed

lemma callout_inv_sample: "callout_inv 1 sample_os" "c_evq (os_callouts sample_os c) = Some 0"
  "c_ev (os_callouts sample_os c) = c"
  by (simp_all add: callout_inv_def callout_list_inv_def callout_events_def os_callout_queued_def
      OS_EVENT_QUEUED_def sample_os_def inj_def)

theorem os_callout_on_time_witness:
  "\<exists>s1 s2. os_callout_reset 4 100 sample_os = Some (OS_OK, s1) \<and>
     repeat_op 100 timer_handler s1 = Some s2 \<and> 4 \<in> set (evq_list (os_eventqs s2 0))"
  using os_callout_on_time [OF os_inv_sample evq_inv_sample callout_inv_sample(1,2), of 100 100 4]
  by (auto simp: callout_inv_sample reset_ticks_def)

text \<open>
  C4: The tick interrupt wakes exactly the tasks whose timeout ends with this tick: a task that
  sleeps with a timeout is ready afterwards when it had one tick left and sleeps on otherwise.
  It moves exactly the due callouts to their event queues, and the highest-priority ready task
  runs when it returns.
\<close>

theorem timer_handler_exact:
  assumes "os_inv idle s" "evq_inv s" "callout_inv 1 s"
  shows "\<exists>s'. timer_handler s = Some s' \<and> os_inv idle s' \<and> evq_inv s' \<and> callout_inv 1 s' \<and>
     g_os_time s' = g_os_time s + 1 \<and>
     (\<forall>t. timed s t \<longrightarrow> (if wake_in s t = 1 then t \<in> set (g_os_run_list s')
        else timed s' t \<and> wake_in s' t = wake_in s t - 1)) \<and>
     g_callout_list s' = filter (\<lambda>c. c_in s c \<noteq> 1) (g_callout_list s) \<and>
     (\<forall>c \<in> set (g_callout_list s). \<forall>q. c_in s c = 1 \<longrightarrow> c_evq (os_callouts s c) = Some q \<longrightarrow>
        c_ev (os_callouts s c) \<in> set (evq_list (os_eventqs s' q)))"
  using timer_handler_ticks [OF assms] by blast

lemma os_time_delay_sleeps:
  assumes inv: "os_inv idle s" and ev: "evq_inv s" and co: "callout_inv lo s"
    and c: "g_current_task s = Some c" "c \<noteq> idle" and n: "0 < sint n"
  shows "\<exists>s'. os_time_delay n s = Some s' \<and> os_inv idle s' \<and> evq_inv s' \<and> callout_inv lo s' \<and>
     timed s' c \<and> wake_in s' c = unat n \<and> g_current_task s' \<noteq> Some c \<and>
     os_sems s' = os_sems s \<and> os_mutexes s' = os_mutexes s \<and> task_frame {} s s' \<and>
     obj_head s' = obj_head s"
proof -
  define s1 where "s1 = slept c n s"
  define s' where "s' = switched c (hd (g_os_run_list s1)) s1"
  note h = os_inv_hd [OF inv c(1)]
  have n': "1 \<le> unat n" "unat n < 2 ^ 31" "n \<noteq> OS_TIMEOUT_NEVER"
    using sint_nonneg_unat [of n] n by (auto simp: Suc_le_eq unat_gt_0 OS_TIMEOUT_NEVER_def)
  have run: "\<not> no_timeout s c" "distinct (g_os_run_list s)" "obj_inv s"
    using os_inv_sched [OF inv] h(2) by (auto simp: sched_inv_def lists_inv_def)
  have "sched_inv 1 s1"
    unfolding s1_def using os_inv_sched [OF inv] h n' obj_inv_pre [of s c]
    by (intro sched_inv_slept) (auto simp: sched_inv_def)
  then have s1: "sched_inv 1 s1" "g_os_started s1" "idle \<in> set (g_os_run_list s1)" "g_current_task s1 = Some c"
    using os_inv_started [OF inv] os_inv_idle [OF inv] c by (simp_all add: s1_def)
  note sch = os_sched_head [OF s1, folded s'_def]
  have "os_sched_sleep c n s = Some s1"
    unfolding s1_def using h by (intro os_sched_sleep_slept) simp_all
  then have delay: "os_time_delay n s = Some s'"
    using n c(1) sch(2) by (simp add: os_time_delay_def os_sched_get_current_task_def)
  have timed: "timed s' c" "wake_in s' c = unat n"
    using n' run(1) by (simp_all add: s'_def s1_def timed_def sleep_list_slept)
  have deep: "deep s' x" if "deep s x" for x
    using that h(3) n'(3) by (auto simp: s'_def s1_def deep_def sleep_list_slept)
  have "live s' = live s"
    using h(2) by (auto simp: s'_def s1_def live_def fun_eq_iff sleep_list_slept
        dest: in_set_remove1 [THEN iffD2, rotated] set_remove1_subset [THEN subsetD])
  with deep have fr: "task_frame {} s s'" by (simp add: task_frame_def s'_def s1_def)
  have "evq_inv s'" by (rule evq_inv_cong [OF _ _ _ ev]) (use deep in \<open>simp_all add: s'_def s1_def\<close>)
  moreover have "callout_inv lo s'"
    using co callout_list_inv_cong [of s' s]
    by (simp add: s'_def s1_def callout_inv_def callout_events_def OS_EVENT_QUEUED_def)
  moreover have "g_current_task s' \<noteq> Some c"
  proof -
    have "hd (g_os_run_list s1) \<in> set (g_os_run_list s1)" using s1(3) by (cases "g_os_run_list s1") auto
    moreover have "c \<notin> set (g_os_run_list s1)" using run(2) by (simp add: s1_def)
    ultimately show ?thesis using s1(4) by (auto simp: s'_def)
  qed
  ultimately show ?thesis using delay sch(3) timed fr by (simp add: s'_def s1_def)
qed

lemma delay_pending:
  assumes "os_inv idle s" "evq_inv s" "callout_inv 1 s" "timed s t" "m \<le> wake_in s t"
  shows "\<exists>s'. repeat_op m timer_handler s = Some s' \<and> os_inv idle s' \<and>
     (if m < wake_in s t then t \<in> set (g_os_sleep_list s') else t \<in> set (g_os_run_list s'))"
  using assms
proof (induction m arbitrary: s)
  case 0
  then have "1 \<le> wake_in s t"
    using os_inv_sched by (fastforce simp: sched_inv_def sleep_inv_def timed_def)
  with 0 show ?case by (simp add: timed_def)
next
  case (Suc m)
  from timer_handler_ticks [OF Suc.prems(1-3)] Suc.prems(4) obtain s1 where s1:
    "timer_handler s = Some s1" "os_inv idle s1" "evq_inv s1" "callout_inv 1 s1"
    "if wake_in s t = 1 then t \<in> set (g_os_run_list s1)
     else timed s1 t \<and> wake_in s1 t = wake_in s t - 1"
    by blast
  show ?case
  proof (cases "wake_in s t = 1")
    case True
    with Suc.prems(5) have "m = 0" by simp
    with s1 True show ?thesis by simp
  next
    case False
    with s1(5) Suc.prems(5) have t: "timed s1 t" "m \<le> wake_in s1 t"
      "m < wake_in s1 t \<longleftrightarrow> Suc m < wake_in s t" by auto
    from Suc.IH [OF s1(2-4) t(1,2)] s1(1) show ?thesis unfolding t(3) by auto
  qed
qed

text \<open>
  C6: A delay lasts exactly as long as asked for. A task that calls \<^verbatim>\<open>os_time_delay\<close> with a positive
  number of ticks \<open>n\<close> still sleeps after each of the first \<open>n - 1\<close> tick interrupts and is ready
  after the \<open>n\<close>-th one.
\<close>

theorem os_time_delay_exact:
  assumes "os_inv idle s" "evq_inv s" "callout_inv 1 s" "g_current_task s = Some c" "c \<noteq> idle"
    and "0 < sint n" "m \<le> unat n"
  shows "\<exists>s1 s2. os_time_delay n s = Some s1 \<and> g_current_task s1 \<noteq> Some c \<and>
     repeat_op m timer_handler s1 = Some s2 \<and> os_inv idle s2 \<and>
     (if m < unat n then c \<in> set (g_os_sleep_list s2) else c \<in> set (g_os_run_list s2))"
proof -
  from os_time_delay_sleeps [OF assms(1-6)] obtain s1 where s1: "os_time_delay n s = Some s1"
    "os_inv idle s1" "evq_inv s1" "callout_inv 1 s1" "timed s1 c" "wake_in s1 c = unat n"
    "g_current_task s1 \<noteq> Some c"
    by blast
  from delay_pending [OF s1(2-5), of m] s1 assms(7) show ?thesis by auto
qed

theorem os_time_delay_exact_witness:
  "\<exists>s1 s2. os_time_delay 250 sample_os = Some s1 \<and> repeat_op 250 timer_handler s1 = Some s2 \<and>
     1 \<in> set (g_os_run_list s2)"
proof -
  have "g_current_task sample_os = Some 1" by (simp add: sample_os_def)
  from os_time_delay_exact [OF os_inv_sample evq_inv_sample callout_inv_sample(1) this, of 250 250]
  show ?thesis by auto
qed

lemma sample_delayed_inv:
  "os_inv 0 sample_delayed" "evq_inv sample_delayed" "callout_inv 1 sample_delayed"
  "timed sample_delayed 1" "wake_in sample_delayed 1 = 1"
proof -
  have "g_current_task sample_os = Some 1" by (simp add: sample_os_def)
  from os_time_delay_sleeps [OF os_inv_sample evq_inv_sample callout_inv_sample(1) this, of 1]
  show "os_inv 0 sample_delayed" "evq_inv sample_delayed" "callout_inv 1 sample_delayed"
    "timed sample_delayed 1" "wake_in sample_delayed 1 = 1"
    by (auto simp: sample_delayed_def)
qed

theorem timer_handler_exact_witness:
  "\<exists>s'. timer_handler sample_delayed = Some s' \<and> 1 \<in> set (g_os_run_list s')"
  using timer_handler_exact [OF sample_delayed_inv(1-3)] sample_delayed_inv(4,5) by auto

end
