(* ===== verification/Os_System.thy ===== *)
theory Os_System
  imports Os_Callout
begin

text \<open>
  The kernel as one transition system. A state is the kernel memory, the blocking call each task
  is inside of, and a count of the mutexes each task holds. A step is a kernel call of the
  running task, the rest of a blocking call after the task has been switched to again, or a tick
  interrupt. The calls are all those of \<^verbatim>\<open>os_sem.c\<close>, \<^verbatim>\<open>os_mutex.c\<close>, \<^verbatim>\<open>os_eventq.c\<close>, \<^verbatim>\<open>os_callout.c\<close> and
  \<^verbatim>\<open>os_time_delay\<close>, with pointers that are not null. Tasks are not created by a step: \<^verbatim>\<open>os_task_init\<close>
  belongs to the start-up (\<open>Os_Task\<close>), and after the start it would enter the new task without a
  call of the scheduler. \<open>allowed\<close> collects what a caller must respect:
  \<^item> a task inside a blocking call makes no other call, and the idle task never blocks;
  \<^item> timeouts fit the tick arithmetic, and the nesting level of a mutex does not overflow;
  \<^item> an event queue has one consumer, and the event of a callout is put only by the callout;
  \<^item> an event is removed from the queue it is on, and a callout that is set has a queue;
  \<^item> an object is initialised only while it is not in use;
  \<^item> a semaphore is deleted only when its first waiting task has the highest priority of its
    waiting tasks. A task that inherits a priority while it waits is not moved in the wait list, and
    \<^verbatim>\<open>os_sem_delete\<close> compares the running task with the first one only (\<open>os_sem_delete_inverts\<close>).

  Under it no reachable state fails an assertion, mutexes exclude each other, the running task has
  the highest priority and no wake-up is lost.
\<close>

subsection \<open>States and steps\<close>

text \<open>The blocking call a task has not returned from.\<close>

datatype cont = CSem nat | CMutex nat | CEvq nat

record sys =
  kern :: os_state
  conts :: "tid \<Rightarrow> cont option"
  held :: "tid \<Rightarrow> nat \<Rightarrow> nat"















subsection \<open>Invariant\<close>

definition kern_inv :: "tid \<Rightarrow> os_state \<Rightarrow> bool" where
  "kern_inv idle s \<longleftrightarrow> os_inv idle s \<and> sem_inv s \<and> mutex_inv s \<and> evq_inv s \<and> callout_inv 1 s"

definition waits_inv :: "os_state \<Rightarrow> (tid \<Rightarrow> cont option) \<Rightarrow> bool" where
  "waits_inv s cs \<longleftrightarrow>
     (\<forall>t i. t_obj (os_tasks s t) = Some (ObjSem i) \<longrightarrow> cs t = Some (CSem i)) \<and>
     (\<forall>t i. t_obj (os_tasks s t) = Some (ObjMutex i) \<longrightarrow> cs t = Some (CMutex i)) \<and>
     (\<forall>t q. evq_task (os_eventqs s q) = Some t \<longrightarrow> cs t = Some (CEvq q))"

text \<open>
  A task holds a mutex as often as its nesting level says when it owns it, except between the
  release that made it the owner and the return of its own \<^verbatim>\<open>os_mutex_pend\<close>.
\<close>

definition held_inv :: "os_state \<Rightarrow> (tid \<Rightarrow> cont option) \<Rightarrow> (tid \<Rightarrow> nat \<Rightarrow> nat) \<Rightarrow> bool" where
  "held_inv s cs h \<longleftrightarrow>
     (\<forall>t i. h t i = (if mu_owner (os_mutexes s i) = Some t \<and> cs t \<noteq> Some (CMutex i)
                     then unat (mu_level (os_mutexes s i)) else 0)) \<and>
     (\<forall>t i. mu_owner (os_mutexes s i) = Some t \<longrightarrow> cs t = Some (CMutex i) \<longrightarrow>
        mu_level (os_mutexes s i) = 1)"

definition sys_inv :: "tid \<Rightarrow> sys \<Rightarrow> bool" where
  "sys_inv idle \<sigma> \<longleftrightarrow> kern_inv idle (kern \<sigma>) \<and> waits_inv (kern \<sigma>) (conts \<sigma>) \<and>
     held_inv (kern \<sigma>) (conts \<sigma>) (held \<sigma>) \<and> conts \<sigma> idle = None"


text \<open>
  A system in which a task inherited a priority while it was waiting: task 3 owns mutex 0 and waits
  for semaphore 0 behind task 2, task 4 waits for the mutex, and task 1 runs.
\<close>

definition waiting_task :: "u8 \<Rightarrow> os_task_obj \<Rightarrow> u16 \<Rightarrow> os_task" where
  "waiting_task p ob f = (sample_task p)\<lparr>t_state := OS_TASK_SLEEP, t_obj := Some ob,
     t_flags := f OR OS_TASK_FLAG_NO_TIMEOUT\<rparr>"

definition sample_inverted :: sys where
  "sample_inverted = \<lparr>kern = sample_os\<lparr>
     os_tasks := (\<lambda>t. sample_task 255)(1 := sample_task 10,
       2 := waiting_task 15 (ObjSem 0) OS_TASK_FLAG_SEM_WAIT,
       3 := waiting_task 5 (ObjSem 0) OS_TASK_FLAG_SEM_WAIT,
       4 := waiting_task 5 (ObjMutex 0) OS_TASK_FLAG_MUTEX_WAIT),
     obj_head := (\<lambda>_. [])(ObjSem 0 := [2, 3], ObjMutex 0 := [4]), g_os_task_list := [0, 1, 2, 3, 4],
     g_os_run_list := [1, 0], g_os_sleep_list := [2, 3, 4],
     os_mutexes := (\<lambda>_. \<lparr>mu_prio = 0, mu_level = 0, mu_owner = None\<rparr>)
       (0 := \<lparr>mu_prio = 20, mu_level = 1, mu_owner = Some 3\<rparr>)\<rparr>,
     conts = (\<lambda>_. None)(2 := Some (CSem 0), 3 := Some (CSem 0), 4 := Some (CMutex 0)),
     held = (\<lambda>_ _. 0)(3 := (\<lambda>_. 0)(0 := 1))\<rparr>"

subsection \<open>Lemmas\<close>






lemma held_inv_cong: "os_mutexes s' = os_mutexes s \<Longrightarrow> held_inv s' cs h = held_inv s cs h"
  by (simp add: held_inv_def)
























lemma waits_inv_upd_mutex [simp]: "waits_inv (upd_mutex i f s) cs = waits_inv s cs"
  by (simp add: waits_inv_def)











lemma sys_inv_flags [simp]:
  "waits_inv (upd_task t (\<lambda>k. k\<lparr>t_flags := f k\<rparr>) s) cs = waits_inv s cs"
  "held_inv (upd_task t g s) cs h = held_inv s cs h"
proof -
  have "t_obj (os_tasks (upd_task t (\<lambda>k. k\<lparr>t_flags := f k\<rparr>) s) x) = t_obj (os_tasks s x)" for x by simp
  then show "waits_inv (upd_task t (\<lambda>k. k\<lparr>t_flags := f k\<rparr>) s) cs = waits_inv s cs"
    unfolding waits_inv_def by (simp only: upd_task_simps)
  show "held_inv (upd_task t g s) cs h = held_inv s cs h" by (rule held_inv_cong) simp
qed














text \<open>
  Finding: \<^verbatim>\<open>os_sem_delete\<close> looks only at the first waiting task. A task behind it that has inherited a
  higher priority becomes ready, and the deleting task of lower priority keeps running.
\<close>

lemma sys_inv_inverted: "sys_inv 0 sample_inverted"
proof -
  let ?s = "kern sample_inverted"
  note sample = sample_inverted_def sample_os_def sample_task_def waiting_task_def no_timeout_def
    flag_set_def OS_TASK_FLAG_NO_TIMEOUT_def OS_TASK_FLAG_SEM_WAIT_def OS_TASK_FLAG_MUTEX_WAIT_def
  have "lists_inv ?s" "run_sorted ?s" by (auto simp: lists_inv_def run_sorted_def sample)
  moreover have "obj_inv ?s" by (auto simp: obj_inv_def sample split: if_splits)
  moreover have "sleep_inv 1 ?s" by (auto simp: sleep_inv_def sleep_le_def no_timeout_def sample)
  ultimately have "os_inv 0 ?s" by (simp add: os_inv_def sched_inv_def) (simp add: sample)
  moreover have "sem_inv ?s" by (simp add: sem_inv_def sample)
  moreover have "mutex_inv ?s" by (simp add: mutex_inv_def mutex_ok_def live_def sample)
  moreover have "evq_inv ?s" by (simp add: evq_inv_def evq_wf_def evq_tasks_def OS_EVENT_QUEUED_def sample)
  moreover have "callout_inv 1 ?s"
    by (simp add: callout_inv_def callout_list_inv_def callout_events_def os_callout_queued_def
        OS_EVENT_QUEUED_def inj_def sample)
  ultimately have "kern_inv 0 ?s" by (simp add: kern_inv_def)
  moreover have "waits_inv ?s (conts sample_inverted)" by (auto simp: waits_inv_def sample)
  moreover have "held_inv ?s (conts sample_inverted) (held sample_inverted)" by (auto simp: held_inv_def sample)
  ultimately show ?thesis by (simp add: sys_inv_def) (simp add: sample)
qed

lemma os_sem_delete_inverts:
  "\<exists>s'. os_sem_delete (Some 0) (kern sample_inverted) = Some (OS_OK, s') \<and>
     g_current_task s' = Some 1 \<and> task_prio s' 1 = 10 \<and>
     3 \<in> set (g_os_run_list s') \<and> task_prio s' 3 = 5"
  by (simp add: os_sem_delete_def os_sem_delete_loop.simps os_sched_get_current_task_def
      os_sched_wakeup_def os_sched_insert_def prio_insert_def queue_remove_def Let_def upd_defs
      sample_inverted_def sample_os_def sample_task_def waiting_task_def)






end
