(* ===== verification/Os_Task.thy ===== *)
theory Os_Task
  imports Os_System
begin

text \<open>
  Tasks, sanity checks and start-up: \<^verbatim>\<open>libs/os/src/os_task.c\<close>, \<^verbatim>\<open>os_sanity.c\<close>, \<^verbatim>\<open>os.c\<close> and the start-up
  functions of \<^verbatim>\<open>arch/sim/os_arch_sim.c\<close>. The initial stack frame that the architecture code lays
  out holds a \<^verbatim>\<open>sigjmp_buf\<close> of the host's C library; it is the parameter \<open>frame\<close> of task creation. The
  check functions that applications register are the parameter \<open>run\<close> of the sanity task. The
  start-up sequence establishes the invariant that the other theories maintain.
\<close>

subsection \<open>os_sanity.c\<close>

definition os_sanity_check_init :: "tid \<Rightarrow> os_state \<Rightarrow> os_error \<times> os_state" where
  "os_sanity_check_init t s = (OS_OK, upd_task t (\<lambda>k. k\<lparr>t_sanity_check :=
     \<lparr>sc_checkin_last = 0, sc_checkin_itvl = 0, sc_func = None, sc_arg = 0\<rparr>\<rparr>) s)"

text \<open>The list is protected by a mutex once the system runs; \<open>mu\<close> is \<^verbatim>\<open>g_os_sanity_check_mu\<close>.\<close>

definition os_sanity_check_list_lock :: "nat \<Rightarrow> os_state \<Rightarrow> (pend_result \<times> os_state) option" where
  "os_sanity_check_list_lock mu s =
     (if \<not> g_os_started s then Some (Pend_Return OS_OK, s)
      else os_mutex_pend (Some mu) OS_TIMEOUT_NEVER s)"

definition os_sanity_check_list_unlock :: "nat \<Rightarrow> os_state \<Rightarrow> (os_error \<times> os_state) option" where
  "os_sanity_check_list_unlock mu s =
     (if \<not> g_os_started s then Some (OS_OK, s) else os_mutex_release (Some mu) s)"

text \<open>The part of a call that runs with the list locked, after a possible wait for the mutex.\<close>

definition os_sanity_check_register_locked ::
    "nat \<Rightarrow> tid \<Rightarrow> os_state \<Rightarrow> (os_error \<times> os_state) option" where
  "os_sanity_check_register_locked mu t s =
     os_sanity_check_list_unlock mu (s\<lparr>g_os_sanity_check_list := t # g_os_sanity_check_list s\<rparr>)"

definition os_sanity_check_reset_locked ::
    "nat \<Rightarrow> tid \<Rightarrow> os_state \<Rightarrow> (os_error \<times> os_state) option" where
  "os_sanity_check_reset_locked mu t s =
     os_sanity_check_list_unlock mu (upd_task t (\<lambda>k. k\<lparr>t_sanity_check :=
       (t_sanity_check k)\<lparr>sc_checkin_last := os_time_get s\<rparr>\<rparr>) s)"

definition with_sanity_lock :: "nat \<Rightarrow> (os_state \<Rightarrow> (os_error \<times> os_state) option) \<Rightarrow>
    os_state \<Rightarrow> (pend_result \<times> os_state) option" where
  "with_sanity_lock mu body s = do {
     (r, s1) \<leftarrow> os_sanity_check_list_lock mu s;
     (case r of
        Pend_Return OS_OK \<Rightarrow> do {
          (rc, s2) \<leftarrow> body s1;
          Some (Pend_Return rc, s2)
        }
      | _ \<Rightarrow> Some (r, s1))
   }"

definition os_sanity_check_register :: "nat \<Rightarrow> tid \<Rightarrow> os_state \<Rightarrow> (pend_result \<times> os_state) option" where
  "os_sanity_check_register mu t = with_sanity_lock mu (os_sanity_check_register_locked mu t)"

definition os_sanity_check_reset :: "nat \<Rightarrow> tid \<Rightarrow> os_state \<Rightarrow> (pend_result \<times> os_state) option" where
  "os_sanity_check_reset mu t = with_sanity_lock mu (os_sanity_check_reset_locked mu t)"

text \<open>
  One pass over the list by the sanity task; \<open>None\<close> is the assertion that restarts the system. A check
  function gets its check and the argument and answers an error code; it is taken to leave the
  kernel's memory alone, and no tick comes during the pass.
\<close>

fun os_sanity_checks :: "(nat \<Rightarrow> os_sanity_check \<Rightarrow> nat \<Rightarrow> os_error) \<Rightarrow> tid list \<Rightarrow> os_state \<Rightarrow> os_state option" where
  "os_sanity_checks run [] s = Some s"
| "os_sanity_checks run (t # ts) s =
     (let sc = t_sanity_check (os_tasks s t) in
      if (case sc_func sc of None \<Rightarrow> False | Some f \<Rightarrow> run f sc (sc_arg sc) = OS_OK)
      then os_sanity_checks run ts (upd_task t (\<lambda>k. k\<lparr>t_sanity_check :=
             (t_sanity_check k)\<lparr>sc_checkin_last := os_time_get s\<rparr>\<rparr>) s)
      else if OS_TIME_TICK_GT (os_time_get s - sc_checkin_last sc) (sc_checkin_itvl sc) then None
      else os_sanity_checks run ts s)"

definition os_sanity_task_pass ::
    "(nat \<Rightarrow> os_sanity_check \<Rightarrow> nat \<Rightarrow> os_error) \<Rightarrow> nat \<Rightarrow> os_state \<Rightarrow> (os_error \<times> os_state) option" where
  "os_sanity_task_pass run mu s = do {
     s1 \<leftarrow> os_sanity_checks run (g_os_sanity_check_list s) s;
     (rc, s2) \<leftarrow> os_sanity_check_list_unlock mu s1;
     (if rc \<noteq> OS_OK then None else Some (rc, s2))
   }"

subsection \<open>os_task.c\<close>

definition OS_STACK_PATTERN :: u32 where "OS_STACK_PATTERN = 0xdeadbeef"

definition clear_stack :: "nat \<Rightarrow> u32 list" where
  "clear_stack sz = replicate sz OS_STACK_PATTERN"

definition os_task_next_id :: "os_state \<Rightarrow> u8 \<times> os_state" where
  "os_task_next_id s = (g_task_id s, s\<lparr>g_task_id := g_task_id s + 1\<rparr>)"

definition os_task_count :: "os_state \<Rightarrow> u8" where
  "os_task_count s = g_task_id s"

definition os_task_sanity_checkin ::
    "nat \<Rightarrow> tid option \<Rightarrow> os_state \<Rightarrow> (pend_result \<times> os_state) option" where
  "os_task_sanity_checkin mu t s =
     (case (case t of None \<Rightarrow> os_sched_get_current_task s | Some x \<Rightarrow> Some x) of
        None \<Rightarrow> None
      | Some x \<Rightarrow> os_sanity_check_reset mu x s)"

text \<open>
  \<open>frame\<close> lays the first context into the cleared stack. A task that has to wait for the lock of
  the sanity list while it creates another task leaves the call there (\<open>Pend_Blocked\<close>).
\<close>

definition os_task_init :: "(u32 list \<Rightarrow> u32 list) \<Rightarrow> nat \<Rightarrow> tid \<Rightarrow> string \<Rightarrow> nat \<Rightarrow> nat \<Rightarrow> u8 \<Rightarrow> u32 \<Rightarrow> u16 \<Rightarrow>
    os_state \<Rightarrow> (pend_result \<times> os_state) option" where
  "os_task_init frame mu t name func arg prio sanity_itvl stack_size s = do {
     let (tid8, s0) = os_task_next_id s;
     let s1 = upd_task t (\<lambda>_. \<lparr>t_stack = [], t_stacksize = 0, t_flags = 0, t_taskid = tid8,
                t_prio = prio, t_state = OS_TASK_READY, t_name = name, t_func = func, t_arg = arg,
                t_obj = None, t_sanity_check = \<lparr>sc_checkin_last = 0, sc_checkin_itvl = 0,
                sc_func = None, sc_arg = 0\<rparr>, t_next_wakeup = 0, t_run_time = 0,
                t_ctx_sw_cnt = 0\<rparr>) s0;
     let (_, s2) = os_sanity_check_init t s1;
     (r, s3) \<leftarrow> (if sanity_itvl \<noteq> OS_TIMEOUT_NEVER
        then os_sanity_check_register mu t (upd_task t (\<lambda>k. k\<lparr>t_sanity_check :=
               (t_sanity_check k)\<lparr>sc_checkin_itvl := sanity_itvl\<rparr>\<rparr>) s2)
        else Some (Pend_Return OS_OK, s2));
     (case r of
        Pend_Return OS_OK \<Rightarrow> do {
          let s4 = upd_task t (\<lambda>k. k\<lparr>t_stack := frame (clear_stack (unat stack_size)),
                     t_stacksize := stack_size\<rparr>) s3;
          let s5 = s4\<lparr>g_os_task_list := g_os_task_list s4 @ [t]\<rparr>;
          (rc, s6) \<leftarrow> os_sched_insert t s5;
          Some (Pend_Return rc, s6)
        }
      | _ \<Rightarrow> Some (r, s3))
   }"

record os_task_info =
  oti_prio :: u8
  oti_taskid :: u8
  oti_state :: os_task_state
  oti_stkusage :: u16
  oti_stksize :: u16
  oti_cswcnt :: u32
  oti_runtime :: u32
  oti_last_checkin :: u32
  oti_next_checkin :: u32
  oti_name :: string

definition OS_TASK_MAX_NAME_LEN :: nat where "OS_TASK_MAX_NAME_LEN = 32"

text \<open>The scan for the lowest word of the stack that has been written to.\<close>

fun stack_unused :: "u32 list \<Rightarrow> nat" where
  "stack_unused [] = 0"
| "stack_unused (w # ws) = (if w \<noteq> OS_STACK_PATTERN then 0 else Suc (stack_unused ws))"

fun list_next :: "tid \<Rightarrow> tid list \<Rightarrow> tid option" where
  "list_next x [] = None"
| "list_next x (y # ys) = (if x = y then queue_first ys else list_next x ys)"

definition os_task_info_get_next ::
    "tid option \<Rightarrow> os_state \<Rightarrow> (tid \<times> os_task_info) option" where
  "os_task_info_get_next prev s =
     (case (case prev of Some p \<Rightarrow> list_next p (g_os_task_list s)
                       | None \<Rightarrow> queue_first (g_os_task_list s)) of
        None \<Rightarrow> None
      | Some t \<Rightarrow>
          let k = os_tasks s t in
          Some (t, \<lparr>oti_prio = t_prio k, oti_taskid = t_taskid k, oti_state = t_state k,
            oti_stkusage = of_nat (length (t_stack k) - stack_unused (t_stack k)),
            oti_stksize = t_stacksize k, oti_cswcnt = t_ctx_sw_cnt k, oti_runtime = t_run_time k,
            oti_last_checkin = sc_checkin_last (t_sanity_check k),
            oti_next_checkin = sc_checkin_last (t_sanity_check k) + sc_checkin_itvl (t_sanity_check k),
            oti_name = take OS_TASK_MAX_NAME_LEN (t_name k)\<rparr>))"

subsection \<open>os.c and start-up\<close>

definition OS_SANITY_PRIO :: u8 where "OS_SANITY_PRIO = 0xfe"
definition OS_IDLE_PRIO :: u8 where "OS_IDLE_PRIO = 0xff"

definition os_started :: "os_state \<Rightarrow> bool" where
  "os_started s = g_os_started s"

definition os_init_idle_task :: "(u32 list \<Rightarrow> u32 list) \<Rightarrow> nat \<Rightarrow> tid \<Rightarrow> u16 \<Rightarrow> os_state \<Rightarrow> os_state option" where
  "os_init_idle_task frame mu idle sz s =
     map_option snd (os_task_init frame mu idle ''idle'' 0 0 OS_IDLE_PRIO OS_TIMEOUT_NEVER sz s)"

definition os_sanity_task_init ::
    "(u32 list \<Rightarrow> u32 list) \<Rightarrow> nat \<Rightarrow> tid \<Rightarrow> u16 \<Rightarrow> os_state \<Rightarrow> (pend_result \<times> os_state) option" where
  "os_sanity_task_init frame mu sanity sz s = (let (_, s1) = os_mutex_init (Some mu) s in
     os_task_init frame mu sanity ''os_sanity'' 1 0 OS_SANITY_PRIO OS_TIMEOUT_NEVER sz s1)"

text \<open>
  Of the simulator's start-up the parts that touch the kernel's memory: \<^verbatim>\<open>os_bsp_init\<close>, which sets up the
  board, and the start of the host's timer have no effect on it.
\<close>

definition os_arch_os_init ::
    "(u32 list \<Rightarrow> u32 list) \<Rightarrow> nat \<Rightarrow> tid \<Rightarrow> tid \<Rightarrow> u16 \<Rightarrow> os_state \<Rightarrow> os_state option" where
  "os_arch_os_init frame mu idle sanity sz s = do {
     let s1 = s\<lparr>g_current_task := None, g_os_run_list := [], g_os_sleep_list := []\<rparr>;
     s2 \<leftarrow> os_init_idle_task frame mu idle sz s1;
     (_, s3) \<leftarrow> os_sanity_task_init frame mu sanity sz s2;
     Some s3
   }"

definition os_arch_os_start :: "os_state \<Rightarrow> os_state option" where
  "os_arch_os_start s = do {
     t \<leftarrow> os_sched_next_task s;
     Some ((os_sched_set_current_task (Some t) s)\<lparr>g_os_started := True\<rparr>)
   }"

text \<open>
  Creating the application's tasks before the start, each with its number, name, function,
  priority, check-in interval and stack sz.
\<close>

fun create_tasks :: "(u32 list \<Rightarrow> u32 list) \<Rightarrow> nat \<Rightarrow>
    (tid \<times> string \<times> nat \<times> u8 \<times> u32 \<times> u16) list \<Rightarrow> os_state \<Rightarrow> os_state option" where
  "create_tasks frame mu [] s = Some s"
| "create_tasks frame mu ((t, name, func, prio, itvl, sz) # ts) s = do {
     (_, s1) \<leftarrow> os_task_init frame mu t name func 0 prio itvl sz s;
     create_tasks frame mu ts s1
   }"

definition boot :: "(u32 list \<Rightarrow> u32 list) \<Rightarrow> nat \<Rightarrow> tid \<Rightarrow> tid \<Rightarrow> u16 \<Rightarrow>
    (tid \<times> string \<times> nat \<times> u8 \<times> u32 \<times> u16) list \<Rightarrow> os_state \<Rightarrow> os_state option" where
  "boot frame mu idle sanity sz ts s = do {
     s1 \<leftarrow> os_arch_os_init frame mu idle sanity sz s;
     s2 \<leftarrow> create_tasks frame mu ts s1;
     os_arch_os_start s2
   }"

text \<open>The state of a system that is being set up: tasks only on the run list, nothing else used.\<close>

definition setup_inv :: "os_state \<Rightarrow> bool" where
  "setup_inv s \<longleftrightarrow> sched_inv 1 s \<and> g_os_sleep_list s = [] \<and> \<not> g_os_started s"

text \<open>The objects that start-up does not touch.\<close>

definition objects_fresh :: "os_state \<Rightarrow> bool" where
  "objects_fresh s \<longleftrightarrow> (\<forall>ob. obj_head s ob = []) \<and>
     (\<forall>i. mu_level (os_mutexes s i) = 0 \<and> mu_owner (os_mutexes s i) = None) \<and>
     (\<forall>e. ev_queued (os_events s e) = 0) \<and>
     (\<forall>q. os_eventqs s q = \<lparr>evq_task = None, evq_list = []\<rparr>) \<and>
     g_callout_list s = [] \<and> (\<forall>c. \<not> c_linked (os_callouts s c)) \<and> inj (\<lambda>c. c_ev (os_callouts s c))"

text \<open>Kernel memory as the C runtime leaves it, with the objects of the application initialised.\<close>

definition fresh_memory :: "os_state \<Rightarrow> bool" where
  "fresh_memory s \<longleftrightarrow> \<not> g_os_started s \<and> (\<forall>t. t_obj (os_tasks s t) = None) \<and> objects_fresh s"

text \<open>The memory a task is created in.\<close>

definition new_task :: "(u32 list \<Rightarrow> u32 list) \<Rightarrow> u8 \<Rightarrow> string \<Rightarrow> nat \<Rightarrow> nat \<Rightarrow> u8 \<Rightarrow> u32 \<Rightarrow> u16 \<Rightarrow> os_task" where
  "new_task frame i name func arg prio itvl sz =
     \<lparr>t_stack = frame (clear_stack (unat sz)), t_stacksize = sz, t_flags = 0, t_taskid = i,
      t_prio = prio, t_state = OS_TASK_READY, t_name = name, t_func = func, t_arg = arg,
      t_obj = None, t_sanity_check = \<lparr>sc_checkin_last = 0,
        sc_checkin_itvl = (if itvl = OS_TIMEOUT_NEVER then 0 else itvl), sc_func = None, sc_arg = 0\<rparr>,
      t_next_wakeup = 0, t_run_time = 0, t_ctx_sw_cnt = 0\<rparr>"

definition task_added :: "(u32 list \<Rightarrow> u32 list) \<Rightarrow> tid \<Rightarrow> string \<Rightarrow> nat \<Rightarrow> nat \<Rightarrow> u8 \<Rightarrow> u32 \<Rightarrow> u16 \<Rightarrow> os_state \<Rightarrow> os_state" where
  "task_added frame t name func arg prio itvl sz s =
     (let s1 = s\<lparr>os_tasks := (os_tasks s)(t := new_task frame (g_task_id s) name func arg prio itvl sz),
        g_task_id := g_task_id s + 1, g_os_task_list := g_os_task_list s @ [t],
        g_os_sanity_check_list := (if itvl = OS_TIMEOUT_NEVER then g_os_sanity_check_list s
                                   else t # g_os_sanity_check_list s)\<rparr>
      in s1\<lparr>g_os_run_list := prio_insert s1 t (g_os_run_list s)\<rparr>)"

definition zero_os :: os_state where
  "zero_os = sample_os\<lparr>g_os_task_list := [], g_task_id := 0, g_os_run_list := [],
     g_current_task := None, g_os_started := False\<rparr>"

text \<open>A check is satisfied when its function says so or it was made within its interval.\<close>

definition check_ok :: "(nat \<Rightarrow> os_sanity_check \<Rightarrow> nat \<Rightarrow> os_error) \<Rightarrow> u32 \<Rightarrow> os_sanity_check \<Rightarrow> bool" where
  "check_ok run now sc \<longleftrightarrow>
     (case sc_func sc of None \<Rightarrow> False | Some f \<Rightarrow> run f sc (sc_arg sc) = OS_OK) \<or>
     unat (now - sc_checkin_last sc) \<le> unat (sc_checkin_itvl sc)"

subsection \<open>Lemmas\<close>

lemma os_task_init_added:
  assumes "\<not> g_os_started s" "t \<notin> set (g_os_run_list s)" "t \<notin> set (g_os_sleep_list s)"
  shows "os_task_init frame mu t name func arg prio itvl sz s =
     Some (Pend_Return OS_OK, task_added frame t name func arg prio itvl sz s)"
  using assms
  by (cases "itvl = OS_TIMEOUT_NEVER"; simp add: os_task_init_def os_task_next_id_def
      os_sanity_check_init_def Let_def os_sanity_check_register_def with_sanity_lock_def
      os_sanity_check_list_lock_def os_sanity_check_register_locked_def
      os_sanity_check_list_unlock_def os_sched_insert_def task_added_def new_task_def upd_task_def;
      intro os_state.equality; simp add: prio_insert_def)

lemma task_added_simps [simp]:
  "g_os_sleep_list (task_added frame t name func arg prio itvl sz s) = g_os_sleep_list s"
  "g_os_started (task_added frame t name func arg prio itvl sz s) = g_os_started s"
  "obj_head (task_added frame t name func arg prio itvl sz s) = obj_head s"
  "os_mutexes (task_added frame t name func arg prio itvl sz s) = os_mutexes s"
  "os_sems (task_added frame t name func arg prio itvl sz s) = os_sems s"
  "os_events (task_added frame t name func arg prio itvl sz s) = os_events s"
  "os_eventqs (task_added frame t name func arg prio itvl sz s) = os_eventqs s"
  "os_callouts (task_added frame t name func arg prio itvl sz s) = os_callouts s"
  "g_callout_list (task_added frame t name func arg prio itvl sz s) = g_callout_list s"
  "set (g_os_run_list (task_added frame t name func arg prio itvl sz s)) =
     insert t (set (g_os_run_list s))"
  "distinct (g_os_run_list (task_added frame t name func arg prio itvl sz s)) =
     (t \<notin> set (g_os_run_list s) \<and> distinct (g_os_run_list s))"
  "os_tasks (task_added frame t name func arg prio itvl sz s) x =
     (if x = t then new_task frame (g_task_id s) name func arg prio itvl sz else os_tasks s x)"
  by (simp_all add: task_added_def Let_def)

lemma sched_inv_task_added:
  assumes inv: "setup_inv s" and t: "t \<notin> set (g_os_run_list s)"
  shows "setup_inv (task_added frame t name func arg prio itvl sz s)" (is "setup_inv ?S")
proof -
  have empty: "g_os_sleep_list s = []" using inv by (simp add: setup_inv_def)
  then have none: "obj_head s ob = []" "t_obj (os_tasks s x) = None" for ob x
  proof -
    show "obj_head s ob = []" using inv empty by (auto simp: setup_inv_def sched_inv_def obj_inv_def)
    show "t_obj (os_tasks s x) = None"
      using inv empty obj_inv_not_asleep(1) [of s x] by (simp add: setup_inv_def sched_inv_def)
  qed
  have flags: "no_timeout ?S x = (x \<noteq> t \<and> no_timeout s x)" for x
    by (simp add: no_timeout_def new_task_def flag_set_def)
  have "lists_inv ?S"
    using inv t empty by (auto simp: setup_inv_def sched_inv_def lists_inv_def flags new_task_def)
  moreover have "obj_inv ?S" using none by (simp add: obj_inv_def new_task_def)
  moreover have "sleep_inv 1 ?S" using empty by (simp add: sleep_inv_def)
  moreover have "run_sorted ?S"
  proof -
    have run: "g_os_run_list ?S = prio_insert ?S t (g_os_run_list s)"
      by (simp add: task_added_def Let_def prio_insert_def)
    have "sorted_wrt (\<lambda>a b. task_prio ?S a \<le> task_prio ?S b) (g_os_run_list s)"
    proof (rule sorted_wrt_mono_rel)
      show "sorted_wrt (\<lambda>a b. task_prio s a \<le> task_prio s b) (g_os_run_list s)"
        using inv by (simp add: setup_inv_def sched_inv_def run_sorted_def)
    qed (use t in auto)
    then show ?thesis unfolding run_sorted_def run by (rule prio_queue.sorted_ins)
  qed
  ultimately show ?thesis using inv empty by (simp add: setup_inv_def sched_inv_def)
qed

lemma objects_fresh_task_added [simp]:
  "objects_fresh (task_added frame t name func arg prio itvl sz s) = objects_fresh s"
  by (simp add: objects_fresh_def)

lemma create_tasks_ok:
  "setup_inv s \<Longrightarrow> objects_fresh s \<Longrightarrow> distinct (map fst ts) \<Longrightarrow>
   set (map fst ts) \<inter> set (g_os_run_list s) = {} \<Longrightarrow>
   \<exists>s'. create_tasks frame mu ts s = Some s' \<and> setup_inv s' \<and> objects_fresh s' \<and>
     set (g_os_run_list s') = set (map fst ts) \<union> set (g_os_run_list s)"
proof (induction ts arbitrary: s)
  case (Cons x ts)
  obtain t name func prio itvl sz where x: "x = (t, name, func, prio, itvl, sz)" by (cases x)
  let ?s = "task_added frame t name func 0 prio itvl sz s"
  have t: "t \<notin> set (g_os_run_list s)" "g_os_sleep_list s = []" "\<not> g_os_started s"
    using Cons.prems x by (auto simp: setup_inv_def)
  have "os_task_init frame mu t name func 0 prio itvl sz s = Some (Pend_Return OS_OK, ?s)"
    using t by (intro os_task_init_added) simp_all
  moreover have "setup_inv ?s" using Cons.prems(1) t(1) by (rule sched_inv_task_added)
  moreover have "set (map fst ts) \<inter> set (g_os_run_list ?s) = {}" using Cons.prems(3,4) x by auto
  ultimately show ?case using Cons.IH [of ?s] Cons.prems(2,3) x by auto
qed simp

lemma objects_fresh_inv:
  assumes "objects_fresh s"
  shows "sem_inv s" "mutex_inv s" "evq_inv s" "callout_inv 1 s"
  using assms
  by (simp_all add: objects_fresh_def sem_inv_def mutex_inv_def mutex_ok_def evq_inv_def evq_wf_def
      evq_tasks_def OS_EVENT_QUEUED_def callout_inv_def callout_list_inv_def callout_events_def
      os_callout_queued_def)

lemma os_arch_os_start_ok:
  assumes "setup_inv s" "objects_fresh s" "idle \<in> set (g_os_run_list s)"
  shows "\<exists>s'. os_arch_os_start s = Some s' \<and> kern_inv idle s' \<and> objects_fresh s' \<and>
     g_os_run_list s' = g_os_run_list s"
proof -
  define s' where "s' = (os_sched_set_current_task (Some (hd (g_os_run_list s))) s)\<lparr>g_os_started := True\<rparr>"
  have run: "os_sched_next_task s = Some (hd (g_os_run_list s))"
    using assms(3) by (cases "g_os_run_list s") (auto simp: os_sched_next_task_def)
  have "sched_inv 1 s' = sched_inv 1 s"
    by (rule sched_inv_cong) (simp_all add: s'_def os_sched_set_current_task_def no_timeout_def)
  then have "os_inv idle s'"
    using assms run by (simp add: os_inv_def setup_inv_def)
      (simp add: s'_def os_sched_set_current_task_def os_sched_next_task_def)
  moreover have "objects_fresh s'"
    using assms(2) by (simp add: objects_fresh_def s'_def os_sched_set_current_task_def)
  moreover have "os_arch_os_start s = Some s'" using run by (simp add: os_arch_os_start_def s'_def)
  ultimately show ?thesis
    using objects_fresh_inv [of s'] by (simp add: kern_inv_def) (simp add: s'_def os_sched_set_current_task_def)
qed

lemma boot_ok:
  assumes fresh: "fresh_memory s" and ne: "idle \<noteq> sanity" and d: "distinct (map fst ts)"
    and out: "idle \<notin> fst ` set ts" "sanity \<notin> fst ` set ts"
  shows "\<exists>s'. boot frame mu idle sanity sz ts s = Some s' \<and> kern_inv idle s' \<and> objects_fresh s' \<and>
     set (g_os_run_list s') = {idle, sanity} \<union> fst ` set ts"
proof -
  define s0 where "s0 = s\<lparr>g_current_task := None, g_os_run_list := [], g_os_sleep_list := []\<rparr>"
  define s1 where "s1 = task_added frame idle ''idle'' 0 0 OS_IDLE_PRIO OS_TIMEOUT_NEVER sz s0"
  define s2 where "s2 = snd (os_mutex_init (Some mu) s1)"
  define s3 where "s3 = task_added frame sanity ''os_sanity'' 1 0 OS_SANITY_PRIO OS_TIMEOUT_NEVER sz s2"
  have s0: "setup_inv s0" "objects_fresh s0"
    using fresh by (simp_all add: s0_def setup_inv_def sched_inv_def lists_inv_def run_sorted_def obj_inv_def
        sleep_inv_def fresh_memory_def objects_fresh_def)
  have r0: "g_os_run_list s0 = []" by (simp add: s0_def)
  have s1: "setup_inv s1" "objects_fresh s1" "set (g_os_run_list s1) = {idle}"
    using sched_inv_task_added [OF s0(1)] s0(2) r0 by (simp_all add: s1_def)
  have "sched_inv 1 s2 = sched_inv 1 s1"
    using s1(2) by (intro sched_inv_cong) (auto simp: s2_def os_mutex_init_def objects_fresh_def no_timeout_def)
  then have s2: "setup_inv s2" "objects_fresh s2" "set (g_os_run_list s2) = {idle}"
    using s1 by (auto simp: s2_def setup_inv_def objects_fresh_def os_mutex_init_def)
  have s3: "setup_inv s3" "objects_fresh s3" "set (g_os_run_list s3) = {idle, sanity}"
    using sched_inv_task_added [OF s2(1), of sanity] s2 ne by (auto simp: s3_def)
  have init: "os_arch_os_init frame mu idle sanity sz s = Some s3"
    using os_task_init_added [of s0 idle frame mu, folded s1_def]
      os_task_init_added [of s2 sanity frame mu] s0(1) r0 s2 ne
    by (simp add: os_arch_os_init_def os_init_idle_task_def os_sanity_task_init_def setup_inv_def
        split_def s0_def [symmetric] s1_def [symmetric] s2_def [symmetric]) (simp add: s3_def)
  from create_tasks_ok [OF s3(1,2) d, of frame mu] s3(3) out obtain s4 where s4:
    "create_tasks frame mu ts s3 = Some s4" "setup_inv s4" "objects_fresh s4"
    "set (g_os_run_list s4) = fst ` set ts \<union> {idle, sanity}" by auto
  from os_arch_os_start_ok [OF s4(2,3), of idle] s4(1,4) init show ?thesis by (auto simp: boot_def)
qed

text \<open>
  C13: Start-up establishes the invariant. From cleared memory, \<^verbatim>\<open>os_init\<close>, any number of
  \<^verbatim>\<open>os_task_init\<close> calls for distinct tasks and \<^verbatim>\<open>os_start\<close> succeed, every created task is ready, the
  one with the highest priority runs, and the invariant of the running system holds.
\<close>

theorem boot_establishes_inv:
  assumes "fresh_memory s" "idle \<noteq> sanity" "distinct (map fst ts)"
    and "idle \<notin> fst ` set ts" "sanity \<notin> fst ` set ts"
  shows "\<exists>s'. boot frame mu idle sanity sz ts s = Some s' \<and>
     sys_inv idle \<lparr>kern = s', conts = (\<lambda>_. None), held = (\<lambda>_ _. 0)\<rparr> \<and>
     set (g_os_run_list s') = {idle, sanity} \<union> fst ` set ts \<and>
     (\<exists>c. g_current_task s' = Some c \<and>
        (\<forall>x \<in> {idle, sanity} \<union> fst ` set ts. task_prio s' c \<le> task_prio s' x))"
proof -
  from boot_ok [OF assms, of frame mu sz] obtain s' where s':
    "boot frame mu idle sanity sz ts s = Some s'" "kern_inv idle s'" "objects_fresh s'"
    "set (g_os_run_list s') = {idle, sanity} \<union> fst ` set ts" by blast
  have os: "os_inv idle s'" using s'(2) by (simp add: kern_inv_def)
  have "t_obj (os_tasks s' t) \<noteq> Some ob" for t ob
    using waiter_obj [OF os_inv_sched [OF os], of t ob] s'(3) by (simp add: objects_fresh_def)
  then have "sys_inv idle \<lparr>kern = s', conts = (\<lambda>_. None), held = (\<lambda>_ _. 0)\<rparr>"
    using s'(2,3) by (simp add: sys_inv_def waits_inv_def held_inv_def objects_fresh_def)
  moreover obtain c where "g_current_task s' = Some c" by (rule os_inv_current [OF os])
  ultimately show ?thesis using s'(1,4) os_inv_highest [OF os] by auto
qed

theorem boot_establishes_inv_witness:
  "\<exists>s' c. boot id 0 0 1 64 [(2, ''app'', 7, 10, 100, 128)] zero_os = Some s' \<and>
     set (g_os_run_list s') = {0, 1, 2} \<and> g_current_task s' = Some c \<and>
     task_prio s' c \<le> task_prio s' 2"
proof -
  have "fresh_memory zero_os"
    by (simp add: zero_os_def fresh_memory_def objects_fresh_def sample_os_def sample_task_def inj_def)
  from boot_establishes_inv [OF this, of 0 1 "[(2, ''app'', 7, 10, 100, 128)]" id 0 64]
  show ?thesis by auto
qed

text \<open>
  C14: The watchdog pass of the sanity task restarts the system exactly when some registered check
  is overdue: its function is absent or reports an error, and the time since the last check-in
  exceeds the interval. This holds while intervals and ages are below half the tick range, and
  across a wrap of the tick counter, for check functions that leave the kernel's memory alone.
\<close>

theorem os_sanity_checks_exact:
  assumes "distinct ts"
    and "\<forall>t \<in> set ts. unat (g_os_time s - sc_checkin_last (t_sanity_check (os_tasks s t))) < 2 ^ 31 \<and>
      unat (sc_checkin_itvl (t_sanity_check (os_tasks s t))) < 2 ^ 31"
  shows "os_sanity_checks run ts s = None \<longleftrightarrow>
    \<not> (\<forall>t \<in> set ts. check_ok run (g_os_time s) (t_sanity_check (os_tasks s t)))"
  using assms
proof (induction ts arbitrary: s)
  case (Cons t ts)
  let ?sc = "t_sanity_check (os_tasks s t)"
  define s1 where "s1 = upd_task t (\<lambda>k. k\<lparr>t_sanity_check := (t_sanity_check k)\<lparr>sc_checkin_last := os_time_get s\<rparr>\<rparr>) s"
  have t: "t \<notin> set ts" and d: "distinct ts" using Cons.prems(1) by simp_all
  have gt: "OS_TIME_TICK_GT (os_time_get s - sc_checkin_last ?sc) (sc_checkin_itvl ?sc) \<longleftrightarrow>
      unat (sc_checkin_itvl ?sc) < unat (g_os_time s - sc_checkin_last ?sc)"
    using Cons.prems(2) tick_gt_iff [of "g_os_time s - sc_checkin_last ?sc" 0 "sc_checkin_itvl ?sc"]
    by (simp add: os_time_get_def)
  have same: "os_tasks s1 x = os_tasks s x" if "x \<in> set ts" for x using that t by (auto simp: s1_def)
  have time: "g_os_time s1 = g_os_time s" by (simp add: s1_def)
  have later: "os_sanity_checks run ts s1 = None \<longleftrightarrow>
      \<not> (\<forall>x \<in> set ts. check_ok run (g_os_time s) (t_sanity_check (os_tasks s x)))"
    using Cons.IH [OF d, of s1] Cons.prems(2) by (simp add: same time)
  show ?case
    using later Cons.IH [OF d, of s] Cons.prems(2) gt
    by (simp add: Let_def check_ok_def not_less s1_def [symmetric])
qed simp

theorem os_sanity_checks_exact_witness:
  "os_sanity_checks (\<lambda>_ _ _. OS_EINVAL) [1] (sample_os\<lparr>g_os_time := 5\<rparr>) = None"
  using os_sanity_checks_exact [of "[1]" "sample_os\<lparr>g_os_time := 5\<rparr>" "\<lambda>_ _ _. OS_EINVAL"]
  by (simp add: sample_os_def sample_task_def sample_sanity_def check_ok_def)

end
