(* ===== verification/Os_Mempool.thy ===== *)
theory Os_Mempool
  imports Os_Kernel
begin

text \<open>
  Memory pools, \<^verbatim>\<open>libs/os/src/os_mempool.c\<close>. The free blocks of a pool are chained through their own
  first words, so the model has a word memory and follows the links in it. The invariant says
  that the chain has exactly as many blocks as the pool counts, all of them blocks of the pool
  and none twice; the pool then implements the abstract list of free blocks.
\<close>

subsection \<open>os_mempool.c\<close>

definition OS_ALIGNMENT :: int where "OS_ALIGNMENT = 4"

definition OS_ALIGN :: "int \<Rightarrow> int \<Rightarrow> int" where
  "OS_ALIGN n a = (if n AND (a - 1) = 0 then n else n + (a - (n AND (a - 1))))"

definition OS_MEMPOOL_TRUE_BLOCK_SIZE :: "int \<Rightarrow> int" where
  "OS_MEMPOOL_TRUE_BLOCK_SIZE bsize = OS_ALIGN bsize OS_ALIGNMENT"

record os_mempool =
  mp_block_size :: int
  mp_num_blocks :: int
  mp_num_free :: int
  mp_membuf_addr :: u32
  mp_first :: u32
  mp_name :: string

text \<open>
  \<open>mem a\<close> is the word at address \<open>a\<close>; for a free block that is its member \<^verbatim>\<open>mb_next\<close>. A null pointer
  is address zero.
\<close>

record pool_state =
  pools :: "nat \<Rightarrow> os_mempool"
  g_os_mempool_list :: "nat list"
  mem :: "u32 \<Rightarrow> u32"

text \<open>The loop of \<^verbatim>\<open>os_mempool_init\<close> that chains the blocks.\<close>

fun chain_blocks :: "nat \<Rightarrow> u32 \<Rightarrow> u32 \<Rightarrow> (u32 \<Rightarrow> u32) \<Rightarrow> u32 \<Rightarrow> u32" where
  "chain_blocks (Suc (Suc k)) tbs a m = chain_blocks (Suc k) tbs (a + tbs) (m(a := a + tbs))"
| "chain_blocks k tbs a m = m(a := 0)"

definition os_mempool_init ::
    "nat option \<Rightarrow> int \<Rightarrow> int \<Rightarrow> u32 \<Rightarrow> string \<Rightarrow> pool_state \<Rightarrow> os_error \<times> pool_state" where
  "os_mempool_init mp blocks block_size membuf name s =
     (case mp of
        None \<Rightarrow> (OS_INVALID_PARM, s)
      | Some i \<Rightarrow>
          if membuf = 0 \<or> blocks \<le> 0 \<or> block_size \<le> 0 then (OS_INVALID_PARM, s)
          else if membuf AND (of_int OS_ALIGNMENT - 1) \<noteq> 0 then (OS_MEM_NOT_ALIGNED, s)
          else
            let tbs = OS_MEMPOOL_TRUE_BLOCK_SIZE block_size in
            (OS_OK, s\<lparr>
               pools := (pools s)(i := \<lparr>mp_block_size = block_size, mp_num_blocks = blocks,
                 mp_num_free = blocks, mp_membuf_addr = membuf, mp_first = membuf, mp_name = name\<rparr>),
               mem := chain_blocks (nat blocks) (of_int tbs) membuf (mem s),
               g_os_mempool_list := g_os_mempool_list s @ [i]\<rparr>))"

definition os_memblock_get :: "nat option \<Rightarrow> pool_state \<Rightarrow> u32 \<times> pool_state" where
  "os_memblock_get mp s =
     (case mp of
        None \<Rightarrow> (0, s)
      | Some i \<Rightarrow>
          let p = pools s i in
          if mp_num_free p \<noteq> 0 then
            (mp_first p, s\<lparr>pools := (pools s)(i := p\<lparr>mp_first := mem s (mp_first p),
               mp_num_free := mp_num_free p - 1\<rparr>)\<rparr>)
          else (0, s))"

definition os_memblock_put :: "nat option \<Rightarrow> u32 \<Rightarrow> pool_state \<Rightarrow> os_error \<times> pool_state" where
  "os_memblock_put mp block_addr s =
     (case mp of
        None \<Rightarrow> (OS_INVALID_PARM, s)
      | Some i \<Rightarrow>
          if block_addr = 0 then (OS_INVALID_PARM, s)
          else
            let p = pools s i;
                true_block_size = of_int (OS_MEMPOOL_TRUE_BLOCK_SIZE (mp_block_size p)) :: u32;
                end_addr = mp_membuf_addr p + of_int (mp_num_blocks p) * true_block_size
            in if block_addr < mp_membuf_addr p \<or> end_addr \<le> block_addr then (OS_INVALID_PARM, s)
               else if (block_addr - mp_membuf_addr p) mod true_block_size \<noteq> 0
               then (OS_INVALID_PARM, s)
               else (OS_OK, s\<lparr>mem := (mem s)(block_addr := mp_first p),
                      pools := (pools s)(i := p\<lparr>mp_first := block_addr,
                        mp_num_free := mp_num_free p + 1\<rparr>)\<rparr>))"

record os_mempool_info =
  omi_block_size :: int
  omi_num_blocks :: int
  omi_num_free :: int
  omi_name :: string

definition OS_MEMPOOL_INFO_NAME_LEN :: nat where "OS_MEMPOOL_INFO_NAME_LEN = 32"

fun next_in :: "nat \<Rightarrow> nat list \<Rightarrow> nat option" where
  "next_in x [] = None"
| "next_in x (y # ys) = (if x = y then queue_first ys else next_in x ys)"

definition os_mempool_info_get_next ::
    "nat option \<Rightarrow> pool_state \<Rightarrow> (nat \<times> os_mempool_info) option" where
  "os_mempool_info_get_next mp s =
     (case (case mp of None \<Rightarrow> queue_first (g_os_mempool_list s)
                     | Some i \<Rightarrow> next_in i (g_os_mempool_list s)) of
        None \<Rightarrow> None
      | Some i \<Rightarrow> let p = pools s i in
          Some (i, \<lparr>omi_block_size = mp_block_size p, omi_num_blocks = mp_num_blocks p,
            omi_num_free = mp_num_free p,
            omi_name = take OS_MEMPOOL_INFO_NAME_LEN (mp_name p)\<rparr>))"

subsection \<open>Abstraction and invariant\<close>

text \<open>The first \<open>n\<close> blocks of the chain that starts at \<open>p\<close>, and what the chain ends with.\<close>

fun walk :: "nat \<Rightarrow> (u32 \<Rightarrow> u32) \<Rightarrow> u32 \<Rightarrow> u32 list" where
  "walk 0 m p = []"
| "walk (Suc n) m p = p # walk n m (m p)"

fun chain_end :: "nat \<Rightarrow> (u32 \<Rightarrow> u32) \<Rightarrow> u32 \<Rightarrow> u32" where
  "chain_end 0 m p = p"
| "chain_end (Suc n) m p = chain_end n m (m p)"

definition free_blocks :: "pool_state \<Rightarrow> nat \<Rightarrow> u32 list" where
  "free_blocks s i = walk (nat (mp_num_free (pools s i))) (mem s) (mp_first (pools s i))"

definition true_size :: "os_mempool \<Rightarrow> nat" where
  "true_size p = nat (OS_MEMPOOL_TRUE_BLOCK_SIZE (mp_block_size p))"

definition pool_blocks :: "os_mempool \<Rightarrow> u32 list" where
  "pool_blocks p = map (\<lambda>k. mp_membuf_addr p + of_nat (k * true_size p)) [0..<nat (mp_num_blocks p)]"

text \<open>A pool whose memory fits into the address space.\<close>

definition pool_config :: "os_mempool \<Rightarrow> bool" where
  "pool_config p \<longleftrightarrow> 0 < mp_block_size p \<and> 0 < mp_num_blocks p \<and> mp_membuf_addr p \<noteq> 0 \<and>
     unat (mp_membuf_addr p) + nat (mp_num_blocks p) * true_size p < 2 ^ 32"

definition pool_inv :: "nat \<Rightarrow> pool_state \<Rightarrow> bool" where
  "pool_inv i s \<longleftrightarrow> pool_config (pools s i) \<and> 0 \<le> mp_num_free (pools s i) \<and>
     distinct (free_blocks s i) \<and> set (free_blocks s i) \<subseteq> set (pool_blocks (pools s i)) \<and>
     chain_end (nat (mp_num_free (pools s i))) (mem s) (mp_first (pools s i)) = 0"

text \<open>Block addresses as natural numbers.\<close>

definition block_addr :: "os_mempool \<Rightarrow> nat \<Rightarrow> u32" where
  "block_addr p k = mp_membuf_addr p + of_nat (k * true_size p)"

text \<open>A put that succeeds, and a number of gets with the blocks they return.\<close>

definition memblock_give :: "nat \<Rightarrow> u32 \<Rightarrow> pool_state \<Rightarrow> pool_state option" where
  "memblock_give i b s = (case os_memblock_put (Some i) b s of (rc, s') \<Rightarrow> if rc = OS_OK then Some s' else None)"

primrec take_blocks :: "('s \<Rightarrow> 'b \<times> 's) \<Rightarrow> nat \<Rightarrow> 's \<Rightarrow> 'b list \<times> 's" where
  "take_blocks get 0 s = ([], s)"
| "take_blocks get (Suc n) s =
     (let (b, s1) = get s; (bs, s2) = take_blocks get n s1 in (b # bs, s2))"

text \<open>A pool of three blocks of four bytes, all free.\<close>

definition demo_pool :: pool_state where
  "demo_pool = snd (os_mempool_init (Some 0) 3 4 0x1000 ''p''
     \<lparr>pools = (\<lambda>_. \<lparr>mp_block_size = 0, mp_num_blocks = 0, mp_num_free = 0, mp_membuf_addr = 0,
        mp_first = 0, mp_name = []\<rparr>), g_os_mempool_list = [], mem = (\<lambda>_. 0)\<rparr>)"

subsection \<open>Lemmas\<close>

lemma true_block_size_eq: "0 < n \<Longrightarrow> OS_MEMPOOL_TRUE_BLOCK_SIZE n = ((n + 3) div 4) * 4"
proof -
  have "n AND 3 = n mod 4" using take_bit_eq_mask [of 2 n] by (simp add: take_bit_eq_mod mask_eq_exp_minus_1)
  then show ?thesis
    unfolding OS_MEMPOOL_TRUE_BLOCK_SIZE_def OS_ALIGN_def OS_ALIGNMENT_def by simp presburger
qed

lemma true_block_size_ge: "0 < n \<Longrightarrow> n \<le> OS_MEMPOOL_TRUE_BLOCK_SIZE n"
  unfolding true_block_size_eq by presburger

lemma true_size_pos: "pool_config p \<Longrightarrow> 0 < true_size p"
  using true_block_size_ge [of "mp_block_size p"] by (simp add: pool_config_def true_size_def)

lemma unat_block_addr:
  assumes "pool_config p" "k < nat (mp_num_blocks p)"
  shows "unat (block_addr p k) = unat (mp_membuf_addr p) + k * true_size p"
proof -
  have "k * true_size p \<le> nat (mp_num_blocks p) * true_size p" using assms(2) by (intro mult_le_mono1) simp
  then have "unat (mp_membuf_addr p) + k * true_size p < 2 ^ 32"
    using assms(1) unfolding pool_config_def by linarith
  then show ?thesis by (simp add: block_addr_def unat_word_ariths unat_of_nat take_bit_eq_mod mod_simps)
qed

lemma pool_blocks_eq: "pool_blocks p = map (block_addr p) [0..<nat (mp_num_blocks p)]"
  by (simp add: pool_blocks_def block_addr_def)

lemma distinct_pool_blocks:
  assumes "pool_config p" shows "distinct (pool_blocks p)"
proof -
  have "inj_on (block_addr p) {0..<nat (mp_num_blocks p)}"
    using unat_block_addr [OF assms] true_size_pos [OF assms]
    by (intro inj_onI) (metis add_left_cancel atLeastLessThan_iff mult_cancel2 not_less0)
  then show ?thesis by (simp add: pool_blocks_eq distinct_map)
qed

lemma pool_block_nonzero:
  assumes "pool_config p" "b \<in> set (pool_blocks p)" shows "b \<noteq> 0"
proof -
  obtain k where "b = block_addr p k" "k < nat (mp_num_blocks p)" using assms(2) by (auto simp: pool_blocks_eq)
  then have "unat (mp_membuf_addr p) \<le> unat b" using unat_block_addr [OF assms(1)] by simp
  moreover have "0 < unat (mp_membuf_addr p)" using assms(1) by (simp add: pool_config_def unat_gt_0)
  ultimately show ?thesis by auto
qed

lemma walk_upd: "b \<notin> set (walk n m p) \<Longrightarrow> walk n (m(b := x)) p = walk n m p \<and>
    chain_end n (m(b := x)) p = chain_end n m p"
  by (induction n arbitrary: p) auto

lemma get_free:
  assumes inv: "pool_inv i s" and free: "free_blocks s i = b # bs"
  shows "\<exists>s'. os_memblock_get (Some i) s = (b, s') \<and> pool_inv i s' \<and> free_blocks s' i = bs \<and>
     mem s' = mem s \<and> pool_blocks (pools s' i) = pool_blocks (pools s i) \<and>
     (\<forall>j. j \<noteq> i \<longrightarrow> pools s' j = pools s j)"
proof -
  let ?p = "pools s i"
  obtain n where n: "nat (mp_num_free ?p) = Suc n" "mp_num_free ?p \<noteq> 0" "nat (mp_num_free ?p - 1) = n"
    using free by (cases "nat (mp_num_free ?p)") (auto simp: free_blocks_def)
  have b: "b = mp_first ?p" "bs = walk n (mem s) (mem s (mp_first ?p))"
    using free n(1) by (auto simp: free_blocks_def)
  define s' where "s' = s\<lparr>pools := (pools s)(i := ?p\<lparr>mp_first := mem s (mp_first ?p),
      mp_num_free := mp_num_free ?p - 1\<rparr>)\<rparr>"
  have "free_blocks s' i = bs" using n b by (simp add: free_blocks_def s'_def)
  moreover have "pool_blocks (pools s' i) = pool_blocks ?p" "pool_config (pools s' i) = pool_config ?p"
    by (simp_all add: s'_def pool_blocks_def pool_config_def true_size_def)
  moreover have "chain_end (nat (mp_num_free (pools s' i))) (mem s') (mp_first (pools s' i)) = 0"
    using inv n by (simp add: pool_inv_def s'_def)
  moreover have "0 \<le> mp_num_free (pools s' i)" using n by (simp add: s'_def)
  ultimately have "pool_inv i s'" using inv free by (simp add: pool_inv_def)
  moreover have "os_memblock_get (Some i) s = (b, s')"
    using n b by (simp add: os_memblock_get_def s'_def Let_def)
  ultimately show ?thesis using \<open>free_blocks s' i = bs\<close> by (simp add: s'_def pool_blocks_def true_size_def)
qed

lemma get_empty: "pool_inv i s \<Longrightarrow> free_blocks s i = [] \<Longrightarrow> os_memblock_get (Some i) s = (0, s)"
  by (cases "nat (mp_num_free (pools s i))")
    (auto simp: os_memblock_get_def free_blocks_def pool_inv_def Let_def)

lemma unat_of_int_nat: "n < 2 ^ 32 \<Longrightarrow> unat (of_int (int n) :: u32) = n"
  by (simp add: unat_of_nat take_bit_eq_mod)

text \<open>The checks of a put accept exactly the block addresses of the pool.\<close>

lemma put_checks:
  assumes "pool_config p"
  shows "(\<not> (b < mp_membuf_addr p \<or>
      mp_membuf_addr p + of_int (mp_num_blocks p) * of_int (OS_MEMPOOL_TRUE_BLOCK_SIZE (mp_block_size p)) \<le> b) \<and>
     (b - mp_membuf_addr p) mod of_int (OS_MEMPOOL_TRUE_BLOCK_SIZE (mp_block_size p)) = 0) \<longleftrightarrow>
     b \<in> set (pool_blocks p)"
proof -
  let ?t = "true_size p" and ?base = "mp_membuf_addr p"
  have t: "0 < ?t" "OS_MEMPOOL_TRUE_BLOCK_SIZE (mp_block_size p) = int ?t"
    using true_size_pos [OF assms] by (simp_all add: true_size_def)
  obtain n where n: "mp_num_blocks p = int n" using assms by (metis pool_config_def int_nat_eq less_imp_le)
  have fits: "unat ?base + n * ?t < 2 ^ 32" using assms n by (simp add: pool_config_def)
  have tn: "?t \<le> n * ?t" using n assms by (cases n) (simp_all add: pool_config_def)
  have lt: "?t < 2 ^ 32" "n * ?t < 2 ^ 32" using fits tn by linarith+
  have small: "unat (of_int (int ?t) :: u32) = ?t" "unat (of_int (int n) * of_int (int ?t) :: u32) = n * ?t"
    using unat_of_int_nat [OF lt(1)] unat_of_int_nat [OF lt(2)] by simp_all
  have end_addr: "unat (?base + of_int (int n) * of_int (int ?t)) = unat ?base + n * ?t"
    using fits unfolding unat_word_ariths(1) small by simp
  have "(\<not> (b < ?base \<or> ?base + of_int (int n) * of_int (int ?t) \<le> b) \<and> (b - ?base) mod of_int (int ?t) = 0) \<longleftrightarrow>
     unat ?base \<le> unat b \<and> unat b < unat ?base + n * ?t \<and> ?t dvd unat b - unat ?base"
  proof (cases "unat ?base \<le> unat b")
    case True
    then have "unat ((b - ?base) mod of_int (int ?t)) = (unat b - unat ?base) mod ?t"
      by (simp add: unat_mod small unat_sub word_le_nat_alt del: of_int_of_nat_eq)
    with True end_addr show ?thesis
      by (simp add: word_less_nat_alt word_le_nat_alt not_le dvd_eq_mod_eq_0 del: of_int_of_nat_eq)
       (metis unat_0 unat_eq_0)
  qed (simp add: word_less_nat_alt)
  also have "\<dots> \<longleftrightarrow> (\<exists>k < n. unat b = unat ?base + k * ?t)"
  proof
    assume *: "unat ?base \<le> unat b \<and> unat b < unat ?base + n * ?t \<and> ?t dvd unat b - unat ?base"
    then obtain k where k: "unat b - unat ?base = k * ?t" by (metis dvdE mult.commute)
    with * have "k * ?t < n * ?t" by linarith
    with k * show "\<exists>k < n. unat b = unat ?base + k * ?t" by (intro exI [of _ k]) auto
  qed (use t(1) in auto)
  also have "\<dots> \<longleftrightarrow> b \<in> set (pool_blocks p)"
    using unat_block_addr [OF assms] n by (auto simp: pool_blocks_eq image_iff word_unat_eq_iff)
  finally show ?thesis unfolding t(2) n .
qed

lemma put_free:
  assumes inv: "pool_inv i s" and b: "b \<in> set (pool_blocks (pools s i))" "b \<notin> set (free_blocks s i)"
  shows "\<exists>s'. os_memblock_put (Some i) b s = (OS_OK, s') \<and> pool_inv i s' \<and>
     free_blocks s' i = b # free_blocks s i \<and> pool_blocks (pools s' i) = pool_blocks (pools s i) \<and>
     (\<forall>j. j \<noteq> i \<longrightarrow> pools s' j = pools s j)"
proof -
  let ?p = "pools s i"
  define s' where "s' = s\<lparr>mem := (mem s)(b := mp_first ?p),
      pools := (pools s)(i := ?p\<lparr>mp_first := b, mp_num_free := mp_num_free ?p + 1\<rparr>)\<rparr>"
  have cfg: "pool_config ?p" and nf: "0 \<le> mp_num_free ?p" using inv by (simp_all add: pool_inv_def)
  have n: "nat (mp_num_free ?p + 1) = Suc (nat (mp_num_free ?p))" using nf by simp
  note w = walk_upd [OF b(2) [unfolded free_blocks_def], of "mp_first ?p"]
  have free: "free_blocks s' i = b # free_blocks s i" using n w by (simp add: free_blocks_def s'_def)
  have "pool_blocks (pools s' i) = pool_blocks ?p" "pool_config (pools s' i) = pool_config ?p"
    by (simp_all add: s'_def pool_blocks_def pool_config_def true_size_def)
  moreover have "chain_end (nat (mp_num_free (pools s' i))) (mem s') (mp_first (pools s' i)) = 0"
    using inv n w by (simp add: pool_inv_def s'_def)
  moreover have "0 \<le> mp_num_free (pools s' i)" using nf by (simp add: s'_def)
  ultimately have "pool_inv i s'" using inv free b by (simp add: pool_inv_def)
  moreover have "os_memblock_put (Some i) b s = (OS_OK, s')"
    using put_checks [OF cfg, of b] b(1) pool_block_nonzero [OF cfg b(1)]
    by (simp add: os_memblock_put_def s'_def Let_def)
  ultimately show ?thesis using free by (simp add: s'_def pool_blocks_def true_size_def)
qed

lemma put_reject:
  assumes "pool_config (pools s i)" "b \<notin> set (pool_blocks (pools s i))"
  shows "os_memblock_put (Some i) b s = (OS_INVALID_PARM, s)"
  using put_checks [OF assms(1), of b] assms(2)
  by (simp add: os_memblock_put_def Let_def del: mod_0_imp_dvd) argo

text \<open>Chaining a run of blocks changes only their own words and links them in order.\<close>

lemma chain_blocks_frame:
  "b \<notin> set (map (\<lambda>k. a + of_nat k * tbs) [0..<max 1 n]) \<Longrightarrow> chain_blocks n tbs a m b = m b"
proof (induction n tbs a m rule: chain_blocks.induct)
  case (1 k tbs a m)
  have "b \<noteq> a" using 1(2) by (force simp: image_iff)
  moreover have "b \<notin> set (map (\<lambda>k. a + tbs + of_nat k * tbs) [0..<max 1 (Suc k)])"
  proof
    assume "b \<in> set (map (\<lambda>k. a + tbs + of_nat k * tbs) [0..<max 1 (Suc k)])"
    then obtain j where j: "j < Suc k" "b = a + tbs + of_nat j * tbs" by (auto simp del: upt_Suc)
    then have "b = a + of_nat (Suc j) * tbs" by (simp add: algebra_simps)
    with 1(2) j(1) show False by (auto simp: image_iff simp del: of_nat_Suc upt_Suc)
  qed
  ultimately show ?case using 1(1) unfolding chain_blocks.simps fun_upd_def by simp
qed auto

lemma chain_blocks_walk:
  "0 < n \<Longrightarrow> distinct (map (\<lambda>k. a + of_nat k * tbs) [0..<n]) \<Longrightarrow>
   walk n (chain_blocks n tbs a m) a = map (\<lambda>k. a + of_nat k * tbs) [0..<n] \<and>
   chain_end n (chain_blocks n tbs a m) a = 0"
proof (induction n tbs a m rule: chain_blocks.induct)
  case (1 k tbs a m)
  have shift: "map (\<lambda>k. a + of_nat k * tbs) [0..<Suc (Suc k)] =
      a # map (\<lambda>k. a + tbs + of_nat k * tbs) [0..<Suc k]"
    unfolding map_upt_Suc by (simp add: algebra_simps)
  have d: "distinct (map (\<lambda>k. a + tbs + of_nat k * tbs) [0..<Suc k])"
    and a: "a \<notin> set (map (\<lambda>k. a + tbs + of_nat k * tbs) [0..<max 1 (Suc k)])"
    using 1(3) unfolding shift by simp_all
  from 1(1) [folded fun_upd_def, OF _ d] have IH: "walk (Suc k) (chain_blocks (Suc k) tbs (a + tbs) (m(a := a + tbs))) (a + tbs) =
      map (\<lambda>k. a + tbs + of_nat k * tbs) [0..<Suc k]"
    "chain_end (Suc k) (chain_blocks (Suc k) tbs (a + tbs) (m(a := a + tbs))) (a + tbs) = 0"
    by blast+
  have "chain_blocks (Suc k) tbs (a + tbs) (m(a := a + tbs)) a = a + tbs"
    using chain_blocks_frame [OF a] by simp
  with IH show ?case unfolding shift by simp
qed auto

lemma init_free:
  assumes p: "p = \<lparr>mp_block_size = block_size, mp_num_blocks = blocks, mp_num_free = blocks,
      mp_membuf_addr = membuf, mp_first = membuf, mp_name = name\<rparr>"
    and cfg: "pool_config p" and align: "membuf AND 3 = 0"
  shows "\<exists>s'. os_mempool_init (Some i) blocks block_size membuf name s = (OS_OK, s') \<and>
     pools s' i = p \<and> pool_inv i s' \<and> free_blocks s' i = pool_blocks p"
proof -
  define s' where "s' = snd (os_mempool_init (Some i) blocks block_size membuf name s)"
  let ?t = "of_int (OS_MEMPOOL_TRUE_BLOCK_SIZE block_size) :: u32"
  have pos: "0 < blocks" "0 < block_size" "membuf \<noteq> 0" using cfg p by (simp_all add: pool_config_def)
  have ok: "os_mempool_init (Some i) blocks block_size membuf name s = (OS_OK, s')"
    and s': "pools s' i = p" "mem s' = chain_blocks (nat blocks) ?t membuf (mem s)"
    using pos align p by (simp_all add: os_mempool_init_def s'_def Let_def OS_ALIGNMENT_def)
  have t: "?t = of_nat (true_size p)"
    using true_block_size_ge [of block_size] pos p by (simp add: true_size_def)
  have blocks: "pool_blocks p = map (\<lambda>k. membuf + of_nat k * ?t) [0..<nat blocks]"
    unfolding t by (simp add: pool_blocks_def p)
  have "distinct (pool_blocks p)" by (rule distinct_pool_blocks [OF cfg])
  from chain_blocks_walk [of "nat blocks", OF _ this [unfolded blocks], of "mem s"] pos
  have "free_blocks s' i = pool_blocks p" "chain_end (nat blocks) (mem s') membuf = 0"
    by (simp_all add: free_blocks_def s' p flip: blocks [simplified p])
  with ok s' show ?thesis using cfg \<open>distinct (pool_blocks p)\<close> pos p by (simp add: pool_inv_def)
qed

subsection \<open>The contract of a pool of blocks\<close>

text \<open>
  What users of a pool rely on: a get takes the first free block, or gives the null block when
  none is left, and a put accepts every block of the pool that is not free.
\<close>

locale block_pool =
  fixes inv :: "'s \<Rightarrow> bool" and free :: "'s \<Rightarrow> 'b list" and owned :: "'b set" and null :: 'b
    and get :: "'s \<Rightarrow> 'b \<times> 's" and put :: "'b \<Rightarrow> 's \<Rightarrow> 's option"
  assumes free_law: "inv s \<Longrightarrow> distinct (free s) \<and> set (free s) \<subseteq> owned \<and> null \<notin> owned"
    and get_law: "inv s \<Longrightarrow> free s = b # bs \<Longrightarrow> \<exists>s'. get s = (b, s') \<and> inv s' \<and> free s' = bs"
    and get_null_law: "inv s \<Longrightarrow> free s = [] \<Longrightarrow> get s = (null, s)"
    and put_law: "inv s \<Longrightarrow> b \<in> owned \<Longrightarrow> b \<notin> set (free s) \<Longrightarrow>
      \<exists>s'. put b s = Some s' \<and> inv s' \<and> free s' = b # free s"
begin

lemma take_prefix:
  "inv s \<Longrightarrow> free s = bs @ cs \<Longrightarrow>
   \<exists>s'. take_blocks get (length bs) s = (bs, s') \<and> inv s' \<and> free s' = cs"
proof (induction bs arbitrary: s)
  case (Cons b bs)
  from get_law [OF Cons.prems(1), of b "bs @ cs"] Cons.prems(2)
  obtain s1 where "get s = (b, s1)" "inv s1" "free s1 = bs @ cs" by auto
  with Cons.IH [of s1] show ?case by auto
qed simp

lemma give_back:
  "inv s \<Longrightarrow> distinct bs \<Longrightarrow> set bs \<subseteq> owned \<Longrightarrow> set bs \<inter> set (free s) = {} \<Longrightarrow>
   \<exists>s'. put_all put bs s = Some s' \<and> inv s' \<and> free s' = rev bs @ free s"
proof (induction bs arbitrary: s)
  case (Cons b bs)
  from put_law [OF Cons.prems(1), of b] Cons.prems
  obtain s1 where s1: "put b s = Some s1" "inv s1" "free s1 = b # free s" by auto
  have "set bs \<inter> set (free s1) = {}" using s1(3) Cons.prems by auto
  with Cons.IH [OF s1(2)] Cons.prems s1 show ?case by auto
qed simp

text \<open>Taking blocks, and returning them in any order, leaves the same set of free blocks.\<close>

lemma take_give:
  assumes inv: "inv s" and n: "n \<le> length (free s)" and bs: "mset bs = mset (take n (free s))"
  shows "\<exists>s1 s2. take_blocks get n s = (take n (free s), s1) \<and> put_all put bs s1 = Some s2 \<and> inv s2 \<and>
     mset (free s2) = mset (free s)"
proof -
  from take_prefix [OF inv, of "take n (free s)" "drop n (free s)"] n
  obtain s1 where s1: "take_blocks get n s = (take n (free s), s1)" "inv s1" "free s1 = drop n (free s)"
    by (auto simp: min_absorb2)
  have set: "set bs = set (take n (free s))" and dist: "distinct bs"
    using bs free_law [OF inv] by (metis set_mset_mset) (metis bs distinct_take free_law inv mset_eq_imp_distinct_iff)
  have "set bs \<inter> set (free s1) = {}"
    using set s1(3) free_law [OF inv] by (metis append_take_drop_id distinct_append)
  moreover have "set bs \<subseteq> owned" using set free_law [OF inv] set_take_subset by fastforce
  ultimately obtain s2 where "put_all put bs s1 = Some s2" "inv s2" "free s2 = rev bs @ free s1"
    using give_back [OF s1(2) dist] by blast
  moreover have "mset (rev bs @ drop n (free s)) = mset (free s)"
    using bs by (metis append_take_drop_id mset_append mset_rev)
  ultimately show ?thesis using s1 by auto
qed

end

interpretation mempool: block_pool "\<lambda>s. pool_inv i s \<and> set (pool_blocks (pools s i)) = B"
  "\<lambda>s. free_blocks s i" B 0 "os_memblock_get (Some i)" "memblock_give i" for i B
proof
  fix s b bs assume "pool_inv i s \<and> set (pool_blocks (pools s i)) = B" "free_blocks s i = b # bs"
  with get_free [of i s b bs] show "\<exists>s'. os_memblock_get (Some i) s = (b, s') \<and>
      (pool_inv i s' \<and> set (pool_blocks (pools s' i)) = B) \<and> free_blocks s' i = bs" by auto
next
  fix s b assume "pool_inv i s \<and> set (pool_blocks (pools s i)) = B" "b \<in> B" "b \<notin> set (free_blocks s i)"
  with put_free [of i s b] show "\<exists>s'. memblock_give i b s = Some s' \<and>
      (pool_inv i s' \<and> set (pool_blocks (pools s' i)) = B) \<and> free_blocks s' i = b # free_blocks s i"
    by (auto simp: memblock_give_def)
qed (auto simp: get_empty pool_inv_def dest: pool_block_nonzero)

text \<open>
  C15: after \<^verbatim>\<open>os_mempool_init\<close> for n blocks succeeds, n calls of \<^verbatim>\<open>os_memblock_get\<close> return n blocks of
  the requested size that lie in the given memory and do not overlap, and the next call returns
  a null pointer. The memory is aligned and does not run past the end of the address space.
\<close>

theorem os_mempool_init_exact:
  assumes "0 < blocks" "0 < block_size" "membuf \<noteq> 0" "membuf AND 3 = 0"
    and fits: "unat membuf + nat blocks * nat (OS_MEMPOOL_TRUE_BLOCK_SIZE block_size) < 2 ^ 32"
  shows "\<exists>s1 s2 bs. os_mempool_init (Some i) blocks block_size membuf name s = (OS_OK, s1) \<and>
     take_blocks (os_memblock_get (Some i)) (nat blocks) s1 = (bs, s2) \<and> length bs = nat blocks \<and>
     (\<forall>b \<in> set bs. unat membuf \<le> unat b \<and> unat b + nat block_size \<le>
        unat membuf + nat blocks * nat (OS_MEMPOOL_TRUE_BLOCK_SIZE block_size)) \<and>
     distinct bs \<and> (\<forall>b \<in> set bs. \<forall>c \<in> set bs. b = c \<or> unat b + nat block_size \<le> unat c \<or>
        unat c + nat block_size \<le> unat b) \<and>
     os_memblock_get (Some i) s2 = (0, s2)"
proof -
  define p where "p = \<lparr>mp_block_size = block_size, mp_num_blocks = blocks, mp_num_free = blocks,
      mp_membuf_addr = membuf, mp_first = membuf, mp_name = name\<rparr>"
  have cfg: "pool_config p" using assms by (simp add: p_def pool_config_def true_size_def)
  from init_free [OF p_def cfg assms(4), of i s] obtain s1 where
    s1: "os_mempool_init (Some i) blocks block_size membuf name s = (OS_OK, s1)" "pools s1 i = p"
    "pool_inv i s1" "free_blocks s1 i = pool_blocks p" by blast
  from mempool.take_prefix [of i s1 "set (pool_blocks p)" "pool_blocks p" "[]"] s1 obtain s2 where
    s2: "take_blocks (os_memblock_get (Some i)) (nat blocks) s1 = (pool_blocks p, s2)" "pool_inv i s2"
    "free_blocks s2 i = []" by (auto simp: pool_blocks_eq p_def)
  have t: "nat block_size \<le> true_size p" "true_size p = nat (OS_MEMPOOL_TRUE_BLOCK_SIZE block_size)"
    using true_block_size_ge [of block_size] assms by (simp_all add: true_size_def p_def)
  have len: "length (pool_blocks p) = nat blocks" by (simp add: pool_blocks_eq p_def)
  have addr: "\<exists>k < nat blocks. unat b = unat membuf + k * true_size p" if "b \<in> set (pool_blocks p)" for b
    using that unat_block_addr [OF cfg] by (auto simp: pool_blocks_eq p_def)
  have in_range: "unat membuf \<le> unat b \<and> unat b + nat block_size \<le> unat membuf + nat blocks * true_size p"
    if "b \<in> set (pool_blocks p)" for b
  proof -
    from addr [OF that] obtain k where k: "k < nat blocks" "unat b = unat membuf + k * true_size p" by blast
    have "Suc k * true_size p \<le> nat blocks * true_size p" using k(1) by (intro mult_le_mono1) simp
    with k(2) t(1) show ?thesis by simp
  qed
  have apart: "unat b + nat block_size \<le> unat c" if "b \<in> set (pool_blocks p)" "c \<in> set (pool_blocks p)"
    "unat b < unat c" for b c
  proof -
    from addr that obtain k l where kl: "unat b = unat membuf + k * true_size p"
      "unat c = unat membuf + l * true_size p" by metis
    with that(3) have "Suc k * true_size p \<le> l * true_size p" by (intro mult_le_mono1) simp
    with kl t(1) show ?thesis by simp
  qed
  have "\<forall>b \<in> set (pool_blocks p). \<forall>c \<in> set (pool_blocks p). b = c \<or> unat b + nat block_size \<le> unat c \<or>
        unat c + nat block_size \<le> unat b"
    using apart by (metis linorder_neqE_nat word_unat_eq_iff)
  with s1(1) s2(1) len in_range distinct_pool_blocks [OF cfg] get_empty [OF s2(2,3)] show ?thesis
    unfolding t(2) by blast
qed

theorem os_mempool_init_exact_witness:
  "\<exists>s1 s2 bs. os_mempool_init (Some 0) 3 10 0x1000 ''p''
       \<lparr>pools = (\<lambda>_. \<lparr>mp_block_size = 0, mp_num_blocks = 0, mp_num_free = 0, mp_membuf_addr = 0,
          mp_first = 0, mp_name = []\<rparr>), g_os_mempool_list = [], mem = (\<lambda>_. 0)\<rparr> = (OS_OK, s1) \<and>
     take_blocks (os_memblock_get (Some 0)) 3 s1 = (bs, s2) \<and> length bs = 3 \<and>
     os_memblock_get (Some 0) s2 = (0, s2)"
  using os_mempool_init_exact [of 3 10 "0x1000" 0 "''p''"
     "\<lparr>pools = (\<lambda>_. \<lparr>mp_block_size = 0, mp_num_blocks = 0, mp_num_free = 0, mp_membuf_addr = 0,
          mp_first = 0, mp_name = []\<rparr>), g_os_mempool_list = [], mem = (\<lambda>_. 0)\<rparr>"]
  by (simp add: true_block_size_eq) blast

text \<open>
  C16: \<^verbatim>\<open>os_memblock_put\<close> accepts exactly the addresses of the blocks of the pool. Every other address
  (null, outside the memory of the pool, or inside a block) is refused with
  \<^verbatim>\<open>OS_INVALID_PARM\<close> and changes nothing, and a block that is accepted is the next one handed out.
\<close>

theorem os_memblock_put_checks:
  assumes "pool_inv i s" "b \<notin> set (free_blocks s i)"
  shows "if b \<in> set (pool_blocks (pools s i))
     then \<exists>s'. os_memblock_put (Some i) b s = (OS_OK, s') \<and> pool_inv i s' \<and>
        free_blocks s' i = b # free_blocks s i \<and> fst (os_memblock_get (Some i) s') = b
     else os_memblock_put (Some i) b s = (OS_INVALID_PARM, s)"
  using assms put_reject [of s i b] put_free [OF assms(1) _ assms(2)] get_free [of i _ b "free_blocks s i"]
  by (fastforce simp: pool_inv_def)

text \<open>
  C17: taking any number of the free blocks of a pool and returning them in any order leaves a
  consistent pool with the same free blocks.
\<close>

theorem os_mempool_take_give:
  assumes "pool_inv i s" "n \<le> length (free_blocks s i)" "mset bs = mset (take n (free_blocks s i))"
  shows "\<exists>s1 s2. take_blocks (os_memblock_get (Some i)) n s = (take n (free_blocks s i), s1) \<and>
     put_all (memblock_give i) bs s1 = Some s2 \<and> pool_inv i s2 \<and>
     mset (free_blocks s2 i) = mset (free_blocks s i)"
  using mempool.take_give [of i s "set (pool_blocks (pools s i))" n bs] assms by auto

lemma demo_pool_facts:
  "pool_inv 0 demo_pool" "free_blocks demo_pool 0 = [0x1000, 0x1004, 0x1008]"
  "pool_blocks (pools demo_pool 0) = [0x1000, 0x1004, 0x1008]"
  by (simp_all add: demo_pool_def os_mempool_init_def pool_inv_def free_blocks_def pool_blocks_def pool_config_def
    true_size_def OS_ALIGNMENT_def true_block_size_eq numeral_3_eq_3)

theorem os_memblock_put_checks_witness:
  "os_memblock_put (Some 0) 0x1002 demo_pool = (OS_INVALID_PARM, demo_pool)"
  using os_memblock_put_checks [of 0 demo_pool "0x1002"] by (simp add: demo_pool_facts)

theorem os_mempool_take_give_witness:
  "\<exists>s1 s2. take_blocks (os_memblock_get (Some 0)) 2 demo_pool = ([0x1000, 0x1004], s1) \<and>
     put_all (memblock_give 0) [0x1000, 0x1004] s1 = Some s2 \<and> mset (free_blocks s2 0) = {#0x1000, 0x1004, 0x1008#}"
  using os_mempool_take_give [of 0 demo_pool 2 "[0x1000, 0x1004]"] by (simp add: demo_pool_facts) metis

end
