(* ===== verification/Os_Mbuf.thy ===== *)
theory Os_Mbuf
  imports Os_Mempool
begin

text \<open>
  Chained memory buffers, \<^verbatim>\<open>libs/os/src/os_mbuf.c\<close>. An mbuf is a block of a memory pool: a header
  followed by a data area in which \<^verbatim>\<open>om_data\<close> points at the bytes in use. The data pointer is kept
  as its distance from \<^verbatim>\<open>om_databuf\<close>, and a packet header is what the C code makes of it, the
  first bytes of the data area. Access to a block that is not allocated and a copy that leaves
  the data area have no result.

  The theory has every operation on chains, the invariant that ties the allocated mbufs to the
  pool they come from, and what the operations do to the bytes a chain holds.
\<close>

subsection \<open>Structures\<close>

definition sizeof_os_mbuf :: nat where "sizeof_os_mbuf = 16"
definition sizeof_os_mbuf_pkthdr :: nat where "sizeof_os_mbuf_pkthdr = 8"

record os_mbuf_pool =
  omp_databuf_len :: u16
  omp_mbuf_count :: u16
  omp_pool :: nat

record os_mbuf =
  om_data :: int
  om_flags :: u8
  om_pkthdr_len :: u8
  om_len :: u16
  om_omp :: "nat option"
  om_next :: u32
  om_databuf :: "u8 list"

text \<open>
  \<open>mbufs a\<close> is the mbuf at block address \<open>a\<close>; \<open>mb_live a\<close> tells whether the block is allocated. A
  block keeps its bytes when it is freed and allocated again.
\<close>

record mb_state =
  mb_pools :: pool_state
  mbuf_pools :: "nat \<Rightarrow> os_mbuf_pool"
  g_msys_pool_list :: "nat list"
  mbufs :: "u32 \<Rightarrow> os_mbuf"
  mb_live :: "u32 \<Rightarrow> bool"

definition mb_get :: "u32 \<Rightarrow> mb_state \<Rightarrow> os_mbuf option" where
  "mb_get a s = (if a \<noteq> 0 \<and> mb_live s a then Some (mbufs s a) else None)"

definition mb_set :: "u32 \<Rightarrow> os_mbuf \<Rightarrow> mb_state \<Rightarrow> mb_state" where
  "mb_set a m s = s\<lparr>mbufs := (mbufs s)(a := m)\<rparr>"

definition OS_MBUF_IS_PKTHDR :: "os_mbuf \<Rightarrow> bool" where
  "OS_MBUF_IS_PKTHDR m \<longleftrightarrow> sizeof_os_mbuf_pkthdr \<le> unat (om_pkthdr_len m)"

text \<open>The member \<^verbatim>\<open>omp_len\<close> of the packet header, stored with its low byte first.\<close>

definition pkthdr_len :: "os_mbuf \<Rightarrow> u16 option" where
  "pkthdr_len m = map_option of_le16 (peek 0 2 (om_databuf m))"

definition set_pkthdr_len :: "u16 \<Rightarrow> os_mbuf \<Rightarrow> os_mbuf option" where
  "set_pkthdr_len n m = map_option (\<lambda>b. m\<lparr>om_databuf := b\<rparr>) (poke 0 (le16 n) (om_databuf m))"

text \<open>\<^verbatim>\<open>if (OS_MBUF_IS_PKTHDR(om)) OS_MBUF_PKTHDR(om)->omp_len = f(omp_len)\<close>\<close>

definition upd_pkthdr_len :: "u32 \<Rightarrow> (u16 \<Rightarrow> u16) \<Rightarrow> mb_state \<Rightarrow> mb_state option" where
  "upd_pkthdr_len om f s = do {
     m \<leftarrow> mb_get om s;
     if OS_MBUF_IS_PKTHDR m then do {
       n \<leftarrow> pkthdr_len m;
       m' \<leftarrow> set_pkthdr_len (f n) m;
       Some (mb_set om m' s)
     } else Some s
   }"

definition os_mbuf_leadingspace :: "os_mbuf \<Rightarrow> u16" where
  "os_mbuf_leadingspace m =
     (let startoff = (if OS_MBUF_IS_PKTHDR m then uint (om_pkthdr_len m) else 0)
      in of_int (om_data m - startoff))"

definition os_mbuf_trailingspace :: "os_mbuf \<Rightarrow> mb_state \<Rightarrow> u16 option" where
  "os_mbuf_trailingspace m s = do {
     omp \<leftarrow> om_omp m;
     Some (of_int (uint (omp_databuf_len (mbuf_pools s omp)) - (om_data m + uint (om_len m))))
   }"

subsection \<open>Pools of mbufs\<close>

fun insert_after :: "('a \<Rightarrow> bool) \<Rightarrow> 'a \<Rightarrow> 'a list \<Rightarrow> 'a list" where
  "insert_after p x [] = [x]"
| "insert_after p x (y # ys) = (if p y then y # x # ys else y # insert_after p x ys)"

definition os_msys_register :: "nat \<Rightarrow> mb_state \<Rightarrow> mb_state" where
  "os_msys_register new_pool s = s\<lparr>g_msys_pool_list := insert_after
     (\<lambda>pool. omp_databuf_len (mbuf_pools s pool) < omp_databuf_len (mbuf_pools s new_pool))
     new_pool (g_msys_pool_list s)\<rparr>"

definition os_msys_reset :: "mb_state \<Rightarrow> mb_state" where
  "os_msys_reset s = s\<lparr>g_msys_pool_list := []\<rparr>"

definition os_msys_find_pool :: "u16 \<Rightarrow> mb_state \<Rightarrow> nat option" where
  "os_msys_find_pool dsize s =
     (case find (\<lambda>pool. dsize \<le> omp_databuf_len (mbuf_pools s pool)) (g_msys_pool_list s) of
        Some pool \<Rightarrow> Some pool
      | None \<Rightarrow> (if g_msys_pool_list s = [] then None else Some (last (g_msys_pool_list s))))"

definition os_mbuf_pool_init :: "nat \<Rightarrow> nat \<Rightarrow> u16 \<Rightarrow> u16 \<Rightarrow> mb_state \<Rightarrow> mb_state" where
  "os_mbuf_pool_init omp mp buf_len nbufs s = s\<lparr>mbuf_pools := (mbuf_pools s)(omp :=
     \<lparr>omp_databuf_len = buf_len - of_nat sizeof_os_mbuf, omp_mbuf_count = nbufs, omp_pool = mp\<rparr>)\<rparr>"

definition os_mbuf_get :: "nat \<Rightarrow> u16 \<Rightarrow> mb_state \<Rightarrow> u32 \<times> mb_state" where
  "os_mbuf_get omp leadingspace s =
     (let (om, ps) = os_memblock_get (Some (omp_pool (mbuf_pools s omp))) (mb_pools s);
          s1 = s\<lparr>mb_pools := ps\<rparr>
      in if om = 0 then (0, s1)
         else (om, mb_set om ((mbufs s om)\<lparr>om_next := 0, om_flags := 0, om_pkthdr_len := 0, om_len := 0,
                 om_data := uint leadingspace, om_omp := Some omp\<rparr>)
               (s1\<lparr>mb_live := (mb_live s1)(om := True)\<rparr>)))"

definition os_mbuf_get_pkthdr :: "nat \<Rightarrow> u8 \<Rightarrow> mb_state \<Rightarrow> (u32 \<times> mb_state) option" where
  "os_mbuf_get_pkthdr omp user_pkthdr_len s =
     (let (om, s1) = os_mbuf_get omp 0 s in
      if om \<noteq> 0 then do {
        m \<leftarrow> mb_get om s1;
        buf \<leftarrow> poke 0 (replicate sizeof_os_mbuf_pkthdr 0) (om_databuf m);
        Some (om, mb_set om (m\<lparr>om_pkthdr_len := user_pkthdr_len + of_nat sizeof_os_mbuf_pkthdr,
          om_data := om_data m + uint user_pkthdr_len + int sizeof_os_mbuf_pkthdr,
          om_databuf := buf\<rparr>) s1)
      } else Some (om, s1))"

definition os_msys_get :: "u16 \<Rightarrow> u16 \<Rightarrow> mb_state \<Rightarrow> u32 \<times> mb_state" where
  "os_msys_get dsize leadingspace s =
     (case os_msys_find_pool dsize s of
        None \<Rightarrow> (0, s)
      | Some pool \<Rightarrow> os_mbuf_get pool leadingspace s)"

definition os_msys_get_pkthdr :: "u16 \<Rightarrow> u16 \<Rightarrow> mb_state \<Rightarrow> (u32 \<times> mb_state) option" where
  "os_msys_get_pkthdr dsize user_hdr_len s =
     (let total_pkthdr_len = user_hdr_len + of_nat sizeof_os_mbuf_pkthdr in
      case os_msys_find_pool (dsize + total_pkthdr_len) s of
        None \<Rightarrow> Some (0, s)
      | Some pool \<Rightarrow> os_mbuf_get_pkthdr pool (ucast user_hdr_len) s)"

definition os_mbuf_free :: "u32 \<Rightarrow> mb_state \<Rightarrow> (os_error \<times> mb_state) option" where
  "os_mbuf_free om s = do {
     m \<leftarrow> mb_get om s;
     case om_omp m of
       None \<Rightarrow> Some (OS_OK, s)
     | Some omp \<Rightarrow>
         let (rc, ps) = os_memblock_put (Some (omp_pool (mbuf_pools s omp))) om (mb_pools s) in
         if rc \<noteq> OS_OK then Some (rc, s\<lparr>mb_pools := ps\<rparr>)
         else Some (OS_OK, s\<lparr>mb_pools := ps, mb_live := (mb_live s)(om := False)\<rparr>)
   }"

partial_function (option) os_mbuf_free_chain :: "u32 \<Rightarrow> mb_state \<Rightarrow> (os_error \<times> mb_state) option" where
  "os_mbuf_free_chain om s =
     (if om = 0 then Some (OS_OK, s)
      else do {
        m \<leftarrow> mb_get om s;
        (rc, s1) \<leftarrow> os_mbuf_free om s;
        if rc \<noteq> OS_OK then Some (rc, s1) else os_mbuf_free_chain (om_next m) s1
      })"

definition os_mbuf_copypkthdr :: "u32 \<Rightarrow> u32 \<Rightarrow> mb_state \<Rightarrow> mb_state option" where
  "os_mbuf_copypkthdr new_buf old_buf s = do {
     n \<leftarrow> mb_get new_buf s;
     m \<leftarrow> mb_get old_buf s;
     hdr \<leftarrow> peek 0 (unat (om_pkthdr_len m)) (om_databuf m);
     buf \<leftarrow> poke 0 hdr (om_databuf n);
     Some (mb_set new_buf (n\<lparr>om_databuf := buf\<rparr>) s)
   }"

subsection \<open>Appending and duplicating\<close>

text \<open>Scroll to the last mbuf of a chain.\<close>

partial_function (option) mbuf_last :: "u32 \<Rightarrow> mb_state \<Rightarrow> u32 option" where
  "mbuf_last om s = do {
     m \<leftarrow> mb_get om s;
     if om_next m \<noteq> 0 then mbuf_last (om_next m) s else Some om
   }"

text \<open>The loop of \<^verbatim>\<open>os_mbuf_append\<close> that allocates mbufs; the result has the data left over.\<close>

partial_function (option) os_mbuf_append_loop ::
    "nat option \<Rightarrow> u32 \<Rightarrow> u8 list \<Rightarrow> mb_state \<Rightarrow> (u8 list \<times> mb_state) option" where
  "os_mbuf_append_loop omp lst rest s =
     (if rest = [] then Some ([], s)
      else do {
        p \<leftarrow> omp;
        let (new, s1) = os_mbuf_get p 0 s;
        if new = 0 then Some (rest, s1)
        else do {
          m \<leftarrow> mb_get new s1;
          let n = min (unat (omp_databuf_len (mbuf_pools s1 p))) (length rest);
          buf \<leftarrow> poke (om_data m) (take n rest) (om_databuf m);
          let s2 = mb_set new (m\<lparr>om_len := of_nat n, om_databuf := buf\<rparr>) s1;
          l \<leftarrow> mb_get lst s2;
          os_mbuf_append_loop omp new (drop n rest) (mb_set lst (l\<lparr>om_next := new\<rparr>) s2)
        }
      })"

definition os_mbuf_append :: "u32 \<Rightarrow> u8 list \<Rightarrow> u16 \<Rightarrow> mb_state \<Rightarrow> (os_error \<times> mb_state) option" where
  "os_mbuf_append om data len s =
     (if om = 0 then Some (OS_EINVAL, s)
      else do {
        m \<leftarrow> mb_get om s;
        bytes \<leftarrow> peek 0 (unat len) data;
        lst \<leftarrow> mbuf_last om s;
        l \<leftarrow> mb_get lst s;
        sp \<leftarrow> os_mbuf_trailingspace l s;
        let space = min (unat sp) (unat len);
        buf \<leftarrow> (if 0 < sp then poke (om_data l + uint (om_len l)) (take space bytes) (om_databuf l)
               else Some (om_databuf l));
        let s1 = (if 0 < sp then mb_set lst (l\<lparr>om_len := om_len l + of_nat space, om_databuf := buf\<rparr>) s else s);
        (rest, s2) \<leftarrow> os_mbuf_append_loop (om_omp m) lst (drop space bytes) s1;
        s3 \<leftarrow> upd_pkthdr_len om (\<lambda>n. n + (len - of_nat (length rest))) s2;
        Some (if rest \<noteq> [] then OS_ENOMEM else OS_OK, s3)
      })"

partial_function (option) os_mbuf_dup_loop ::
    "nat option \<Rightarrow> u32 \<Rightarrow> u32 \<Rightarrow> u32 \<Rightarrow> mb_state \<Rightarrow> (u32 \<times> mb_state) option" where
  "os_mbuf_dup_loop omp om hd_buf copy s =
     (if om = 0 then Some (hd_buf, s)
      else do {
        m \<leftarrow> mb_get om s;
        p \<leftarrow> omp;
        let (new, s1) = os_mbuf_get p (os_mbuf_leadingspace m) s;
        s2 \<leftarrow> (if hd_buf \<noteq> 0 then do { c \<leftarrow> mb_get copy s1; Some (mb_set copy (c\<lparr>om_next := new\<rparr>) s1) }
              else Some s1);
        if new = 0 then
          (if hd_buf \<noteq> 0 then do { (rc, s3) \<leftarrow> os_mbuf_free_chain hd_buf s2; Some (0, s3) } else Some (0, s2))
        else do {
          s3 \<leftarrow> (if hd_buf = 0 \<and> OS_MBUF_IS_PKTHDR m then os_mbuf_copypkthdr new om s2 else Some s2);
          c \<leftarrow> mb_get new s3;
          bytes \<leftarrow> peek (om_data m) (unat (om_len m)) (om_databuf m);
          buf \<leftarrow> poke (om_data c) bytes (om_databuf c);
          let s4 = mb_set new (c\<lparr>om_flags := om_flags m, om_len := om_len m, om_databuf := buf\<rparr>) s3;
          os_mbuf_dup_loop omp (om_next m) (if hd_buf = 0 then new else hd_buf) new s4
        }
      })"

definition os_mbuf_dup :: "u32 \<Rightarrow> mb_state \<Rightarrow> (u32 \<times> mb_state) option" where
  "os_mbuf_dup om s = do {
     m \<leftarrow> mb_get om s;
     os_mbuf_dup_loop (om_omp m) om 0 0 s
   }"

subsection \<open>Reading\<close>

partial_function (option) os_mbuf_off :: "u32 \<Rightarrow> int \<Rightarrow> mb_state \<Rightarrow> (u32 \<times> int) option option" where
  "os_mbuf_off om off s =
     (if om = 0 then Some None
      else do {
        m \<leftarrow> mb_get om s;
        if off < uint (om_len m) \<or> (uint (om_len m) = off \<and> om_next m = 0) then Some (Some (om, off))
        else os_mbuf_off (om_next m) (off - uint (om_len m)) s
      })"

text \<open>The first loop of \<^verbatim>\<open>os_mbuf_copydata\<close>, which skips \<open>off\<close> bytes; \<open>None\<close> inside is its \<^verbatim>\<open>return -1\<close>.\<close>

partial_function (option) copydata_skip :: "u32 \<Rightarrow> int \<Rightarrow> mb_state \<Rightarrow> (u32 \<times> int) option option" where
  "copydata_skip m off s =
     (if off \<le> 0 then Some (Some (m, off))
      else if m = 0 then Some None
      else do {
        b \<leftarrow> mb_get m s;
        if off < uint (om_len b) then Some (Some (m, off))
        else copydata_skip (om_next b) (off - uint (om_len b)) s
      })"

text \<open>The second loop; the result has the bytes written to \<^verbatim>\<open>dst\<close> and the number still missing.\<close>

partial_function (option) copydata_loop ::
    "u32 \<Rightarrow> int \<Rightarrow> int \<Rightarrow> u8 list \<Rightarrow> mb_state \<Rightarrow> (u8 list \<times> int) option" where
  "copydata_loop m off len dst s =
     (if 0 < len \<and> m \<noteq> 0 then do {
        b \<leftarrow> mb_get m s;
        let count = min (uint (om_len b) - off) len;
        if count < 0 then None
        else do {
          bytes \<leftarrow> peek (om_data b + off) (nat count) (om_databuf b);
          copydata_loop (om_next b) 0 (len - count) (dst @ bytes) s
        }
      } else Some (dst, len))"

definition os_mbuf_copydata :: "u32 \<Rightarrow> int \<Rightarrow> int \<Rightarrow> mb_state \<Rightarrow> (int \<times> u8 list) option" where
  "os_mbuf_copydata m off len s = do {
     r \<leftarrow> copydata_skip m off s;
     case r of
       None \<Rightarrow> Some (-1, [])
     | Some (m', off') \<Rightarrow> do {
         (dst, left) \<leftarrow> copydata_loop m' off' len [] s;
         Some (if 0 < left then -1 else 0, dst)
       }
   }"

text \<open>\<^verbatim>\<open>memcmp\<close>: the difference of the first bytes that differ, or zero.\<close>

fun memcmp :: "u8 list \<Rightarrow> u8 list \<Rightarrow> int" where
  "memcmp (x # xs) (y # ys) = (if x = y then memcmp xs ys else uint x - uint y)"
| "memcmp _ _ = 0"

partial_function (option) memcmp_loop :: "u32 \<Rightarrow> int \<Rightarrow> u8 list \<Rightarrow> int \<Rightarrow> int \<Rightarrow> mb_state \<Rightarrow> int option" where
  "memcmp_loop om om_off data data_off len s =
     (if om = 0 then Some (-1)
      else do {
        m \<leftarrow> mb_get om s;
        let chunk_sz = min (uint (om_len m) - om_off) (len - data_off);
        rc \<leftarrow> (if 0 < chunk_sz then do {
                 a \<leftarrow> peek (om_data m + om_off) (nat chunk_sz) (om_databuf m);
                 b \<leftarrow> peek data_off (nat chunk_sz) data;
                 Some (memcmp a b)
               } else Some 0);
        if rc \<noteq> 0 then Some rc
        else if data_off + chunk_sz = len then Some 0
        else if om_next m = 0 then Some (-1)
        else memcmp_loop (om_next m) 0 data (data_off + chunk_sz) len s
      })"

definition os_mbuf_memcmp :: "u32 \<Rightarrow> int \<Rightarrow> u8 list \<Rightarrow> int \<Rightarrow> mb_state \<Rightarrow> int option" where
  "os_mbuf_memcmp om off data len s =
     (if len \<le> 0 then Some 0
      else do {
        r \<leftarrow> os_mbuf_off om off s;
        case r of
          None \<Rightarrow> memcmp_loop 0 0 data 0 len s
        | Some (om', om_off) \<Rightarrow> memcmp_loop om' om_off data 0 len s
      })"

subsection \<open>Trimming, prepending, copying into, joining\<close>

text \<open>Trim from the head: the result has the bytes still to trim.\<close>

partial_function (option) adj_head :: "u32 \<Rightarrow> int \<Rightarrow> mb_state \<Rightarrow> (int \<times> mb_state) option" where
  "adj_head m len s =
     (if m \<noteq> 0 \<and> 0 < len then do {
        b \<leftarrow> mb_get m s;
        if uint (om_len b) \<le> len
        then adj_head (om_next b) (len - uint (om_len b)) (mb_set m (b\<lparr>om_len := 0\<rparr>) s)
        else adj_head m 0 (mb_set m (b\<lparr>om_len := om_len b - of_int len, om_data := om_data b + len\<rparr>) s)
      } else Some (len, s))"

text \<open>
  The scan for the length of the chain and its last mbuf. The length is counted in an \<^verbatim>\<open>int\<close>, whose
  overflow has no result.
\<close>

partial_function (option) adj_scan :: "u32 \<Rightarrow> int \<Rightarrow> mb_state \<Rightarrow> (u32 \<times> int) option" where
  "adj_scan m cnt s = do {
     b \<leftarrow> mb_get m s;
     if 2 ^ 31 \<le> cnt + uint (om_len b) then None
     else if om_next b = 0 then Some (m, cnt + uint (om_len b))
     else adj_scan (om_next b) (cnt + uint (om_len b)) s
   }"

text \<open>The loop that cuts the chain after \<open>cnt\<close> bytes.\<close>

partial_function (option) adj_cut :: "u32 \<Rightarrow> int \<Rightarrow> mb_state \<Rightarrow> mb_state option" where
  "adj_cut m cnt s =
     (if m = 0 then Some s
      else do {
        b \<leftarrow> mb_get m s;
        if cnt \<le> uint (om_len b) then do {
          let s1 = mb_set m (b\<lparr>om_len := of_int cnt\<rparr>) s;
          if om_next b \<noteq> 0 then do {
            (rc, s2) \<leftarrow> os_mbuf_free_chain (om_next b) s1;
            b2 \<leftarrow> mb_get m s2;
            Some (mb_set m (b2\<lparr>om_next := 0\<rparr>) s2)
          } else Some s1
        } else adj_cut (om_next b) (cnt - uint (om_len b)) s
      })"

text \<open>The negation of the smallest \<^verbatim>\<open>int\<close> overflows and has no result.\<close>

definition os_mbuf_adj :: "u32 \<Rightarrow> u32 \<Rightarrow> mb_state \<Rightarrow> mb_state option" where
  "os_mbuf_adj mp req s =
     (let req_len = sint req in
      if mp = 0 then Some s
      else if 0 \<le> req_len then do {
        (len, s1) \<leftarrow> adj_head mp req_len s;
        upd_pkthdr_len mp (\<lambda>n. n - of_int (req_len - len)) s1
      } else if req_len = - (2 ^ 31) then None
      else do {
        let len = - req_len;
        (m, count) \<leftarrow> adj_scan mp 0 s;
        b \<leftarrow> mb_get m s;
        if len \<le> uint (om_len b) then
          upd_pkthdr_len mp (\<lambda>n. n - of_int len) (mb_set m (b\<lparr>om_len := om_len b - of_int len\<rparr>) s)
        else do {
          let count = (if count - len < 0 then 0 else count - len);
          s1 \<leftarrow> upd_pkthdr_len mp (\<lambda>n. of_int count) s;
          adj_cut mp count s1
        }
      })"

partial_function (option) os_mbuf_prepend :: "u32 \<Rightarrow> int \<Rightarrow> mb_state \<Rightarrow> (u32 \<times> mb_state) option" where
  "os_mbuf_prepend om len s = do {
     m \<leftarrow> mb_get om s;
     let leading = min len (uint (os_mbuf_leadingspace m));
     s1 \<leftarrow> upd_pkthdr_len om (\<lambda>n. n + of_int leading)
       (mb_set om (m\<lparr>om_data := om_data m - leading, om_len := om_len m + of_int leading\<rparr>) s);
     if len - leading = 0 then Some (om, s1)
     else do {
       m1 \<leftarrow> mb_get om s1;
       omp \<leftarrow> om_omp m1;
       (p, s2) \<leftarrow> (if OS_MBUF_IS_PKTHDR m1
          then os_mbuf_get_pkthdr omp (om_pkthdr_len m1 - of_nat sizeof_os_mbuf_pkthdr) s1
          else Some (os_mbuf_get omp 0 s1));
       if p = 0 then do { (rc, s3) \<leftarrow> os_mbuf_free_chain om s2; Some (0, s3) }
       else do {
         s4 \<leftarrow> (if OS_MBUF_IS_PKTHDR m1 then do {
                  s3 \<leftarrow> os_mbuf_copypkthdr p om s2;
                  m3 \<leftarrow> mb_get om s3;
                  Some (mb_set om (m3\<lparr>om_pkthdr_len := 0\<rparr>) s3)
                } else Some s2);
         mp \<leftarrow> mb_get p s4;
         sp \<leftarrow> os_mbuf_trailingspace mp s4;
         os_mbuf_prepend p (len - leading)
           (mb_set p (mp\<lparr>om_data := om_data mp + uint sp, om_next := om\<rparr>) s4)
       }
     }
   }"

text \<open>
  The loop of \<^verbatim>\<open>os_mbuf_copyinto\<close>; \<^verbatim>\<open>cur_off\<close> keeps its value when the loop moves on to the next mbuf.
  The result has the mbuf the loop stopped at and the bytes left to append.
\<close>

partial_function (option) copyinto_loop ::
    "u32 \<Rightarrow> int \<Rightarrow> u8 list \<Rightarrow> mb_state \<Rightarrow> (u32 \<times> u8 list \<times> mb_state) option" where
  "copyinto_loop cur cur_off src s = do {
     m \<leftarrow> mb_get cur s;
     let copylen = min (uint (om_len m) - cur_off) (int (length src));
     buf \<leftarrow> (if 0 < copylen then poke (om_data m + cur_off) (take (nat copylen) src) (om_databuf m)
            else Some (om_databuf m));
     let s1 = mb_set cur (m\<lparr>om_databuf := buf\<rparr>) s;
     let rest = drop (nat copylen) src;
     if rest = [] \<or> om_next m = 0 then Some (cur, rest, s1)
     else copyinto_loop (om_next m) cur_off rest s1
   }"

definition error_code :: "os_error \<Rightarrow> int" where
  "error_code e = (case e of OS_OK \<Rightarrow> 0 | OS_ENOMEM \<Rightarrow> 1 | OS_EINVAL \<Rightarrow> 2 | OS_INVALID_PARM \<Rightarrow> 3
     | OS_MEM_NOT_ALIGNED \<Rightarrow> 4 | OS_BAD_MUTEX \<Rightarrow> 5 | OS_TIMEOUT \<Rightarrow> 6 | OS_ERR_IN_ISR \<Rightarrow> 7 | OS_ERR_PRIV \<Rightarrow> 8
     | OS_NOT_STARTED \<Rightarrow> 9 | OS_ENOENT \<Rightarrow> 10)"

definition os_mbuf_copyinto :: "u32 \<Rightarrow> int \<Rightarrow> u8 list \<Rightarrow> mb_state \<Rightarrow> (int \<times> mb_state) option" where
  "os_mbuf_copyinto om off src s = do {
     r \<leftarrow> os_mbuf_off om off s;
     case r of
       None \<Rightarrow> Some (-1, s)
     | Some (cur, cur_off) \<Rightarrow> do {
         (cur', rest, s1) \<leftarrow> copyinto_loop cur cur_off src s;
         if rest = [] then Some (0, s1)
         else do {
           (rc, s2) \<leftarrow> os_mbuf_append cur' rest (of_nat (length rest)) s1;
           if rc \<noteq> OS_OK then Some (error_code rc, s2)
           else do {
             s3 \<leftarrow> upd_pkthdr_len om (\<lambda>n. of_int (max (uint n) (off + int (length rest)))) s2;
             Some (0, s3)
           }
         }
       }
   }"

partial_function (option) chain_len_loop :: "u32 \<Rightarrow> u16 \<Rightarrow> mb_state \<Rightarrow> u16 option" where
  "chain_len_loop cur n s =
     (if cur = 0 then Some n
      else do {
        m \<leftarrow> mb_get cur s;
        chain_len_loop (om_next m) (n + om_len m) s
      })"

definition os_mbuf_concat :: "u32 \<Rightarrow> u32 \<Rightarrow> mb_state \<Rightarrow> mb_state option" where
  "os_mbuf_concat fst_buf second s = do {
     cur \<leftarrow> mbuf_last fst_buf s;
     c \<leftarrow> mb_get cur s;
     let s1 = mb_set cur (c\<lparr>om_next := second\<rparr>) s;
     f \<leftarrow> mb_get fst_buf s1;
     s2 \<leftarrow> (if OS_MBUF_IS_PKTHDR f then do {
              b \<leftarrow> mb_get second s1;
              n \<leftarrow> (if OS_MBUF_IS_PKTHDR b then pkthdr_len b else chain_len_loop second 0 s1);
              upd_pkthdr_len fst_buf (\<lambda>k. k + n) s1
            } else Some s1);
     b2 \<leftarrow> mb_get second s2;
     Some (mb_set second (b2\<lparr>om_pkthdr_len := 0\<rparr>) s2)
   }"

text \<open>The new data is given by its mbuf and its place in the data area.\<close>

definition os_mbuf_extend :: "u32 \<Rightarrow> u16 \<Rightarrow> mb_state \<Rightarrow> ((u32 \<times> int) option \<times> mb_state) option" where
  "os_mbuf_extend om len s = do {
     m \<leftarrow> mb_get om s;
     omp \<leftarrow> om_omp m;
     if omp_databuf_len (mbuf_pools s omp) < len then Some (None, s)
     else do {
       lst \<leftarrow> mbuf_last om s;
       l \<leftarrow> mb_get lst s;
       sp \<leftarrow> os_mbuf_trailingspace l s;
       (new, s1) \<leftarrow> (if sp < len then do {
            let (newm, s1) = os_mbuf_get omp 0 s;
            if newm = 0 then Some (0, s1)
            else do { l1 \<leftarrow> mb_get lst s1; Some (newm, mb_set lst (l1\<lparr>om_next := newm\<rparr>) s1) }
          } else Some (lst, s));
       if new = 0 then Some (None, s1)
       else do {
         n \<leftarrow> mb_get new s1;
         s2 \<leftarrow> upd_pkthdr_len om (\<lambda>k. k + len) (mb_set new (n\<lparr>om_len := om_len n + len\<rparr>) s1);
         Some (Some (new, om_data n + uint (om_len n)), s2)
       }
     }
   }"

text \<open>The copying loop of \<^verbatim>\<open>os_mbuf_pullup\<close>; it ends with the rest of the chain and the bytes missing.\<close>

partial_function (option) pullup_loop ::
    "u32 \<Rightarrow> u32 \<Rightarrow> u16 \<Rightarrow> int \<Rightarrow> mb_state \<Rightarrow> (u32 \<times> u16 \<times> mb_state) option" where
  "pullup_loop om2 om len space s = do {
     b \<leftarrow> mb_get om s;
     b2 \<leftarrow> mb_get om2 s;
     let count = min (min (uint len) space) (uint (om_len b));
     if count < 0 then None
     else do {
       bytes \<leftarrow> peek (om_data b) (nat count) (om_databuf b);
       buf \<leftarrow> poke (om_data b2 + uint (om_len b2)) bytes (om_databuf b2);
       let s1 = mb_set om2 (b2\<lparr>om_len := om_len b2 + of_int count, om_databuf := buf\<rparr>) s;
       let len1 = len - of_int count;
       (om', s3) \<leftarrow> (if om_len b - of_int count \<noteq> 0
          then Some (om, mb_set om (b\<lparr>om_len := om_len b - of_int count, om_data := om_data b + count\<rparr>) s1)
          else do {
            (rc, s2) \<leftarrow> os_mbuf_free om (mb_set om (b\<lparr>om_len := 0\<rparr>) s1);
            Some (om_next b, s2)
          });
       if 0 < len1 \<and> om' \<noteq> 0 then pullup_loop om2 om' len1 (space - count) s3
       else Some (om', len1, s3)
     }
   }"

text \<open>The part of \<^verbatim>\<open>os_mbuf_pullup\<close> that collects \<open>len\<close> bytes of the chain \<open>om\<close> in \<open>om2\<close>.\<close>

definition pullup_rest :: "u32 \<Rightarrow> u32 \<Rightarrow> u16 \<Rightarrow> mb_state \<Rightarrow> (u32 \<times> mb_state) option" where
  "pullup_rest om2 om len s = do {
     b2 \<leftarrow> mb_get om2 s;
     space \<leftarrow> os_mbuf_trailingspace b2 s;
     (om', len', s1) \<leftarrow> pullup_loop om2 om len (uint space) s;
     if 0 < len' then do {
       (rc, s2) \<leftarrow> os_mbuf_free om2 s1;
       (rc, s3) \<leftarrow> os_mbuf_free_chain om' s2;
       Some (0, s3)
     } else do {
       b \<leftarrow> mb_get om2 s1;
       Some (om2, mb_set om2 (b\<lparr>om_next := om'\<rparr>) s1)
     }
   }"

definition os_mbuf_pullup :: "u32 \<Rightarrow> u16 \<Rightarrow> mb_state \<Rightarrow> (u32 \<times> mb_state) option" where
  "os_mbuf_pullup om len s = do {
     m \<leftarrow> mb_get om s;
     if len \<le> om_len m then Some (om, s)
     else do {
       tsp \<leftarrow> os_mbuf_trailingspace m s;
       start \<leftarrow> (if uint len \<le> uint (om_len m) + uint tsp \<and> om_next m \<noteq> 0
          then Some (Some (om, om_next m, len - om_len m, s))
          else do {
            omp \<leftarrow> om_omp m;
            if uint (omp_databuf_len (mbuf_pools s omp)) - uint (om_pkthdr_len m) < uint len then Some None
            else
              let (om2, s1) = os_mbuf_get omp 0 s in
              if om2 = 0 then Some None
              else do {
                s2 \<leftarrow> (if OS_MBUF_IS_PKTHDR m then os_mbuf_copypkthdr om2 om s1 else Some s1);
                Some (Some (om2, om, len, s2))
              }
          });
       case start of
         None \<Rightarrow> do { (rc, s') \<leftarrow> os_mbuf_free_chain om s; Some (0, s') }
       | Some (om2, om1, len1, s1) \<Rightarrow> pullup_rest om2 om1 len1 s1
     }
   }"

text \<open>The mbufs of a chain in order, and the bytes they hold.\<close>

fun mchain :: "mb_state \<Rightarrow> u32 \<Rightarrow> u32 list \<Rightarrow> bool" where
  "mchain s p [] \<longleftrightarrow> p = 0"
| "mchain s p (a # as) \<longleftrightarrow> p = a \<and> a \<noteq> 0 \<and> mb_live s a \<and> mchain s (om_next (mbufs s a)) as"

definition mseg :: "os_mbuf \<Rightarrow> u8 list" where
  "mseg m = take (unat (om_len m)) (drop (nat (om_data m)) (om_databuf m))"

definition mdata :: "mb_state \<Rightarrow> u32 list \<Rightarrow> u8 list" where
  "mdata s as = concat (map (\<lambda>a. mseg (mbufs s a)) as)"

definition startoff :: "os_mbuf \<Rightarrow> int" where
  "startoff m = (if OS_MBUF_IS_PKTHDR m then uint (om_pkthdr_len m) else 0)"

text \<open>An mbuf of pool \<open>omp\<close> whose data lies in its data area, after the packet header.\<close>

definition mbuf_wf :: "nat \<Rightarrow> mb_state \<Rightarrow> os_mbuf \<Rightarrow> bool" where
  "mbuf_wf omp s m \<longleftrightarrow> om_omp m = Some omp \<and>
     length (om_databuf m) = unat (omp_databuf_len (mbuf_pools s omp)) \<and>
     startoff m \<le> om_data m \<and> om_data m + uint (om_len m) \<le> int (length (om_databuf m))"

definition mb_free :: "nat \<Rightarrow> mb_state \<Rightarrow> u32 list" where
  "mb_free omp s = free_blocks (mb_pools s) (omp_pool (mbuf_pools s omp))"

definition mb_blocks :: "nat \<Rightarrow> mb_state \<Rightarrow> u32 set" where
  "mb_blocks omp s = set (pool_blocks (pools (mb_pools s) (omp_pool (mbuf_pools s omp))))"

text \<open>The allocated mbufs are well formed, come from the pool \<open>omp\<close> and are not free in it.\<close>

definition mb_inv :: "nat \<Rightarrow> mb_state \<Rightarrow> bool" where
  "mb_inv omp s \<longleftrightarrow> pool_inv (omp_pool (mbuf_pools s omp)) (mb_pools s) \<and>
     (\<forall>a. mb_live s a \<longrightarrow> mbuf_wf omp s (mbufs s a) \<and> a \<in> mb_blocks omp s \<and> a \<notin> set (mb_free omp s)) \<and>
     (\<forall>a \<in> mb_blocks omp s. length (om_databuf (mbufs s a)) = unat (omp_databuf_len (mbuf_pools s omp)))"

text \<open>Everything outside the mbufs in \<open>A\<close> is as it was; mbufs may have been allocated.\<close>

definition mb_frame :: "u32 set \<Rightarrow> mb_state \<Rightarrow> mb_state \<Rightarrow> bool" where
  "mb_frame A s s' \<longleftrightarrow> mbuf_pools s' = mbuf_pools s \<and>
     (\<forall>a. mb_live s a \<longrightarrow> a \<notin> A \<longrightarrow> mb_live s' a \<and> mbufs s' a = mbufs s a)"

definition fresh_mbuf :: "nat \<Rightarrow> u16 \<Rightarrow> os_mbuf \<Rightarrow> os_mbuf" where
  "fresh_mbuf omp ls m = m\<lparr>om_next := 0, om_flags := 0, om_pkthdr_len := 0, om_len := 0,
     om_data := uint ls, om_omp := Some omp\<rparr>"

text \<open>A pool of three blocks with twelve bytes of data each; the first holds a packet of two bytes.\<close>

definition demo_mb :: mb_state where
  "demo_mb = \<lparr>
     mb_pools = snd (os_memblock_get (Some 0) (snd (os_mempool_init (Some 0) 3 28 0x1000 ''mbufs''
       \<lparr>pools = (\<lambda>_. \<lparr>mp_block_size = 0, mp_num_blocks = 0, mp_num_free = 0, mp_membuf_addr = 0,
          mp_first = 0, mp_name = []\<rparr>), g_os_mempool_list = [], mem = (\<lambda>_. 0)\<rparr>))),
     mbuf_pools = (\<lambda>_. \<lparr>omp_databuf_len = 12, omp_mbuf_count = 3, omp_pool = 0\<rparr>),
     g_msys_pool_list = [0],
     mbufs = (\<lambda>_. \<lparr>om_data = 8, om_flags = 0, om_pkthdr_len = 8, om_len = 2, om_omp = Some 0, om_next = 0,
       om_databuf = [2, 0, 0, 0, 0, 0, 0, 0, 11, 22, 33, 44]\<rparr>),
     mb_live = (\<lambda>a. a = 0x1000)\<rparr>"

subsection \<open>Lemmas\<close>

subsection \<open>Abstraction and invariant\<close>

lemma mb_set_simps [simp]:
  "mb_pools (mb_set a m s) = mb_pools s" "mbuf_pools (mb_set a m s) = mbuf_pools s"
  "g_msys_pool_list (mb_set a m s) = g_msys_pool_list s" "mb_live (mb_set a m s) = mb_live s"
  "mbufs (mb_set a m s) = (mbufs s)(a := m)" "mb_free omp (mb_set a m s) = mb_free omp s"
  "mb_blocks omp (mb_set a m s) = mb_blocks omp s" "mbuf_wf omp (mb_set a m s) = mbuf_wf omp s"
  by (simp_all add: mb_set_def mb_free_def mb_blocks_def mbuf_wf_def fun_eq_iff)

lemma mb_get_live: "mb_live s a \<Longrightarrow> a \<noteq> 0 \<Longrightarrow> mb_get a s = Some (mbufs s a)"
  by (simp add: mb_get_def)

lemma mb_inv_nonzero: "mb_inv omp s \<Longrightarrow> mb_live s a \<Longrightarrow> a \<noteq> 0"
  using pool_block_nonzero by (fastforce simp: mb_inv_def mb_blocks_def pool_inv_def)

lemma mb_inv_get: "mb_inv omp s \<Longrightarrow> mb_live s a \<Longrightarrow> mb_get a s = Some (mbufs s a)"
  using mb_inv_nonzero mb_get_live by blast

lemma mb_inv_wf: "mb_inv omp s \<Longrightarrow> mb_live s a \<Longrightarrow> mbuf_wf omp s (mbufs s a)"
  by (simp add: mb_inv_def)

lemma mbuf_wf_len: "mbuf_wf omp s m \<Longrightarrow> length (om_databuf m) = unat (omp_databuf_len (mbuf_pools s omp))"
  by (simp add: mbuf_wf_def)

lemma mb_inv_set: "mb_inv omp s \<Longrightarrow> mb_live s a \<Longrightarrow> mbuf_wf omp s m \<Longrightarrow> mb_inv omp (mb_set a m s)"
  using mbuf_wf_len [of omp s m] by (simp add: mb_inv_def)

lemma mb_frame_refl [simp]: "mb_frame A s s"
  by (simp add: mb_frame_def)

lemma mb_frame_trans: "mb_frame A s s' \<Longrightarrow> mb_frame B s' s'' \<Longrightarrow> A \<subseteq> C \<Longrightarrow> (\<And>a. mb_live s a \<Longrightarrow> a \<in> B \<Longrightarrow> a \<in> C) \<Longrightarrow> mb_frame C s s''"
  by (fastforce simp: mb_frame_def)

lemma mb_frame_set: "a \<in> A \<Longrightarrow> mb_frame A s (mb_set a m s)"
  by (auto simp: mb_frame_def)

subsection \<open>Chains\<close>

lemma mchain_cong:
  "(\<And>a. a \<in> set as \<Longrightarrow> om_next (mbufs s' a) = om_next (mbufs s a) \<and> mb_live s' a = mb_live s a) \<Longrightarrow>
   mchain s' p as = mchain s p as"
  by (induction as arbitrary: p) auto

lemma mdata_cong: "(\<And>a. a \<in> set as \<Longrightarrow> mseg (mbufs s' a) = mseg (mbufs s a)) \<Longrightarrow> mdata s' as = mdata s as"
  unfolding mdata_def by (metis (no_types, lifting) map_eq_conv)

lemma mdata_simps [simp]:
  "mdata s [] = []" "mdata s (a # as) = mseg (mbufs s a) @ mdata s as"
  "mdata s (as @ bs) = mdata s as @ mdata s bs"
  by (simp_all add: mdata_def)

lemma mchain_live: "mchain s p as \<Longrightarrow> a \<in> set as \<Longrightarrow> mb_live s a \<and> a \<noteq> 0"
  by (induction as arbitrary: p) auto

lemma mchain_0 [simp]: "mchain s 0 as \<longleftrightarrow> as = []"
  by (cases as) auto

lemma mchain_hd: "mchain s p as \<Longrightarrow> p \<noteq> 0 \<Longrightarrow> \<exists>bs. as = p # bs"
  by (cases as) auto

lemma mchain_unique: "mchain s p as \<Longrightarrow> mchain s p bs \<Longrightarrow> as = bs"
proof (induction as arbitrary: p bs)
  case (Cons a as) then show ?case by (cases bs) auto
qed auto

lemma mchain_mid: "mchain s p (as @ b # bs) \<Longrightarrow> mchain s b (b # bs)"
  by (induction as arbitrary: p) auto

lemma mchain_distinct: "mchain s p as \<Longrightarrow> distinct as"
proof (induction as arbitrary: p)
  case (Cons a as)
  have "a \<notin> set as"
  proof
    assume "a \<in> set as"
    then obtain xs ys where as: "as = xs @ a # ys" by (meson split_list)
    then have "mchain s a (a # ys)" using Cons.prems mchain_mid [of s "om_next (mbufs s a)" xs a ys] by auto
    then have "a # ys = a # as" using Cons.prems mchain_unique by (metis mchain.simps(2))
    then show False using as by simp
  qed
  with Cons show ?case by auto
qed simp

lemma mbuf_last_eq: "mchain s p (as @ [l]) \<Longrightarrow> mbuf_last p s = Some l"
proof (induction as arbitrary: p)
  case Nil then show ?case by (subst mbuf_last.simps) (simp add: mb_get_def)
next
  case (Cons a as)
  then have n: "mchain s (om_next (mbufs s a)) (as @ [l])" by simp
  then have "om_next (mbufs s a) \<noteq> 0" by (cases as) auto
  with Cons n show ?case by (subst mbuf_last.simps) (simp add: mb_get_def)
qed

subsection \<open>Data areas\<close>

lemma startoff_nonneg [simp]: "0 \<le> startoff m"
  by (simp add: startoff_def)

lemma mbuf_wf_nat:
  assumes "mbuf_wf omp s m"
  shows "0 \<le> om_data m" "nat (startoff m) \<le> nat (om_data m)"
    "nat (om_data m) + unat (om_len m) \<le> length (om_databuf m)"
    "length (om_databuf m) < 65536"
proof -
  have "om_data m + int (unat (om_len m)) \<le> int (length (om_databuf m))" "startoff m \<le> om_data m"
    using assms unfolding mbuf_wf_def uint_nat by blast+
  with startoff_nonneg [of m] show "0 \<le> om_data m" "nat (startoff m) \<le> nat (om_data m)"
    "nat (om_data m) + unat (om_len m) \<le> length (om_databuf m)" by linarith+
  show "length (om_databuf m) < 65536" using assms unsigned_less [of "omp_databuf_len (mbuf_pools s omp)"]
    by (simp add: mbuf_wf_def)
qed

lemma length_mseg: "mbuf_wf omp s m \<Longrightarrow> length (mseg m) = unat (om_len m)"
  using mbuf_wf_nat(3) [of omp s m] by (simp add: mseg_def)

lemma trailingspace_eq:
  assumes "mbuf_wf omp s m"
  shows "\<exists>w. os_mbuf_trailingspace m s = Some w \<and>
     unat w = length (om_databuf m) - (nat (om_data m) + unat (om_len m))"
proof -
  let ?n = "length (om_databuf m) - (nat (om_data m) + unat (om_len m))"
  have eq: "uint (omp_databuf_len (mbuf_pools s omp)) - (om_data m + uint (om_len m)) = int ?n"
    using assms mbuf_wf_nat [OF assms] by (simp add: mbuf_wf_def of_nat_diff)
  have "om_omp m = Some omp" using assms by (simp add: mbuf_wf_def)
  then have "os_mbuf_trailingspace m s = Some (of_int (int ?n))"
    unfolding os_mbuf_trailingspace_def eq [symmetric] by simp
  moreover have "unat (of_int (int ?n) :: u16) = ?n"
    using mbuf_wf_nat(4) [OF assms] by (simp add: unat_of_nat take_bit_eq_mod)
  ultimately show ?thesis by blast
qed

lemma leadingspace_eq:
  assumes "mbuf_wf omp s m"
  shows "unat (os_mbuf_leadingspace m) = nat (om_data m) - nat (startoff m)"
proof -
  let ?n = "nat (om_data m) - nat (startoff m)"
  have eq: "om_data m - startoff m = int ?n" using mbuf_wf_nat [OF assms] by (simp add: of_nat_diff)
  moreover have "unat (of_int (int ?n) :: u16) = ?n"
    using mbuf_wf_nat(3,4) [OF assms] by (simp add: unat_of_nat take_bit_eq_mod)
  moreover have "os_mbuf_leadingspace m = of_int (int ?n)"
    unfolding eq [symmetric] by (simp add: os_mbuf_leadingspace_def startoff_def)
  ultimately show ?thesis by simp
qed

lemma IS_PKTHDR_upd [simp]:
  "OS_MBUF_IS_PKTHDR (m\<lparr>om_len := l\<rparr>) = OS_MBUF_IS_PKTHDR m"
  "OS_MBUF_IS_PKTHDR (m\<lparr>om_databuf := b\<rparr>) = OS_MBUF_IS_PKTHDR m"
  "OS_MBUF_IS_PKTHDR (m\<lparr>om_next := n\<rparr>) = OS_MBUF_IS_PKTHDR m"
  "OS_MBUF_IS_PKTHDR (m\<lparr>om_data := d\<rparr>) = OS_MBUF_IS_PKTHDR m"
  "OS_MBUF_IS_PKTHDR (m\<lparr>om_flags := f\<rparr>) = OS_MBUF_IS_PKTHDR m"
  by (simp_all add: OS_MBUF_IS_PKTHDR_def)

lemma startoff_upd [simp]:
  "startoff (m\<lparr>om_len := l\<rparr>) = startoff m" "startoff (m\<lparr>om_databuf := b\<rparr>) = startoff m"
  "startoff (m\<lparr>om_next := n\<rparr>) = startoff m" "startoff (m\<lparr>om_data := d\<rparr>) = startoff m"
  "startoff (m\<lparr>om_flags := f\<rparr>) = startoff m"
  by (simp_all add: startoff_def)

lemma mseg_upd [simp]: "mseg (m\<lparr>om_next := n\<rparr>) = mseg m" "mseg (m\<lparr>om_flags := f\<rparr>) = mseg m"
  "mseg (m\<lparr>om_pkthdr_len := h\<rparr>) = mseg m"
  by (simp_all add: mseg_def)

lemma mbuf_wfI:
  assumes "om_omp m = Some omp" "length (om_databuf m) = unat (omp_databuf_len (mbuf_pools s omp))"
    "startoff m \<le> om_data m" "nat (om_data m) + unat (om_len m) \<le> length (om_databuf m)"
  shows "mbuf_wf omp s m"
proof -
  have "0 \<le> om_data m" using assms(3) startoff_nonneg [of m] by linarith
  with assms(4) have "om_data m + int (unat (om_len m)) \<le> int (length (om_databuf m))" by linarith
  with assms show ?thesis unfolding mbuf_wf_def uint_nat by blast
qed

lemma mbuf_wf_next [simp]: "mbuf_wf omp s (m\<lparr>om_next := n\<rparr>) = mbuf_wf omp s m"
  by (simp add: mbuf_wf_def)

subsection \<open>Allocating and freeing\<close>

lemma fresh_mbuf_simps [simp]:
  "om_next (fresh_mbuf omp ls m) = 0" "om_len (fresh_mbuf omp ls m) = 0"
  "om_data (fresh_mbuf omp ls m) = uint ls" "om_databuf (fresh_mbuf omp ls m) = om_databuf m"
  "om_pkthdr_len (fresh_mbuf omp ls m) = 0" "om_omp (fresh_mbuf omp ls m) = Some omp"
  "om_flags (fresh_mbuf omp ls m) = 0" "mseg (fresh_mbuf omp ls m) = []"
  "\<not> OS_MBUF_IS_PKTHDR (fresh_mbuf omp ls m)"
  by (simp_all add: fresh_mbuf_def mseg_def OS_MBUF_IS_PKTHDR_def sizeof_os_mbuf_pkthdr_def)

lemma os_mbuf_get_some:
  assumes inv: "mb_inv omp s" and free: "mb_free omp s = a # fs"
    and ls: "unat ls \<le> unat (omp_databuf_len (mbuf_pools s omp))"
  shows "\<exists>s'. os_mbuf_get omp ls s = (a, s') \<and> mb_inv omp s' \<and> mb_free omp s' = fs \<and>
     mb_blocks omp s' = mb_blocks omp s \<and> \<not> mb_live s a \<and> a \<noteq> 0 \<and>
     mbufs s' = (mbufs s)(a := fresh_mbuf omp ls (mbufs s a)) \<and> mb_live s' = (mb_live s)(a := True) \<and>
     mbuf_pools s' = mbuf_pools s"
proof -
  let ?P = "omp_pool (mbuf_pools s omp)"
  from get_free [of ?P "mb_pools s" a fs] inv free obtain ps where
    ps: "os_memblock_get (Some ?P) (mb_pools s) = (a, ps)" "pool_inv ?P ps" "free_blocks ps ?P = fs"
    "pool_blocks (pools ps ?P) = pool_blocks (pools (mb_pools s) ?P)"
    by (auto simp: mb_inv_def mb_free_def)
  have a: "a \<in> mb_blocks omp s" "distinct (a # fs)"
    using inv free by (auto simp: mb_inv_def pool_inv_def mb_free_def mb_blocks_def)
  have a0: "a \<noteq> 0" using a inv pool_block_nonzero by (auto simp: mb_blocks_def mb_inv_def pool_inv_def)
  have dead: "\<not> mb_live s a" using inv free by (auto simp: mb_inv_def)
  define s' where "s' = mb_set a (fresh_mbuf omp ls (mbufs s a))
      (s\<lparr>mb_pools := ps, mb_live := (mb_live s)(a := True)\<rparr>)"
  have get: "os_mbuf_get omp ls s = (a, s')"
    using ps(1) a0 by (simp add: os_mbuf_get_def s'_def fresh_mbuf_def mb_set_def)
  have proj: "mbufs s' = (mbufs s)(a := fresh_mbuf omp ls (mbufs s a))" "mb_live s' = (mb_live s)(a := True)"
    "mbuf_pools s' = mbuf_pools s" "mb_free omp s' = fs" "mb_blocks omp s' = mb_blocks omp s"
    "pool_inv ?P (mb_pools s')" "mbuf_wf omp s' = mbuf_wf omp s"
    using ps by (simp_all add: s'_def mb_free_def mb_blocks_def mb_set_def mbuf_wf_def fun_eq_iff)
  have len: "length (om_databuf (mbufs s a)) = unat (omp_databuf_len (mbuf_pools s omp))"
    using inv a by (simp add: mb_inv_def)
  have "mbuf_wf omp s (fresh_mbuf omp ls (mbufs s a))"
    using ls len by (simp add: mbuf_wf_def startoff_def word_le_nat_alt [symmetric] word_le_def)
  then have "mb_inv omp s'" using inv free a len proj(6) unfolding mb_inv_def proj(1-5,7) by auto
  with get proj dead a0 show ?thesis by blast
qed

lemma os_mbuf_get_none: "mb_inv omp s \<Longrightarrow> mb_free omp s = [] \<Longrightarrow> os_mbuf_get omp ls s = (0, s)"
  by (simp add: os_mbuf_get_def get_empty mb_inv_def mb_free_def)

lemma os_mbuf_free_one:
  assumes inv: "mb_inv omp s" and live: "mb_live s a"
  shows "\<exists>s'. os_mbuf_free a s = Some (OS_OK, s') \<and> mb_inv omp s' \<and> mb_free omp s' = a # mb_free omp s \<and>
     mb_blocks omp s' = mb_blocks omp s \<and> mbufs s' = mbufs s \<and> mb_live s' = (mb_live s)(a := False) \<and>
     mbuf_pools s' = mbuf_pools s"
proof -
  let ?P = "omp_pool (mbuf_pools s omp)"
  from put_free [of ?P "mb_pools s" a] inv live obtain ps where
    ps: "os_memblock_put (Some ?P) a (mb_pools s) = (OS_OK, ps)" "pool_inv ?P ps"
    "free_blocks ps ?P = a # mb_free omp s" "pool_blocks (pools ps ?P) = pool_blocks (pools (mb_pools s) ?P)"
    by (auto simp: mb_inv_def mb_free_def mb_blocks_def)
  define s' where "s' = s\<lparr>mb_pools := ps, mb_live := (mb_live s)(a := False)\<rparr>"
  have "om_omp (mbufs s a) = Some omp" using mb_inv_wf [OF inv live] by (simp add: mbuf_wf_def)
  then have free: "os_mbuf_free a s = Some (OS_OK, s')"
    using ps(1) mb_inv_get [OF inv live] by (simp add: os_mbuf_free_def s'_def)
  have proj: "mbufs s' = mbufs s" "mb_live s' = (mb_live s)(a := False)"
    "mbuf_pools s' = mbuf_pools s" "mb_free omp s' = a # mb_free omp s" "mb_blocks omp s' = mb_blocks omp s"
    "pool_inv ?P (mb_pools s')" "mbuf_wf omp s' = mbuf_wf omp s"
    using ps by (simp_all add: s'_def mb_free_def mb_blocks_def mbuf_wf_def fun_eq_iff)
  then have "mb_inv omp s'" using inv proj(6) unfolding mb_inv_def proj(1-5,7) by auto
  with free proj show ?thesis by blast
qed

lemma os_mbuf_free_chain_eq:
  "mb_inv omp s \<Longrightarrow> mchain s p as \<Longrightarrow> \<exists>s'. os_mbuf_free_chain p s = Some (OS_OK, s') \<and> mb_inv omp s' \<and>
     mb_free omp s' = rev as @ mb_free omp s \<and> mb_blocks omp s' = mb_blocks omp s \<and> mbufs s' = mbufs s \<and>
     mb_live s' = (\<lambda>a. mb_live s a \<and> a \<notin> set as) \<and> mbuf_pools s' = mbuf_pools s"
proof (induction as arbitrary: p s)
  case Nil then show ?case by (subst os_mbuf_free_chain.simps) simp
next
  case (Cons a as)
  from Cons.prems have a: "p = a" "a \<noteq> 0" "mb_live s a" and rest: "mchain s (om_next (mbufs s a)) as" by simp_all
  from os_mbuf_free_one [OF Cons.prems(1) a(3)] obtain s1 where
    s1: "os_mbuf_free a s = Some (OS_OK, s1)" "mb_inv omp s1" "mb_free omp s1 = a # mb_free omp s"
    "mb_blocks omp s1 = mb_blocks omp s" "mbufs s1 = mbufs s" "mb_live s1 = (mb_live s)(a := False)"
    "mbuf_pools s1 = mbuf_pools s" by blast
  have "a \<notin> set as" using mchain_distinct [OF Cons.prems(2)] by simp
  then have "mchain s1 (om_next (mbufs s a)) as"
    using rest mchain_cong [of as s1 s] s1(5,6) by (metis fun_upd_other)
  from Cons.IH [OF s1(2) this] obtain s2 where
    s2: "os_mbuf_free_chain (om_next (mbufs s a)) s1 = Some (OS_OK, s2)" "mb_inv omp s2"
    "mb_free omp s2 = rev as @ mb_free omp s1" "mb_blocks omp s2 = mb_blocks omp s1" "mbufs s2 = mbufs s1"
    "mb_live s2 = (\<lambda>a. mb_live s1 a \<and> a \<notin> set as)" "mbuf_pools s2 = mbuf_pools s1" by blast
  have "os_mbuf_free_chain p s = Some (OS_OK, s2)"
    using a s1(1) s2(1) by (subst os_mbuf_free_chain.simps) (simp add: mb_get_def)
  with s1 s2 show ?case by (auto simp: fun_eq_iff)
qed

subsection \<open>Appending\<close>

lemma mseg_append:
  assumes wf: "mbuf_wf omp s m" and fits: "nat (om_data m) + unat (om_len m) + length bs \<le> length (om_databuf m)"
  shows "\<exists>buf. poke (om_data m + uint (om_len m)) bs (om_databuf m) = Some buf \<and>
     length buf = length (om_databuf m) \<and> take (nat (om_data m) + unat (om_len m)) buf = take (nat (om_data m) + unat (om_len m)) (om_databuf m) \<and>
     mbuf_wf omp s (m\<lparr>om_len := om_len m + of_nat (length bs), om_databuf := buf\<rparr>) \<and>
     mseg (m\<lparr>om_len := om_len m + of_nat (length bs), om_databuf := buf\<rparr>) = mseg m @ bs"
proof -
  let ?e = "nat (om_data m) + unat (om_len m)" and ?b = "om_databuf m"
  let ?buf = "take ?e ?b @ bs @ drop (?e + length bs) ?b"
  note w = mbuf_wf_nat [OF wf]
  have off: "nat (om_data m + uint (om_len m)) = ?e" "0 \<le> om_data m + uint (om_len m)"
    using w(1) by (simp_all add: nat_add_distrib)
  have len: "unat (om_len m + of_nat (length bs)) = unat (om_len m) + length bs"
    using fits w(4) by (simp add: unat_word_ariths unat_of_nat take_bit_eq_mod)
  have "mseg (m\<lparr>om_len := om_len m + of_nat (length bs), om_databuf := ?buf\<rparr>) = mseg m @ bs"
    using fits by (simp add: mseg_def len take_drop min_absorb2 add.commute)
  moreover have "length ?buf = length ?b" using fits by simp
  moreover have "mbuf_wf omp s (m\<lparr>om_len := om_len m + of_nat (length bs), om_databuf := ?buf\<rparr>)"
    using wf fits by (intro mbuf_wfI) (simp_all add: mbuf_wf_def len)
  moreover have "poke (om_data m + uint (om_len m)) bs ?b = Some ?buf" using off fits by (simp add: poke_def)
  moreover have "take ?e ?buf = take ?e ?b" using fits by simp
  ultimately show ?thesis by blast
qed

lemma mbuf_wf_databuf:
  "mbuf_wf omp s m \<Longrightarrow> length b = length (om_databuf m) \<Longrightarrow> mbuf_wf omp s (m\<lparr>om_databuf := b\<rparr>)"
  unfolding mbuf_wf_def by auto

text \<open>Changing the length in a packet header leaves the data of the mbuf alone.\<close>

lemma upd_pkthdr_len_eq:
  assumes inv: "mb_inv omp s" and live: "mb_live s om"
  shows "\<exists>buf. let m = mbufs s om; m' = m\<lparr>om_databuf := buf\<rparr> in upd_pkthdr_len om f s = Some (mb_set om m' s) \<and>
     mbuf_wf omp s m' \<and> mseg m' = mseg m \<and>
     (if OS_MBUF_IS_PKTHDR m then \<exists>n. pkthdr_len m = Some n \<and> pkthdr_len m' = Some (f n) else m' = m)"
proof -
  let ?m = "mbufs s om"
  note wf = mb_inv_wf [OF inv live] and get = mb_inv_get [OF inv live]
  note w = mbuf_wf_nat [OF wf]
  show ?thesis
  proof (cases "OS_MBUF_IS_PKTHDR ?m")
    case False
    then show ?thesis using wf get by (intro exI [of _ "om_databuf ?m"]) (simp add: upd_pkthdr_len_def mb_set_def)
  next
    case True
    then have "8 \<le> nat (startoff ?m)" by (simp add: startoff_def OS_MBUF_IS_PKTHDR_def sizeof_os_mbuf_pkthdr_def)
    with w have d: "8 \<le> nat (om_data ?m)" "8 \<le> length (om_databuf ?m)" by linarith+
    define n where "n = of_le16 (take 2 (om_databuf ?m))"
    define buf where "buf = le16 (f n) @ drop 2 (om_databuf ?m)"
    have len: "length buf = length (om_databuf ?m)" using d by (simp add: buf_def)
    have "drop (nat (om_data ?m)) buf = drop (nat (om_data ?m)) (om_databuf ?m)"
    proof -
      have "Suc (Suc (nat (om_data ?m) - 2)) = nat (om_data ?m)" using d by linarith
      then show ?thesis using d by (simp add: buf_def)
    qed
    then have seg: "mseg (?m\<lparr>om_databuf := buf\<rparr>) = mseg ?m" by (simp add: mseg_def)
    have "pkthdr_len ?m = Some n" using d by (simp add: pkthdr_len_def peek_def n_def)
    moreover have "pkthdr_len (?m\<lparr>om_databuf := buf\<rparr>) = Some (f n)"
      using d len by (simp add: pkthdr_len_def peek_def buf_def of_le16_le16)
    moreover have "mbuf_wf omp s (?m\<lparr>om_databuf := buf\<rparr>)" using mbuf_wf_databuf [OF wf len] .
    moreover have "set_pkthdr_len (f n) ?m = Some (?m\<lparr>om_databuf := buf\<rparr>)"
      using d by (simp add: set_pkthdr_len_def poke_def buf_def numeral_2_eq_2)
    ultimately show ?thesis using True seg get
      by (intro exI [of _ buf]) (simp add: upd_pkthdr_len_def Let_def)
  qed
qed

lemma os_mbuf_append_loop_eq:
  "mb_inv omp s \<Longrightarrow> mb_live s lst \<Longrightarrow> om_next (mbufs s lst) = 0 \<Longrightarrow> 0 < omp_databuf_len (mbuf_pools s omp) \<Longrightarrow>
   \<exists>n new s'. os_mbuf_append_loop (Some omp) lst rest s = Some (drop n rest, s') \<and> n \<le> length rest \<and>
     (n < length rest \<longrightarrow> mb_free omp s' = []) \<and> mb_inv omp s' \<and> mb_frame {lst} s s' \<and> mb_live s' lst \<and>
     mbufs s' lst = (mbufs s lst)\<lparr>om_next := om_next (mbufs s' lst)\<rparr> \<and>
     mchain s' (om_next (mbufs s' lst)) new \<and> mdata s' new = take n rest \<and> (\<forall>a \<in> set new. \<not> mb_live s a)"
proof (induction "mb_free omp s" arbitrary: s lst rest)
  case Nil
  show ?case
  proof (intro exI [of _ 0] exI [of _ "[]"] exI [of _ s] conjI)
    show "os_mbuf_append_loop (Some omp) lst rest s = Some (drop 0 rest, s)"
      using os_mbuf_get_none [OF Nil(2) Nil(1) [symmetric]] by (subst os_mbuf_append_loop.simps) simp
  qed (use Nil in auto)
next
  case (Cons a fs)
  note inv = Cons.prems(1) and live = Cons.prems(2)
  show ?case
  proof (cases "rest = []")
    case True
    have "os_mbuf_append_loop (Some omp) lst rest s = Some (drop 0 rest, s)"
      using True by (subst os_mbuf_append_loop.simps) simp
    then show ?thesis using True Cons.prems by (intro exI [of _ 0] exI [of _ "[]"] exI [of _ s]) simp
  next
    case False
    from os_mbuf_get_some [OF inv Cons.hyps(2) [symmetric], of 0] obtain s1 where
      s1: "os_mbuf_get omp 0 s = (a, s1)" "mb_inv omp s1" "mb_free omp s1 = fs" "\<not> mb_live s a" "a \<noteq> 0"
      "mbufs s1 = (mbufs s)(a := fresh_mbuf omp 0 (mbufs s a))" "mb_live s1 = (mb_live s)(a := True)"
      "mbuf_pools s1 = mbuf_pools s" by auto
    define n where "n = min (unat (omp_databuf_len (mbuf_pools s omp))) (length rest)"
    let ?m = "fresh_mbuf omp 0 (mbufs s a)"
    have live1: "mb_live s1 a" "mbufs s1 a = ?m" using s1 by simp_all
    note wf = mb_inv_wf [OF s1(2) live1(1), unfolded live1(2)]
    have len: "length (om_databuf ?m) = unat (omp_databuf_len (mbuf_pools s omp))"
      using mbuf_wf_len [OF wf] s1(8) by simp
    have nl: "length (take n rest) = n" "n \<le> length (om_databuf ?m)" using len by (simp_all add: n_def)
    from mseg_append [OF wf, of "take n rest"] nl obtain buf where
      buf: "poke 0 (take n rest) (om_databuf ?m) = Some buf"
      "mbuf_wf omp s1 (?m\<lparr>om_len := of_nat n, om_databuf := buf\<rparr>)"
      "mseg (?m\<lparr>om_len := of_nat n, om_databuf := buf\<rparr>) = take n rest"
      by (auto simp del: length_take)
    define m where "m = ?m\<lparr>om_len := of_nat n, om_databuf := buf\<rparr>"
    define s2 where "s2 = mb_set a m s1"
    have ne: "lst \<noteq> a" using live s1(4) by auto
    have s2: "mb_inv omp s2" "mb_live s2 lst" "mb_live s2 a" "mbufs s2 a = m" "mbufs s2 lst = mbufs s lst"
      using mb_inv_set [OF s1(2) live1(1) buf(2)] live s1 ne by (simp_all add: s2_def m_def)
    define s3 where "s3 = mb_set lst ((mbufs s lst)\<lparr>om_next := a\<rparr>) s2"
    have wfl: "mbuf_wf omp s2 ((mbufs s lst)\<lparr>om_next := a\<rparr>)"
      using mb_inv_wf [OF s2(1,2)] s2(5) by simp
    have s3: "mb_inv omp s3" "mb_live s3 a" "om_next (mbufs s3 a) = 0" "mbuf_pools s3 = mbuf_pools s"
      "mb_free omp s3 = fs" "mbufs s3 a = m" "mbufs s3 lst = (mbufs s lst)\<lparr>om_next := a\<rparr>"
      using mb_inv_set [OF s2(1,2) wfl] s2 ne s1 by (simp_all add: s3_def s2_def m_def)
    have step: "os_mbuf_append_loop (Some omp) lst rest s = os_mbuf_append_loop (Some omp) a (drop n rest) s3"
      using False s1(1,5,8) mb_inv_get [OF s1(2) live1(1)] live1(2) buf(1) mb_inv_get [OF s2(1,2)] s2(5)
      by (subst os_mbuf_append_loop.simps) (simp add: n_def s2_def s3_def m_def Let_def)
    from Cons.hyps(1) [OF s3(5) [symmetric] s3(1-3), of "drop n rest"] s3(4) Cons.prems(4) obtain k new s' where
      s': "os_mbuf_append_loop (Some omp) a (drop n rest) s3 = Some (drop k (drop n rest), s')"
      "k \<le> length (drop n rest)" "k < length (drop n rest) \<longrightarrow> mb_free omp s' = []" "mb_inv omp s'"
      "mb_frame {a} s3 s'" "mb_live s' a" "mbufs s' a = m\<lparr>om_next := om_next (mbufs s' a)\<rparr>"
      "mchain s' (om_next (mbufs s' a)) new" "mdata s' new = take k (drop n rest)" "\<forall>b \<in> set new. \<not> mb_live s3 b"
      unfolding s3(6) by (metis order_refl)
    have n: "n \<le> length rest" by (simp add: n_def)
    have lives: "mb_live s3 b = (mb_live s b \<or> b = a)" for b by (simp add: s3_def s2_def s1(7))
    have fr: "mb_live s' b \<and> mbufs s' b = mbufs s3 b" if "mb_live s b" for b
      using s'(5) that s1(4) lives unfolding mb_frame_def by (metis singletonD)
    have lst': "mbufs s' lst = (mbufs s lst)\<lparr>om_next := a\<rparr>" "mb_live s' lst" using fr [OF live] s3(7) by simp_all
    have "mseg (mbufs s' a) = take n rest" by (subst s'(7)) (simp add: m_def buf(3))
    then have "mdata s' (a # new) = take (n + k) rest" using s'(9) by (simp add: take_add)
    moreover have "mchain s' (om_next (mbufs s' lst)) (a # new)" using lst' s'(6,8) s1(5) by simp
    moreover have "mb_frame {lst} s s'"
      using fr s'(5) s3(4) s1(4,6) by (auto simp: mb_frame_def s3_def s2_def)
    moreover have "\<forall>b \<in> set (a # new). \<not> mb_live s b" using s'(10) s1(4) lives by auto
    ultimately show ?thesis using step s'(1-4) n lst'
      by (intro exI [of _ "n + k"] exI [of _ "a # new"] exI [of _ s']) (simp add: add.commute)
  qed
qed

lemma IS_PKTHDR_room:
  assumes "mbuf_wf omp s m" "OS_MBUF_IS_PKTHDR m"
  shows "8 \<le> nat (om_data m)" "8 \<le> length (om_databuf m)"
proof -
  have "8 \<le> nat (startoff m)" using assms(2)
    by (simp add: startoff_def OS_MBUF_IS_PKTHDR_def sizeof_os_mbuf_pkthdr_def)
  with mbuf_wf_nat [OF assms(1)] show "8 \<le> nat (om_data m)" "8 \<le> length (om_databuf m)" by linarith+
qed

lemma pkthdr_len_cong:
  "take 2 (om_databuf m) = take 2 (om_databuf m') \<Longrightarrow> length (om_databuf m) = length (om_databuf m') \<Longrightarrow>
   pkthdr_len m = pkthdr_len m'"
  by (simp add: pkthdr_len_def peek_def)

lemma pkthdr_len_upd [simp]:
  "pkthdr_len (m\<lparr>om_next := n\<rparr>) = pkthdr_len m" "pkthdr_len (m\<lparr>om_len := l\<rparr>) = pkthdr_len m"
  "pkthdr_len (m\<lparr>om_data := d\<rparr>) = pkthdr_len m" "pkthdr_len (m\<lparr>om_flags := f\<rparr>) = pkthdr_len m"
  by (simp_all add: pkthdr_len_def)

text \<open>The part of an append that fills the last mbuf.\<close>

lemma append_first:
  assumes wf: "mbuf_wf omp s m" and sp: "os_mbuf_trailingspace m s = Some sp"
    and space: "space = min (unat sp) (length bytes)"
  shows "\<exists>buf m1. (if 0 < sp then poke (om_data m + uint (om_len m)) (take space bytes) (om_databuf m)
        else Some (om_databuf m)) = Some buf \<and>
     m1 = (if 0 < sp then m\<lparr>om_len := om_len m + of_nat space, om_databuf := buf\<rparr> else m) \<and>
     mbuf_wf omp s m1 \<and> mseg m1 = mseg m @ take space bytes \<and> om_next m1 = om_next m \<and>
     om_pkthdr_len m1 = om_pkthdr_len m \<and> (OS_MBUF_IS_PKTHDR m \<longrightarrow> pkthdr_len m1 = pkthdr_len m)"
proof (cases "0 < sp")
  case False
  then show ?thesis using wf space by (simp add: word_less_nat_alt)
next
  case True
  have "unat sp = length (om_databuf m) - (nat (om_data m) + unat (om_len m))"
    using trailingspace_eq [OF wf] sp by auto
  moreover have len: "length (take space bytes) = space" "space \<le> unat sp" using space by simp_all
  ultimately have fits: "nat (om_data m) + unat (om_len m) + length (take space bytes) \<le> length (om_databuf m)"
    using mbuf_wf_nat(3) [OF wf] len by linarith
  from mseg_append [OF wf fits] obtain buf where
    buf: "poke (om_data m + uint (om_len m)) (take space bytes) (om_databuf m) = Some buf"
    "length buf = length (om_databuf m)"
    "take (nat (om_data m) + unat (om_len m)) buf = take (nat (om_data m) + unat (om_len m)) (om_databuf m)"
    "mbuf_wf omp s (m\<lparr>om_len := om_len m + of_nat space, om_databuf := buf\<rparr>)"
    "mseg (m\<lparr>om_len := om_len m + of_nat space, om_databuf := buf\<rparr>) = mseg m @ take space bytes"
    unfolding len(1) by blast
  have "pkthdr_len (m\<lparr>om_len := om_len m + of_nat space, om_databuf := buf\<rparr>) = pkthdr_len m" if "OS_MBUF_IS_PKTHDR m"
  proof (rule pkthdr_len_cong)
    have "2 \<le> nat (om_data m) + unat (om_len m)" using IS_PKTHDR_room(1) [OF wf that] by simp
    with arg_cong [OF buf(3), of "take 2"]
    show "take 2 (om_databuf (m\<lparr>om_len := om_len m + of_nat space, om_databuf := buf\<rparr>)) = take 2 (om_databuf m)"
      by (simp add: min_absorb1)
  qed (simp add: buf(2))
  with buf True show ?thesis by simp
qed

lemma mb_set_id [simp]: "mb_set a (mbufs s a) s = s"
  by (simp add: mb_set_def)

lemma mchain_set: "om_next m = om_next (mbufs s a) \<Longrightarrow> mchain (mb_set a m s) p as = mchain s p as"
  by (rule mchain_cong) auto

lemma mdata_set: "mseg m = mseg (mbufs s a) \<Longrightarrow> mdata (mb_set a m s) as = mdata s as"
  by (rule mdata_cong) auto

lemma mchain_relink:
  "mchain s p (bs @ l # xs) \<Longrightarrow> (\<And>a. a \<in> set bs \<Longrightarrow> mb_live s' a \<and> om_next (mbufs s' a) = om_next (mbufs s a)) \<Longrightarrow>
   mb_live s' l \<Longrightarrow> mchain s' (om_next (mbufs s' l)) new \<Longrightarrow> mchain s' p (bs @ l # new)"
  by (induction bs arbitrary: p) auto

lemma mchain_last:
  assumes "mchain s p as" "p \<noteq> 0"
  obtains bs l where "as = bs @ [l]" "mbuf_last p s = Some l" "mb_live s p" "mb_live s l" "om_next (mbufs s l) = 0"
    "l \<notin> set bs" "p \<in> set as"
proof -
  from assms obtain bs l where as: "as = bs @ [l]" by (metis mchain_hd rev_exhaust list.distinct(1))
  have "p \<in> set as" using mchain_hd [OF assms] by auto
  moreover from this have "mb_live s p" "mb_live s l" using mchain_live [OF assms(1)] as by auto
  moreover have "mbuf_last p s = Some l" using mbuf_last_eq assms(1) as by metis
  moreover have "om_next (mbufs s l) = 0" using mchain_mid [of s p bs l "[]"] assms(1) as by simp
  moreover have "l \<notin> set bs" using mchain_distinct [OF assms(1)] as by simp
  ultimately show thesis using that as by blast
qed

text \<open>Filling the last mbuf and adding new ones.\<close>

lemma append_body:
  assumes inv: "mb_inv omp s" and chain: "mchain s om (bs @ [l])" and l: "l \<notin> set bs" "mb_live s l" "om_next (mbufs s l) = 0"
    and pool: "0 < omp_databuf_len (mbuf_pools s omp)"
    and sp: "os_mbuf_trailingspace (mbufs s l) s = Some sp" and space: "space = min (unat sp) (length bytes)"
  shows "\<exists>buf s2 new n. (if 0 < sp then poke (om_data (mbufs s l) + uint (om_len (mbufs s l))) (take space bytes)
          (om_databuf (mbufs s l)) else Some (om_databuf (mbufs s l))) = Some buf \<and>
     os_mbuf_append_loop (Some omp) l (drop space bytes)
       (if 0 < sp then mb_set l ((mbufs s l)\<lparr>om_len := om_len (mbufs s l) + of_nat space, om_databuf := buf\<rparr>) s
        else s) = Some (drop n bytes, s2) \<and> n \<le> length bytes \<and> (n < length bytes \<longrightarrow> mb_free omp s2 = []) \<and>
     mb_inv omp s2 \<and> mchain s2 om ((bs @ [l]) @ new) \<and>
     mdata s2 ((bs @ [l]) @ new) = mdata s (bs @ [l]) @ take n bytes \<and>
     mb_frame (set (bs @ [l])) s s2 \<and> (\<forall>a \<in> set (bs @ [l]). om_pkthdr_len (mbufs s2 a) = om_pkthdr_len (mbufs s a) \<and>
       (OS_MBUF_IS_PKTHDR (mbufs s a) \<longrightarrow> pkthdr_len (mbufs s2 a) = pkthdr_len (mbufs s a)))"
proof -
  note wf = mb_inv_wf [OF inv l(2)]
  from append_first [OF wf sp space] obtain buf m1 where
    m1: "(if 0 < sp then poke (om_data (mbufs s l) + uint (om_len (mbufs s l))) (take space bytes) (om_databuf (mbufs s l))
        else Some (om_databuf (mbufs s l))) = Some buf"
    "m1 = (if 0 < sp then (mbufs s l)\<lparr>om_len := om_len (mbufs s l) + of_nat space, om_databuf := buf\<rparr> else mbufs s l)"
    "mbuf_wf omp s m1" "mseg m1 = mseg (mbufs s l) @ take space bytes" "om_next m1 = 0"
    "om_pkthdr_len m1 = om_pkthdr_len (mbufs s l)"
    "OS_MBUF_IS_PKTHDR (mbufs s l) \<longrightarrow> pkthdr_len m1 = pkthdr_len (mbufs s l)"
    using l(3) by metis
  define s1 where "s1 = mb_set l m1 s"
  have s1: "(if 0 < sp then mb_set l ((mbufs s l)\<lparr>om_len := om_len (mbufs s l) + of_nat space, om_databuf := buf\<rparr>) s
      else s) = s1" "mb_inv omp s1" "mb_live s1 l" "om_next (mbufs s1 l) = 0" "mbuf_pools s1 = mbuf_pools s"
    using m1 mb_inv_set [OF inv l(2) m1(3)] l(2) by (simp_all add: s1_def)
  from os_mbuf_append_loop_eq [OF s1(2-4), of "drop space bytes"] pool s1(5) obtain k new s2 where
    s2: "os_mbuf_append_loop (Some omp) l (drop space bytes) s1 = Some (drop k (drop space bytes), s2)"
    "k \<le> length (drop space bytes)" "k < length (drop space bytes) \<longrightarrow> mb_free omp s2 = []" "mb_inv omp s2"
    "mb_frame {l} s1 s2" "mb_live s2 l" "mbufs s2 l = m1\<lparr>om_next := om_next (mbufs s2 l)\<rparr>"
    "mchain s2 (om_next (mbufs s2 l)) new" "mdata s2 new = take k (drop space bytes)"
    by (auto simp: s1_def)
  have fr: "mb_live s2 a \<and> mbufs s2 a = mbufs s a" if "mb_live s a" "a \<noteq> l" for a
    using s2(5) that by (auto simp: mb_frame_def s1_def)
  have bs: "mb_live s2 a \<and> mbufs s2 a = mbufs s a" if "a \<in> set bs" for a
    using fr [of a] that l(1) mchain_live [OF chain] by auto
  have seg: "mseg (mbufs s2 l) = mseg (mbufs s l) @ take space bytes" by (subst s2(7)) (simp add: m1(4))
  have "mdata s2 (bs @ l # new) = mdata s (bs @ [l]) @ take (space + k) bytes"
    using bs s2(9) seg mdata_cong [of bs s2 s] by (simp add: take_add)
  moreover have "mchain s2 om (bs @ l # new)" using mchain_relink [OF chain] bs s2(6,8) by simp
  moreover have "mb_frame (set (bs @ [l])) s s2" using fr s2(5) s1(5) by (auto simp: mb_frame_def)
  moreover have "om_pkthdr_len (mbufs s2 l) = om_pkthdr_len (mbufs s l) \<and>
      (OS_MBUF_IS_PKTHDR (mbufs s l) \<longrightarrow> pkthdr_len (mbufs s2 l) = pkthdr_len (mbufs s l))"
    by (subst (1 2) s2(7)) (simp add: m1(6,7))
  ultimately show ?thesis using m1(1) s1(1) s2(1-4) space bs
    by (intro exI [of _ buf] exI [of _ s2] exI [of _ new] exI [of _ "space + k"]) (simp add: add.commute)
qed

text \<open>
  C18: on a chain of well-formed mbufs \<^verbatim>\<open>os_mbuf_append\<close> puts a prefix of the data behind the bytes of
  the chain, all of it exactly when it returns \<^verbatim>\<open>OS_OK\<close>; otherwise it returns \<^verbatim>\<open>OS_ENOMEM\<close> and the
  pool is empty. The length in a packet header grows by what was appended, no other mbuf
  changes, and the pool and the mbufs stay consistent.
\<close>

theorem os_mbuf_append_spec:
  assumes inv: "mb_inv omp s" and chain: "mchain s om as" "om \<noteq> 0"
    and pool: "0 < omp_databuf_len (mbuf_pools s omp)" and len: "unat len \<le> length data"
  shows "\<exists>rc s' new n. os_mbuf_append om data len s = Some (rc, s') \<and> mb_inv omp s' \<and>
     mchain s' om (as @ new) \<and> mdata s' (as @ new) = mdata s as @ take n data \<and>
     (if rc = OS_OK then n = unat len else rc = OS_ENOMEM \<and> n < unat len \<and> mb_free omp s' = []) \<and>
     mb_frame (set as) s s' \<and> (OS_MBUF_IS_PKTHDR (mbufs s om) \<longrightarrow>
        pkthdr_len (mbufs s' om) = map_option (\<lambda>k. k + of_nat n) (pkthdr_len (mbufs s om)))"
proof -
  from mchain_last [OF chain] obtain bs l where as: "as = bs @ [l]" "mbuf_last om s = Some l"
    and live: "mb_live s om" "mb_live s l" "om_next (mbufs s l) = 0" "l \<notin> set bs" "om \<in> set as" .
  define bytes where "bytes = take (unat len) data"
  have bytes: "length bytes = unat len" "peek 0 (unat len) data = Some bytes"
    using len by (simp_all add: bytes_def peek_def)
  from trailingspace_eq [OF mb_inv_wf [OF inv live(2)]] obtain sp where
    sp: "os_mbuf_trailingspace (mbufs s l) s = Some sp" by blast
  define space where "space = min (unat sp) (length bytes)"
  from append_body [OF inv chain(1) [unfolded as(1)] live(4,2,3) pool sp space_def, folded as(1)] live(5)
  obtain buf s2 new n where
    s2: "(if 0 < sp then poke (om_data (mbufs s l) + uint (om_len (mbufs s l))) (take space bytes)
          (om_databuf (mbufs s l)) else Some (om_databuf (mbufs s l))) = Some buf"
    "os_mbuf_append_loop (Some omp) l (drop space bytes)
       (if 0 < sp then mb_set l ((mbufs s l)\<lparr>om_len := om_len (mbufs s l) + of_nat space, om_databuf := buf\<rparr>) s
        else s) = Some (drop n bytes, s2)" "n \<le> length bytes" "n < length bytes \<longrightarrow> mb_free omp s2 = []"
    "mb_inv omp s2" "mchain s2 om (as @ new)" "mdata s2 (as @ new) = mdata s as @ take n bytes" "mb_frame (set as) s s2"
    "om_pkthdr_len (mbufs s2 om) = om_pkthdr_len (mbufs s om)"
    "OS_MBUF_IS_PKTHDR (mbufs s om) \<longrightarrow> pkthdr_len (mbufs s2 om) = pkthdr_len (mbufs s om)"
    by blast
  have live2: "mb_live s2 om" using mchain_live [OF s2(6)] live(5) by simp
  let ?f = "\<lambda>k. k + (len - of_nat (length (drop n bytes)))"
  from upd_pkthdr_len_eq [OF s2(5) live2, of ?f] obtain b where
    b: "upd_pkthdr_len om ?f s2 = Some (mb_set om ((mbufs s2 om)\<lparr>om_databuf := b\<rparr>) s2)"
    "mbuf_wf omp s2 ((mbufs s2 om)\<lparr>om_databuf := b\<rparr>)" "mseg ((mbufs s2 om)\<lparr>om_databuf := b\<rparr>) = mseg (mbufs s2 om)"
    "OS_MBUF_IS_PKTHDR (mbufs s2 om) \<longrightarrow> (\<exists>k. pkthdr_len (mbufs s2 om) = Some k \<and>
        pkthdr_len ((mbufs s2 om)\<lparr>om_databuf := b\<rparr>) = Some (?f k))"
    by (auto simp: Let_def split: if_splits)
  define s' where "s' = mb_set om ((mbufs s2 om)\<lparr>om_databuf := b\<rparr>) s2"
  have f: "?f k = k + of_nat n" for k
  proof -
    have "of_nat (length (drop n bytes)) = len - of_nat n"
      using s2(3) bytes(1) by (simp add: of_nat_diff)
    then show ?thesis by simp
  qed
  have sl: "min (unat sp) (unat len) = space" by (simp add: space_def bytes(1))
  have "om_omp (mbufs s om) = Some omp" using mb_inv_wf [OF inv live(1)] by (simp add: mbuf_wf_def)
  then have run: "os_mbuf_append om data len s = Some (if drop n bytes \<noteq> [] then OS_ENOMEM else OS_OK, s')"
    using chain(2) mb_inv_get [OF inv live(1)] mb_inv_get [OF inv live(2)] as(2) sp s2(1,2) bytes(2) b(1)
    by (simp add: os_mbuf_append_def Let_def s'_def sl cong: if_cong split del: if_split del: length_drop drop_eq_Nil)
  have "mb_frame (set as) s s'" using s2(8) live(5) by (auto simp: mb_frame_def s'_def)
  moreover have "take n bytes = take n data" using s2(3) bytes(1) by (simp add: bytes_def min_absorb1)
  moreover have "OS_MBUF_IS_PKTHDR (mbufs s om) \<longrightarrow>
      pkthdr_len (mbufs s' om) = map_option (\<lambda>k. k + of_nat n) (pkthdr_len (mbufs s om))"
    using b(4) s2(9,10) f by (auto simp: s'_def OS_MBUF_IS_PKTHDR_def)
  moreover have "mb_inv omp s'" "mchain s' om (as @ new)" "mdata s' (as @ new) = mdata s as @ take n bytes"
    using mb_inv_set [OF s2(5) live2 b(2)] s2(6,7) b(3) by (simp_all add: s'_def mchain_set mdata_set del: mdata_simps)
  ultimately show ?thesis using run s2(3,4) bytes(1)
    by (intro exI [of _ "if drop n bytes \<noteq> [] then OS_ENOMEM else OS_OK"] exI [of _ s'] exI [of _ new] exI [of _ n])
     (auto simp: s'_def simp del: mdata_simps)
qed

subsection \<open>Reading\<close>

lemma mchain_cons:
  assumes "mb_inv omp s" "mchain s p (a # as)"
  shows "p = a" "a \<noteq> 0" "mb_live s a" "mb_get a s = Some (mbufs s a)" "mbuf_wf omp s (mbufs s a)"
    "mchain s (om_next (mbufs s a)) as" "uint (om_len (mbufs s a)) = int (length (mseg (mbufs s a)))"
  using assms mb_inv_get [of omp s a] mb_inv_wf [of omp s a] length_mseg [of omp s "mbufs s a"] by auto

lemma copydata_skip_eq:
  "mb_inv omp s \<Longrightarrow> mchain s p as \<Longrightarrow> 0 \<le> off \<Longrightarrow>
   if nat off \<le> length (mdata s as)
   then \<exists>q k bs. copydata_skip p off s = Some (Some (q, int k)) \<and> mchain s q bs \<and>
     drop k (mdata s bs) = drop (nat off) (mdata s as) \<and> (k = 0 \<or> (bs \<noteq> [] \<and> k \<le> length (mseg (mbufs s q))))
   else copydata_skip p off s = Some None"
proof (induction as arbitrary: p off)
  case Nil
  show ?case
  proof (cases "off = 0")
    case True
    then show ?thesis using Nil by (subst copydata_skip.simps) (auto intro!: exI [of _ 0] exI [of _ "[]"])
  next
    case False
    then show ?thesis using Nil by (subst copydata_skip.simps) auto
  qed
next
  case (Cons a as)
  note c = mchain_cons [OF Cons.prems(1,2)]
  let ?n = "length (mseg (mbufs s a))"
  show ?case
  proof (cases "nat off < ?n \<or> off = 0")
    case True
    then have "copydata_skip p off s = Some (Some (a, int (nat off)))"
      using c Cons.prems(3) by (subst copydata_skip.simps) auto
    then show ?thesis using True Cons.prems c(1)
      by (auto intro!: exI [of _ a] exI [of _ "nat off"] exI [of _ "a # as"])
  next
    case False
    then have step: "copydata_skip p off s = copydata_skip (om_next (mbufs s a)) (off - int ?n) s"
      using c Cons.prems(3) by (subst copydata_skip.simps) auto
    have "nat (off - int ?n) = nat off - ?n" "0 \<le> off - int ?n" "?n \<le> nat off" using False Cons.prems(3) by auto
    with Cons.IH [OF Cons.prems(1) c(6), of "off - int ?n"] step show ?thesis by (auto split: if_splits)
  qed
qed

lemma peek_mseg:
  assumes "mbuf_wf omp s m" "k + n \<le> length (mseg m)"
  shows "peek (om_data m + int k) n (om_databuf m) = Some (take n (drop k (mseg m)))"
proof -
  note w = mbuf_wf_nat [OF assms(1)]
  have "k + n \<le> unat (om_len m)" using assms length_mseg by metis
  moreover have "nat (om_data m + int k) = nat (om_data m) + k" using w(1) by (simp add: nat_add_distrib)
  ultimately show ?thesis using w by (simp add: peek_def mseg_def take_drop add.commute min_absorb1)
qed

lemma copydata_loop_eq:
  "mb_inv omp s \<Longrightarrow> mchain s q bs \<Longrightarrow> 0 \<le> len \<Longrightarrow> k = 0 \<or> (bs \<noteq> [] \<and> k \<le> length (mseg (mbufs s q))) \<Longrightarrow>
   copydata_loop q (int k) len dst s = Some (dst @ take (nat len) (drop k (mdata s bs)),
     len - min len (int (length (mdata s bs) - k)))"
proof (induction bs arbitrary: q k len dst)
  case Nil
  then show ?case by (subst copydata_loop.simps) simp
next
  case (Cons b bs)
  note c = mchain_cons [OF Cons.prems(1,2)]
  let ?n = "length (mseg (mbufs s b))"
  have k: "k \<le> ?n" using Cons.prems(4) c(1) by auto
  show ?case
  proof (cases "len = 0")
    case True then show ?thesis by (subst copydata_loop.simps) simp
  next
    case False
    define n where "n = min (?n - k) (nat len)"
    have cnt: "min (uint (om_len (mbufs s b)) - int k) len = int n"
      using c(7) k Cons.prems(3) by (simp add: n_def of_nat_diff)
    have pk: "peek (om_data (mbufs s b) + int k) n (om_databuf (mbufs s b)) = Some (take n (drop k (mseg (mbufs s b))))"
      using peek_mseg [OF c(5)] k by (simp add: n_def)
    have "copydata_loop q (int k) len dst s =
        copydata_loop (om_next (mbufs s b)) (int 0) (len - int n) (dst @ take n (drop k (mseg (mbufs s b)))) s"
      using False Cons.prems(3) c(1,2,4) pk by (subst copydata_loop.simps) (simp add: cnt)
    also have "\<dots> = Some ((dst @ take n (drop k (mseg (mbufs s b)))) @ take (nat (len - int n)) (drop 0 (mdata s bs)),
        len - int n - min (len - int n) (int (length (mdata s bs) - 0)))"
      using Cons.prems(3) by (intro Cons.IH [OF Cons.prems(1) c(6)]) (auto simp: n_def)
    also have "\<dots> = Some (dst @ take (nat len) (drop k (mdata s (b # bs))),
        len - min len (int (length (mdata s (b # bs)) - k)))"
      using k Cons.prems(3) by (cases "?n - k \<le> nat len") (auto simp: n_def nat_diff_distrib)
    finally show ?thesis .
  qed
qed

text \<open>
  C19: \<^verbatim>\<open>os_mbuf_copydata\<close> returns the bytes of the chain from the offset on, and success exactly when
  the chain has as many as were asked for, however they are spread over the mbufs.
\<close>

theorem os_mbuf_copydata_spec:
  assumes "mb_inv omp s" "mchain s om as" "0 \<le> off" "0 \<le> len"
  shows "os_mbuf_copydata om off len s = Some (if nat off + nat len \<le> length (mdata s as) then 0 else -1,
     take (nat len) (drop (nat off) (mdata s as)))"
proof (cases "nat off \<le> length (mdata s as)")
  case True
  with copydata_skip_eq [OF assms(1-3)] obtain q k bs where
    q: "copydata_skip om off s = Some (Some (q, int k))" "mchain s q bs"
    "drop k (mdata s bs) = drop (nat off) (mdata s as)" "k = 0 \<or> (bs \<noteq> [] \<and> k \<le> length (mseg (mbufs s q)))" by auto
  have "length (mdata s bs) - k = length (mdata s as) - nat off" using arg_cong [OF q(3), of length] by simp
  with copydata_loop_eq [OF assms(1) q(2) assms(4) q(4), of "[]"] q(1,3) True show ?thesis
    using assms(3,4) by (auto simp: os_mbuf_copydata_def)
next
  case False
  with copydata_skip_eq [OF assms(1-3)] show ?thesis by (simp add: os_mbuf_copydata_def)
qed

lemma memcmp_0: "length xs = length ys \<Longrightarrow> memcmp xs ys = 0 \<longleftrightarrow> xs = ys"
  by (induction xs ys rule: list_induct2) (auto simp: word_uint_eq_iff)

text \<open>The mbuf and offset found by \<^verbatim>\<open>os_mbuf_off\<close> denote the same place in the chain.\<close>

lemma os_mbuf_off_step:
  assumes "mb_inv omp s" "mchain s p (a # as)" "0 \<le> off"
  shows "os_mbuf_off p off s = (if nat off < length (mseg (mbufs s a)) \<or> (nat off = length (mseg (mbufs s a)) \<and> as = [])
     then Some (Some (a, off)) else os_mbuf_off (om_next (mbufs s a)) (off - int (length (mseg (mbufs s a)))) s)"
proof -
  note c = mchain_cons [OF assms(1,2)]
  have "om_next (mbufs s a) = 0 \<longleftrightarrow> as = []" using c(6) by (cases as) auto
  with c assms(3) show ?thesis by (subst os_mbuf_off.simps) (auto simp: nat_less_iff nat_eq_iff)
qed

lemma os_mbuf_off_none:
  "mb_inv omp s \<Longrightarrow> mchain s p as \<Longrightarrow> length (mdata s as) < nat off \<Longrightarrow> os_mbuf_off p off s = Some None"
proof (induction as arbitrary: p off)
  case Nil then show ?case by (subst os_mbuf_off.simps) simp
next
  case (Cons a as)
  have "mchain s (om_next (mbufs s a)) as" "0 \<le> off" using Cons.prems by auto
  with Cons.IH [of "om_next (mbufs s a)" "off - int (length (mseg (mbufs s a)))"] Cons.prems
    os_mbuf_off_step [OF Cons.prems(1,2)] show ?case by auto
qed

lemma os_mbuf_off_some:
  "mb_inv omp s \<Longrightarrow> mchain s p as \<Longrightarrow> as \<noteq> [] \<Longrightarrow> 0 \<le> off \<Longrightarrow> nat off \<le> length (mdata s as) \<Longrightarrow>
   \<exists>ps q k bs. os_mbuf_off p off s = Some (Some (q, int k)) \<and> as = ps @ q # bs \<and>
     nat off = length (mdata s ps) + k \<and> k \<le> length (mseg (mbufs s q))"
proof (induction as arbitrary: p off)
  case (Cons a as)
  let ?n = "length (mseg (mbufs s a))"
  note step = os_mbuf_off_step [OF Cons.prems(1,2,4)]
  show ?case
  proof (cases "nat off < ?n \<or> (nat off = ?n \<and> as = [])")
    case True
    show ?thesis
      by (rule exI [of _ "[]"], rule exI [of _ a], rule exI [of _ "nat off"], rule exI [of _ as])
        (use True step Cons.prems(4) in auto)
  next
    case False
    then have off: "?n \<le> nat off" "0 \<le> off - int ?n" "as \<noteq> []" "nat (off - int ?n) \<le> length (mdata s as)"
      using Cons.prems(4,5) by auto
    with Cons.IH [OF Cons.prems(1), of "om_next (mbufs s a)" "off - int ?n"] Cons.prems obtain ps q k bs where
      IH: "os_mbuf_off (om_next (mbufs s a)) (off - int ?n) s = Some (Some (q, int k))" "as = ps @ q # bs"
      "nat (off - int ?n) = length (mdata s ps) + k" "k \<le> length (mseg (mbufs s q))" by auto
    show ?thesis
      by (rule exI [of _ "a # ps"], rule exI [of _ q], rule exI [of _ k], rule exI [of _ bs])
        (use False step IH off in auto)
  qed
qed simp

lemma memcmp_loop_eq:
  "mb_inv omp s \<Longrightarrow> mchain s q bs \<Longrightarrow> bs \<noteq> [] \<Longrightarrow> k \<le> length (mseg (mbufs s q)) \<Longrightarrow> d < n \<Longrightarrow> n \<le> length data \<Longrightarrow>
   \<exists>rc. memcmp_loop q (int k) data (int d) (int n) s = Some rc \<and>
     (rc = 0 \<longleftrightarrow> take (n - d) (drop k (mdata s bs)) = take (n - d) (drop d data))"
proof (induction bs arbitrary: q k d)
  case (Cons b bs)
  note c = mchain_cons [OF Cons.prems(1,2)]
  let ?seg = "mseg (mbufs s b)"
  define m where "m = min (length ?seg - k) (n - d)"
  have k: "k \<le> length ?seg" using Cons.prems(4) c(1) by simp
  have cs: "min (uint (om_len (mbufs s b)) - int k) (int n - int d) = int m"
    using c(7) k Cons.prems(5) by (simp add: m_def of_nat_diff)
  define rc where "rc = memcmp (take m (drop k ?seg)) (take m (drop d data))"
  have pk: "peek (om_data (mbufs s b) + int k) m (om_databuf (mbufs s b)) = Some (take m (drop k ?seg))"
    "peek (int d) m data = Some (take m (drop d data))"
    using peek_mseg [OF c(5)] k Cons.prems(5,6) by (simp_all add: m_def peek_def)
  have len: "length (take m (drop k ?seg)) = length (take m (drop d data))"
    using k Cons.prems(5,6) by (simp add: m_def)
  have rc0: "rc = 0 \<longleftrightarrow> take m (drop k ?seg) = take m (drop d data)" using memcmp_0 [OF len] by (simp add: rc_def)
  have mid: "(if 0 < int m then do {
       a \<leftarrow> peek (om_data (mbufs s b) + int k) (nat (int m)) (om_databuf (mbufs s b));
       b \<leftarrow> peek (int d) (nat (int m)) data;
       Some (memcmp a b) } else Some 0) = Some rc"
    using pk by (cases "m = 0") (simp_all add: rc_def)
  have sum: "int d + int m = int n \<longleftrightarrow> d + m = n" by linarith
  have step: "memcmp_loop q (int k) data (int d) (int n) s =
     (if rc \<noteq> 0 then Some rc else if d + m = n then Some 0 else if om_next (mbufs s b) = 0 then Some (-1)
      else memcmp_loop (om_next (mbufs s b)) 0 data (int d + int m) (int n) s)"
    by (subst memcmp_loop.simps)
      (simp only: c(1,2,4) Option.bind.simps Let_def cs mid sum if_False)
  have "take (n - d) (drop k (mdata s (b # bs))) = take m (drop k ?seg) @ take (n - (d + m)) (mdata s bs)"
    using k by (auto simp: m_def min_def)
  moreover have "take (n - d) (drop d data) = take m (drop d data) @ take (n - (d + m)) (drop (d + m) data)"
    using take_add [of m "n - (d + m)" "drop d data"] Cons.prems(5) by (simp add: m_def add.commute)
  ultimately have eq: "take (n - d) (drop k (mdata s (b # bs))) = take (n - d) (drop d data) \<longleftrightarrow>
      rc = 0 \<and> take (n - (d + m)) (mdata s bs) = take (n - (d + m)) (drop (d + m) data)"
    unfolding rc0 using len by (auto simp: append_eq_append_conv)
  show ?case
  proof (cases "rc = 0 \<and> d + m \<noteq> n \<and> om_next (mbufs s b) \<noteq> 0")
    case True
    then have "bs \<noteq> []" using c(6) by auto
    have "m \<le> n - d" by (simp add: m_def)
    then have "d + m < n" using True Cons.prems(5) by linarith
    with Cons.IH [OF Cons.prems(1) c(6) \<open>bs \<noteq> []\<close>, of 0 "d + m"] Cons.prems(6) True step eq show ?thesis by auto
  next
    case False
    have "mdata s bs = []" if "om_next (mbufs s b) = 0" using c(6) that by (cases bs) auto
    moreover have "m \<le> n - d" by (simp add: m_def)
    then have "drop (d + m) data \<noteq> []" "n - (d + m) \<noteq> 0" if "d + m \<noteq> n" using that Cons.prems(5,6) by auto
    ultimately show ?thesis using False step eq by (auto simp: take_eq_Nil)
  qed
qed simp

text \<open>
  C20: \<^verbatim>\<open>os_mbuf_memcmp\<close> returns zero exactly when the chain has the given bytes at the given offset.
\<close>

theorem os_mbuf_memcmp_spec:
  assumes "mb_inv omp s" "mchain s om as" "om \<noteq> 0" "0 \<le> off" "0 < len" "len \<le> int (length data)"
  shows "\<exists>rc. os_mbuf_memcmp om off data len s = Some rc \<and>
     (rc = 0 \<longleftrightarrow> nat off + nat len \<le> length (mdata s as) \<and>
        take (nat len) (drop (nat off) (mdata s as)) = take (nat len) data)"
proof (cases "nat off \<le> length (mdata s as)")
  case True
  have ne: "as \<noteq> []" using assms(2,3) by auto
  from os_mbuf_off_some [OF assms(1,2) ne assms(4) True] obtain ps q k bs where
    q: "os_mbuf_off om off s = Some (Some (q, int k))" "as = ps @ q # bs" "nat off = length (mdata s ps) + k"
    "k \<le> length (mseg (mbufs s q))" by blast
  have "mchain s q (q # bs)" using mchain_mid assms(2) q(2) by metis
  moreover have "nat len \<le> length data" "0 < nat len" "int (nat len) = len" using assms(5,6) by auto
  ultimately obtain rc where
    rc: "memcmp_loop q (int k) data 0 len s = Some rc"
    "rc = 0 \<longleftrightarrow> take (nat len) (drop k (mdata s (q # bs))) = take (nat len) data"
    using memcmp_loop_eq [OF assms(1) _ _ q(4), of "q # bs" 0 "nat len" data] by auto
  have "drop (nat off) (mdata s as) = drop k (mdata s (q # bs))" unfolding q(2,3) by simp
  moreover have "nat off + nat len \<le> length (mdata s as)" if "take (nat len) (drop (nat off) (mdata s as)) = take (nat len) data"
    using arg_cong [OF that, of length] assms(5,6) True by simp
  ultimately show ?thesis using assms(5) q(1) rc by (auto simp: os_mbuf_memcmp_def)
next
  case False
  then have "os_mbuf_off om off s = Some None" using os_mbuf_off_none [OF assms(1,2)] by simp
  moreover have "memcmp_loop 0 0 data 0 len s = Some (-1)" by (subst memcmp_loop.simps) simp
  ultimately show ?thesis using False assms(5) by (auto simp: os_mbuf_memcmp_def)
qed

subsection \<open>A small system\<close>

lemma walk_2: "walk 2 m p = [p, m p]" "chain_end 2 m p = m (m p)"
  by (simp_all add: numeral_2_eq_2)

lemma demo_pools:
  "pool_inv 0 (mb_pools demo_mb)" "free_blocks (mb_pools demo_mb) 0 = [0x101C, 0x1038]"
  "pool_blocks (pools (mb_pools demo_mb) 0) = [0x1000, 0x101C, 0x1038]"
  by (simp_all add: demo_mb_def os_mempool_init_def os_memblock_get_def Let_def pool_inv_def free_blocks_def
    pool_blocks_def pool_config_def true_size_def OS_ALIGNMENT_def true_block_size_eq numeral_3_eq_3 walk_2)

lemma demo_mb_fields:
  "mbuf_pools demo_mb = (\<lambda>_. \<lparr>omp_databuf_len = 12, omp_mbuf_count = 3, omp_pool = 0\<rparr>)"
  "mbufs demo_mb = (\<lambda>_. \<lparr>om_data = 8, om_flags = 0, om_pkthdr_len = 8, om_len = 2, om_omp = Some 0, om_next = 0,
       om_databuf = [2, 0, 0, 0, 0, 0, 0, 0, 11, 22, 33, 44]\<rparr>)"
  "mb_live demo_mb = (\<lambda>a. a = 0x1000)"
  by (simp_all add: demo_mb_def)

lemma demo_mb_facts: "mb_inv 0 demo_mb" "mchain demo_mb 0x1000 [0x1000]" "mdata demo_mb [0x1000] = [11, 22]"
  by (simp_all add: mb_inv_def mb_blocks_def mb_free_def demo_pools demo_mb_fields mbuf_wf_def startoff_def
    OS_MBUF_IS_PKTHDR_def sizeof_os_mbuf_pkthdr_def mseg_def)

theorem os_mbuf_append_spec_witness:
  "\<exists>rc s' new n. os_mbuf_append 0x1000 [1, 2, 3, 4] 4 demo_mb = Some (rc, s') \<and>
     mdata s' (0x1000 # new) = [11, 22] @ take n [1, 2, 3, 4]"
  using os_mbuf_append_spec [of 0 demo_mb "0x1000" "[0x1000]" 4 "[1, 2, 3, 4]"] demo_mb_facts
  by (simp add: demo_mb_fields) metis

theorem os_mbuf_copydata_spec_witness: "os_mbuf_copydata 0x1000 1 1 demo_mb = Some (0, [22])"
  using os_mbuf_copydata_spec [of 0 demo_mb "0x1000" "[0x1000]" 1 1] demo_mb_facts by simp

theorem os_mbuf_memcmp_spec_witness: "os_mbuf_memcmp 0x1000 0 [11, 22] 2 demo_mb = Some 0"
  using os_mbuf_memcmp_spec [of 0 demo_mb "0x1000" "[0x1000]" 0 2 "[11, 22]"] demo_mb_facts by simp

end
