(* ===== verification/Os_Mbuf_Edit.thy ===== *)
theory Os_Mbuf_Edit
  imports Os_Mbuf
begin

text \<open>
  What the operations that change a chain of mbufs in place (\<^verbatim>\<open>os_mbuf_adj\<close>, \<^verbatim>\<open>os_mbuf_prepend\<close>,
  \<^verbatim>\<open>os_mbuf_pullup\<close>, \<^verbatim>\<open>os_mbuf_concat\<close>, \<^verbatim>\<open>os_mbuf_extend\<close>) do to its bytes, its packet header and the pool.
\<close>

text \<open>
  The packet header of a mbuf without its length \<^verbatim>\<open>omp_len\<close>: the flags, the link to the next packet and the
  header of the user; \<open>None\<close> when the mbuf has no packet header.
\<close>

definition pkt_header :: "os_mbuf \<Rightarrow> u8 list option" where
  "pkt_header m = (if OS_MBUF_IS_PKTHDR m
     then Some (drop 2 (take (unat (om_pkthdr_len m)) (om_databuf m))) else None)"

text \<open>
  The length in the packet header of a chain, if it has one, is the number of its bytes, counted in 16
  bits.
\<close>

definition pkt_ok :: "mb_state \<Rightarrow> u32 \<Rightarrow> u32 list \<Rightarrow> bool" where
  "pkt_ok s om as \<longleftrightarrow> (OS_MBUF_IS_PKTHDR (mbufs s om) \<longrightarrow>
     pkthdr_len (mbufs s om) = Some (of_nat (length (mdata s as))))"

text \<open>A change of data pointers and lengths of the mbufs in \<open>A\<close> only.\<close>

definition mb_edit :: "u32 set \<Rightarrow> mb_state \<Rightarrow> mb_state \<Rightarrow> bool" where
  "mb_edit A s s' \<longleftrightarrow> mb_live s' = mb_live s \<and> mb_pools s' = mb_pools s \<and> mbuf_pools s' = mbuf_pools s \<and>
     (\<forall>a. a \<notin> A \<longrightarrow> mbufs s' a = mbufs s a) \<and>
     (\<forall>a. om_next (mbufs s' a) = om_next (mbufs s a) \<and> om_pkthdr_len (mbufs s' a) = om_pkthdr_len (mbufs s a) \<and>
        om_databuf (mbufs s' a) = om_databuf (mbufs s a))"

text \<open>What the loop does to the two ends: \<open>m\<close> and \<open>m'\<close> are the mbuf that collects the bytes, before and after.\<close>

definition pulled :: "os_mbuf \<Rightarrow> os_mbuf \<Rightarrow> u8 list \<Rightarrow> bool" where
  "pulled m m' xs \<longleftrightarrow> mseg m' = mseg m @ xs \<and> om_next m' = om_next m \<and> om_pkthdr_len m' = om_pkthdr_len m \<and>
     om_data m' = om_data m \<and> length (om_databuf m') = length (om_databuf m) \<and>
     (OS_MBUF_IS_PKTHDR m \<longrightarrow> take 2 (om_databuf m') = take 2 (om_databuf m))"

text \<open>
  The outcome of a prepend of \<open>len\<close> bytes to the chain \<open>as\<close> with head \<open>om\<close>. With success the new head \<open>om'\<close> has the
  packet header, the old head has none when it is not the head any more, and no other mbuf has changed.
\<close>

definition prepend_result :: "nat \<Rightarrow> mb_state \<Rightarrow> u32 \<Rightarrow> u32 list \<Rightarrow> int \<Rightarrow> u32 \<Rightarrow> mb_state \<Rightarrow> bool" where
  "prepend_result omp s om as len om' s' \<longleftrightarrow> mb_inv omp s' \<and>
     (if om' \<noteq> 0
      then mb_frame {om} s s' \<and> pkt_header (mbufs s' om') = pkt_header (mbufs s om) \<and>
        (\<exists>new xs. mchain s' om' (new @ as) \<and> length xs = nat len \<and> mdata s' (new @ as) = xs @ mdata s as \<and>
          pkt_ok s' om' (new @ as) \<and> (new = [] \<or> pkt_header (mbufs s' om) = None) \<and>
          mset new + mset (mb_free omp s') = mset (mb_free omp s))
      else mb_frame (set as) s s' \<and> (\<forall>a \<in> set as. \<not> mb_live s' a) \<and>
        mset (mb_free omp s') = mset as + mset (mb_free omp s))"

text \<open>The outcome of a pullup of \<open>len\<close> bytes on the chain \<open>as\<close>.\<close>

definition pullup_result :: "nat \<Rightarrow> mb_state \<Rightarrow> u32 list \<Rightarrow> u16 \<Rightarrow> u8 \<Rightarrow> u32 \<Rightarrow> mb_state \<Rightarrow> bool" where
  "pullup_result omp s as len hdr om' s' \<longleftrightarrow> mb_inv omp s' \<and> mb_frame (set as) s s' \<and>
     (if om' \<noteq> 0
      then \<exists>bs. mchain s' om' bs \<and> mdata s' bs = mdata s as \<and> unat len \<le> length (mseg (mbufs s' om')) \<and> pkt_ok s' om' bs
      else (\<forall>a \<in> set as. \<not> mb_live s' a) \<and> (length (mdata s as) < unat len \<or> mb_free omp s = [] \<or>
        unat (omp_databuf_len (mbuf_pools s omp)) < unat len + unat hdr))"

subsection \<open>Lemmas\<close>

lemma pkt_header_cong:
  "om_pkthdr_len m' = om_pkthdr_len m \<Longrightarrow>
   drop 2 (take (unat (om_pkthdr_len m)) (om_databuf m')) = drop 2 (take (unat (om_pkthdr_len m)) (om_databuf m)) \<Longrightarrow>
   pkt_header m' = pkt_header m"
  by (simp add: pkt_header_def OS_MBUF_IS_PKTHDR_def)

lemma pkt_header_upd [simp]:
  "pkt_header (m\<lparr>om_next := n\<rparr>) = pkt_header m" "pkt_header (m\<lparr>om_len := l\<rparr>) = pkt_header m"
  "pkt_header (m\<lparr>om_data := d\<rparr>) = pkt_header m"
  by (rule pkt_header_cong; simp)+

lemma upd_pkthdr_header:
  assumes "upd_pkthdr_len om f s = Some s'" shows "pkt_header (mbufs s' a) = pkt_header (mbufs s a)"
proof -
  have *: "pkt_header m' = pkt_header m" if p: "set_pkthdr_len k m = Some m'" for k m m'
  proof -
    from p obtain b where b: "poke 0 (le16 k) (om_databuf m) = Some b" "m' = m\<lparr>om_databuf := b\<rparr>"
      by (auto simp: set_pkthdr_len_def)
    then have "drop 2 b = drop 2 (om_databuf m)"
      by (auto simp: poke_def le16_def numeral_2_eq_2 split: if_splits)
    with b(2) show ?thesis by (intro pkt_header_cong) (simp_all add: drop_take)
  qed
  show ?thesis
    using assms by (cases "a = om") (auto simp: upd_pkthdr_len_def mb_get_def split: if_splits bind_splits dest: *)
qed

lemma mb_edit_header: "mb_edit A s s' \<Longrightarrow> pkt_header (mbufs s' a) = pkt_header (mbufs s a)"
  by (rule pkt_header_cong) (simp_all add: mb_edit_def)

lemma mb_edit_refl [simp]: "mb_edit A s s"
  by (simp add: mb_edit_def)

lemma mb_edit_trans: "mb_edit A s s1 \<Longrightarrow> mb_edit B s1 s2 \<Longrightarrow> A \<subseteq> C \<Longrightarrow> B \<subseteq> C \<Longrightarrow> mb_edit C s s2"
  unfolding mb_edit_def by (metis subsetD)

lemma mb_edit_mono: "mb_edit A s s' \<Longrightarrow> A \<subseteq> B \<Longrightarrow> mb_edit B s s'"
  by (rule mb_edit_trans [OF _ mb_edit_refl [of B]]) auto

lemma mb_edit_set: "mb_edit {a} s (mb_set a ((mbufs s a)\<lparr>om_len := l\<rparr>) s)"
  "mb_edit {a} s (mb_set a ((mbufs s a)\<lparr>om_len := l, om_data := d\<rparr>) s)"
  by (simp_all add: mb_edit_def)

lemma mb_edit_chain: "mb_edit A s s' \<Longrightarrow> mchain s' p as = mchain s p as"
  by (rule mchain_cong) (simp add: mb_edit_def)

lemma mb_edit_frame: "mb_edit A s s' \<Longrightarrow> mb_frame A s s'"
  by (simp add: mb_edit_def mb_frame_def)

lemma mb_edit_free: "mb_edit A s s' \<Longrightarrow> mb_free omp s' = mb_free omp s"
  by (simp add: mb_edit_def mb_free_def)

lemma mb_edit_pkt: "mb_edit A s s' \<Longrightarrow> OS_MBUF_IS_PKTHDR (mbufs s' a) = OS_MBUF_IS_PKTHDR (mbufs s a) \<and>
     pkthdr_len (mbufs s' a) = pkthdr_len (mbufs s a)"
  by (simp add: mb_edit_def OS_MBUF_IS_PKTHDR_def pkthdr_len_def)

lemma mchain_head: "mchain s p as \<Longrightarrow> p \<noteq> 0 \<Longrightarrow> p \<in> set as \<and> mb_live s p"
  by (cases as) auto

lemma unat_diff_of_nat: "k \<le> unat (w :: u16) \<Longrightarrow> unat (w - of_nat k) = unat w - k"
proof -
  assume k: "k \<le> unat w"
  have "unat w < 65536" using unsigned_less [of w] by simp
  with k have "k < 65536" by simp
  then have "unat (of_nat k :: u16) = k" by (simp add: unat_of_nat take_bit_eq_mod)
  with k show ?thesis by (simp add: unat_sub word_le_nat_alt)
qed

text \<open>Cutting bytes off the front or the end of one mbuf.\<close>

lemma mseg_cut_front:
  assumes wf: "mbuf_wf omp s m" and k: "k \<le> length (mseg m)"
  shows "mbuf_wf omp s (m\<lparr>om_len := om_len m - of_nat k, om_data := om_data m + int k\<rparr>) \<and>
     mseg (m\<lparr>om_len := om_len m - of_nat k, om_data := om_data m + int k\<rparr>) = drop k (mseg m)"
proof -
  note w = mbuf_wf_nat [OF wf]
  have l: "unat (om_len m - of_nat k) = unat (om_len m) - k" and k': "k \<le> unat (om_len m)"
    using unat_diff_of_nat k length_mseg [OF wf] by simp_all
  have d: "nat (om_data m + int k) = nat (om_data m) + k" using w(1) by (simp add: nat_add_distrib)
  have "mbuf_wf omp s (m\<lparr>om_len := om_len m - of_nat k, om_data := om_data m + int k\<rparr>)"
    using wf w k' by (intro mbuf_wfI) (simp_all add: mbuf_wf_def l d)
  moreover have "mseg (m\<lparr>om_len := om_len m - of_nat k, om_data := om_data m + int k\<rparr>) = drop k (mseg m)"
    by (simp add: mseg_def l d drop_take add.commute [of k "nat (om_data m)"])
  ultimately show ?thesis ..
qed

lemma mseg_cut_end:
  assumes wf: "mbuf_wf omp s m" and k: "k \<le> length (mseg m)"
  shows "mbuf_wf omp s (m\<lparr>om_len := of_nat k\<rparr>) \<and> mseg (m\<lparr>om_len := of_nat k\<rparr>) = take k (mseg m)"
proof -
  note w = mbuf_wf_nat [OF wf]
  have k': "k \<le> unat (om_len m)" using k length_mseg [OF wf] by simp
  then have l: "unat (of_nat k :: u16) = k" using w by (simp add: unat_of_nat take_bit_eq_mod)
  have "mbuf_wf omp s (m\<lparr>om_len := of_nat k\<rparr>)"
    using wf w k' by (intro mbuf_wfI) (simp_all add: mbuf_wf_def l)
  moreover have "mseg (m\<lparr>om_len := of_nat k\<rparr>) = take k (mseg m)" using k' by (simp add: mseg_def l min_absorb1)
  ultimately show ?thesis ..
qed

subsection \<open>Trimming\<close>

lemma adj_head_eq:
  "mb_inv omp s \<Longrightarrow> mchain s p as \<Longrightarrow> \<exists>s'. adj_head p (int n) s = Some (int (n - length (mdata s as)), s') \<and>
     mb_inv omp s' \<and> mb_edit (set as) s s' \<and> mdata s' as = drop n (mdata s as)"
proof (induction as arbitrary: p n s)
  case Nil then show ?case by (subst adj_head.simps) auto
next
  case (Cons a as)
  note c = mchain_cons [OF Cons.prems]
  let ?m = "mbufs s a" and ?k = "length (mseg (mbufs s a))"
  have a: "a \<notin> set as" using mchain_distinct [OF Cons.prems(2)] by simp
  consider "n = 0" | "n \<noteq> 0" "n < ?k" | "n \<noteq> 0" "?k \<le> n" by linarith
  then show ?case
  proof cases
    case 1 then show ?thesis using Cons.prems by (subst adj_head.simps) auto
  next
    case 2
    define s1 where "s1 = mb_set a (?m\<lparr>om_len := om_len ?m - of_nat n, om_data := om_data ?m + int n\<rparr>) s"
    have cut: "mbuf_wf omp s (?m\<lparr>om_len := om_len ?m - of_nat n, om_data := om_data ?m + int n\<rparr>)"
      "mseg (?m\<lparr>om_len := om_len ?m - of_nat n, om_data := om_data ?m + int n\<rparr>) = drop n (mseg ?m)"
      using mseg_cut_front [OF c(5)] 2 by simp_all
    have "adj_head p (int n) s = adj_head a 0 s1"
      using 2 c by (subst adj_head.simps) (simp add: s1_def)
    also have "\<dots> = Some (0, s1)" by (subst adj_head.simps) simp
    finally have "adj_head p (int n) s = Some (0, s1)" .
    moreover have "mb_edit (set (a # as)) s s1"
      unfolding s1_def by (rule mb_edit_mono [OF mb_edit_set(2)]) simp
    moreover have "mdata s1 as = mdata s as" using a by (intro mdata_cong) (auto simp: s1_def)
    ultimately show ?thesis using 2 mb_inv_set [OF Cons.prems(1) c(3) cut(1)] cut(2)
      by (intro exI [of _ s1]) (simp add: s1_def)
  next
    case 3
    define s1 where "s1 = mb_set a (?m\<lparr>om_len := 0\<rparr>) s"
    have cut: "mbuf_wf omp s (?m\<lparr>om_len := 0\<rparr>)" "mseg (?m\<lparr>om_len := 0\<rparr>) = []"
      using mseg_cut_end [OF c(5), of 0] by simp_all
    have e1: "mb_edit {a} s s1" by (simp add: s1_def mb_edit_set)
    have s1: "mb_inv omp s1" "mchain s1 (om_next ?m) as"
      using mb_inv_set [OF Cons.prems(1) c(3) cut(1)] c(6) mb_edit_chain [OF e1] by (simp_all add: s1_def)
    have d1: "mdata s1 as = mdata s as" using a by (intro mdata_cong) (auto simp: s1_def)
    from Cons.IH [OF s1, of "n - ?k"] obtain s' where
      s': "adj_head (om_next ?m) (int (n - ?k)) s1 = Some (int (n - ?k - length (mdata s as)), s')" "mb_inv omp s'"
      "mb_edit (set as) s1 s'" "mdata s' as = drop (n - ?k) (mdata s as)" unfolding d1 by blast
    have "adj_head p (int n) s = adj_head (om_next ?m) (int (n - ?k)) s1"
      using 3 c by (subst adj_head.simps) (simp add: s1_def of_nat_diff)
    moreover have "mseg (mbufs s' a) = []" using s'(3) a cut(2) by (simp add: mb_edit_def s1_def)
    moreover have "mb_edit (set (a # as)) s s'" using mb_edit_trans [OF e1 s'(3)] by auto
    ultimately show ?thesis using s' 3 by auto
  qed
qed

lemma int_of_length: "n < 2 ^ 31 \<Longrightarrow> 0 + int n < 2 ^ 31"
  by simp

lemma adj_scan_eq:
  "mb_inv omp s \<Longrightarrow> mchain s p (as @ [l]) \<Longrightarrow> cnt + int (length (mdata s (as @ [l]))) < 2 ^ 31 \<Longrightarrow>
   adj_scan p cnt s = Some (l, cnt + int (length (mdata s (as @ [l]))))"
proof (induction as arbitrary: p cnt)
  case Nil
  note c = mchain_cons [OF Nil(1,2) [unfolded append_Nil]]
  show ?case using c Nil(3) by (subst adj_scan.simps) simp
next
  case (Cons a as)
  note c = mchain_cons [OF Cons.prems(1,2) [unfolded append_Cons]]
  have "om_next (mbufs s a) \<noteq> 0" using c(6) by (cases as) auto
  then show ?case
    using c Cons.IH [OF Cons.prems(1) c(6), of "cnt + int (length (mseg (mbufs s a)))"] Cons.prems(3)
    by (subst adj_scan.simps) simp
qed

lemma adj_cut_eq:
  "mb_inv omp s \<Longrightarrow> mchain s p as \<Longrightarrow> as \<noteq> [] \<Longrightarrow> n \<le> length (mdata s as) \<Longrightarrow>
   \<exists>s' bs cs. adj_cut p (int n) s = Some s' \<and> mb_inv omp s' \<and> as = bs @ cs \<and> mchain s' p bs \<and>
     mdata s' bs = take n (mdata s as) \<and> mb_free omp s' = rev cs @ mb_free omp s \<and> mb_frame (set as) s s' \<and>
     (\<forall>a \<in> set as. om_databuf (mbufs s' a) = om_databuf (mbufs s a) \<and> om_pkthdr_len (mbufs s' a) = om_pkthdr_len (mbufs s a))"
proof (induction as arbitrary: p n)
  case (Cons a as)
  note c = mchain_cons [OF Cons.prems(1,2)]
  let ?m = "mbufs s a" and ?k = "length (mseg (mbufs s a))"
  have a: "a \<notin> set as" using mchain_distinct [OF Cons.prems(2)] by simp
  show ?case
  proof (cases "n \<le> ?k")
    case False
    then have ne: "as \<noteq> []" "n - ?k \<le> length (mdata s as)" using Cons.prems(4) by auto
    from Cons.IH [OF Cons.prems(1) c(6) ne] obtain s' bs cs where
      s': "adj_cut (om_next ?m) (int (n - ?k)) s = Some s'" "mb_inv omp s'" "as = bs @ cs" "mchain s' (om_next ?m) bs"
      "mdata s' bs = take (n - ?k) (mdata s as)" "mb_free omp s' = rev cs @ mb_free omp s" "mb_frame (set as) s s'"
      "\<forall>a \<in> set as. om_databuf (mbufs s' a) = om_databuf (mbufs s a) \<and> om_pkthdr_len (mbufs s' a) = om_pkthdr_len (mbufs s a)"
      by blast
    have "adj_cut p (int n) s = Some s'"
      using False c s'(1) by (subst adj_cut.simps) (simp add: of_nat_diff)
    moreover have "mbufs s' a = ?m" "mb_live s' a" using s'(7) a c(3) by (simp_all add: mb_frame_def)
    moreover have "mb_frame (set (a # as)) s s'" using s'(7) by (auto simp: mb_frame_def)
    ultimately show ?thesis using s' False c(1,2)
      by (intro exI [of _ s'] exI [of _ "a # bs"] exI [of _ cs]) simp
  next
    case True
    have cut: "mbuf_wf omp s (?m\<lparr>om_len := of_nat n\<rparr>)" "mseg (?m\<lparr>om_len := of_nat n\<rparr>) = take n (mseg ?m)"
      using mseg_cut_end [OF c(5) True] by simp_all
    define s1 where "s1 = mb_set a (?m\<lparr>om_len := of_nat n\<rparr>) s"
    have inv1: "mb_inv omp s1" using mb_inv_set [OF Cons.prems(1) c(3) cut(1)] by (simp add: s1_def)
    have "mchain s1 (om_next ?m) as" using c(6) by (simp add: s1_def mchain_set)
    from os_mbuf_free_chain_eq [OF inv1 this] obtain s2 where
      s2: "os_mbuf_free_chain (om_next ?m) s1 = Some (OS_OK, s2)" "mb_inv omp s2" "mb_free omp s2 = rev as @ mb_free omp s1"
      "mbufs s2 = mbufs s1" "mb_live s2 = (\<lambda>b. mb_live s1 b \<and> b \<notin> set as)" "mbuf_pools s2 = mbuf_pools s1" by blast
    have live2: "mb_live s2 a" using s2(5) a c(3) by (simp add: s1_def)
    define s' where "s' = (if as = [] then s1 else mb_set a (?m\<lparr>om_len := of_nat n, om_next := 0\<rparr>) s2)"
    have nz: "om_next ?m = 0 \<longleftrightarrow> as = []" using c(6) by (cases as) auto
    have "adj_cut p (int n) s = Some s'"
      using True c(1,2,4,7) nz s2(1,4) mb_inv_get [OF s2(2) live2]
      by (subst adj_cut.simps) (simp add: s'_def s1_def Let_def)
    moreover have wf2: "mbuf_wf omp s2 (?m\<lparr>om_len := of_nat n, om_next := 0\<rparr>)"
      using mb_inv_wf [OF s2(2) live2] s2(4) by (simp add: s1_def)
    have "mb_inv omp s'" using inv1 mb_inv_set [OF s2(2) live2 wf2] by (simp add: s'_def)
    moreover have "mchain s' p [a]" "mdata s' [a] = take n (mdata s (a # as))"
      using c(1-3) nz live2 cut(2) True by (auto simp: s'_def s1_def)
    moreover have "mb_free omp s' = rev as @ mb_free omp s" using s2(3) by (simp add: s'_def s1_def)
    moreover have "mb_frame (set (a # as)) s s'" using s2(4-6) by (auto simp: s'_def s1_def mb_frame_def)
    moreover have "\<forall>b \<in> set (a # as). om_databuf (mbufs s' b) = om_databuf (mbufs s b) \<and>
        om_pkthdr_len (mbufs s' b) = om_pkthdr_len (mbufs s b)"
      using s2(4) by (simp add: s'_def s1_def)
    ultimately show ?thesis by (intro exI [of _ s'] exI [of _ "[a]"] exI [of _ as]) simp
  qed
qed simp

lemma upd_pkthdr_ok:
  assumes inv: "mb_inv omp s" and live: "mb_live s om"
  shows "\<exists>s'. upd_pkthdr_len om f s = Some s' \<and> mb_inv omp s' \<and> (\<forall>p as. mchain s' p as = mchain s p as) \<and>
     (\<forall>as. mdata s' as = mdata s as) \<and> mb_free omp s' = mb_free omp s \<and> mb_live s' = mb_live s \<and>
     mb_frame {om} s s' \<and> OS_MBUF_IS_PKTHDR (mbufs s' om) = OS_MBUF_IS_PKTHDR (mbufs s om) \<and>
     (OS_MBUF_IS_PKTHDR (mbufs s om) \<longrightarrow> pkthdr_len (mbufs s' om) = map_option f (pkthdr_len (mbufs s om)))"
proof -
  from upd_pkthdr_len_eq [OF assms, of f] obtain b where
    b: "upd_pkthdr_len om f s = Some (mb_set om ((mbufs s om)\<lparr>om_databuf := b\<rparr>) s)"
    "mbuf_wf omp s ((mbufs s om)\<lparr>om_databuf := b\<rparr>)" "mseg ((mbufs s om)\<lparr>om_databuf := b\<rparr>) = mseg (mbufs s om)"
    "OS_MBUF_IS_PKTHDR (mbufs s om) \<longrightarrow> (\<exists>k. pkthdr_len (mbufs s om) = Some k \<and>
        pkthdr_len ((mbufs s om)\<lparr>om_databuf := b\<rparr>) = Some (f k))"
    by (auto simp: Let_def split: if_splits)
  then show ?thesis using mb_inv_set [OF inv live b(2)]
    by (auto simp: mchain_set mdata_set mb_frame_def simp del: mdata_simps)
qed

lemma adj_trim_head:
  assumes inv: "mb_inv omp s" and chain: "mchain s om as" "om \<noteq> 0" and pkt: "pkt_ok s om as"
    and n: "sint req = int n"
  shows "\<exists>s'. os_mbuf_adj om req s = Some s' \<and> mb_inv omp s' \<and> mchain s' om as \<and>
     mdata s' as = drop n (mdata s as) \<and> pkt_ok s' om as \<and> mb_free omp s' = mb_free omp s \<and> mb_frame (set as) s s' \<and>
     pkt_header (mbufs s' om) = pkt_header (mbufs s om)"
proof -
  let ?L = "length (mdata s as)"
  from adj_head_eq [OF inv chain(1), of n] obtain s1 where
    s1: "adj_head om (int n) s = Some (int (n - ?L), s1)" "mb_inv omp s1" "mb_edit (set as) s s1"
    "mdata s1 as = drop n (mdata s as)" by blast
  have om: "om \<in> set as" using mchain_hd [OF chain] by auto
  then have live: "mb_live s1 om" using mchain_live [OF chain(1)] s1(3) by (simp add: mb_edit_def)
  let ?f = "\<lambda>k. k - of_int (int n - int (n - ?L))"
  from upd_pkthdr_ok [OF s1(2) live, of ?f] obtain s' where
    s': "upd_pkthdr_len om ?f s1 = Some s'" "mb_inv omp s'" "\<forall>p as. mchain s' p as = mchain s1 p as"
    "\<forall>as. mdata s' as = mdata s1 as" "mb_free omp s' = mb_free omp s1" "mb_frame {om} s1 s'"
    "OS_MBUF_IS_PKTHDR (mbufs s' om) = OS_MBUF_IS_PKTHDR (mbufs s1 om)"
    "OS_MBUF_IS_PKTHDR (mbufs s1 om) \<longrightarrow> pkthdr_len (mbufs s' om) = map_option ?f (pkthdr_len (mbufs s1 om))" by blast
  have "of_nat ?L - of_int (int n - int (n - ?L)) = (of_nat (?L - n) :: u16)"
    by (cases "n \<le> ?L") (simp_all add: of_nat_diff)
  then have "pkt_ok s' om as" using s'(4,7,8) s1(4) mb_edit_pkt [OF s1(3), of om] pkt by (auto simp: pkt_ok_def)
  moreover have "mb_frame (set as) s s'" using mb_frame_trans [OF mb_edit_frame [OF s1(3)] s'(6)] om by blast
  moreover have "pkt_header (mbufs s' om) = pkt_header (mbufs s om)"
    using upd_pkthdr_header [OF s'(1)] mb_edit_header [OF s1(3)] by simp
  ultimately show ?thesis using s1 s' chain mb_edit_chain [OF s1(3)] mb_edit_free [OF s1(3)] n
    by (simp add: os_mbuf_adj_def Let_def)
qed

lemma adj_trim_last:
  assumes inv: "mb_inv omp s" and chain: "mchain s om (bs @ [l])" "om \<noteq> 0" and pkt: "pkt_ok s om (bs @ [l])"
    and n: "0 < n" "n \<le> length (mseg (mbufs s l))" and req: "sint req = - int n" "sint req \<noteq> - (2 ^ 31)"
    and total: "length (mdata s (bs @ [l])) < 2 ^ 31"
  shows "\<exists>s'. os_mbuf_adj om req s = Some s' \<and> mb_inv omp s' \<and> mchain s' om (bs @ [l]) \<and>
     mdata s' (bs @ [l]) = take (length (mdata s (bs @ [l])) - n) (mdata s (bs @ [l])) \<and> pkt_ok s' om (bs @ [l]) \<and>
     mb_free omp s' = mb_free omp s \<and> mb_frame (set (bs @ [l])) s s' \<and>
     pkt_header (mbufs s' om) = pkt_header (mbufs s om)"
proof -
  let ?as = "bs @ [l]" and ?m = "mbufs s l" and ?k = "length (mseg (mbufs s l))"
  have live: "mb_live s l" "mb_live s om" and om: "om \<in> set ?as" and l: "l \<notin> set bs"
    using mchain_live [OF chain(1)] mchain_head [OF chain] mchain_distinct [OF chain(1)] by auto
  note c = mchain_cons [OF inv mchain_mid [OF chain(1)]]
  have cut: "mbuf_wf omp s (?m\<lparr>om_len := of_nat (?k - n)\<rparr>)" "mseg (?m\<lparr>om_len := of_nat (?k - n)\<rparr>) = take (?k - n) (mseg ?m)"
    using mseg_cut_end [OF c(5), of "?k - n"] by simp_all
  have len: "om_len ?m - of_int (int n) = of_nat (?k - n)"
    using n(2) length_mseg [OF c(5)] by (simp add: of_nat_diff)
  define s1 where "s1 = mb_set l (?m\<lparr>om_len := of_nat (?k - n)\<rparr>) s"
  have e1: "mb_edit (set ?as) s s1" unfolding s1_def by (rule mb_edit_mono [OF mb_edit_set(1)]) simp
  have s1: "mb_inv omp s1" "mb_live s1 om" using mb_inv_set [OF inv live(1) cut(1)] live by (simp_all add: s1_def)
  have "mdata s1 bs = mdata s bs" using l by (intro mdata_cong) (auto simp: s1_def)
  then have d1: "mdata s1 ?as = take (length (mdata s ?as) - n) (mdata s ?as)"
    using n cut(2) by (simp add: s1_def)
  let ?f = "\<lambda>k. k - of_int (int n)"
  from upd_pkthdr_ok [OF s1, of ?f] obtain s' where
    s': "upd_pkthdr_len om ?f s1 = Some s'" "mb_inv omp s'" "\<forall>p as. mchain s' p as = mchain s1 p as"
    "\<forall>as. mdata s' as = mdata s1 as" "mb_free omp s' = mb_free omp s1" "mb_frame {om} s1 s'"
    "OS_MBUF_IS_PKTHDR (mbufs s' om) = OS_MBUF_IS_PKTHDR (mbufs s1 om)"
    "OS_MBUF_IS_PKTHDR (mbufs s1 om) \<longrightarrow> pkthdr_len (mbufs s' om) = map_option ?f (pkthdr_len (mbufs s1 om))" by blast
  have "of_nat (length (mdata s ?as)) - of_int (int n) = (of_nat (length (mdata s1 ?as)) :: u16)"
    unfolding d1 using n by (simp add: of_nat_diff)
  then have "pkt_ok s' om ?as" using s'(4,7,8) mb_edit_pkt [OF e1, of om] pkt
    by (auto simp: pkt_ok_def simp del: mdata_simps)
  moreover have "mb_frame (set ?as) s s'" using mb_frame_trans [OF mb_edit_frame [OF e1] s'(6)] om by blast
  moreover have "pkt_header (mbufs s' om) = pkt_header (mbufs s om)"
    using upd_pkthdr_header [OF s'(1)] mb_edit_header [OF e1] by simp
  moreover note scan = adj_scan_eq [OF inv chain(1) int_of_length [OF total]]
  have "os_mbuf_adj om req s = Some s'"
    using scan req c(4,7) n chain(2) s'(1) len by (simp add: os_mbuf_adj_def s1_def Let_def)
  ultimately show ?thesis using s' d1 chain(1) mb_edit_chain [OF e1] mb_edit_free [OF e1] by metis
qed

lemma adj_trim_cut:
  assumes inv: "mb_inv omp s" and chain: "mchain s om as" "om \<noteq> 0" "as = bs @ [l]" and n: "length (mseg (mbufs s l)) < n"
    and req: "sint req = - int n" "sint req \<noteq> - (2 ^ 31)" and total: "length (mdata s as) < 2 ^ 31"
  shows "\<exists>s' xs ys. os_mbuf_adj om req s = Some s' \<and> mb_inv omp s' \<and> as = xs @ ys \<and> mchain s' om xs \<and>
     mdata s' xs = take (length (mdata s as) - n) (mdata s as) \<and> pkt_ok s' om xs \<and>
     mb_free omp s' = rev ys @ mb_free omp s \<and> mb_frame (set as) s s' \<and>
     pkt_header (mbufs s' om) = pkt_header (mbufs s om)"
proof -
  let ?c = "length (mdata s as) - n"
  have om: "om \<in> set as" and live: "mb_live s om" using mchain_head [OF chain(1,2)] by auto
  note c = mchain_cons [OF inv mchain_mid [OF chain(1) [unfolded chain(3)]]]
  let ?f = "\<lambda>_. of_int (int ?c) :: u16"
  from upd_pkthdr_ok [OF inv live, of ?f] obtain s1 where
    s1: "upd_pkthdr_len om ?f s = Some s1" "mb_inv omp s1" "\<forall>p as. mchain s1 p as = mchain s p as"
    "\<forall>as. mdata s1 as = mdata s as" "mb_free omp s1 = mb_free omp s" "mb_frame {om} s s1"
    "OS_MBUF_IS_PKTHDR (mbufs s1 om) = OS_MBUF_IS_PKTHDR (mbufs s om)"
    "OS_MBUF_IS_PKTHDR (mbufs s om) \<longrightarrow> pkthdr_len (mbufs s1 om) = map_option ?f (pkthdr_len (mbufs s om))"
    "mb_live s1 = mb_live s" by blast
  have "mchain s1 om as" using s1(3) chain(1) by simp
  moreover have "as \<noteq> []" "?c \<le> length (mdata s as)" using chain(3) by simp_all
  ultimately obtain s' xs ys where
    s': "adj_cut om (int ?c) s1 = Some s'" "mb_inv omp s'" "as = xs @ ys" "mchain s' om xs"
    "mdata s' xs = take ?c (mdata s as)" "mb_free omp s' = rev ys @ mb_free omp s1" "mb_frame (set as) s1 s'"
    "\<forall>a \<in> set as. om_databuf (mbufs s' a) = om_databuf (mbufs s1 a) \<and> om_pkthdr_len (mbufs s' a) = om_pkthdr_len (mbufs s1 a)"
    using adj_cut_eq [OF s1(2), of om as ?c, unfolded s1(4) [rule_format]] by blast
  have "pkthdr_len (mbufs s om) \<noteq> None" if "OS_MBUF_IS_PKTHDR (mbufs s om)"
    using IS_PKTHDR_room(2) [OF mb_inv_wf [OF inv live] that] by (simp add: pkthdr_len_def peek_def)
  then have "pkt_ok s' om xs"
    using s1(7,8) s'(5,8) om by (auto simp: pkt_ok_def OS_MBUF_IS_PKTHDR_def pkthdr_len_def simp del: mdata_simps)
  moreover have "mb_frame (set as) s s'" using mb_frame_trans [OF s1(6) s'(7)] om by blast
  moreover have "pkt_header (mbufs s' om) = pkt_header (mbufs s1 om)"
    using s'(8) om by (intro pkt_header_cong) simp_all
  then have "pkt_header (mbufs s' om) = pkt_header (mbufs s om)" using upd_pkthdr_header [OF s1(1)] by simp
  moreover note scan = adj_scan_eq [OF inv chain(1) [unfolded chain(3)] int_of_length [OF total [unfolded chain(3)]],
      folded chain(3)]
  have "os_mbuf_adj om req s = Some s'"
    using scan req c(4,7) n chain(2) s1(1) s'(1)
    by (auto simp: os_mbuf_adj_def Let_def nat_diff_distrib of_nat_diff simp del: mdata_simps)
  ultimately show ?thesis using s' s1(5) by metis
qed

text \<open>
  C21: \<^verbatim>\<open>os_mbuf_adj\<close> removes the first n bytes of a chain, or the last n bytes for a negative request
  (all of them when there are fewer), keeps the packet header and its length equal to the number of
  bytes, in 16 bits. Mbufs cut off at the end go back to the pool, and nothing outside the chain
  changes. The request is a 32-bit \<^verbatim>\<open>int\<close> other than the smallest one, whose negation overflows, and the
  chain has fewer than \<open>2^31\<close> bytes, which the code counts in an \<^verbatim>\<open>int\<close>.
\<close>

theorem os_mbuf_adj_spec:
  assumes inv: "mb_inv omp s" and chain: "mchain s om as" "om \<noteq> 0" and pkt: "pkt_ok s om as"
    and req: "sint n \<noteq> - (2 ^ 31)" and total: "length (mdata s as) < 2 ^ 31"
  shows "\<exists>s' bs cs. os_mbuf_adj om n s = Some s' \<and> mb_inv omp s' \<and> as = bs @ cs \<and> mchain s' om bs \<and>
     mdata s' bs = (if 0 \<le> sint n then drop (nat (sint n)) (mdata s as)
       else take (length (mdata s as) - nat (- sint n)) (mdata s as)) \<and>
     pkt_ok s' om bs \<and> pkt_header (mbufs s' om) = pkt_header (mbufs s om) \<and>
     mb_free omp s' = rev cs @ mb_free omp s \<and> mb_frame (set as) s s'"
proof (cases "0 \<le> sint n")
  case True
  then obtain k where k: "sint n = int k" by (metis nonneg_int_cases)
  from adj_trim_head [OF inv chain pkt k] obtain s' where "os_mbuf_adj om n s = Some s'" "mb_inv omp s'" "mchain s' om as"
    "mdata s' as = drop k (mdata s as)" "pkt_ok s' om as" "mb_free omp s' = mb_free omp s" "mb_frame (set as) s s'"
    "pkt_header (mbufs s' om) = pkt_header (mbufs s om)"
    by blast
  then show ?thesis using k by (intro exI [of _ s'] exI [of _ as] exI [of _ "[]"]) simp
next
  case False
  then obtain k where k: "sint n = - int k" "0 < k" by (metis int_cases4 neg_0_le_iff_le not_le of_nat_0_le_iff of_nat_0_less_iff)
  from mchain_last [OF chain] obtain bs l where as: "as = bs @ [l]" by blast
  show ?thesis
  proof (cases "k \<le> length (mseg (mbufs s l))")
    case True
    from adj_trim_last [OF inv _ chain(2) _ k(2) True k(1) req, of bs] chain(1) pkt total as obtain s' where
      "os_mbuf_adj om n s = Some s'" "mb_inv omp s'" "mchain s' om as" "pkt_ok s' om as"
      "mdata s' as = take (length (mdata s as) - k) (mdata s as)" "mb_free omp s' = mb_free omp s" "mb_frame (set as) s s'"
      "pkt_header (mbufs s' om) = pkt_header (mbufs s om)"
      by blast
    then show ?thesis using k by (intro exI [of _ s'] exI [of _ as] exI [of _ "[]"]) simp
  next
    case False
    then have "length (mseg (mbufs s l)) < k" by simp
    from adj_trim_cut [OF inv chain as this k(1) req total] show ?thesis using k by simp metis
  qed
qed

text \<open>Finding: a request to cut the largest number of bytes off the end overflows.\<close>

lemma os_mbuf_adj_overflow: "om \<noteq> 0 \<Longrightarrow> os_mbuf_adj om 0x80000000 s = None"
  by (simp add: os_mbuf_adj_def)

lemma demo_pkt_ok: "pkt_ok demo_mb 0x1000 [0x1000]"
  unfolding pkt_ok_def demo_mb_facts(3) by (simp add: demo_mb_fields pkthdr_len_def peek_def of_le16_def)

theorem os_mbuf_adj_spec_witness:
  "\<exists>s' bs. os_mbuf_adj 0x1000 (-1) demo_mb = Some s' \<and> mchain s' 0x1000 bs \<and> mdata s' bs = [11]"
  using os_mbuf_adj_spec [OF demo_mb_facts(1,2) _ demo_pkt_ok, of "-1"] unfolding demo_mb_facts(3) by auto

subsection \<open>Prepending\<close>

lemma mseg_grow_front:
  assumes wf: "mbuf_wf omp s m" and k: "k \<le> unat (os_mbuf_leadingspace m)"
  shows "mbuf_wf omp s (m\<lparr>om_data := om_data m - int k, om_len := om_len m + of_nat k\<rparr>) \<and>
     (\<exists>xs. length xs = k \<and> mseg (m\<lparr>om_data := om_data m - int k, om_len := om_len m + of_nat k\<rparr>) = xs @ mseg m)"
proof -
  note w = mbuf_wf_nat [OF wf]
  have so: "startoff m \<le> om_data m" using wf by (simp add: mbuf_wf_def)
  have k': "k \<le> nat (om_data m) - nat (startoff m)" using k leadingspace_eq [OF wf] by simp
  then have d: "nat (om_data m - int k) = nat (om_data m) - k" "k \<le> nat (om_data m)" "startoff m \<le> om_data m - int k"
    using so startoff_nonneg [of m] by linarith+
  have l: "unat (om_len m + of_nat k) = unat (om_len m) + k"
    using d(2) w(3,4) by (simp add: unat_word_ariths unat_of_nat take_bit_eq_mod)
  let ?xs = "take k (drop (nat (om_data m) - k) (om_databuf m))"
  have "mseg (m\<lparr>om_data := om_data m - int k, om_len := om_len m + of_nat k\<rparr>) = ?xs @ mseg m"
    using d w(3) by (simp add: mseg_def l d take_add [of k "unat (om_len m)"] add.commute [of "unat (om_len m)" k])
  moreover have "length ?xs = k" using d w(3) by simp
  moreover have "mbuf_wf omp s (m\<lparr>om_data := om_data m - int k, om_len := om_len m + of_nat k\<rparr>)"
    using wf w d by (intro mbuf_wfI) (simp_all add: mbuf_wf_def l d)
  ultimately show ?thesis by blast
qed

text \<open>The first part of an iteration: use the space in front of the data of the head.\<close>

lemma prepend_fill:
  assumes inv: "mb_inv omp s" and chain: "mchain s om as" "om \<noteq> 0" and pkt: "pkt_ok s om as"
    and k: "k \<le> unat (os_mbuf_leadingspace (mbufs s om))"
  shows "\<exists>s' xs. upd_pkthdr_len om (\<lambda>n. n + of_nat k) (mb_set om ((mbufs s om)\<lparr>om_data := om_data (mbufs s om) - int k,
       om_len := om_len (mbufs s om) + of_nat k\<rparr>) s) = Some s' \<and> length xs = k \<and> mb_inv omp s' \<and>
     mchain s' om as \<and> mdata s' as = xs @ mdata s as \<and> pkt_ok s' om as \<and> mb_free omp s' = mb_free omp s \<and>
     mb_frame {om} s s' \<and> mb_live s' = mb_live s \<and> pkt_header (mbufs s' om) = pkt_header (mbufs s om)"
proof -
  obtain bs where as: "as = om # bs" using mchain_hd [OF chain] by blast
  have live: "mb_live s om" using mchain_head [OF chain] by simp
  have om: "om \<notin> set bs" using mchain_distinct [OF chain(1)] as by simp
  let ?m = "(mbufs s om)\<lparr>om_data := om_data (mbufs s om) - int k, om_len := om_len (mbufs s om) + of_nat k\<rparr>"
  from mseg_grow_front [OF mb_inv_wf [OF inv live] k] obtain xs where
    xs: "mbuf_wf omp s ?m" "length xs = k" "mseg ?m = xs @ mseg (mbufs s om)" by blast
  define s1 where "s1 = mb_set om ?m s"
  have s1: "mb_inv omp s1" "mb_live s1 om" using mb_inv_set [OF inv live xs(1)] live by (simp_all add: s1_def)
  from upd_pkthdr_ok [OF s1, of "\<lambda>n. n + of_nat k"] obtain s' where
    s': "upd_pkthdr_len om (\<lambda>n. n + of_nat k) s1 = Some s'" "mb_inv omp s'" "\<forall>p as. mchain s' p as = mchain s1 p as"
    "\<forall>as. mdata s' as = mdata s1 as" "mb_free omp s' = mb_free omp s1" "mb_frame {om} s1 s'"
    "OS_MBUF_IS_PKTHDR (mbufs s' om) = OS_MBUF_IS_PKTHDR (mbufs s1 om)"
    "OS_MBUF_IS_PKTHDR (mbufs s1 om) \<longrightarrow>
      pkthdr_len (mbufs s' om) = map_option (\<lambda>n. n + of_nat k) (pkthdr_len (mbufs s1 om))"
    "mb_live s' = mb_live s1" by blast
  have "mdata s1 bs = mdata s bs" using om by (intro mdata_cong) (auto simp: s1_def)
  then have d: "mdata s1 as = xs @ mdata s as" using xs(3) as by (simp add: s1_def)
  have "mchain s1 om as" using chain(1) by (simp add: s1_def mchain_set)
  moreover have "pkt_ok s' om as"
    using s'(4,7,8) pkt d xs(2) by (auto simp: pkt_ok_def s1_def add.commute simp del: mdata_simps)
  moreover have "mb_frame {om} s s'" using s'(6) by (auto simp: mb_frame_def s1_def)
  moreover have "pkt_header (mbufs s' om) = pkt_header (mbufs s om)"
    using upd_pkthdr_header [OF s'(1)] by (simp add: s1_def)
  ultimately show ?thesis using s' d xs(2) by (intro exI [of _ s'] exI [of _ xs]) (simp add: s1_def)
qed

lemma os_mbuf_get_pkthdr_some:
  assumes inv: "mb_inv omp s" and free: "mb_free omp s = a # fs" and h: "8 \<le> unat (h :: u8)"
    and fits: "unat h \<le> unat (omp_databuf_len (mbuf_pools s omp))"
  shows "\<exists>s' buf. os_mbuf_get_pkthdr omp (h - 8) s = Some (a, s') \<and> mb_inv omp s' \<and> mb_free omp s' = fs \<and>
     \<not> mb_live s a \<and> a \<noteq> 0 \<and> mb_live s' = (mb_live s)(a := True) \<and> mbuf_pools s' = mbuf_pools s \<and>
     mbufs s' = (mbufs s)(a := (fresh_mbuf omp 0 (mbufs s a))\<lparr>om_pkthdr_len := h, om_data := uint h, om_databuf := buf\<rparr>)"
proof -
  from os_mbuf_get_some [OF inv free, of 0] obtain s1 where
    s1: "os_mbuf_get omp 0 s = (a, s1)" "mb_inv omp s1" "mb_free omp s1 = fs" "\<not> mb_live s a" "a \<noteq> 0"
    "mbufs s1 = (mbufs s)(a := fresh_mbuf omp 0 (mbufs s a))" "mb_live s1 = (mb_live s)(a := True)"
    "mbuf_pools s1 = mbuf_pools s" by auto
  let ?f = "fresh_mbuf omp 0 (mbufs s a)"
  have live: "mb_live s1 a" "mbufs s1 a = ?f" using s1 by simp_all
  note wf = mb_inv_wf [OF s1(2) live(1), unfolded live(2)]
  have len: "length (om_databuf ?f) = unat (omp_databuf_len (mbuf_pools s omp))" using mbuf_wf_len [OF wf] s1(8) by simp
  define buf where "buf = replicate 8 0 @ drop 8 (om_databuf ?f)"
  have pk: "poke 0 (replicate 8 0) (om_databuf ?f) = Some buf" using len h fits by (simp add: poke_def buf_def)
  define m where "m = ?f\<lparr>om_pkthdr_len := h, om_data := uint h, om_databuf := buf\<rparr>"
  have lb: "length buf = length (om_databuf ?f)" using length_poke [OF pk] .
  have so: "startoff m = uint h" using h
    by (simp add: startoff_def m_def OS_MBUF_IS_PKTHDR_def sizeof_os_mbuf_pkthdr_def)
  have "nat (uint h) = unat h" by simp
  then have wfm: "mbuf_wf omp s1 m" using lb len s1(8) fits so by (intro mbuf_wfI) (simp_all add: m_def)
  have "(8 :: u8) \<le> h" using h by (simp add: word_le_nat_alt)
  then have "uint (h - 8) = uint h - 8" using uint_sub_lem [of 8 h] by (simp add: word_le_def)
  then have "os_mbuf_get_pkthdr omp (h - 8) s = Some (a, mb_set a m s1)"
    using s1(1,5) mb_inv_get [OF s1(2) live(1)] live(2) pk
    by (simp add: os_mbuf_get_pkthdr_def sizeof_os_mbuf_pkthdr_def m_def)
  with mb_inv_set [OF s1(2) live(1) wfm] s1 show ?thesis
    by (intro exI [of _ "mb_set a m s1"] exI [of _ buf]) (simp add: m_def)
qed

text \<open>The second part: allocate a new head and move the packet header to it.\<close>

lemma new_head_plain:
  assumes inv: "mb_inv omp s" and chain: "mchain s om as" "om \<noteq> 0" and free: "mb_free omp s = a # fs"
    and hdr: "\<not> OS_MBUF_IS_PKTHDR (mbufs s om)"
  shows "\<exists>s2 m sp. os_mbuf_get omp 0 s = (a, s2) \<and> a \<noteq> 0 \<and> mb_get a s2 = Some m \<and> os_mbuf_trailingspace m s2 = Some sp \<and>
     (let s5 = mb_set a (m\<lparr>om_data := om_data m + uint sp, om_next := om\<rparr>) s2 in
      mb_inv omp s5 \<and> mchain s5 a (a # as) \<and> mdata s5 (a # as) = mdata s as \<and> pkt_ok s5 a (a # as) \<and>
      mb_free omp s5 = fs \<and> mb_frame {om} s s5 \<and> \<not> mb_live s a \<and>
      pkt_header (mbufs s5 a) = pkt_header (mbufs s om) \<and> pkt_header (mbufs s5 om) = None)"
proof -
  from os_mbuf_get_some [OF inv free, of 0] obtain s2 where
    s2: "os_mbuf_get omp 0 s = (a, s2)" "mb_inv omp s2" "mb_free omp s2 = fs" "\<not> mb_live s a" "a \<noteq> 0"
    "mbufs s2 = (mbufs s)(a := fresh_mbuf omp 0 (mbufs s a))" "mb_live s2 = (mb_live s)(a := True)"
    "mbuf_pools s2 = mbuf_pools s" by auto
  let ?f = "fresh_mbuf omp 0 (mbufs s a)"
  have live: "mb_live s2 a" "mbufs s2 a = ?f" using s2 by simp_all
  note wf = mb_inv_wf [OF s2(2) live(1), unfolded live(2)]
  from trailingspace_eq [OF wf] obtain sp where
    sp: "os_mbuf_trailingspace ?f s2 = Some sp" "unat sp = length (om_databuf ?f)" by auto
  define m where "m = ?f\<lparr>om_data := om_data ?f + uint sp, om_next := om\<rparr>"
  have wfm: "mbuf_wf omp s2 m"
    using wf sp(2) by (intro mbuf_wfI) (simp_all add: m_def mbuf_wf_def startoff_def)
  define s5 where "s5 = mb_set a m s2"
  have a: "a \<notin> set as" using mchain_live [OF chain(1)] s2(4) by blast
  have "mseg m = []" by (simp add: m_def mseg_def)
  moreover have "mdata s5 as = mdata s as" using a by (intro mdata_cong) (auto simp: s5_def s2(6))
  moreover have "mchain s5 om as = mchain s om as" using a by (intro mchain_cong) (auto simp: s5_def s2(6,7))
  ultimately have "mchain s5 a (a # as)" "mdata s5 (a # as) = mdata s as"
    using chain(1) s2(5,7) by (simp_all add: s5_def m_def)
  moreover have "mb_inv omp s5" unfolding s5_def by (rule mb_inv_set [OF s2(2) live(1) wfm])
  moreover have "\<not> OS_MBUF_IS_PKTHDR (mbufs s5 a)" by (simp add: s5_def m_def)
  moreover have "mb_frame {om} s s5" using s2(4,6-8) by (auto simp: mb_frame_def s5_def)
  moreover have "mbufs s5 om = mbufs s om" using a mchain_head [OF chain] by (auto simp: s5_def s2(6))
  then have "pkt_header (mbufs s5 a) = pkt_header (mbufs s om)" "pkt_header (mbufs s5 om) = None"
    using hdr by (simp_all add: pkt_header_def s5_def m_def)
  ultimately show ?thesis using s2(1-5) sp(1) mb_inv_get [OF s2(2) live(1)] live(2)
    by (intro exI [of _ s2] exI [of _ ?f] exI [of _ sp]) (simp add: s5_def m_def pkt_ok_def)
qed

lemma copypkthdr_eq:
  assumes inv: "mb_inv omp s" and live: "mb_live s p" "mb_live s om" and hdr: "OS_MBUF_IS_PKTHDR (mbufs s om)"
  shows "\<exists>buf. os_mbuf_copypkthdr p om s = Some (mb_set p ((mbufs s p)\<lparr>om_databuf := buf\<rparr>) s) \<and>
     length buf = length (om_databuf (mbufs s p)) \<and> take 2 buf = take 2 (om_databuf (mbufs s om)) \<and>
     take (unat (om_pkthdr_len (mbufs s om))) buf = take (unat (om_pkthdr_len (mbufs s om))) (om_databuf (mbufs s om))"
proof -
  let ?h = "unat (om_pkthdr_len (mbufs s om))" and ?b = "om_databuf (mbufs s om)" and ?c = "om_databuf (mbufs s p)"
  have len: "length ?c = length ?b" using mbuf_wf_len [OF mb_inv_wf [OF inv live(1)]] mbuf_wf_len [OF mb_inv_wf [OF inv live(2)]] by simp
  have h: "2 \<le> ?h" using hdr by (simp add: OS_MBUF_IS_PKTHDR_def sizeof_os_mbuf_pkthdr_def)
  have "?h \<le> length ?b" using mbuf_wf_nat(2,3) [OF mb_inv_wf [OF inv live(2)]] hdr by (simp add: startoff_def)
  then show ?thesis using len h mb_inv_get [OF inv live(1)] mb_inv_get [OF inv live(2)]
    by (intro exI [of _ "take ?h ?b @ drop ?h ?c"]) (simp add: os_mbuf_copypkthdr_def peek_def poke_def min_absorb1 min_absorb2)
qed

lemma new_head_pkt:
  assumes inv: "mb_inv omp s" and chain: "mchain s om as" "om \<noteq> 0" and pkt: "pkt_ok s om as"
    and hdr: "OS_MBUF_IS_PKTHDR (mbufs s om)" and free: "mb_free omp s = a # fs"
  shows "\<exists>s2 s3 m3 m sp. os_mbuf_get_pkthdr omp (om_pkthdr_len (mbufs s om) - 8) s = Some (a, s2) \<and> a \<noteq> 0 \<and>
     os_mbuf_copypkthdr a om s2 = Some s3 \<and> mb_get om s3 = Some m3 \<and>
     mb_get a (mb_set om (m3\<lparr>om_pkthdr_len := 0\<rparr>) s3) = Some m \<and>
     os_mbuf_trailingspace m (mb_set om (m3\<lparr>om_pkthdr_len := 0\<rparr>) s3) = Some sp \<and>
     (let s5 = mb_set a (m\<lparr>om_data := om_data m + uint sp, om_next := om\<rparr>) (mb_set om (m3\<lparr>om_pkthdr_len := 0\<rparr>) s3) in
      mb_inv omp s5 \<and> mchain s5 a (a # as) \<and> mdata s5 (a # as) = mdata s as \<and> pkt_ok s5 a (a # as) \<and>
      mb_free omp s5 = fs \<and> mb_frame {om} s s5 \<and> \<not> mb_live s a \<and>
      pkt_header (mbufs s5 a) = pkt_header (mbufs s om) \<and> pkt_header (mbufs s5 om) = None)"
proof -
  let ?m = "mbufs s om" and ?h = "om_pkthdr_len (mbufs s om)"
  have live: "mb_live s om" and om: "om \<in> set as" using mchain_head [OF chain] by auto
  note wf = mb_inv_wf [OF inv live]
  have h: "8 \<le> unat ?h" "unat ?h \<le> unat (omp_databuf_len (mbuf_pools s omp))"
    using hdr mbuf_wf_nat(2,3) [OF wf] mbuf_wf_len [OF wf]
    by (simp_all add: OS_MBUF_IS_PKTHDR_def sizeof_os_mbuf_pkthdr_def startoff_def)
  from os_mbuf_get_pkthdr_some [OF inv free h] obtain s2 buf where
    s2: "os_mbuf_get_pkthdr omp (?h - 8) s = Some (a, s2)" "mb_inv omp s2" "mb_free omp s2 = fs" "\<not> mb_live s a" "a \<noteq> 0"
    "mb_live s2 = (mb_live s)(a := True)" "mbuf_pools s2 = mbuf_pools s"
    "mbufs s2 = (mbufs s)(a := (fresh_mbuf omp 0 (mbufs s a))\<lparr>om_pkthdr_len := ?h, om_data := uint ?h, om_databuf := buf\<rparr>)"
    by blast
  let ?p = "mbufs s2 a"
  have ne: "om \<noteq> a" using live s2(4) by auto
  have live2: "mb_live s2 a" "mb_live s2 om" "mbufs s2 om = ?m" using live s2 ne by simp_all
  from copypkthdr_eq [OF s2(2) live2(1,2)] hdr live2(3) obtain b where
    b: "os_mbuf_copypkthdr a om s2 = Some (mb_set a (?p\<lparr>om_databuf := b\<rparr>) s2)"
    "length b = length (om_databuf ?p)" "take 2 b = take 2 (om_databuf ?m)"
    "take (unat ?h) b = take (unat ?h) (om_databuf ?m)" by auto
  define s3 where "s3 = mb_set a (?p\<lparr>om_databuf := b\<rparr>) s2"
  have inv3: "mb_inv omp s3"
    unfolding s3_def by (rule mb_inv_set [OF s2(2) live2(1) mbuf_wf_databuf [OF mb_inv_wf [OF s2(2) live2(1)] b(2)]])
  define s4 where "s4 = mb_set om (?m\<lparr>om_pkthdr_len := 0\<rparr>) s3"
  have "mbuf_wf omp s3 (?m\<lparr>om_pkthdr_len := 0\<rparr>)"
    using wf mbuf_wf_nat [OF wf] s2(7)
    by (intro mbuf_wfI) (simp_all add: mbuf_wf_def s3_def startoff_def OS_MBUF_IS_PKTHDR_def sizeof_os_mbuf_pkthdr_def)
  then have inv4: "mb_inv omp s4" unfolding s4_def using mb_inv_set [OF inv3] live2 by (simp add: s3_def)
  let ?q = "?p\<lparr>om_databuf := b\<rparr>"
  have q: "mbufs s4 a = ?q" "mb_live s4 a" using ne live2 by (simp_all add: s4_def s3_def)
  have wfq: "mbuf_wf omp s4 ?q" using mb_inv_wf [OF inv4 q(2)] q(1) by simp
  have ql: "om_len ?q = 0" "om_pkthdr_len ?q = ?h" by (simp_all add: s2(8))
  from trailingspace_eq [OF wfq] obtain sp where
    sp: "os_mbuf_trailingspace ?q s4 = Some sp" "unat sp = length (om_databuf ?q) - nat (om_data ?q)" using ql by auto
  define r where "r = ?q\<lparr>om_data := om_data ?q + uint sp, om_next := om\<rparr>"
  note w = mbuf_wf_nat [OF wfq]
  have "om_data ?q + int (unat sp) = int (length (om_databuf ?q))" using sp(2) w(1,3) by simp
  then have rd: "om_data r = int (length (om_databuf ?q))" by (simp add: r_def)
  have "startoff r = startoff ?q" by (simp add: r_def)
  then have "startoff r \<le> om_data r" using rd w(1-3) by linarith
  then have wfr: "mbuf_wf omp s4 r" using wfq rd ql by (intro mbuf_wfI) (simp_all add: r_def mbuf_wf_def)
  define s5 where "s5 = mb_set a r s4"
  have a: "a \<notin> set as" using mchain_live [OF chain(1)] s2(4) by blast
  have seg: "mseg r = []" using ql by (simp add: r_def mseg_def)
  moreover have "mdata s5 as = mdata s as" using a by (intro mdata_cong) (auto simp: s5_def s4_def s3_def s2(8))
  moreover have "mchain s5 om as = mchain s om as"
    using a by (intro mchain_cong) (auto simp: s5_def s4_def s3_def s2(6,8))
  ultimately have c5: "mchain s5 a (a # as)" "mdata s5 (a # as) = mdata s as"
    using chain(1) s2(5,6) by (simp_all add: s5_def s4_def s3_def r_def)
  have "pkthdr_len r = pkthdr_len ?m"
    using b mbuf_wf_len [OF wfq] mbuf_wf_len [OF wf] s2(7) by (intro pkthdr_len_cong) (simp_all add: r_def s4_def s3_def)
  then have "pkt_ok s5 a (a # as)" using pkt hdr c5(2) by (simp add: pkt_ok_def s5_def del: mdata_simps)
  moreover have "mb_inv omp s5" unfolding s5_def by (rule mb_inv_set [OF inv4 q(2) wfr])
  moreover have "mb_frame {om} s s5" using s2(4,6-8) by (auto simp: mb_frame_def s5_def s4_def s3_def)
  moreover have "pkt_header (mbufs s5 a) = pkt_header ?m"
    using b(4) ql(2) by (intro pkt_header_cong) (simp_all add: s5_def r_def)
  moreover have "pkt_header (mbufs s5 om) = None"
    using ne by (simp add: s5_def s4_def pkt_header_def OS_MBUF_IS_PKTHDR_def sizeof_os_mbuf_pkthdr_def)
  moreover have "mb_get om s3 = Some ?m" "mb_get a s4 = Some ?q"
    using live2 ne chain(2) mb_inv_get [OF inv4 q(2)] q(1) by (simp_all add: mb_get_def s3_def)
  ultimately show ?thesis using s2(1-5) b(1) sp(1) c5
    by (intro exI [of _ s2] exI [of _ s3] exI [of _ ?m] exI [of _ ?q] exI [of _ sp])
      (simp add: s5_def s4_def s3_def r_def del: mdata_simps)
qed

text \<open>One iteration of the loop, by whether the head has room and whether the pool has a block.\<close>

lemma prepend_step:
  assumes inv: "mb_inv omp s" and chain: "mchain s om as" "om \<noteq> 0" and pkt: "pkt_ok s om as" and len: "0 \<le> len"
  shows "\<exists>s1 xs. mb_inv omp s1 \<and> mchain s1 om as \<and> mdata s1 as = xs @ mdata s as \<and> pkt_ok s1 om as \<and>
     mb_free omp s1 = mb_free omp s \<and> mb_frame {om} s s1 \<and> mb_live s1 = mb_live s \<and> int (length xs) \<le> len \<and>
     pkt_header (mbufs s1 om) = pkt_header (mbufs s om) \<and>
     (if int (length xs) = len then os_mbuf_prepend om len s = Some (om, s1)
      else case mb_free omp s of
        [] \<Rightarrow> os_mbuf_prepend om len s = do { (rc, s3) \<leftarrow> os_mbuf_free_chain om s1; Some (0, s3) }
      | a # fs \<Rightarrow> \<exists>s5. os_mbuf_prepend om len s = os_mbuf_prepend a (len - int (length xs)) s5 \<and> a \<noteq> 0 \<and> mb_inv omp s5 \<and>
          mchain s5 a (a # as) \<and> mdata s5 (a # as) = mdata s1 as \<and> pkt_ok s5 a (a # as) \<and> mb_free omp s5 = fs \<and>
          mb_frame {om} s1 s5 \<and> \<not> mb_live s1 a \<and> pkt_header (mbufs s5 a) = pkt_header (mbufs s1 om) \<and>
          pkt_header (mbufs s5 om) = None)"
proof -
  let ?m = "mbufs s om"
  have live: "mb_live s om" and om: "om \<in> set as" using mchain_head [OF chain] by auto
  define k where "k = min (nat len) (unat (os_mbuf_leadingspace ?m))"
  from prepend_fill [OF inv chain pkt, of k] obtain s1 xs where
    s1: "upd_pkthdr_len om (\<lambda>n. n + of_nat k) (mb_set om (?m\<lparr>om_data := om_data ?m - int k,
       om_len := om_len ?m + of_nat k\<rparr>) s) = Some s1" "length xs = k" "mb_inv omp s1" "mchain s1 om as"
    "mdata s1 as = xs @ mdata s as" "pkt_ok s1 om as" "mb_free omp s1 = mb_free omp s" "mb_frame {om} s s1" "mb_live s1 = mb_live s"
    "pkt_header (mbufs s1 om) = pkt_header (mbufs s om)"
    by (auto simp: k_def)
  have lead: "min len (uint (os_mbuf_leadingspace ?m)) = int k" using len by (simp add: k_def of_nat_min)
  let ?m1 = "mbufs s1 om"
  have live1: "mb_live s1 om" using live s1(9) by simp
  have pool: "om_omp ?m1 = Some omp" using mb_inv_wf [OF s1(3) live1] by (simp add: mbuf_wf_def)
  note get = mb_inv_get [OF inv live] and get1 = mb_inv_get [OF s1(3) live1]
  have kl: "int k \<le> len" using len by (simp add: k_def)
  have unf: "os_mbuf_prepend om len s = (if int k = len then Some (om, s1) else do {
       (p, s2) \<leftarrow> (if OS_MBUF_IS_PKTHDR ?m1 then os_mbuf_get_pkthdr omp (om_pkthdr_len ?m1 - 8) s1
          else Some (os_mbuf_get omp 0 s1));
       if p = 0 then do { (rc, s3) \<leftarrow> os_mbuf_free_chain om s2; Some (0, s3) }
       else do {
         s4 \<leftarrow> (if OS_MBUF_IS_PKTHDR ?m1 then do {
                  s3 \<leftarrow> os_mbuf_copypkthdr p om s2;
                  m3 \<leftarrow> mb_get om s3;
                  Some (mb_set om (m3\<lparr>om_pkthdr_len := 0\<rparr>) s3)
                } else Some s2);
         mp \<leftarrow> mb_get p s4;
         sp \<leftarrow> os_mbuf_trailingspace mp s4;
         os_mbuf_prepend p (len - int k) (mb_set p (mp\<lparr>om_data := om_data mp + uint sp, om_next := om\<rparr>) s4)
       }
     })"
  proof -
    have "len - int k = 0 \<longleftrightarrow> int k = len" "of_nat sizeof_os_mbuf_pkthdr = (8 :: u8)"
      by (auto simp: sizeof_os_mbuf_pkthdr_def)
    then show ?thesis
      by (subst os_mbuf_prepend.simps)
        (simp only: get get1 pool lead s1(1) of_int_of_nat_eq Option.bind.simps Let_def cong: if_cong)
  qed
  have main: "if int k = len then os_mbuf_prepend om len s = Some (om, s1)
      else case mb_free omp s of
        [] \<Rightarrow> os_mbuf_prepend om len s = do { (rc, s3) \<leftarrow> os_mbuf_free_chain om s1; Some (0, s3) }
      | a # fs \<Rightarrow> \<exists>s5. os_mbuf_prepend om len s = os_mbuf_prepend a (len - int k) s5 \<and> a \<noteq> 0 \<and> mb_inv omp s5 \<and>
          mchain s5 a (a # as) \<and> mdata s5 (a # as) = mdata s1 as \<and> pkt_ok s5 a (a # as) \<and> mb_free omp s5 = fs \<and>
          mb_frame {om} s1 s5 \<and> \<not> mb_live s1 a \<and> pkt_header (mbufs s5 a) = pkt_header (mbufs s1 om) \<and>
          pkt_header (mbufs s5 om) = None"
  proof (cases "mb_free omp s")
    case Nil
    then have none: "os_mbuf_get omp ls s1 = (0, s1)" for ls using os_mbuf_get_none [OF s1(3)] s1(7) by simp
    then have "os_mbuf_get_pkthdr omp h s1 = Some (0, s1)" for h by (simp add: os_mbuf_get_pkthdr_def)
    with none Nil show ?thesis unfolding unf by simp
  next
    case (Cons a fs)
    then have free1: "mb_free omp s1 = a # fs" using s1(7) by simp
    show ?thesis
    proof (cases "OS_MBUF_IS_PKTHDR ?m1")
      case True
      from new_head_pkt [OF s1(3,4) chain(2) s1(6) True free1] show ?thesis
        unfolding unf using Cons True by (auto simp: Let_def)
    next
      case False
      from new_head_plain [OF s1(3,4) chain(2) free1 False] show ?thesis
        unfolding unf using Cons False by (auto simp: Let_def)
    qed
  qed
  show ?thesis using s1(3-10) kl main [folded s1(2)] s1(2) by blast
qed

text \<open>The end of the loop without another mbuf, and what a further iteration adds to the rest of it.\<close>

lemma prepend_done:
  assumes "mb_inv omp s1" "mchain s1 om as" "om \<noteq> 0" "mdata s1 as = xs @ mdata s as" "pkt_ok s1 om as"
    "mb_free omp s1 = mb_free omp s" "mb_frame {om} s s1" "pkt_header (mbufs s1 om) = pkt_header (mbufs s om)"
    "int (length xs) = len"
  shows "prepend_result omp s om as len om s1"
proof -
  have "mchain s1 om ([] @ as) \<and> length xs = nat len \<and> mdata s1 ([] @ as) = xs @ mdata s as \<and>
      pkt_ok s1 om ([] @ as) \<and> ([] = [] \<or> pkt_header (mbufs s1 om) = None) \<and>
      mset [] + mset (mb_free omp s1) = mset (mb_free omp s)"
    using assms by (simp flip: assms(9))
  with assms(1,3,7,8) show ?thesis unfolding prepend_result_def by metis
qed

lemma prepend_fails:
  assumes "mb_inv omp s1" "mchain s1 om as" "om \<noteq> 0" "mb_free omp s1 = mb_free omp s" "mb_frame {om} s s1"
  shows "\<exists>s3. os_mbuf_free_chain om s1 = Some (OS_OK, s3) \<and> prepend_result omp s om as len 0 s3"
proof -
  from os_mbuf_free_chain_eq [OF assms(1,2)] obtain s3 where
    s3: "os_mbuf_free_chain om s1 = Some (OS_OK, s3)" "mb_inv omp s3" "mb_free omp s3 = rev as @ mb_free omp s1"
    "mbufs s3 = mbufs s1" "mb_live s3 = (\<lambda>a. mb_live s1 a \<and> a \<notin> set as)" "mbuf_pools s3 = mbuf_pools s1" by blast
  have "om \<in> set as" using mchain_head [OF assms(2,3)] by simp
  then have "mb_frame (set as) s s3" using assms(5) s3(4-6) by (auto simp: mb_frame_def)
  with s3 assms(4) show ?thesis by (auto simp: prepend_result_def)
qed

lemma prepend_further:
  assumes chain: "mchain s om as" "om \<noteq> 0" and c5: "mchain s5 a (a # as)" and s1: "mdata s1 as = xs @ mdata s as" "mb_frame {om} s s1"
    "mb_live s1 = mb_live s" "int (length xs) \<le> len" "pkt_header (mbufs s1 om) = pkt_header (mbufs s om)"
    and s5: "mdata s5 (a # as) = mdata s1 as" "mb_free omp s = a # mb_free omp s5" "mb_frame {om} s1 s5"
    "\<not> mb_live s1 a" "pkt_header (mbufs s5 a) = pkt_header (mbufs s1 om)" "pkt_header (mbufs s5 om) = None"
    and rest: "prepend_result omp s5 a (a # as) (len - int (length xs)) om' s'"
  shows "prepend_result omp s om as len om' s'"
proof -
  have om: "om \<in> set as" "mb_live s om" using mchain_head [OF chain] by auto
  have fr5: "mb_frame {om} s s5" using mb_frame_trans [OF s1(2) s5(3)] by blast
  have live: "\<not> mb_live s a" "om \<noteq> a" "mb_live s1 om" using s5(4) s1(3) om(2) by auto
  show ?thesis
  proof (cases "om' = 0")
    case True
    have "mb_frame (set as) s s'"
      by (rule mb_frame_trans [OF fr5, of "set (a # as)"]) (use rest True om live in \<open>auto simp: prepend_result_def\<close>)
    with rest True s5(2) show ?thesis by (auto simp: prepend_result_def)
  next
    case False
    with rest obtain new ys where ys: "mchain s' om' (new @ a # as)" "length ys = nat (len - int (length xs))"
      "mdata s' (new @ a # as) = ys @ mdata s5 (a # as)" "pkt_ok s' om' (new @ a # as)"
      "mset new + mset (mb_free omp s') = mset (mb_free omp s5)"
      and r: "mb_inv omp s'" "mb_frame {a} s5 s'" "pkt_header (mbufs s' om') = pkt_header (mbufs s5 a)"
      by (auto simp: prepend_result_def simp del: mdata_simps)
    have "mb_live s5 om" using mchain_live [OF c5] om(1) by simp
    then have old: "mbufs s' om = mbufs s5 om" using r(2) live(2) by (auto simp: mb_frame_def)
    have fr: "mb_frame {om} s s'" by (rule mb_frame_trans [OF fr5 r(2)]) (use live in auto)
    have len: "length (ys @ xs) = nat len" using ys(2) s1(4) by auto
    have d: "mdata s' ((new @ [a]) @ as) = (ys @ xs) @ mdata s as" using ys(3) s5(1) s1(1) by simp
    have "mset (new @ [a]) + mset (mb_free omp s') = mset (mb_free omp s)" using ys(5) s5(2) by simp
    with len d ys(1,4) old s5(6) have "\<exists>new xs. mchain s' om' (new @ as) \<and> length xs = nat len \<and>
        mdata s' (new @ as) = xs @ mdata s as \<and> pkt_ok s' om' (new @ as) \<and>
        (new = [] \<or> pkt_header (mbufs s' om) = None) \<and> mset new + mset (mb_free omp s') = mset (mb_free omp s)"
      by (intro exI [of _ "new @ [a]"] exI [of _ "ys @ xs"]) (simp del: mdata_simps)
    with r(1,3) fr s5(5) s1(5) False show ?thesis by (simp add: prepend_result_def)
  qed
qed

text \<open>
  C22: \<^verbatim>\<open>os_mbuf_prepend\<close> puts a requested number of bytes (not negative) in front of the bytes of a
  chain, adding mbufs from the pool where the head has no room. A packet header moves to the new head
  with everything in it, the old head then has none, and the length in it counts the new bytes, in
  16 bits; a chain that is no packet does not become one. No other mbuf of the chain changes. When the
  pool runs empty a null pointer is returned and all mbufs of the chain are back in the pool; in both
  cases no block is lost.
\<close>

theorem os_mbuf_prepend_spec:
  "mb_inv omp s \<Longrightarrow> mchain s om as \<Longrightarrow> om \<noteq> 0 \<Longrightarrow> pkt_ok s om as \<Longrightarrow> 0 \<le> len \<Longrightarrow>
   \<exists>om' s'. os_mbuf_prepend om len s = Some (om', s') \<and> prepend_result omp s om as len om' s'"
proof (induction "mb_free omp s" arbitrary: s om as len)
  case Nil
  from prepend_step [OF Nil(2-6), folded Nil(1), unfolded list.simps(4)] obtain s1 xs where
    s1: "mb_inv omp s1" "mchain s1 om as" "mdata s1 as = xs @ mdata s as" "pkt_ok s1 om as" "mb_free omp s1 = mb_free omp s"
    "mb_frame {om} s s1" "pkt_header (mbufs s1 om) = pkt_header (mbufs s om)"
    "if int (length xs) = len then os_mbuf_prepend om len s = Some (om, s1)
     else os_mbuf_prepend om len s = do { (rc, s3) \<leftarrow> os_mbuf_free_chain om s1; Some (0, s3) }"
    unfolding Nil(1) by blast
  show ?case
    using prepend_done [OF s1(1,2) Nil(4) s1(3-7)] prepend_fails [OF s1(1,2) Nil(4) s1(5,6), of len] s1(8)
    by (auto split: if_splits)
next
  case (Cons a fs)
  from prepend_step [OF Cons(3-7), folded Cons(2), unfolded list.simps(5)] obtain s1 xs where
    s1: "mb_inv omp s1" "mchain s1 om as" "mdata s1 as = xs @ mdata s as" "pkt_ok s1 om as" "mb_free omp s1 = mb_free omp s"
    "mb_frame {om} s s1" "mb_live s1 = mb_live s" "int (length xs) \<le> len" "pkt_header (mbufs s1 om) = pkt_header (mbufs s om)"
    "if int (length xs) = len then os_mbuf_prepend om len s = Some (om, s1)
     else \<exists>s5. os_mbuf_prepend om len s = os_mbuf_prepend a (len - int (length xs)) s5 \<and> a \<noteq> 0 \<and> mb_inv omp s5 \<and>
          mchain s5 a (a # as) \<and> mdata s5 (a # as) = mdata s1 as \<and> pkt_ok s5 a (a # as) \<and> mb_free omp s5 = fs \<and>
          mb_frame {om} s1 s5 \<and> \<not> mb_live s1 a \<and> pkt_header (mbufs s5 a) = pkt_header (mbufs s1 om) \<and>
          pkt_header (mbufs s5 om) = None"
    unfolding Cons(2) by blast
  show ?case
  proof (cases "int (length xs) = len")
    case True
    with prepend_done [OF s1(1,2) Cons(5) s1(3-6,9)] s1(10) show ?thesis by auto
  next
    case False
    with s1(10) obtain s5 where s5: "os_mbuf_prepend om len s = os_mbuf_prepend a (len - int (length xs)) s5" "a \<noteq> 0"
      "mb_inv omp s5" "mchain s5 a (a # as)" "mdata s5 (a # as) = mdata s1 as" "pkt_ok s5 a (a # as)" "fs = mb_free omp s5"
      "mb_frame {om} s1 s5" "\<not> mb_live s1 a" "pkt_header (mbufs s5 a) = pkt_header (mbufs s1 om)"
      "pkt_header (mbufs s5 om) = None" by auto
    have "0 \<le> len - int (length xs)" using s1(8) by simp
    from Cons(1) [OF s5(7,3,4,2,6) this] obtain om' s' where s':
      "os_mbuf_prepend a (len - int (length xs)) s5 = Some (om', s')"
      "prepend_result omp s5 a (a # as) (len - int (length xs)) om' s'" by blast
    have "mb_free omp s = a # mb_free omp s5" using Cons(2) s5(7) by simp
    from prepend_further [OF Cons(4,5) s5(4) s1(3,6-9) s5(5) this s5(8-11) s'(2)] s5(1) s'(1) show ?thesis by auto
  qed
qed

theorem os_mbuf_prepend_spec_witness:
  "\<exists>om' s'. os_mbuf_prepend 0x1000 3 demo_mb = Some (om', s') \<and> prepend_result 0 demo_mb 0x1000 [0x1000] 3 om' s'"
  using os_mbuf_prepend_spec [OF demo_mb_facts(1,2) _ demo_pkt_ok, of 3] by simp

subsection \<open>Pulling bytes together\<close>

text \<open>One round of the loop of \<^verbatim>\<open>os_mbuf_pullup\<close> copies \<open>n\<close> bytes from the front of one mbuf to the end of another.\<close>

lemma pullup_copy:
  assumes wf: "mbuf_wf omp s b" and wf2: "mbuf_wf omp s m" and n: "n \<le> length (mseg b)"
    and fits: "nat (om_data m) + unat (om_len m) + n \<le> length (om_databuf m)"
  shows "\<exists>buf. peek (om_data b) n (om_databuf b) = Some (take n (mseg b)) \<and>
     poke (om_data m + uint (om_len m)) (take n (mseg b)) (om_databuf m) = Some buf \<and>
     mbuf_wf omp s (m\<lparr>om_len := om_len m + of_nat n, om_databuf := buf\<rparr>) \<and>
     mseg (m\<lparr>om_len := om_len m + of_nat n, om_databuf := buf\<rparr>) = mseg m @ take n (mseg b) \<and>
     length buf = length (om_databuf m) \<and> (OS_MBUF_IS_PKTHDR m \<longrightarrow> take 2 buf = take 2 (om_databuf m))"
proof -
  have len: "length (take n (mseg b)) = n" using n by simp
  have pk: "peek (om_data b) n (om_databuf b) = Some (take n (mseg b))" using peek_mseg [OF wf, of 0 n] n by simp
  from mseg_append [OF wf2, of "take n (mseg b)"] fits obtain buf where
    buf: "poke (om_data m + uint (om_len m)) (take n (mseg b)) (om_databuf m) = Some buf" "length buf = length (om_databuf m)"
    "take (nat (om_data m) + unat (om_len m)) buf = take (nat (om_data m) + unat (om_len m)) (om_databuf m)"
    "mbuf_wf omp s (m\<lparr>om_len := om_len m + of_nat n, om_databuf := buf\<rparr>)"
    "mseg (m\<lparr>om_len := om_len m + of_nat n, om_databuf := buf\<rparr>) = mseg m @ take n (mseg b)"
    unfolding len by blast
  have "take 2 buf = take 2 (om_databuf m)" if "OS_MBUF_IS_PKTHDR m"
    using arg_cong [OF buf(3), of "take 2"] IS_PKTHDR_room(1) [OF wf2 that] by (simp add: min_absorb1)
  with pk buf show ?thesis by blast
qed

lemma pulled_trans: "pulled m m1 xs \<Longrightarrow> pulled m1 m2 ys \<Longrightarrow> pulled m m2 (xs @ ys)"
  by (simp add: pulled_def OS_MBUF_IS_PKTHDR_def)

lemma pullup_loop_eq:
  "mb_inv omp s \<Longrightarrow> mb_live s om2 \<Longrightarrow> mchain s om bs \<Longrightarrow> bs \<noteq> [] \<Longrightarrow> om2 \<notin> set bs \<Longrightarrow> 0 < len \<Longrightarrow> unat len \<le> sp \<Longrightarrow>
   nat (om_data (mbufs s om2)) + unat (om_len (mbufs s om2)) + sp \<le> length (om_databuf (mbufs s om2)) \<Longrightarrow>
   \<exists>om' len' s' ds bs'. pullup_loop om2 om len (int sp) s = Some (om', len', s') \<and> mb_inv omp s' \<and> bs = ds @ bs' \<and>
     mchain s' om' bs' \<and> mb_live s' om2 \<and> pulled (mbufs s om2) (mbufs s' om2) (take (unat len) (mdata s bs)) \<and>
     mdata s' bs' = drop (unat len) (mdata s bs) \<and> unat len' = unat len - length (mdata s bs) \<and>
     (0 < len' \<longrightarrow> bs' = []) \<and> mb_free omp s' = rev ds @ mb_free omp s \<and> mb_frame (insert om2 (set bs)) s s'"
proof (induction bs arbitrary: s om len sp)
  case (Cons b bs)
  note inv = Cons.prems(1) and live2 = Cons.prems(2)
  note c = mchain_cons [OF inv Cons.prems(3)]
  let ?b = "mbufs s b" and ?m = "mbufs s om2" and ?k = "length (mseg (mbufs s b))"
  have b: "b \<notin> set bs" "b \<noteq> om2" "om2 \<notin> set bs" using mchain_distinct [OF Cons.prems(3)] Cons.prems(5) by auto
  define n where "n = min (unat len) ?k"
  have cnt: "min (min (uint len) (int sp)) (uint (om_len ?b)) = int n"
    using Cons.prems(7) c(7) uint_nat [of len] by (simp add: n_def min_def del: of_nat_unat)
  have nk: "n \<le> ?k" "n \<le> unat len" by (simp_all add: n_def)
  then have nfit: "nat (om_data ?m) + unat (om_len ?m) + n \<le> length (om_databuf ?m)" using Cons.prems(7,8) by linarith
  from pullup_copy [OF c(5) mb_inv_wf [OF inv live2] nk(1) nfit] obtain buf where
    buf: "peek (om_data ?b) n (om_databuf ?b) = Some (take n (mseg ?b))"
    "poke (om_data ?m + uint (om_len ?m)) (take n (mseg ?b)) (om_databuf ?m) = Some buf"
    "mbuf_wf omp s (?m\<lparr>om_len := om_len ?m + of_nat n, om_databuf := buf\<rparr>)"
    "mseg (?m\<lparr>om_len := om_len ?m + of_nat n, om_databuf := buf\<rparr>) = mseg ?m @ take n (mseg ?b)"
    "length buf = length (om_databuf ?m)" "OS_MBUF_IS_PKTHDR ?m \<longrightarrow> take 2 buf = take 2 (om_databuf ?m)"
    by blast
  define m1 where "m1 = ?m\<lparr>om_len := om_len ?m + of_nat n, om_databuf := buf\<rparr>"
  define s1 where "s1 = mb_set om2 m1 s"
  have p1: "pulled ?m m1 (take n (mseg ?b))" using buf by (simp add: pulled_def m1_def)
  have s1: "mb_inv omp s1" "mb_live s1 b" "mb_live s1 om2" "mbufs s1 b = ?b" "mbufs s1 om2 = m1"
    using mb_inv_set [OF inv live2 buf(3)] b(2) c(3) live2 by (simp_all add: s1_def m1_def)
  define s2 where "s2 = mb_set b (if n = ?k then ?b\<lparr>om_len := 0\<rparr> else
      ?b\<lparr>om_len := om_len ?b - of_nat n, om_data := om_data ?b + int n\<rparr>) s1"
  note wf1 = mb_inv_wf [OF s1(1,2), unfolded s1(4)]
  have s2: "mb_inv omp s2" "mb_live s2 b" "mb_live s2 om2" "mseg (mbufs s2 b) = drop n (mseg ?b)" "mbufs s2 om2 = m1"
    "om_next (mbufs s2 b) = om_next ?b"
    using mb_inv_set [OF s1(1,2)] mseg_cut_front [OF wf1 nk(1)] mseg_cut_end [OF wf1, of 0] s1 b(2)
    by (simp_all add: s2_def)
  have data2: "mdata s2 bs = mdata s bs" using b by (intro mdata_cong) (auto simp: s2_def s1_def)
  have ch2: "mchain s2 p bs = mchain s p bs" for p using b by (intro mchain_cong) (auto simp: s2_def s1_def)
  have fr2: "mb_frame (insert om2 (set (b # bs))) s s2" "mb_free omp s2 = mb_free omp s" "mbuf_pools s2 = mbuf_pools s"
    "mb_live s2 = mb_live s"
    by (auto simp: mb_frame_def s2_def s1_def)
  have olen: "om_len ?b - of_int (int n) = 0 \<longleftrightarrow> n = ?k"
  proof -
    have "unat (om_len ?b - of_nat n) = ?k - n"
      using unat_diff_of_nat [of n "om_len ?b"] nk length_mseg [OF c(5)] by simp
    then show ?thesis using nk by (auto simp: unat_eq_0 [symmetric])
  qed
  have len1: "unat (len - of_int (int n)) = unat len - n" using unat_diff_of_nat [of n len] by (simp add: n_def)
  show ?case
  proof (cases "n = ?k")
    case False
    then have n: "n = unat len" "n < ?k" by (auto simp: n_def)
    have "pullup_loop om2 om len (int sp) s = Some (b, 0, s2)"
      using False c(1,2,4) mb_inv_get [OF inv live2] cnt buf(1,2) olen n
      by (subst pullup_loop.simps) (simp add: Let_def s2_def s1_def m1_def)
    moreover have "mchain s2 b (b # bs)" using s2(2,6) c(2,6) ch2 by simp
    note facts = calculation this s2 p1 n fr2 data2
    show ?thesis
      by (rule exI [of _ b], rule exI [of _ 0], rule exI [of _ s2], rule exI [of _ "[]"], rule exI [of _ "b # bs"])
        (use facts in simp)
  next
    case True
    from os_mbuf_free_one [OF s2(1,2)] obtain s3 where
      s3: "os_mbuf_free b s2 = Some (OS_OK, s3)" "mb_inv omp s3" "mb_free omp s3 = b # mb_free omp s2" "mbufs s3 = mbufs s2"
      "mb_live s3 = (mb_live s2)(b := False)" "mbuf_pools s3 = mbuf_pools s2" by blast
    have ch3: "mchain s3 (om_next ?b) bs" using ch2 c(6) b(1) mchain_cong [of bs s3 s2] s3(4,5) by (metis fun_upd_other)
    have data3: "mdata s3 bs = mdata s bs" using data2 s3(4) by (simp add: mdata_def)
    have fr3: "mb_frame (insert om2 (set (b # bs))) s s3" using fr2 s3(4-6) by (auto simp: mb_frame_def)
    have live3: "mb_live s3 om2" "mbufs s3 om2 = m1" using s2 s3(4,5) b(2) by simp_all
    have step: "pullup_loop om2 om len (int sp) s = (if 0 < len - of_nat n \<and> om_next ?b \<noteq> 0
        then pullup_loop om2 (om_next ?b) (len - of_nat n) (int sp - int n) s3 else Some (om_next ?b, len - of_nat n, s3))"
      using True c(1,2,4) mb_inv_get [OF inv live2] cnt buf(1,2) olen s3(1)
      by (subst pullup_loop.simps) (simp add: Let_def s2_def s1_def m1_def)
    show ?thesis
    proof (cases "0 < len - of_nat n \<and> om_next ?b \<noteq> 0")
      case False
      then have "bs = [] \<or> n = unat len" using ch3 len1 by (auto simp: word_less_nat_alt n_def)
      then have "take (unat len) (mdata s (b # bs)) = take n (mseg ?b)" "drop (unat len) (mdata s (b # bs)) = mdata s bs"
        "unat len - n = unat len - length (mdata s (b # bs))" using \<open>n = ?k\<close> by (auto simp: n_def)
      moreover have "bs = []" if "0 < len - of_nat n" using False that ch3 by (cases bs) auto
      note facts = calculation this trans [OF step if_not_P [OF False]] s3(2,3) live3 p1 ch3 data3 fr3 fr2(2) len1
      show ?thesis
        by (rule exI [of _ "om_next ?b"], rule exI [of _ "len - of_nat n"], rule exI [of _ s3], rule exI [of _ "[b]"], rule exI [of _ bs])
          (use facts in simp)
    next
      case next_round: True
      then have "bs \<noteq> []" using ch3 by auto
      have room: "unat (len - of_nat n) \<le> sp - n" "nat (om_data (mbufs s3 om2)) + unat (om_len (mbufs s3 om2)) + (sp - n)
          \<le> length (om_databuf (mbufs s3 om2))"
        using len1 nk Cons.prems(7,8) p1 length_mseg [OF mb_inv_wf [OF inv live2]] True
          length_mseg [OF mb_inv_wf [OF s3(2) live3(1)]] live3(2) by (auto simp: pulled_def)
      from Cons.IH [OF s3(2) live3(1) ch3 \<open>bs \<noteq> []\<close> b(3) conjunct1 [OF next_round] room] obtain om' len' s' ds bs' where
        s': "pullup_loop om2 (om_next ?b) (len - of_nat n) (int (sp - n)) s3 = Some (om', len', s')" "mb_inv omp s'" "bs = ds @ bs'"
        "mchain s' om' bs'" "mb_live s' om2" "pulled m1 (mbufs s' om2) (take (unat (len - of_nat n)) (mdata s bs))"
        "mdata s' bs' = drop (unat (len - of_nat n)) (mdata s bs)"
        "unat len' = unat (len - of_nat n) - length (mdata s bs)" "0 < len' \<longrightarrow> bs' = []"
        "mb_free omp s' = rev ds @ mb_free omp s3" "mb_frame (insert om2 (set bs)) s3 s'"
        unfolding data3 live3(2) by blast
      have "unat len > n" using next_round len1 by (auto simp: word_less_nat_alt)
      then have "take (unat len) (mdata s (b # bs)) = take n (mseg ?b) @ take (unat len - n) (mdata s bs)"
        "drop (unat len) (mdata s (b # bs)) = drop (unat len - n) (mdata s bs)" using True by auto
      moreover have "pulled ?m (mbufs s' om2) (take n (mseg ?b) @ take (unat len - n) (mdata s bs))"
        using pulled_trans [OF p1 s'(6)] len1 by simp
      moreover have "mb_frame (insert om2 (set (b # bs))) s s'"
        by (rule mb_frame_trans [OF fr3 s'(11)]) auto
      moreover have "pullup_loop om2 om len (int sp) s = Some (om', len', s')"
        using step next_round s'(1) room \<open>unat len > n\<close> Cons.prems(7) by (simp add: of_nat_diff)
      note facts = calculation this s' s3(3) fr2(2) len1 True
      show ?thesis
        by (rule exI [of _ om'], rule exI [of _ len'], rule exI [of _ s'], rule exI [of _ "b # ds"], rule exI [of _ bs'])
          (use facts in simp)
    qed
  qed
qed simp

text \<open>Enough bytes: they are collected. Too few: everything is released.\<close>

lemma pullup_rest_enough:
  assumes inv: "mb_inv omp s" and live: "mb_live s om2" and chain: "mchain s om bs" "bs \<noteq> []" "om2 \<notin> set bs"
    and len: "0 < len" "nat (om_data (mbufs s om2)) + unat (om_len (mbufs s om2)) + unat len \<le> length (om_databuf (mbufs s om2))"
    and enough: "unat len \<le> length (mdata s bs)"
  shows "\<exists>s' bs'. pullup_rest om2 om len s = Some (om2, s') \<and> mb_inv omp s' \<and> mchain s' om2 (om2 # bs') \<and>
     mdata s' (om2 # bs') = mseg (mbufs s om2) @ mdata s bs \<and>
     length (mseg (mbufs s' om2)) = length (mseg (mbufs s om2)) + unat len \<and> mb_frame (insert om2 (set bs)) s s' \<and>
     OS_MBUF_IS_PKTHDR (mbufs s' om2) = OS_MBUF_IS_PKTHDR (mbufs s om2) \<and>
     (OS_MBUF_IS_PKTHDR (mbufs s om2) \<longrightarrow> pkthdr_len (mbufs s' om2) = pkthdr_len (mbufs s om2))"
proof -
  note wf = mb_inv_wf [OF inv live]
  from trailingspace_eq [OF wf] obtain sp where sp: "os_mbuf_trailingspace (mbufs s om2) s = Some sp"
    "unat sp = length (om_databuf (mbufs s om2)) - (nat (om_data (mbufs s om2)) + unat (om_len (mbufs s om2)))" by blast
  have fit: "unat len \<le> unat sp" "nat (om_data (mbufs s om2)) + unat (om_len (mbufs s om2)) + unat sp
      \<le> length (om_databuf (mbufs s om2))" using sp(2) len(2) mbuf_wf_nat(3) [OF wf] by linarith+
  from pullup_loop_eq [OF inv live chain len(1) fit] obtain om' len' s1 ds bs' where
    s1: "pullup_loop om2 om len (int (unat sp)) s = Some (om', len', s1)" "mb_inv omp s1" "bs = ds @ bs'"
    "mchain s1 om' bs'" "mb_live s1 om2" "pulled (mbufs s om2) (mbufs s1 om2) (take (unat len) (mdata s bs))"
    "mdata s1 bs' = drop (unat len) (mdata s bs)" "unat len' = unat len - length (mdata s bs)"
    "mb_frame (insert om2 (set bs)) s s1" by blast
  define s' where "s' = mb_set om2 ((mbufs s1 om2)\<lparr>om_next := om'\<rparr>) s1"
  have "\<not> 0 < len'" using s1(8) enough by (simp add: word_less_nat_alt)
  then have "pullup_rest om2 om len s = Some (om2, s')"
    using mb_inv_get [OF inv live] sp(1) s1(1) mb_inv_get [OF s1(2,5)]
    by (simp add: pullup_rest_def s'_def)
  moreover have "mb_inv omp s'" using mb_inv_set [OF s1(2,5)] mb_inv_wf [OF s1(2,5)] by (simp add: s'_def)
  moreover have nb: "om2 \<notin> set bs'" using chain(3) s1(3) by simp
  have "mdata s' bs' = mdata s1 bs'" "mchain s' om' bs' = mchain s1 om' bs'"
    using nb by (auto simp: s'_def intro!: mdata_cong mchain_cong)
  then have "mchain s' om2 (om2 # bs')" "mdata s' (om2 # bs') = mseg (mbufs s om2) @ mdata s bs"
    using s1(4-7) mb_inv_nonzero [OF inv live] by (simp_all add: s'_def pulled_def)
  moreover have "mb_frame (insert om2 (set bs)) s s'" using s1(9) by (auto simp: mb_frame_def s'_def)
  moreover have "length (mseg (mbufs s' om2)) = length (mseg (mbufs s om2)) + unat len"
    using s1(6) enough by (simp add: s'_def pulled_def)
  moreover have "OS_MBUF_IS_PKTHDR (mbufs s' om2) = OS_MBUF_IS_PKTHDR (mbufs s om2)"
    "OS_MBUF_IS_PKTHDR (mbufs s om2) \<longrightarrow> pkthdr_len (mbufs s' om2) = pkthdr_len (mbufs s om2)"
    using s1(6) pkthdr_len_cong [of "mbufs s1 om2" "mbufs s om2"]
    by (auto simp: s'_def pulled_def OS_MBUF_IS_PKTHDR_def)
  ultimately show ?thesis by blast
qed

lemma pullup_rest_short:
  assumes inv: "mb_inv omp s" and live: "mb_live s om2" and chain: "mchain s om bs" "bs \<noteq> []" "om2 \<notin> set bs"
    and len: "0 < len" "nat (om_data (mbufs s om2)) + unat (om_len (mbufs s om2)) + unat len \<le> length (om_databuf (mbufs s om2))"
    and short: "length (mdata s bs) < unat len"
  shows "\<exists>s'. pullup_rest om2 om len s = Some (0, s') \<and> mb_inv omp s' \<and> mb_frame (insert om2 (set bs)) s s' \<and>
     mb_free omp s' = om2 # rev bs @ mb_free omp s"
proof -
  note wf = mb_inv_wf [OF inv live]
  from trailingspace_eq [OF wf] obtain sp where sp: "os_mbuf_trailingspace (mbufs s om2) s = Some sp"
    "unat sp = length (om_databuf (mbufs s om2)) - (nat (om_data (mbufs s om2)) + unat (om_len (mbufs s om2)))" by blast
  have fit: "unat len \<le> unat sp" "nat (om_data (mbufs s om2)) + unat (om_len (mbufs s om2)) + unat sp
      \<le> length (om_databuf (mbufs s om2))" using sp(2) len(2) mbuf_wf_nat(3) [OF wf] by linarith+
  from pullup_loop_eq [OF inv live chain len(1) fit] obtain om' len' s1 ds bs' where
    s1: "pullup_loop om2 om len (int (unat sp)) s = Some (om', len', s1)" "mb_inv omp s1" "bs = ds @ bs'"
    "mchain s1 om' bs'" "mb_live s1 om2" "unat len' = unat len - length (mdata s bs)" "0 < len' \<longrightarrow> bs' = []"
    "mb_free omp s1 = rev ds @ mb_free omp s" "mb_frame (insert om2 (set bs)) s s1" by blast
  have pos: "0 < len'" using s1(6) short by (simp add: word_less_nat_alt)
  then have bs': "bs' = []" "om' = 0" "ds = bs" using s1(3,4,7) by auto
  from os_mbuf_free_one [OF s1(2,5)] obtain s2 where
    s2: "os_mbuf_free om2 s1 = Some (OS_OK, s2)" "mb_inv omp s2" "mb_free omp s2 = om2 # mb_free omp s1" "mbufs s2 = mbufs s1"
    "mb_live s2 = (mb_live s1)(om2 := False)" "mbuf_pools s2 = mbuf_pools s1" by blast
  have "os_mbuf_free_chain 0 s2 = Some (OS_OK, s2)" by (subst os_mbuf_free_chain.simps) simp
  then have "pullup_rest om2 om len s = Some (0, s2)"
    using mb_inv_get [OF inv live] sp(1) s1(1) s2(1) pos bs' by (simp add: pullup_rest_def)
  moreover have "mb_frame (insert om2 (set bs)) s s2" using s1(9) s2(4-6) by (auto simp: mb_frame_def)
  ultimately show ?thesis using s2(2,3) s1(8) bs' by auto
qed

lemma mb_free_dead: "mb_inv omp s \<Longrightarrow> a \<in> set (mb_free omp s) \<Longrightarrow> \<not> mb_live s a"
  by (auto simp: mb_inv_def)

lemma pullup_in_place:
  assumes inv: "mb_inv omp s" and chain: "mchain s om (om # bs)" "bs \<noteq> []" and pkt: "pkt_ok s om (om # bs)"
    and len: "om_len (mbufs s om) < len" "nat (om_data (mbufs s om)) + unat len \<le> length (om_databuf (mbufs s om))"
  shows "\<exists>om' s'. pullup_rest om (om_next (mbufs s om)) (len - om_len (mbufs s om)) s = Some (om', s') \<and>
     pullup_result omp s (om # bs) len h om' s'"
proof -
  note c = mchain_cons [OF inv chain(1)]
  have om: "om \<notin> set bs" using mchain_distinct [OF chain(1)] by simp
  have l: "unat (om_len (mbufs s om)) < unat len" using len(1) by (simp add: word_less_nat_alt)
  then have d: "unat (len - om_len (mbufs s om)) = unat len - unat (om_len (mbufs s om))"
    by (simp add: unat_sub word_le_nat_alt)
  have pos: "0 < len - om_len (mbufs s om)" using l d by (simp add: word_less_nat_alt)
  have fit: "nat (om_data (mbufs s om)) + unat (om_len (mbufs s om)) + unat (len - om_len (mbufs s om))
      \<le> length (om_databuf (mbufs s om))" using len(2) l d by linarith
  have seg: "length (mseg (mbufs s om)) = unat (om_len (mbufs s om))" by (rule length_mseg [OF c(5)])
  show ?thesis
  proof (cases "unat (len - om_len (mbufs s om)) \<le> length (mdata s bs)")
    case True
    from pullup_rest_enough [OF inv c(3,6) chain(2) om pos fit True] obtain s' bs' where
      s': "pullup_rest om (om_next (mbufs s om)) (len - om_len (mbufs s om)) s = Some (om, s')" "mb_inv omp s'"
      "mchain s' om (om # bs')" "mdata s' (om # bs') = mdata s (om # bs)" "mb_frame (set (om # bs)) s s'"
      "length (mseg (mbufs s' om)) = length (mseg (mbufs s om)) + unat (len - om_len (mbufs s om))"
      "OS_MBUF_IS_PKTHDR (mbufs s' om) = OS_MBUF_IS_PKTHDR (mbufs s om)"
      "OS_MBUF_IS_PKTHDR (mbufs s om) \<longrightarrow> pkthdr_len (mbufs s' om) = pkthdr_len (mbufs s om)" by auto
    then have "pkt_ok s' om (om # bs')" using pkt by (simp add: pkt_ok_def del: mdata_simps)
    with s' c(2) l d seg show ?thesis
      by (intro exI [of _ om] exI [of _ s']) (auto simp: pullup_result_def simp del: mdata_simps mchain.simps)
  next
    case False
    then have "length (mdata s bs) < unat (len - om_len (mbufs s om))" by simp
    from pullup_rest_short [OF inv c(3,6) chain(2) om pos fit this] obtain s' where
      s': "pullup_rest om (om_next (mbufs s om)) (len - om_len (mbufs s om)) s = Some (0, s')" "mb_inv omp s'"
      "mb_frame (set (om # bs)) s s'" "mb_free omp s' = om # rev bs @ mb_free omp s" by auto
    then show ?thesis using False d seg l mb_free_dead [OF s'(2)]
      by (intro exI [of _ 0] exI [of _ s']) (auto simp: pullup_result_def)
  qed
qed

lemma pullup_fresh:
  assumes inv: "mb_inv omp s" and chain: "mchain s om as" "om \<noteq> 0" and free: "mb_free omp s = a # fs"
    and len: "0 < len" "unat len \<le> unat (omp_databuf_len (mbuf_pools s omp))"
  shows "\<exists>s1 om' s'. os_mbuf_get omp 0 s = (a, s1) \<and> a \<noteq> 0 \<and> pullup_rest a om len s1 = Some (om', s') \<and>
     pullup_result omp s as len h om' s'"
proof -
  from os_mbuf_get_some [OF inv free, of 0] obtain s1 where
    s1: "os_mbuf_get omp 0 s = (a, s1)" "mb_inv omp s1" "\<not> mb_live s a" "a \<noteq> 0"
    "mbufs s1 = (mbufs s)(a := fresh_mbuf omp 0 (mbufs s a))" "mb_live s1 = (mb_live s)(a := True)"
    "mbuf_pools s1 = mbuf_pools s" by auto
  have live: "mb_live s1 a" "mbufs s1 a = fresh_mbuf omp 0 (mbufs s a)" using s1 by simp_all
  have a: "a \<notin> set as" using mchain_live [OF chain(1)] s1(3) by blast
  have ch1: "mchain s1 om as" using chain(1) a mchain_cong [of as s1 s] s1(5,6) by (metis fun_upd_other)
  have d1: "mdata s1 as = mdata s as" using a s1(5) by (intro mdata_cong) auto
  have ne: "as \<noteq> []" using chain by auto
  have fit: "nat (om_data (mbufs s1 a)) + unat (om_len (mbufs s1 a)) + unat len \<le> length (om_databuf (mbufs s1 a))"
    using len(2) mbuf_wf_len [OF mb_inv_wf [OF s1(2) live(1)]] live(2) s1(7) by simp
  have fr: "mb_frame (set as) s s'" if "mb_frame (insert a (set as)) s1 s'" for s'
    using that s1(3,5-7) unfolding mb_frame_def by (metis fun_upd_apply insert_iff)
  show ?thesis
  proof (cases "unat len \<le> length (mdata s1 as)")
    case True
    from pullup_rest_enough [OF s1(2) live(1) ch1 ne a len(1) fit True] obtain s' bs' where
      s': "pullup_rest a om len s1 = Some (a, s')" "mb_inv omp s'" "mchain s' a (a # bs')" "mdata s' (a # bs') = mdata s as"
      "mb_frame (insert a (set as)) s1 s'" "length (mseg (mbufs s' a)) = unat len" "\<not> OS_MBUF_IS_PKTHDR (mbufs s' a)"
      unfolding live(2) d1 by auto
    have "pkt_ok s' a (a # bs')" using s'(7) by (simp add: pkt_ok_def)
    with s' s1(1,4) fr show ?thesis
      by (intro exI [of _ s1] exI [of _ a] exI [of _ s']) (auto simp: pullup_result_def simp del: mdata_simps mchain.simps)
  next
    case False
    then have "length (mdata s1 as) < unat len" by simp
    from pullup_rest_short [OF s1(2) live(1) ch1 ne a len(1) fit this] obtain s' where
      s': "pullup_rest a om len s1 = Some (0, s')" "mb_inv omp s'" "mb_frame (insert a (set as)) s1 s'"
      "mb_free omp s' = a # rev as @ mb_free omp s1" by blast
    have "\<forall>b \<in> set as. \<not> mb_live s' b" using mb_free_dead [OF s'(2)] s'(4) by simp
    with s' False d1 s1(1,4) fr show ?thesis
      by (intro exI [of _ s1] exI [of _ 0] exI [of _ s']) (simp add: pullup_result_def)
  qed
qed

text \<open>
  C23: \<^verbatim>\<open>os_mbuf_pullup\<close> returns a chain with the same bytes whose first mbuf holds the requested number of
  them, with the length in the packet header still right, and touches nothing outside the chain;
  or, when the chain is too short, the request does not fit into an mbuf or the pool is empty, it
  releases the chain and returns a null pointer. A chain with a packet header is covered as long
  as its head has the room.
\<close>

theorem os_mbuf_pullup_spec:
  assumes inv: "mb_inv omp s" and chain: "mchain s om as" "om \<noteq> 0" and pkt: "pkt_ok s om as"
    and hdr: "OS_MBUF_IS_PKTHDR (mbufs s om) \<Longrightarrow> len \<le> om_len (mbufs s om) \<or> om_next (mbufs s om) \<noteq> 0 \<and>
      nat (om_data (mbufs s om)) + unat len \<le> length (om_databuf (mbufs s om))"
  shows "\<exists>om' s'. os_mbuf_pullup om len s = Some (om', s') \<and>
     pullup_result omp s as len (om_pkthdr_len (mbufs s om)) om' s'"
proof -
  let ?m = "mbufs s om"
  obtain bs where as: "as = om # bs" using mchain_hd [OF chain] by blast
  note c = mchain_cons [OF inv chain(1) [unfolded as]]
  from trailingspace_eq [OF c(5)] obtain tsp where tsp: "os_mbuf_trailingspace ?m s = Some tsp"
    "unat tsp = length (om_databuf ?m) - (nat (om_data ?m) + unat (om_len ?m))" by blast
  have pool: "om_omp ?m = Some omp" "length (om_databuf ?m) = unat (omp_databuf_len (mbuf_pools s omp))"
    using c(5) by (simp_all add: mbuf_wf_def)
  have nx: "om_next ?m \<noteq> 0 \<longleftrightarrow> bs \<noteq> []" using c(6) by (cases bs) auto
  have room: "uint len \<le> uint (om_len ?m) + uint tsp \<longleftrightarrow> nat (om_data ?m) + unat len \<le> length (om_databuf ?m)"
    using tsp(2) mbuf_wf_nat(3) [OF c(5)] unfolding uint_nat by linarith
  have free_all: "\<exists>s'. os_mbuf_free_chain om s = Some (OS_OK, s') \<and> pullup_result omp s as len (om_pkthdr_len ?m) 0 s'"
    if "mb_free omp s = [] \<or> unat (omp_databuf_len (mbuf_pools s omp)) < unat len + unat (om_pkthdr_len ?m)"
    using os_mbuf_free_chain_eq [OF inv chain(1)] that by (auto simp: pullup_result_def mb_frame_def)
  consider "len \<le> om_len ?m" | "om_len ?m < len" "nat (om_data ?m) + unat len \<le> length (om_databuf ?m)" "bs \<noteq> []"
    | "om_len ?m < len" "\<not> (nat (om_data ?m) + unat len \<le> length (om_databuf ?m) \<and> bs \<noteq> [])" by fastforce
  then show ?thesis
  proof cases
    case 1
    then have "os_mbuf_pullup om len s = Some (om, s)" using c(4) by (simp add: os_mbuf_pullup_def)
    moreover have "pullup_result omp s as len (om_pkthdr_len ?m) om s"
      using 1 inv chain pkt length_mseg [OF c(5)] by (auto simp: pullup_result_def word_le_nat_alt)
    ultimately show ?thesis by blast
  next
    case 2
    then have "\<not> len \<le> om_len ?m" by (simp add: not_le)
    with 2 have "os_mbuf_pullup om len s = pullup_rest om (om_next ?m) (len - om_len ?m) s"
      using c(4) tsp(1) room nx by (simp add: os_mbuf_pullup_def)
    then show ?thesis using pullup_in_place [OF inv chain(1) [unfolded as] 2(3) pkt [unfolded as] 2(1,2)] as by auto
  next
    case 3
    then have nh: "\<not> OS_MBUF_IS_PKTHDR ?m" using hdr nx by (meson not_le)
    have neg: "\<not> (uint len \<le> uint (om_len ?m) + uint tsp \<and> om_next ?m \<noteq> 0)" using 3(2) room nx by simp
    have big: "uint (omp_databuf_len (mbuf_pools s omp)) - uint (om_pkthdr_len ?m) < uint len \<longleftrightarrow>
        unat (omp_databuf_len (mbuf_pools s omp)) < unat len + unat (om_pkthdr_len ?m)" unfolding uint_nat by linarith
    show ?thesis
    proof (cases "mb_free omp s = [] \<or> unat (omp_databuf_len (mbuf_pools s omp)) < unat len + unat (om_pkthdr_len ?m)")
      case True
      from free_all [OF True] obtain s' where s': "os_mbuf_free_chain om s = Some (OS_OK, s')"
        "pullup_result omp s as len (om_pkthdr_len ?m) 0 s'" by blast
      have "os_mbuf_pullup om len s = Some (0, s')"
        using True 3(1) c(4) tsp(1) neg big pool(1) s'(1) os_mbuf_get_none [OF inv]
        by (auto simp: os_mbuf_pullup_def not_le)
      with s'(2) show ?thesis by blast
    next
      case False
      then obtain a fs where free: "mb_free omp s = a # fs" by (auto simp: neq_Nil_conv)
      have pos: "0 < len" using 3(1) by (metis word_neq_0_conv not_less_zero word_not_simps(1))
      have fit: "unat len \<le> unat (omp_databuf_len (mbuf_pools s omp))" using False by simp
      from pullup_fresh [OF inv chain free pos fit, of "om_pkthdr_len ?m"] obtain s1 om' s' where
        s': "os_mbuf_get omp 0 s = (a, s1)" "a \<noteq> 0" "pullup_rest a om len s1 = Some (om', s')"
        "pullup_result omp s as len (om_pkthdr_len ?m) om' s'" by blast
      then have "os_mbuf_pullup om len s = Some (om', s')"
        using False 3(1) c(4) tsp(1) big pool(1) nh by (simp add: os_mbuf_pullup_def if_not_P [OF neg] not_le [symmetric])
      with s'(4) show ?thesis by blast
    qed
  qed
qed

theorem os_mbuf_pullup_spec_witness:
  "\<exists>om' s'. os_mbuf_pullup 0x1000 2 demo_mb = Some (om', s') \<and> pullup_result 0 demo_mb [0x1000] 2 8 om' s'"
  using os_mbuf_pullup_spec [OF demo_mb_facts(1,2) _ demo_pkt_ok, of 2] by (simp add: demo_mb_fields)

subsection \<open>Joining and extending\<close>

lemma chain_len_loop_eq:
  "mb_inv omp s \<Longrightarrow> mchain s p as \<Longrightarrow> chain_len_loop p n s = Some (n + of_nat (length (mdata s as)))"
proof (induction as arbitrary: p n)
  case Nil then show ?case by (subst chain_len_loop.simps) simp
next
  case (Cons a as)
  note c = mchain_cons [OF Cons.prems]
  have "om_len (mbufs s a) = of_nat (length (mseg (mbufs s a)))" using length_mseg [OF c(5)] by simp
  with Cons.IH [OF Cons.prems(1) c(6), of "n + om_len (mbufs s a)"] c(1,2,4) show ?case
    by (subst chain_len_loop.simps) (simp add: add.assoc)
qed

text \<open>\<^verbatim>\<open>os_mbuf_concat\<close> joins two chains and adds up their lengths.\<close>

lemma os_mbuf_concat_joins:
  assumes inv: "mb_inv omp s" and c1: "mchain s om as" "om \<noteq> 0" "pkt_ok s om as"
    and c2: "mchain s om2 bs" "om2 \<noteq> 0" "pkt_ok s om2 bs" and disj: "set as \<inter> set bs = {}"
  shows "\<exists>s'. os_mbuf_concat om om2 s = Some s' \<and> mb_inv omp s' \<and> mchain s' om (as @ bs) \<and>
     mdata s' (as @ bs) = mdata s as @ mdata s bs \<and> pkt_ok s' om (as @ bs) \<and> mb_frame (set (as @ bs)) s s'"
proof -
  from mchain_last [OF c1(1,2)] obtain xs l where as: "as = xs @ [l]" "mbuf_last om s = Some l"
    and live: "mb_live s om" "mb_live s l" "om_next (mbufs s l) = 0" "l \<notin> set xs" "om \<in> set as" .
  have live2: "mb_live s om2" "om2 \<in> set bs" using mchain_head [OF c2(1,2)] by auto
  define s1 where "s1 = mb_set l ((mbufs s l)\<lparr>om_next := om2\<rparr>) s"
  have wfl: "mbuf_wf omp s ((mbufs s l)\<lparr>om_next := om2\<rparr>)" using mb_inv_wf [OF inv live(2)] by simp
  have nl: "l \<notin> set bs" using disj as(1) by auto
  have "mchain s1 om2 bs = mchain s om2 bs" by (rule mchain_cong) (use nl in \<open>auto simp: s1_def\<close>)
  then have bs1: "mchain s1 om2 bs" "mdata s1 ys = mdata s ys" for ys using c2(1) by (simp_all add: s1_def mdata_set)
  have s1: "mb_inv omp s1" "mb_live s1 om" "mb_live s1 om2" "mbufs s1 om2 = mbufs s om2"
    "OS_MBUF_IS_PKTHDR (mbufs s1 om) = OS_MBUF_IS_PKTHDR (mbufs s om)" "pkthdr_len (mbufs s1 om) = pkthdr_len (mbufs s om)"
    using mb_inv_set [OF inv live(2) wfl] live live2 nl by (auto simp: s1_def)
  have ch1: "mchain s1 om (as @ bs)"
  proof -
    have "mb_live s1 a \<and> om_next (mbufs s1 a) = om_next (mbufs s a)" if "a \<in> set xs" for a
      using that live(4) mchain_live [OF c1(1)] as(1) by (auto simp: s1_def)
    moreover have "mb_live s1 l" "mchain s1 (om_next (mbufs s1 l)) bs" using live(2) bs1(1) by (simp_all add: s1_def)
    ultimately show ?thesis using mchain_relink [OF c1(1) [unfolded as(1)]] as(1) by simp
  qed
  let ?n = "of_nat (length (mdata s bs)) :: u16"
  from upd_pkthdr_ok [OF s1(1,2), of "\<lambda>k. k + ?n"] obtain s2 where
    s2: "upd_pkthdr_len om (\<lambda>k. k + ?n) s1 = Some s2" "mb_inv omp s2" "\<forall>p as. mchain s2 p as = mchain s1 p as"
    "\<forall>as. mdata s2 as = mdata s1 as" "mb_live s2 = mb_live s1" "mb_frame {om} s1 s2"
    "OS_MBUF_IS_PKTHDR (mbufs s2 om) = OS_MBUF_IS_PKTHDR (mbufs s1 om)"
    "OS_MBUF_IS_PKTHDR (mbufs s1 om) \<longrightarrow> pkthdr_len (mbufs s2 om) = map_option (\<lambda>k. k + ?n) (pkthdr_len (mbufs s1 om))"
    by blast
  define s' where "s' = mb_set om2 ((mbufs s2 om2)\<lparr>om_pkthdr_len := 0\<rparr>) s2"
  have live': "mb_live s2 om2" using s1(3) s2(5) by simp
  have "mbuf_wf omp s2 ((mbufs s2 om2)\<lparr>om_pkthdr_len := 0\<rparr>)"
    using mb_inv_wf [OF s2(2) live'] mbuf_wf_nat [OF mb_inv_wf [OF s2(2) live']] by (intro mbuf_wfI)
      (simp_all add: mbuf_wf_def startoff_def OS_MBUF_IS_PKTHDR_def sizeof_os_mbuf_pkthdr_def)
  then have inv': "mb_inv omp s'" unfolding s'_def by (rule mb_inv_set [OF s2(2) live'])
  have run: "os_mbuf_concat om om2 s = Some s'"
  proof (cases "OS_MBUF_IS_PKTHDR (mbufs s om)")
    case True
    have "(if OS_MBUF_IS_PKTHDR (mbufs s om2) then pkthdr_len (mbufs s om2) else chain_len_loop om2 0 s1) = Some ?n"
      using c2(3) chain_len_loop_eq [OF s1(1) bs1(1), of 0] bs1(2) by (simp add: pkt_ok_def)
    then show ?thesis using True as(2) mb_inv_get [OF inv live(2)] mb_inv_get [OF s1(1,2)] mb_inv_get [OF s1(1,3)]
      s1(4,5) s2(1) mb_inv_get [OF s2(2) live'] by (simp add: os_mbuf_concat_def s1_def [symmetric] s'_def)
  next
    case False
    then have "s2 = s1" using s2(1) s1(5) mb_inv_get [OF s1(1,2)] by (simp add: upd_pkthdr_len_def)
    then show ?thesis using False as(2) mb_inv_get [OF inv live(2)] mb_inv_get [OF s1(1,2)] s1(5)
      mb_inv_get [OF s2(2) live'] by (simp add: os_mbuf_concat_def s1_def [symmetric] s'_def)
  qed
  have d': "mdata s' ys = mdata s ys" for ys using s2(4) bs1(2) by (simp add: s'_def mdata_set)
  have ne: "om \<noteq> om2" using disj live(5) live2(2) by auto
  then have "pkt_ok s' om (as @ bs)"
    using s2(7,8) s1(5,6) c1(3) d' by (auto simp: pkt_ok_def s'_def)
  moreover have "mb_frame (set (as @ bs)) s s1" using as(1) by (auto simp: mb_frame_def s1_def)
  then have "mb_frame (set (as @ bs)) s s'"
    using s2(6) live(5) live2(2) by (auto simp: mb_frame_def s'_def)
  moreover have "mchain s' om (as @ bs)" using ch1 s2(3) by (simp add: s'_def mchain_set)
  ultimately show ?thesis using run inv' d' by auto
qed

subsection \<open>Defects\<close>

lemmas [code] = os_mbuf_free_chain.simps mbuf_last.simps os_mbuf_append_loop.simps os_mbuf_dup_loop.simps
  os_mbuf_off.simps copyinto_loop.simps pullup_loop.simps

text \<open>
  Copying a packet drops its header: the copy of the packet above is not a packet, and its data
  lies where the header was.
\<close>

lemma os_mbuf_dup_drops_header:
  "case os_mbuf_dup 0x1000 demo_mb of Some (a, s') \<Rightarrow> a \<noteq> 0 \<and> \<not> OS_MBUF_IS_PKTHDR (mbufs s' a) \<and>
     om_data (mbufs s' a) = 0 \<and> take 2 (om_databuf (mbufs s' a)) = [11, 22] | None \<Rightarrow> False"
  by code_simp

text \<open>A pullup into a fresh mbuf loses the header in the same way.\<close>

lemma os_mbuf_pullup_drops_header:
  "case os_mbuf_append 0x1000 [1, 2, 3, 4] 4 demo_mb of None \<Rightarrow> False | Some (_, s) \<Rightarrow>
   (case os_mbuf_pullup 0x1000 4 (mb_set 0x1000 ((mbufs s 0x1000)\<lparr>om_data := 9, om_len := 3\<rparr>) s) of None \<Rightarrow> False | Some (a, s') \<Rightarrow>
      a \<noteq> 0 \<and> OS_MBUF_IS_PKTHDR (mbufs s 0x1000) \<and> \<not> OS_MBUF_IS_PKTHDR (mbufs s' a))"
  by code_simp

text \<open>
  When \<^verbatim>\<open>os_mbuf_copyinto\<close> crosses into a second mbuf it keeps the offset of the first: of the two bytes
  below the second one lands three bytes too late.
\<close>

lemma os_mbuf_copyinto_misplaces:
  "case os_mbuf_append 0x1000 [1, 2, 3, 4, 5, 6, 7, 8] 8 demo_mb of None \<Rightarrow> False | Some (_, s) \<Rightarrow>
   (case os_mbuf_copyinto 0x1000 3 [100, 101] s of None \<Rightarrow> False | Some (rc, s') \<Rightarrow>
      rc = 0 \<and> mdata s [0x1000, 0x101C] = [11, 22, 1, 2, 3, 4, 5, 6, 7, 8] \<and>
      mdata s' [0x1000, 0x101C] = [11, 22, 1, 100, 3, 4, 5, 101, 7, 8])"
  by code_simp

end
