(* ===== verification/Os_Queues.thy ===== *)
theory Os_Queues
  imports Os_Eventq Os_Mbuf
begin

text \<open>
  The two packet queues built on event queues: the mbuf queues of \<^verbatim>\<open>libs/os/src/os_mbuf.c\<close> and the task
  packet queues of \<^verbatim>\<open>libs/util/src/tpq.c\<close>. Each pairs a list of packets with one event that tells the
  consumer there is something to take. Both meet the contract of a first-in first-out queue.
\<close>

subsection \<open>Mbuf queues\<close>

record os_mqueue =
  mq_head :: "u32 list"
  mq_ev :: nat

record mq_state =
  mq_os :: os_state
  mq_mb :: mb_state
  mqueues :: "nat \<Rightarrow> os_mqueue"

definition OS_EVENT_T_MQUEUE_DATA :: u8 where "OS_EVENT_T_MQUEUE_DATA = 2"

definition os_mqueue_init :: "nat \<Rightarrow> nat \<Rightarrow> mq_state \<Rightarrow> mq_state" where
  "os_mqueue_init q arg s = s\<lparr>
     mqueues := (mqueues s)(q := (mqueues s q)\<lparr>mq_head := []\<rparr>),
     mq_os := upd_event (mq_ev (mqueues s q))
       (\<lambda>_. \<lparr>ev_queued = 0, ev_type = OS_EVENT_T_MQUEUE_DATA, ev_arg = arg\<rparr>) (mq_os s)\<rparr>"

definition os_mqueue_get :: "nat \<Rightarrow> mq_state \<Rightarrow> u32 \<times> mq_state" where
  "os_mqueue_get q s =
     (case mq_head (mqueues s q) of
        [] \<Rightarrow> (0, s)
      | m # ms \<Rightarrow> (m, s\<lparr>mqueues := (mqueues s)(q := (mqueues s q)\<lparr>mq_head := ms\<rparr>)\<rparr>))"

text \<open>Linking a packet that is on the queue already corrupts the list.\<close>

definition os_mqueue_put :: "nat \<Rightarrow> nat option \<Rightarrow> u32 \<Rightarrow> mq_state \<Rightarrow> (os_error \<times> mq_state) option" where
  "os_mqueue_put q evq m s = do {
     b \<leftarrow> mb_get m (mq_mb s);
     if \<not> OS_MBUF_IS_PKTHDR b then Some (OS_EINVAL, s)
     else if m \<in> set (mq_head (mqueues s q)) then None
     else do {
       let s1 = s\<lparr>mqueues := (mqueues s)(q := (mqueues s q)\<lparr>mq_head := mq_head (mqueues s q) @ [m]\<rparr>)\<rparr>;
       case evq of
         None \<Rightarrow> Some (OS_OK, s1)
       | Some e \<Rightarrow> do {
           k \<leftarrow> os_eventq_put e (mq_ev (mqueues s q)) (mq_os s1);
           Some (OS_OK, s1\<lparr>mq_os := k\<rparr>)
         }
     }
   }"

subsection \<open>Task packet queues\<close>

record tpq =
  tpq_head :: "nat list"
  tpq_ev :: nat

record tpq_state =
  tpq_os :: os_state
  tpqs :: "nat \<Rightarrow> tpq"

definition tpq_put :: "nat \<Rightarrow> nat \<Rightarrow> nat \<Rightarrow> tpq_state \<Rightarrow> tpq_state option" where
  "tpq_put evq q elem s =
     (if elem \<in> set (tpq_head (tpqs s q)) then None
      else do {
        let s1 = s\<lparr>tpqs := (tpqs s)(q := (tpqs s q)\<lparr>tpq_head := tpq_head (tpqs s q) @ [elem]\<rparr>)\<rparr>;
        k \<leftarrow> os_eventq_put evq (tpq_ev (tpqs s q)) (tpq_os s1);
        Some (s1\<lparr>tpq_os := k\<rparr>)
      })"

definition tpq_get :: "nat \<Rightarrow> tpq_state \<Rightarrow> nat option \<times> tpq_state" where
  "tpq_get q s =
     (case tpq_head (tpqs s q) of
        [] \<Rightarrow> (None, s)
      | x # xs \<Rightarrow> (Some x, s\<lparr>tpqs := (tpqs s)(q := (tpqs s q)\<lparr>tpq_head := xs\<rparr>)\<rparr>))"

definition tpq_init :: "nat \<Rightarrow> u8 \<Rightarrow> nat \<Rightarrow> tpq_state \<Rightarrow> tpq_state" where
  "tpq_init q ty arg s = s\<lparr>
     tpqs := (tpqs s)(q := (tpqs s q)\<lparr>tpq_head := []\<rparr>),
     tpq_os := upd_event (tpq_ev (tpqs s q)) (\<lambda>v. v\<lparr>ev_arg := arg, ev_type := ty, ev_queued := 0\<rparr>) (tpq_os s)\<rparr>"

subsection \<open>The queues as first-in first-out queues\<close>

definition mqueue_give :: "nat \<Rightarrow> nat option \<Rightarrow> u32 \<Rightarrow> mq_state \<Rightarrow> mq_state option" where
  "mqueue_give q evq m s = do { (rc, s') \<leftarrow> os_mqueue_put q evq m s; if rc = OS_OK then Some s' else None }"

definition mqueue_take :: "nat \<Rightarrow> mq_state \<Rightarrow> (u32 \<times> mq_state) option" where
  "mqueue_take q s = (let (m, s') = os_mqueue_get q s in if m = 0 then None else Some (m, s'))"

definition tpq_take :: "nat \<Rightarrow> tpq_state \<Rightarrow> (nat \<times> tpq_state) option" where
  "tpq_take q s = (case tpq_get q s of (None, _) \<Rightarrow> None | (Some x, s') \<Rightarrow> Some (x, s'))"

subsection \<open>Lemmas\<close>

text \<open>The event of a queue is pending on \<open>evq\<close> after any put, whether it was before or not.\<close>

lemma os_eventq_put_pending:
  assumes inv: "os_inv idle s" and ev: "evq_inv s"
    and own: "OS_EVENT_QUEUED s e \<Longrightarrow> e \<in> set (evq_list (os_eventqs s evq))"
  shows "\<exists>s'. os_eventq_put evq e s = Some s' \<and> os_inv idle s' \<and> evq_inv s' \<and> e \<in> set (evq_list (os_eventqs s' evq))"
  using os_eventq_put2_posts [OF isr_inv_os_inv [OF inv] ev, of evq e False] own inv
  by (auto simp: os_eventq_put_def os_inv_isr split: if_splits)

interpretation mqueue: fifo
  "\<lambda>s. os_inv idle (mq_os s) \<and> evq_inv (mq_os s) \<and> 0 \<notin> set (mq_head (mqueues s q))"
  "\<lambda>s. mq_head (mqueues s q)"
  "\<lambda>s m. m \<notin> set (mq_head (mqueues s q)) \<and> (\<exists>b. mb_get m (mq_mb s) = Some b \<and> OS_MBUF_IS_PKTHDR b)"
  "mqueue_give q evq" "mqueue_take q" for idle q evq
proof
  fix s :: mq_state and m
  assume s: "os_inv idle (mq_os s) \<and> evq_inv (mq_os s) \<and> 0 \<notin> set (mq_head (mqueues s q))"
    and m: "m \<notin> set (mq_head (mqueues s q)) \<and> (\<exists>b. mb_get m (mq_mb s) = Some b \<and> OS_MBUF_IS_PKTHDR b)"
  from m have m0: "m \<noteq> 0" by (auto simp: mb_get_def split: if_splits)
  have post: "\<exists>k. os_eventq_put e (mq_ev (mqueues s q)) (mq_os s) = Some k \<and> os_inv idle k \<and> evq_inv k" for e
    using os_eventq_put2_posts [OF isr_inv_os_inv, of idle "mq_os s" e "mq_ev (mqueues s q)" False] s
    by (auto simp: os_eventq_put_def os_inv_isr)
  have "\<exists>k. os_inv idle k \<and> evq_inv k \<and>
      (case evq of None \<Rightarrow> Some (mq_os s) | Some e \<Rightarrow> os_eventq_put e (mq_ev (mqueues s q)) (mq_os s)) = Some k"
    using s post [of "the evq"] by (cases evq) auto
  then obtain k where k: "os_inv idle k" "evq_inv k"
    "(case evq of None \<Rightarrow> Some (mq_os s) | Some e \<Rightarrow> os_eventq_put e (mq_ev (mqueues s q)) (mq_os s)) = Some k" by blast
  then have "mqueue_give q evq m s =
      Some (s\<lparr>mqueues := (mqueues s)(q := (mqueues s q)\<lparr>mq_head := mq_head (mqueues s q) @ [m]\<rparr>), mq_os := k\<rparr>)"
    using m by (cases evq) (auto simp: mqueue_give_def os_mqueue_put_def Let_def)
  then show "\<exists>s'. mqueue_give q evq m s = Some s' \<and>
      (os_inv idle (mq_os s') \<and> evq_inv (mq_os s') \<and> 0 \<notin> set (mq_head (mqueues s' q))) \<and>
      mq_head (mqueues s' q) = mq_head (mqueues s q) @ [m] \<and>
      (\<forall>y. y \<noteq> m \<longrightarrow> (y \<notin> set (mq_head (mqueues s q)) \<and> (\<exists>b. mb_get y (mq_mb s) = Some b \<and> OS_MBUF_IS_PKTHDR b)) \<longrightarrow>
        y \<notin> set (mq_head (mqueues s' q)) \<and> (\<exists>b. mb_get y (mq_mb s') = Some b \<and> OS_MBUF_IS_PKTHDR b))"
    using s m0 k(1,2) by simp
qed (auto simp: mqueue_take_def os_mqueue_get_def)

interpretation tpq: fifo "\<lambda>s. os_inv idle (tpq_os s) \<and> evq_inv (tpq_os s)" "\<lambda>s. tpq_head (tpqs s q)"
  "\<lambda>s x. x \<notin> set (tpq_head (tpqs s q))" "tpq_put evq q" "tpq_take q" for idle evq q
proof
  fix s :: tpq_state and x
  assume s: "os_inv idle (tpq_os s) \<and> evq_inv (tpq_os s)" and x: "x \<notin> set (tpq_head (tpqs s q))"
  have "\<exists>k. os_eventq_put evq (tpq_ev (tpqs s q)) (tpq_os s) = Some k \<and> os_inv idle k \<and> evq_inv k"
    using os_eventq_put2_posts [OF isr_inv_os_inv, of idle "tpq_os s" evq "tpq_ev (tpqs s q)" False] s
    by (auto simp: os_eventq_put_def os_inv_isr)
  then show "\<exists>s'. tpq_put evq q x s = Some s' \<and> (os_inv idle (tpq_os s') \<and> evq_inv (tpq_os s')) \<and>
      tpq_head (tpqs s' q) = tpq_head (tpqs s q) @ [x] \<and>
      (\<forall>y. y \<noteq> x \<longrightarrow> y \<notin> set (tpq_head (tpqs s q)) \<longrightarrow> y \<notin> set (tpq_head (tpqs s' q)))"
    using x by (auto simp: tpq_put_def Let_def)
qed (auto simp: tpq_take_def tpq_get_def)

lemma mqueue_give_pending:
  assumes "mqueue_give q (Some evq) m s = Some s'" "os_inv idle (mq_os s)" "evq_inv (mq_os s)"
    "OS_EVENT_QUEUED (mq_os s) (mq_ev (mqueues s q)) \<Longrightarrow> mq_ev (mqueues s q) \<in> set (evq_list (os_eventqs (mq_os s) evq))"
  shows "mq_ev (mqueues s' q) \<in> set (evq_list (os_eventqs (mq_os s') evq)) \<and> mq_ev (mqueues s' q) = mq_ev (mqueues s q)"
  using os_eventq_put_pending [OF assms(2-4)] assms(1)
  by (auto simp: mqueue_give_def os_mqueue_put_def Let_def split: if_splits bind_splits)

lemma mqueue_put_all_pending:
  "ms \<noteq> [] \<Longrightarrow> put_all (mqueue_give q (Some evq)) ms s = Some s' \<Longrightarrow> os_inv idle (mq_os s) \<Longrightarrow> evq_inv (mq_os s) \<Longrightarrow>
   0 \<notin> set (mq_head (mqueues s q)) \<Longrightarrow> distinct ms \<Longrightarrow>
   \<forall>m \<in> set ms. m \<notin> set (mq_head (mqueues s q)) \<and> (\<exists>b. mb_get m (mq_mb s) = Some b \<and> OS_MBUF_IS_PKTHDR b) \<Longrightarrow>
   (OS_EVENT_QUEUED (mq_os s) (mq_ev (mqueues s q)) \<longrightarrow> mq_ev (mqueues s q) \<in> set (evq_list (os_eventqs (mq_os s) evq))) \<Longrightarrow>
   mq_ev (mqueues s' q) \<in> set (evq_list (os_eventqs (mq_os s') evq))"
proof (induction ms arbitrary: s)
  case (Cons m ms)
  from mqueue.put_law [of idle s q m "Some evq"] Cons.prems obtain s1 where
    s1: "mqueue_give q (Some evq) m s = Some s1" "os_inv idle (mq_os s1)" "evq_inv (mq_os s1)" "0 \<notin> set (mq_head (mqueues s1 q))"
    "\<forall>y. y \<noteq> m \<longrightarrow> (y \<notin> set (mq_head (mqueues s q)) \<and> (\<exists>b. mb_get y (mq_mb s) = Some b \<and> OS_MBUF_IS_PKTHDR b)) \<longrightarrow>
        y \<notin> set (mq_head (mqueues s1 q)) \<and> (\<exists>b. mb_get y (mq_mb s1) = Some b \<and> OS_MBUF_IS_PKTHDR b)"
    by auto
  have ev: "mq_ev (mqueues s1 q) \<in> set (evq_list (os_eventqs (mq_os s1) evq))"
    using mqueue_give_pending [OF s1(1)] Cons.prems by blast
  show ?case
  proof (cases "ms = []")
    case True
    then show ?thesis using Cons.prems(2) s1(1) ev by simp
  next
    case False
    have "\<forall>y \<in> set ms. y \<notin> set (mq_head (mqueues s1 q)) \<and> (\<exists>b. mb_get y (mq_mb s1) = Some b \<and> OS_MBUF_IS_PKTHDR b)"
      using s1(5) Cons.prems(6,7) by auto
    then show ?thesis using Cons.IH [OF False _ s1(2-4)] Cons.prems(2,6) s1(1) ev by simp
  qed
qed simp

text \<open>
  C24: packets put on an mbuf queue leave an event of the queue pending for the consumer, and the
  consumer then takes all packets off the queue in the order in which they were put, behind the
  ones that were there before.
\<close>

theorem os_mqueue_delivers:
  assumes inv: "os_inv idle (mq_os s)" "evq_inv (mq_os s)" and nz: "0 \<notin> set (mq_head (mqueues s q))"
    and ms: "ms \<noteq> []" "distinct ms"
      "\<forall>m \<in> set ms. m \<notin> set (mq_head (mqueues s q)) \<and> (\<exists>b. mb_get m (mq_mb s) = Some b \<and> OS_MBUF_IS_PKTHDR b)"
    and own: "OS_EVENT_QUEUED (mq_os s) (mq_ev (mqueues s q)) \<longrightarrow>
      mq_ev (mqueues s q) \<in> set (evq_list (os_eventqs (mq_os s) evq))"
  shows "\<exists>s1 s2. put_all (mqueue_give q (Some evq)) ms s = Some s1 \<and>
     mq_ev (mqueues s1 q) \<in> set (evq_list (os_eventqs (mq_os s1) evq)) \<and>
     get_n (mqueue_take q) (length (mq_head (mqueues s q)) + length ms) s1 = Some (mq_head (mqueues s q) @ ms, s2) \<and>
     os_mqueue_get q s2 = (0, s2)"
proof -
  from mqueue.fifo_order [of idle s q ms "Some evq"] inv nz ms obtain s1 s2 where
    s: "put_all (mqueue_give q (Some evq)) ms s = Some s1"
    "get_n (mqueue_take q) (length (mq_head (mqueues s q)) + length ms) s1 = Some (mq_head (mqueues s q) @ ms, s2)"
    "mq_head (mqueues s2 q) = []" by auto
  with mqueue_put_all_pending [OF ms(1) s(1) inv nz ms(2,3) own] show ?thesis by (auto simp: os_mqueue_get_def)
qed

theorem os_mqueue_delivers_witness:
  "\<exists>s1 s2. put_all (mqueue_give 0 (Some 0)) [0x1000]
       \<lparr>mq_os = sample_os, mq_mb = demo_mb, mqueues = (\<lambda>_. \<lparr>mq_head = [], mq_ev = 7\<rparr>)\<rparr> = Some s1 \<and>
     7 \<in> set (evq_list (os_eventqs (mq_os s1) 0)) \<and> get_n (mqueue_take 0) 1 s1 = Some ([0x1000], s2)"
proof -
  let ?s = "\<lparr>mq_os = sample_os, mq_mb = demo_mb, mqueues = (\<lambda>_. \<lparr>mq_head = [], mq_ev = 7\<rparr>)\<rparr>"
  have "\<not> OS_EVENT_QUEUED sample_os 7" by (simp add: sample_os_def OS_EVENT_QUEUED_def)
  moreover have "mb_get 0x1000 demo_mb = Some (mbufs demo_mb 0x1000)" "OS_MBUF_IS_PKTHDR (mbufs demo_mb 0x1000)"
    by (simp_all add: mb_get_def demo_mb_fields OS_MBUF_IS_PKTHDR_def sizeof_os_mbuf_pkthdr_def)
  moreover have "mq_ev (mqueues s1 0) = 7" if "put_all (mqueue_give 0 (Some 0)) [0x1000] ?s = Some s1" for s1
    using that by (auto simp: mqueue_give_def os_mqueue_put_def Let_def split: if_splits bind_splits)
  ultimately show ?thesis
    using os_mqueue_delivers [of 0 ?s 0 "[0x1000]" 0] os_inv_sample evq_inv_sample
    by (auto simp del: get_n.simps put_all.simps)
qed

text \<open>Task packet queues keep the same promise.\<close>

lemma tpq_fifo:
  assumes "os_inv idle (tpq_os s)" "evq_inv (tpq_os s)" "distinct xs" "\<forall>x \<in> set xs. x \<notin> set (tpq_head (tpqs s q))"
  shows "\<exists>s1 s2. put_all (tpq_put evq q) xs s = Some s1 \<and>
     get_n (tpq_take q) (length (tpq_head (tpqs s q)) + length xs) s1 = Some (tpq_head (tpqs s q) @ xs, s2) \<and>
     tpq_get q s2 = (None, s2)"
proof -
  from tpq.fifo_order [of idle s xs q evq] assms obtain s1 s2 where "put_all (tpq_put evq q) xs s = Some s1"
    "get_n (tpq_take q) (length (tpq_head (tpqs s q)) + length xs) s1 = Some (tpq_head (tpqs s q) @ xs, s2)"
    "tpq_head (tpqs s2 q) = []" by auto
  then show ?thesis by (auto simp: tpq_get_def)
qed

end
