(* ===== verification/Util_Base64.thy ===== *)
theory Util_Base64
  imports Mynewt_Prelude
begin

text \<open>
  Base64, \<^verbatim>\<open>libs/util/src/base64.c\<close>. The encoder is a function from bytes to the characters it
  writes, the decoder one from characters to the bytes it writes, or its error. Decoding what
  the encoder wrote gives the bytes back, with the padding of the encoder or with the one that
  \<^verbatim>\<open>base64_pad\<close> adds later.
\<close>

subsection \<open>base64.c\<close>

definition base64_chars :: string where
  "base64_chars = ''ABCDEFGHIJKLMNOPQRSTUVWXYZabcdefghijklmnopqrstuvwxyz0123456789+/''"

fun pos_from :: "string \<Rightarrow> char \<Rightarrow> int \<Rightarrow> int" where
  "pos_from [] c k = -1"
| "pos_from (p # ps) c k = (if p = c then k else pos_from ps c (k + 1))"

definition pos :: "char \<Rightarrow> int" where
  "pos c = pos_from base64_chars c 0"

text \<open>One round of the encoding loop; bytes past the end of the data count as zero.\<close>

definition encode_block :: "u8 \<Rightarrow> u8 \<Rightarrow> u8 \<Rightarrow> string" where
  "encode_block q0 q1 q2 =
     (let c = (uint q0 * 256 + uint q1) * 256 + uint q2 in
      [base64_chars ! nat (drop_bit 18 (c AND 0x00fc0000)),
       base64_chars ! nat (drop_bit 12 (c AND 0x0003f000)),
       base64_chars ! nat (drop_bit 6 (c AND 0x00000fc0)),
       base64_chars ! nat (drop_bit 0 (c AND 0x0000003f))])"

text \<open>The whole loop: the characters and how far \<^verbatim>\<open>i\<close> ends past \<^verbatim>\<open>size\<close>.\<close>

fun encode_loop :: "u8 list \<Rightarrow> string \<times> nat" where
  "encode_loop [] = ([], 0)"
| "encode_loop [a] = (encode_block a 0 0, 2)"
| "encode_loop [a, b] = (encode_block a b 0, 1)"
| "encode_loop (a # b # c # rest) = (let (cs, diff) = encode_loop rest in (encode_block a b c @ cs, diff))"

definition base64_encode :: "u8 list \<Rightarrow> bool \<Rightarrow> string" where
  "base64_encode data should_pad =
     (let (cs, diff) = encode_loop data;
          kept = take (length cs - diff) cs
      in if should_pad then kept @ replicate diff (CHR ''='') else kept)"

definition base64_pad :: "nat \<Rightarrow> string" where
  "base64_pad len = (let remainder = len mod 4 in if remainder = 0 then [] else replicate (4 - remainder) (CHR ''=''))"

definition DECODE_ERROR :: u32 where "DECODE_ERROR = -1"

text \<open>The loop of \<^verbatim>\<open>token_decode\<close> over the four characters; \<open>None\<close> is its early return.\<close>

fun token_loop :: "string \<Rightarrow> u32 \<Rightarrow> nat \<Rightarrow> (u32 \<times> nat) option" where
  "token_loop [] val marker = Some (val, marker)"
| "token_loop (t # ts) val marker =
     (if t = CHR ''='' then token_loop ts (val * 64) (marker + 1)
      else if 0 < marker then None
      else token_loop ts (val * 64 + of_int (pos t)) marker)"

definition token_decode :: "string \<Rightarrow> u32" where
  "token_decode token =
     (if length token < 4 then DECODE_ERROR
      else case token_loop (take 4 token) 0 0 of
        None \<Rightarrow> DECODE_ERROR
      | Some (val, marker) \<Rightarrow> if 2 < marker then DECODE_ERROR else push_bit 24 (of_nat marker) OR val)"

text \<open>Whether all tokens were good, and the bytes written.\<close>

function decode_loop :: "string \<Rightarrow> bool \<times> u8 list" where
  "decode_loop p =
     (if p = [] \<or> \<not> (hd p = CHR ''='' \<or> hd p \<in> set base64_chars) then (True, [])
      else
        let val = token_decode p;
            marker = drop_bit 24 val AND 0xff
        in if val = DECODE_ERROR then (False, [])
           else let (ok, q) = decode_loop (drop 4 p) in
             (ok, [ucast (drop_bit 16 val AND 0xff)] @
               (if marker < 2 then [ucast (drop_bit 8 val AND 0xff)] else []) @
               (if marker < 1 then [ucast (val AND 0xff)] else []) @ q))"
  by pat_completeness auto
termination by (relation "measure length") auto

definition base64_decode :: "string \<Rightarrow> int \<times> u8 list" where
  "base64_decode str = (let (ok, q) = decode_loop str in (if ok then int (length q) else -1, q))"

definition BASE64_ENCODE_SIZE :: "nat \<Rightarrow> nat" where
  "BASE64_ENCODE_SIZE sz = sz * (4 div 3) + 4"

definition triple :: "u8 \<Rightarrow> u8 \<Rightarrow> u8 \<Rightarrow> nat" where
  "triple a b c = (unat a * 256 + unat b) * 256 + unat c"

subsection \<open>Lemmas\<close>

declare decode_loop.simps [simp del]

lemma length_base64_chars [simp]: "length base64_chars = 64"
  by (simp add: base64_chars_def)

lemma pos_from_nth: "distinct cs \<Longrightarrow> k < length cs \<Longrightarrow> pos_from cs (cs ! k) n = n + int k"
proof (induction cs arbitrary: k n)
  case (Cons c cs)
  then show ?case by (cases k) (auto simp: in_set_conv_nth)
qed simp

lemma distinct_base64_chars: "distinct base64_chars"
  by (simp add: base64_chars_def)

lemma eq_not_base64: "CHR ''='' \<notin> set base64_chars"
  by (simp add: base64_chars_def)

lemma pos_nth [simp]: "k < 64 \<Longrightarrow> pos (base64_chars ! k) = int k"
  using pos_from_nth [OF distinct_base64_chars] by (simp add: pos_def)

lemma nth_not_eq [simp]: "k < 64 \<Longrightarrow> base64_chars ! k \<noteq> CHR ''=''"
  using eq_not_base64 nth_mem [of k base64_chars] by fastforce

lemma and_63: "(x :: int) AND 63 = x mod 64"
  using take_bit_eq_mask [of 6 x] by (simp add: take_bit_eq_mod mask_eq_exp_minus_1)

lemma index_bits:
  "nat (drop_bit 18 (int n AND 0x00fc0000)) = n div 262144 mod 64"
  "nat (drop_bit 12 (int n AND 0x0003f000)) = n div 4096 mod 64"
  "nat (drop_bit 6 (int n AND 0x00000fc0)) = n div 64 mod 64"
  "nat (drop_bit 0 (int n AND 0x0000003f)) = n mod 64"
  unfolding drop_bit_and by (simp_all add: drop_bit_eq_div and_63 nat_mod_distrib nat_div_distrib)

lemma encode_block_eq:
  "encode_block a b c = map (\<lambda>k. base64_chars ! k)
     [triple a b c div 262144 mod 64, triple a b c div 4096 mod 64, triple a b c div 64 mod 64, triple a b c mod 64]"
proof -
  have "(uint a * 256 + uint b) * 256 + uint c = int (triple a b c)" by (simp add: triple_def)
  then show ?thesis unfolding encode_block_def Let_def by (simp only: index_bits list.map)
qed

lemma unat_u8: "unat (x :: u8) < 256"
  using unsigned_less [of x] by simp

lemma triple_less: "triple a b c < 16777216"
  using unat_u8 [of a] unat_u8 [of b] unat_u8 [of c] by (simp add: triple_def)

lemma push_take_disjoint: "push_bit n x AND take_bit n y = (0 :: u32)"
  by (rule bit_eqI) (simp add: bit_simps)

text \<open>The bytes of a value below two to the power of 24, with a marker above it.\<close>

lemma token_bytes:
  assumes "n < 16777216" "m < 3"
  defines "val \<equiv> push_bit 24 (of_nat m) OR of_nat n :: u32"
  shows "val \<noteq> DECODE_ERROR" "drop_bit 24 val AND 0xff = of_nat m"
    "unat (drop_bit 16 val AND 0xff) = n div 65536" "unat (drop_bit 8 val AND 0xff) = n div 256 mod 256"
    "unat (val AND 0xff) = n mod 256"
proof -
  have n: "unat (of_nat n :: u32) = n" and m: "unat (of_nat m :: u32) = m"
    using assms by (simp_all add: unat_of_nat take_bit_eq_mod)
  have "(of_nat n :: u32) = take_bit 24 (of_nat n)"
    using assms(1) by (simp add: word_unat_eq_iff unsigned_take_bit_eq n take_bit_nat_eq_self)
  then have "push_bit 24 (of_nat m) AND (of_nat n :: u32) = 0"
    using push_take_disjoint by metis
  then have "val = push_bit 24 (of_nat m) + of_nat n" by (simp add: val_def disjunctive_add_eq_or)
  then have val: "unat val = m * 16777216 + n"
    using assms by (simp add: unat_word_ariths unsigned_push_bit_eq n m take_bit_eq_mod push_bit_eq_mult)
  have split: "(m * 16777216 + n) div 65536 = m * 256 + n div 65536" "(m * 16777216 + n) div 256 = m * 65536 + n div 256"
    "(m * 16777216 + n) mod 256 = n mod 256" "(m * 65536 + n div 256) mod 256 = n div 256 mod 256"
    using mod_mult_self3 [of "m * 256" 256 "n div 256"] div_mult_self3 [of 65536 "m * 256" n] div_mult_self3 [of 256 "m * 65536" n] mod_mult_self3 [of "m * 65536" 256 n]
    by (simp_all add: mult.assoc)
  have ff: "w AND 0xff = take_bit 8 w" for w :: u32
    using take_bit_eq_mask [of 8 w] by (simp add: mask_eq_exp_minus_1)
  show "val \<noteq> DECODE_ERROR"
  proof
    assume "val = DECODE_ERROR"
    then have "unat val = 4294967295" by (simp add: DECODE_ERROR_def unsigned_minus_1_eq_mask mask_eq_exp_minus_1)
    with val assms show False by linarith
  qed
  show "drop_bit 24 val AND 0xff = of_nat m"
    using assms(1,2) val m by (simp add: ff word_unat_eq_iff take_bit_eq_mod drop_bit_eq_div unat_div unat_mod)
  show "unat (drop_bit 16 val AND 0xff) = n div 65536"
    using assms(1,2) val by (simp add: ff take_bit_eq_mod drop_bit_eq_div unat_div unat_mod split mod_simps)
  show "unat (drop_bit 8 val AND 0xff) = n div 256 mod 256"
    using assms(1,2) val by (simp add: ff take_bit_eq_mod drop_bit_eq_div unat_div unat_mod split mod_simps)
  show "unat (val AND 0xff) = n mod 256"
    using assms(1,2) val by (simp add: ff take_bit_eq_mod unat_mod split)
qed

lemma triple_bytes:
  "triple a b c div 65536 = unat a" "triple a b c div 256 mod 256 = unat b" "triple a b c mod 256 = unat c"
proof -
  have d: "triple a b c div 256 = unat a * 256 + unat b"
    unfolding triple_def by (subst div_mult_self3) (simp_all add: unat_u8)
  then show "triple a b c div 256 mod 256 = unat b" using mod_mult_self3 [of "unat a" 256 "unat b"] by (simp add: unat_u8)
  have "triple a b c div 65536 = triple a b c div 256 div 256" by (simp add: div_mult2_eq [symmetric])
  also have "\<dots> = unat a" unfolding d by (subst div_mult_self3) (simp_all add: unat_u8)
  finally show "triple a b c div 65536 = unat a" .
  show "triple a b c mod 256 = unat c" unfolding triple_def by (subst mod_mult_self3) (simp add: unat_u8)
qed

text \<open>The value of the six-bit digits, and of a token that ends in padding.\<close>

lemma digits: "n < 16777216 \<Longrightarrow>
   ((n div 262144 mod 64 * 64 + n div 4096 mod 64) * 64 + n div 64 mod 64) * 64 + n mod 64 = (n :: nat)"
proof -
  assume "n < 16777216"
  then have "n div 262144 mod 64 = n div 262144" by simp
  moreover have "n div 262144 * 64 + n div 4096 mod 64 = n div 4096"
    using div_mult_mod_eq [of "n div 4096" 64] by (simp add: div_mult2_eq [symmetric])
  moreover have "n div 4096 * 64 + n div 64 mod 64 = n div 64"
    using div_mult_mod_eq [of "n div 64" 64] by (simp add: div_mult2_eq [symmetric])
  moreover have "n div 64 * 64 + n mod 64 = n" by (rule div_mult_mod_eq)
  ultimately show ?thesis by simp
qed

lemma replicate_2: "replicate 2 x = [x, x]"
  by (simp add: numeral_2_eq_2)

lemma token_decode_digits:
  assumes "i1 < 64" "i2 < 64" "i3 < 64" "i4 < 64" "d = 0 \<or> d = 1 \<and> i4 = 0 \<or> d = 2 \<and> i3 = 0 \<and> i4 = 0"
  shows "token_decode (take (4 - d) (map ((!) base64_chars) [i1, i2, i3, i4]) @ replicate d (CHR ''='') @ rest) =
     push_bit 24 (of_nat d) OR of_nat (((i1 * 64 + i2) * 64 + i3) * 64 + i4)"
proof -
  consider "d = 0" | "d = 1" "i4 = 0" | "d = 2" "i3 = 0" "i4 = 0" using assms(5) by blast
  then show ?thesis using assms(1-4) by cases (simp_all add: token_decode_def replicate_2)
qed

text \<open>One token: a block of the encoder, with its last characters replaced by padding.\<close>

lemma decode_loop_block:
  assumes d: "d = 0 \<or> d = 1 \<and> c = 0 \<or> d = 2 \<and> b = 0 \<and> c = 0"
  shows "decode_loop (take (4 - d) (encode_block a b c) @ replicate d (CHR ''='') @ rest) =
     (let (ok, q) = decode_loop rest in (ok, take (3 - d) [a, b, c] @ q))"
proof -
  let ?n = "triple a b c"
  let ?p = "take (4 - d) (encode_block a b c) @ replicate d (CHR ''='') @ rest"
  have n: "?n < 16777216" by (rule triple_less)
  have "d = 0 \<or> d = 1 \<and> ?n mod 64 = 0 \<or> d = 2 \<and> ?n div 64 mod 64 = 0 \<and> ?n mod 64 = 0"
    using d by (auto simp: triple_def)
  then have tok: "token_decode ?p = push_bit 24 (of_nat d) OR of_nat ?n"
    unfolding encode_block_eq by (intro token_decode_digits [of "?n div 262144 mod 64" "?n div 4096 mod 64" "?n div 64 mod 64"
      "?n mod 64" d rest, unfolded digits [OF n]]) simp_all
  have "d < 3" using d by auto
  note bytes = token_bytes [OF n this, folded tok]
  have first: "?p \<noteq> []" "hd ?p \<in> set base64_chars" "drop 4 ?p = rest"
    using d by (auto simp: encode_block_eq)
  have "ucast (drop_bit 16 (token_decode ?p) AND 0xff) = a" "ucast (drop_bit 8 (token_decode ?p) AND 0xff) = b"
    "ucast (token_decode ?p AND 0xff) = c"
    using bytes(3-5) triple_bytes [of a b c] unat_u8
    by (simp_all add: word_unat_eq_iff unsigned_ucast_eq take_bit_eq_mod)
  moreover have "drop_bit 24 (token_decode ?p) AND 0xff < 2 \<longleftrightarrow> d < 2" "drop_bit 24 (token_decode ?p) AND 0xff < 1 \<longleftrightarrow> d < 1"
    using d unfolding bytes(2) by auto
  ultimately show ?thesis using d bytes(1) first
    by (subst decode_loop.simps) (auto simp: Let_def split: prod.splits)
qed

lemma length_encode_block [simp]: "length (encode_block a b c) = 4"
  by (simp add: encode_block_eq)

lemma div3_step: "(5 + n) div 3 = Suc (Suc (Suc n) div 3)" for n :: nat
  by presburger

lemma encode_loop_shape:
  "snd (encode_loop data) \<le> 2 \<and> length (fst (encode_loop data)) = 4 * ((length data + 2) div 3) \<and>
   snd (encode_loop data) = 3 * ((length data + 2) div 3) - length data"
  by (induction data rule: encode_loop.induct) (auto simp: Let_def div3_step split: prod.splits)

lemma decode_loop_Nil: "decode_loop [] = (True, [])"
  by (subst decode_loop.simps) simp

lemma decode_encode:
  "decode_loop (take (length (fst (encode_loop data)) - snd (encode_loop data)) (fst (encode_loop data)) @
     replicate (snd (encode_loop data)) (CHR ''='')) = (True, data)"
proof (induction data rule: encode_loop.induct)
  case 1 then show ?case by (simp add: decode_loop_Nil)
next
  case (2 a)
  then show ?case using decode_loop_block [of 2 0 0 a "[]"] by (simp add: decode_loop_Nil)
next
  case (3 a b)
  then show ?case using decode_loop_block [of 1 0 b a "[]"] by (simp add: decode_loop_Nil)
next
  case (4 a b c rest)
  let ?cs = "fst (encode_loop rest)" and ?d = "snd (encode_loop rest)"
  have "?d \<le> length ?cs" using encode_loop_shape [of rest] by (cases "length rest") auto
  then have "take (4 + length ?cs - ?d) (encode_block a b c @ ?cs) = encode_block a b c @ take (length ?cs - ?d) ?cs"
    by simp
  then show ?case using decode_loop_block [of 0 c b a "take (length ?cs - ?d) ?cs @ replicate ?d (CHR ''='')"] 4
    by (simp add: split_def Let_def)
qed

lemma base64_encode_pad: "base64_encode data True = base64_encode data False @ base64_pad (length (base64_encode data False))"
proof -
  define n d where "n = (length data + 2) div 3" and "d = snd (encode_loop data)"
  have s: "d \<le> 2" "length (fst (encode_loop data)) = 4 * n" "n = 0 \<Longrightarrow> d = 0"
    using encode_loop_shape [of data] by (simp_all add: n_def d_def)
  have "(4 * n - d) mod 4 = (if d = 0 then 0 else 4 - d)"
  proof (cases n)
    case (Suc k)
    have "4 * Suc k - d = k * 4 + (4 - d)" using s(1) by simp
    then have "(4 * n - d) mod 4 = (4 - d) mod 4" unfolding Suc by (metis mod_mult_self3)
    then show ?thesis by simp
  qed (use s in simp)
  then show ?thesis using s by (auto simp: base64_encode_def base64_pad_def Let_def split_def d_def [symmetric])
qed

text \<open>
  C25: decoding what \<^verbatim>\<open>base64_encode\<close> wrote gives back the bytes and their number, whether the encoder
  padded its output or \<^verbatim>\<open>base64_pad\<close> did afterwards, for data of every length.
\<close>

theorem base64_roundtrip:
  "base64_decode (base64_encode data True) = (int (length data), data) \<and>
   base64_decode (base64_encode data False @ base64_pad (length (base64_encode data False))) = (int (length data), data)"
  unfolding base64_encode_pad [symmetric] using decode_encode [of data]
  by (simp add: base64_decode_def base64_encode_def split_def Let_def)

text \<open>
  The encoder writes four characters for every three bytes begun, and without padding it leaves
  out exactly the characters that would be padding.
\<close>

lemma base64_encode_length:
  "length (base64_encode data True) = 4 * ((length data + 2) div 3) \<and>
   length (base64_encode data False) = (4 * length data + 2) div 3"
  using encode_loop_shape [of data] by (auto simp: base64_encode_def split_def Let_def)

text \<open>
  The buffer size that \<^verbatim>\<open>BASE64_ENCODE_SIZE\<close> computes, with its integer division, is too small for the
  encoding of ten or more bytes and the null character after it.
\<close>

lemma base64_encode_size_too_small:
  "10 \<le> length data \<Longrightarrow> BASE64_ENCODE_SIZE (length data) < length (base64_encode data True) + 1"
  using encode_loop_shape [of data] by (auto simp: base64_encode_def split_def Let_def BASE64_ENCODE_SIZE_def)

end
