(* ===== verification/Util_Cbmem.thy ===== *)
theory Util_Cbmem
  imports Os_Mutex
begin

text \<open>
  The circular buffer of log entries, \<^verbatim>\<open>libs/util/src/cbmem.c\<close>. Pointers into the buffer are kept as
  distances from \<^verbatim>\<open>c_buf\<close>, and reading or writing outside the buffer has no result. Every operation
  takes the lock of the buffer first, a mutex of the kernel model, and may block there.

  For entries of one size that fill the buffer exactly, the buffer is shown to keep the newest
  entries in order; the theory also shows what happens for other sizes.
\<close>

subsection \<open>cbmem.c\<close>

definition sizeof_entry_hdr :: nat where "sizeof_entry_hdr = 4"

record cbmem =
  c_lock :: nat
  c_entry_start :: "nat option"
  c_entry_end :: "nat option"
  c_buf_end :: nat
  c_buf_cur_end :: "nat option"
  c_mem :: "u8 list"

record cbmem_iter =
  ci_start :: "nat option"
  ci_cur :: "nat option"
  ci_end :: "nat option"

definition ceh_len :: "nat \<Rightarrow> cbmem \<Rightarrow> nat option" where
  "ceh_len p c = map_option (\<lambda>b. unat (of_le16 b)) (peek (int p) 2 (c_mem c))"

definition CBMEM_ENTRY_SIZE :: "nat \<Rightarrow> cbmem \<Rightarrow> nat option" where
  "CBMEM_ENTRY_SIZE p c = map_option (\<lambda>n. sizeof_entry_hdr + n) (ceh_len p c)"

definition CBMEM_ENTRY_NEXT :: "nat \<Rightarrow> cbmem \<Rightarrow> nat option" where
  "CBMEM_ENTRY_NEXT p c = map_option (\<lambda>n. p + n) (CBMEM_ENTRY_SIZE p c)"

definition cbmem_init :: "nat \<Rightarrow> u8 list \<Rightarrow> os_state \<Rightarrow> cbmem \<times> os_state" where
  "cbmem_init lock buf s =
     (let s1 = snd (os_mutex_init (Some lock) s);
          s2 = upd_obj_head (ObjMutex lock) []
                 (upd_mutex lock (\<lambda>_. \<lparr>mu_prio = 0, mu_level = 0, mu_owner = None\<rparr>) s1)
      in (\<lparr>c_lock = lock, c_entry_start = None, c_entry_end = None,
            c_buf_end = length buf, c_buf_cur_end = None, c_mem = buf\<rparr>, s2))"

definition cbmem_lock_acquire :: "cbmem \<Rightarrow> os_state \<Rightarrow> (pend_result \<times> os_state) option" where
  "cbmem_lock_acquire c s =
     (if \<not> g_os_started s then Some (Pend_Return OS_OK, s)
      else os_mutex_pend (Some (c_lock c)) OS_TIMEOUT_NEVER s)"

definition cbmem_lock_release :: "cbmem \<Rightarrow> os_state \<Rightarrow> (os_error \<times> os_state) option" where
  "cbmem_lock_release c s =
     (if \<not> g_os_started s then Some (OS_OK, s) else os_mutex_release (Some (c_lock c)) s)"

text \<open>A call returns a value, or leaves its task blocked on the lock.\<close>

datatype 'r cb_result = Cb_Return 'r | Cb_Blocked

text \<open>The loop of \<^verbatim>\<open>cbmem_append\<close> that moves the start past the entries about to be overwritten.\<close>

partial_function (option) advance_start :: "nat \<Rightarrow> nat \<Rightarrow> cbmem \<Rightarrow> nat option" where
  "advance_start start endp c =
     (if start < endp then do {
        nxt \<leftarrow> CBMEM_ENTRY_NEXT start c;
        if Some nxt = c_buf_cur_end c then Some 0 else advance_start nxt endp c
      } else Some start)"

text \<open>Where the entry goes, and where the oldest entry is then: \<open>(dst, end, cbmem)\<close>.\<close>

definition append_place :: "nat \<Rightarrow> cbmem \<Rightarrow> (nat \<times> cbmem) option" where
  "append_place len c = do {
     dst0 \<leftarrow> (case c_entry_end c of Some e \<Rightarrow> CBMEM_ENTRY_NEXT e c | None \<Rightarrow> Some 0);
     let (dst, c1) = (if c_buf_end c < dst0 + len
        then (0, c\<lparr>c_buf_cur_end := Some dst0,
                   c_entry_start := (case c_entry_start c of None \<Rightarrow> None
                     | Some st \<Rightarrow> if dst0 \<le> st then Some 0 else Some st)\<rparr>)
        else (dst0, c));
     case c_entry_start c1 of
       None \<Rightarrow> Some (dst, c1)
     | Some st \<Rightarrow> do {
         n \<leftarrow> CBMEM_ENTRY_SIZE st c1;
         if dst < st + n \<and> st < dst + len then do {
           st' \<leftarrow> advance_start st (dst + len) c1;
           Some (dst, c1\<lparr>c_entry_start := Some st'\<rparr>)
         } else Some (dst, c1)
       }
   }"

definition append_entry :: "u8 list \<Rightarrow> u16 \<Rightarrow> cbmem \<Rightarrow> cbmem option" where
  "append_entry data len c = do {
     (dst, c1) \<leftarrow> append_place (unat len) c;
     m1 \<leftarrow> poke (int dst) (le16 len) (c_mem c1);
     bytes \<leftarrow> peek 0 (unat len) data;
     m2 \<leftarrow> poke (int (dst + sizeof_entry_hdr)) bytes m1;
     Some (c1\<lparr>c_mem := m2, c_entry_end := Some dst,
       c_entry_start := (case c_entry_start c1 of None \<Rightarrow> Some dst | Some st \<Rightarrow> Some st)\<rparr>)
   }"

definition cbmem_append :: "u8 list \<Rightarrow> u16 \<Rightarrow> cbmem \<Rightarrow> os_state \<Rightarrow> (int cb_result \<times> cbmem \<times> os_state) option" where
  "cbmem_append data len c s = do {
     (r, s1) \<leftarrow> cbmem_lock_acquire c s;
     case r of
       Pend_Blocked \<Rightarrow> Some (Cb_Blocked, c, s1)
     | Pend_Return rc \<Rightarrow>
         if rc \<noteq> OS_OK then Some (Cb_Return (-1), c, s1)
         else do {
           c1 \<leftarrow> append_entry data len c;
           (rc, s2) \<leftarrow> cbmem_lock_release c1 s1;
           Some (Cb_Return (if rc \<noteq> OS_OK then -1 else 0), c1, s2)
         }
   }"

definition cbmem_iter_start :: "cbmem \<Rightarrow> cbmem_iter" where
  "cbmem_iter_start c = \<lparr>ci_start = c_entry_start c, ci_cur = c_entry_start c, ci_end = c_entry_end c\<rparr>"

text \<open>A comparison of pointers; a null pointer is below every other.\<close>

definition ptr_gt :: "nat option \<Rightarrow> nat option \<Rightarrow> bool" where
  "ptr_gt p q \<longleftrightarrow> (case (p, q) of (Some a, Some b) \<Rightarrow> b < a | (Some _, None) \<Rightarrow> True | (None, _) \<Rightarrow> False)"

definition cbmem_iter_next :: "cbmem \<Rightarrow> cbmem_iter \<Rightarrow> (nat option \<times> cbmem_iter) option" where
  "cbmem_iter_next c it =
     (if ptr_gt (ci_start it) (ci_end it) then do {
        cur \<leftarrow> ci_cur it;
        nxt \<leftarrow> CBMEM_ENTRY_NEXT cur c;
        if Some nxt = c_buf_cur_end c
        then Some (ci_cur it, it\<lparr>ci_cur := Some 0, ci_start := Some 0\<rparr>)
        else Some (ci_cur it, it\<lparr>ci_cur := Some nxt\<rparr>)
      } else do {
        e \<leftarrow> ci_end it;
        stop \<leftarrow> CBMEM_ENTRY_NEXT e c;
        if ci_cur it = Some stop then Some (None, it)
        else do {
          cur \<leftarrow> ci_cur it;
          nxt \<leftarrow> CBMEM_ENTRY_NEXT cur c;
          Some (ci_cur it, it\<lparr>ci_cur := Some nxt\<rparr>)
        }
      })"

definition cbmem_flush :: "cbmem \<Rightarrow> os_state \<Rightarrow> (os_error cb_result \<times> cbmem \<times> os_state) option" where
  "cbmem_flush c s = do {
     (r, s1) \<leftarrow> cbmem_lock_acquire c s;
     case r of
       Pend_Blocked \<Rightarrow> Some (Cb_Blocked, c, s1)
     | Pend_Return rc \<Rightarrow>
         if rc \<noteq> OS_OK then Some (Cb_Return rc, c, s1)
         else do {
           let c1 = c\<lparr>c_entry_start := None, c_entry_end := None, c_buf_cur_end := None\<rparr>;
           (rc, s2) \<leftarrow> cbmem_lock_release c1 s1;
           Some (Cb_Return rc, c1, s2)
         }
   }"

text \<open>The bytes a read copies out of an entry, or its error \<^verbatim>\<open>-1\<close>.\<close>

definition read_entry :: "nat \<Rightarrow> u16 \<Rightarrow> u16 \<Rightarrow> cbmem \<Rightarrow> (int \<times> u8 list) option" where
  "read_entry hdr off len c = do {
     n \<leftarrow> ceh_len hdr c;
     let len' = (if n < unat off + unat len then of_nat n - off else len);
     if n < unat off then Some (-1, [])
     else do {
       bytes \<leftarrow> peek (int (hdr + sizeof_entry_hdr + unat off)) (unat len') (c_mem c);
       Some (uint len', bytes)
     }
   }"

definition cbmem_read ::
    "nat \<Rightarrow> u16 \<Rightarrow> u16 \<Rightarrow> cbmem \<Rightarrow> os_state \<Rightarrow> ((int \<times> u8 list) cb_result \<times> os_state) option" where
  "cbmem_read hdr off len c s = do {
     (r, s1) \<leftarrow> cbmem_lock_acquire c s;
     case r of
       Pend_Blocked \<Rightarrow> Some (Cb_Blocked, s1)
     | Pend_Return rc \<Rightarrow>
         if rc \<noteq> OS_OK then Some (Cb_Return (-1, []), s1)
         else do {
           (n, bytes) \<leftarrow> read_entry hdr off len c;
           (rc, s2) \<leftarrow> cbmem_lock_release c s1;
           Some (Cb_Return (if n < 0 \<or> rc \<noteq> OS_OK then -1 else n, bytes), s2)
         }
   }"

text \<open>The loop of \<^verbatim>\<open>cbmem_walk\<close>; the callback works on a state of its own and stops the walk with 1.\<close>

partial_function (option) walk_loop ::
    "(nat \<Rightarrow> 'a \<Rightarrow> int \<times> 'a) \<Rightarrow> cbmem \<Rightarrow> cbmem_iter \<Rightarrow> 'a \<Rightarrow> 'a option" where
  "walk_loop f c it st = do {
     (hdr, it1) \<leftarrow> cbmem_iter_next c it;
     case hdr of
       None \<Rightarrow> Some st
     | Some h \<Rightarrow> (let (rc, st1) = f h st in if rc = 1 then Some st1 else walk_loop f c it1 st1)
   }"

definition cbmem_walk ::
    "(nat \<Rightarrow> 'a \<Rightarrow> int \<times> 'a) \<Rightarrow> 'a \<Rightarrow> cbmem \<Rightarrow> os_state \<Rightarrow> (os_error cb_result \<times> 'a \<times> os_state) option" where
  "cbmem_walk f st c s = do {
     (r, s1) \<leftarrow> cbmem_lock_acquire c s;
     case r of
       Pend_Blocked \<Rightarrow> Some (Cb_Blocked, st, s1)
     | Pend_Return rc \<Rightarrow>
         if rc \<noteq> OS_OK then Some (Cb_Return rc, st, s1)
         else do {
           st1 \<leftarrow> walk_loop f c (cbmem_iter_start c) st;
           (rc, s2) \<leftarrow> cbmem_lock_release c s1;
           Some (Cb_Return rc, st1, s2)
         }
   }"

subsection \<open>Rings of equal entries\<close>

text \<open>The buffer \<open>c\<close> with \<open>k\<close> slots for entries of \<open>L\<close> bytes after the entries \<open>es\<close> were appended.\<close>

definition slot :: "nat \<Rightarrow> nat \<Rightarrow> nat \<Rightarrow> nat" where
  "slot L k i = (i mod k) * (sizeof_entry_hdr + L)"

definition holds :: "nat \<Rightarrow> cbmem \<Rightarrow> nat \<Rightarrow> u8 list \<Rightarrow> bool" where
  "holds L c p e \<longleftrightarrow> ceh_len p c = Some L \<and> peek (int (p + sizeof_entry_hdr)) L (c_mem c) = Some e"

definition ring :: "nat \<Rightarrow> nat \<Rightarrow> u8 list list \<Rightarrow> cbmem \<Rightarrow> bool" where
  "ring L k es c \<longleftrightarrow> c_buf_end c = k * (sizeof_entry_hdr + L) \<and> length (c_mem c) = k * (sizeof_entry_hdr + L) \<and>
     c_entry_end c = (if es = [] then None else Some (slot L k (length es - 1))) \<and>
     c_entry_start c = (if es = [] then None else Some (if length es \<le> k then 0 else slot L k (length es))) \<and>
     c_buf_cur_end c = (if length es \<le> k then None else Some (k * (sizeof_entry_hdr + L))) \<and>
     (\<forall>i < length es. length es \<le> i + k \<longrightarrow> holds L c (slot L k i) (es ! i))"

text \<open>What a walk does on a list of entries.\<close>

fun walk_list :: "(nat \<Rightarrow> 'a \<Rightarrow> int \<times> 'a) \<Rightarrow> nat list \<Rightarrow> 'a \<Rightarrow> 'a" where
  "walk_list f [] st = st"
| "walk_list f (h # hs) st = (let (rc, st1) = f h st in if rc = 1 then st1 else walk_list f hs st1)"

text \<open>A ring is walked from its oldest entry to its newest one.\<close>

definition walk_at :: "nat \<Rightarrow> nat \<Rightarrow> nat \<Rightarrow> nat \<Rightarrow> cbmem_iter \<Rightarrow> bool" where
  "walk_at L k n i it \<longleftrightarrow> ci_end it = Some (slot L k (n - 1)) \<and>
     ci_cur it = Some (if i = n then slot L k (n - 1) + (sizeof_entry_hdr + L) else slot L k i) \<and>
     (\<exists>st. ci_start it = Some st \<and> (slot L k (n - 1) < st \<longleftrightarrow> i < n \<and> slot L k (n - 1) < slot L k i))"

definition collect :: "cbmem \<Rightarrow> nat \<Rightarrow> u8 list list \<Rightarrow> int \<times> u8 list list" where
  "collect c hdr acc = (0, acc @ [case read_entry hdr 0 (of_nat (the (ceh_len hdr c))) c of Some (_, bs) \<Rightarrow> bs | None \<Rightarrow> []])"

fun append_all :: "u8 list list \<Rightarrow> cbmem \<Rightarrow> os_state \<Rightarrow> (cbmem \<times> os_state) option" where
  "append_all [] c s = Some (c, s)"
| "append_all (e # es) c s = do {
     (r, c1, s1) \<leftarrow> cbmem_append e (of_nat (length e)) c s;
     if r = Cb_Return 0 then append_all es c1 s1 else None
   }"

text \<open>The lock of the buffer can be taken at once: the kernel has not started, or nobody holds the mutex.\<close>

definition lock_free :: "nat \<Rightarrow> os_state \<Rightarrow> bool" where
  "lock_free i s \<longleftrightarrow> \<not> g_os_started s \<or>
     (\<exists>idle. os_inv idle s) \<and> mutex_inv s \<and> mu_level (os_mutexes s i) = 0"

subsection \<open>Lemmas\<close>

lemma slot_Suc: "0 < k \<Longrightarrow> slot L k i + (sizeof_entry_hdr + L) = (i mod k + 1) * (sizeof_entry_hdr + L)"
  by (simp add: slot_def)

lemma slot_fits: "0 < k \<Longrightarrow> slot L k i + (sizeof_entry_hdr + L) \<le> k * (sizeof_entry_hdr + L)"
  unfolding slot_Suc by (rule mult_le_mono1) (simp add: Suc_le_eq)

lemma slot_disjoint:
  assumes "slot L k i \<noteq> slot L k j"
  shows "slot L k i + (sizeof_entry_hdr + L) \<le> slot L k j \<or> slot L k j + (sizeof_entry_hdr + L) \<le> slot L k i"
proof -
  have "i mod k \<noteq> j mod k" using assms by (auto simp: slot_def)
  then have "i mod k + 1 \<le> j mod k \<or> j mod k + 1 \<le> i mod k" by linarith
  then have "(i mod k + 1) * (sizeof_entry_hdr + L) \<le> (j mod k) * (sizeof_entry_hdr + L) \<or>
      (j mod k + 1) * (sizeof_entry_hdr + L) \<le> (i mod k) * (sizeof_entry_hdr + L)"
    using mult_le_mono1 by blast
  then show ?thesis by (simp add: slot_def add.commute)
qed

lemma slot_inj:
  assumes "i < j" "j < i + k"
  shows "slot L k i \<noteq> slot L k j"
proof
  assume "slot L k i = slot L k j"
  then have "i mod k = j mod k" by (simp add: slot_def sizeof_entry_hdr_def)
  then have "k dvd j - i" using assms by (metis less_imp_le mod_eq_dvd_iff_nat)
  then show False using assms by (auto dest: dvd_imp_le)
qed

lemma holds_size: "holds L c p e \<Longrightarrow> CBMEM_ENTRY_SIZE p c = Some (sizeof_entry_hdr + L)"
  "holds L c p e \<Longrightarrow> CBMEM_ENTRY_NEXT p c = Some (p + (sizeof_entry_hdr + L))"
  by (simp_all add: holds_def CBMEM_ENTRY_SIZE_def CBMEM_ENTRY_NEXT_def)

text \<open>Writing an entry into a slot leaves it there and does not touch the entries of the other slots.\<close>

lemma write_entry:
  assumes "p + (sizeof_entry_hdr + L) \<le> length m" "length e = L" "L < 65536"
  obtains m1 m2 where "poke (int p) (le16 (of_nat L)) m = Some m1"
    "poke (int (p + sizeof_entry_hdr)) e m1 = Some m2" "length m2 = length m"
    "\<And>c. c_mem c = m2 \<Longrightarrow> holds L c p e"
    "\<And>c d q x. c_mem c = m2 \<Longrightarrow> c_mem d = m \<Longrightarrow> holds L d q x \<Longrightarrow>
       q + (sizeof_entry_hdr + L) \<le> p \<or> p + (sizeof_entry_hdr + L) \<le> q \<Longrightarrow> holds L c q x"
proof -
  obtain m1 where m1: "poke (int p) (le16 (of_nat L)) m = Some m1"
    using poke_ok [of p "le16 (of_nat L)" m] assms by (auto simp: sizeof_entry_hdr_def)
  have l1: "length m1 = length m" using m1 by (rule length_poke)
  obtain m2 where m2: "poke (int (p + sizeof_entry_hdr)) e m1 = Some m2"
    using poke_ok [of "p + sizeof_entry_hdr" e m1] assms l1 by auto
  have l2: "length m2 = length m" using length_poke [OF m2] l1 by simp
  have "peek (int p) 2 m2 = Some (le16 (of_nat L))"
    using peek_poke_other [OF m2, of "int p" 2] peek_poke_same [OF m1, of 2] by (simp add: sizeof_entry_hdr_def)
  moreover have "unat (of_nat L :: u16) = L" using assms(3) by (simp add: unat_of_nat)
  ultimately have a: "holds L c p e" if "c_mem c = m2" for c
    using that peek_poke_same [OF m2 assms(2)] by (simp add: holds_def ceh_len_def of_le16_le16)
  have b: "holds L c q x" if "c_mem c = m2" "c_mem d = m" "holds L d q x"
    "q + (sizeof_entry_hdr + L) \<le> p \<or> p + (sizeof_entry_hdr + L) \<le> q" for c d q x
  proof -
    have "peek (int q) 2 m2 = peek (int q) 2 m"
      using peek_poke_other [OF m2, of "int q" 2] peek_poke_other [OF m1, of "int q" 2] that(4) assms(2)
      by (auto simp: sizeof_entry_hdr_def)
    moreover have "peek (int (q + sizeof_entry_hdr)) L m2 = peek (int (q + sizeof_entry_hdr)) L m"
      using peek_poke_other [OF m2, of "int (q + sizeof_entry_hdr)" L]
        peek_poke_other [OF m1, of "int (q + sizeof_entry_hdr)" L] that(4) assms(2)
      by (auto simp: sizeof_entry_hdr_def)
    ultimately show ?thesis using that by (simp add: holds_def ceh_len_def)
  qed
  show thesis using that [OF m1 m2 l2] a b by blast
qed

lemma advance_one:
  assumes "CBMEM_ENTRY_NEXT p c = Some nx" "p < q" "q \<le> nx"
  shows "advance_start p q c = Some (if c_buf_cur_end c = Some nx then 0 else nx)"
proof -
  have "advance_start nx q c = Some nx" using assms(3) by (subst advance_start.simps) simp
  then show ?thesis using assms by (subst advance_start.simps) auto
qed

text \<open>Where a ring puts its next entry: the slot after the newest one, and the start moves off it.\<close>

lemma ring_place_first:
  assumes "ring L k [] c" "0 < k"
  shows "append_place L c = Some (0, c)"
proof -
  have "L \<le> k * (sizeof_entry_hdr + L)" using assms(2) by (metis Suc_leI le_add2 mult_1 mult_le_mono order_trans One_nat_def)
  then show ?thesis using assms by (simp add: append_place_def ring_def)
qed

lemma ring_place:
  assumes r: "ring L k es c" and k: "0 < k" "0 < L" and "es \<noteq> []"
  shows "append_place L c = Some (slot L k (length es), 
    c\<lparr>c_entry_start := Some (if length es < k then 0 else slot L k (Suc (length es))),
      c_buf_cur_end := (if length es < k then None else Some (k * (sizeof_entry_hdr + L)))\<rparr>)"
proof -
  let ?n = "length es" and ?S = "sizeof_entry_hdr + L"
  have S: "0 < ?S" "L < ?S" by (simp_all add: sizeof_entry_hdr_def)
  obtain m where m: "?n = Suc m" using \<open>es \<noteq> []\<close> by (cases es) auto
  have hm: "holds L c (slot L k m) (es ! m)" and hb: "holds L c (slot L k (?n - k)) (es ! (?n - k))"
    using r k m by (auto simp: ring_def)
  have start: "c_entry_start c = Some (slot L k (?n - k))"
    using r \<open>es \<noteq> []\<close> k by (auto simp: ring_def slot_def mod_if le_mod_geq)
  have cend: "c_entry_end c = Some (slot L k m)" "c_buf_end c = k * ?S"
    "c_buf_cur_end c = (if ?n \<le> k then None else Some (k * ?S))" using r \<open>es \<noteq> []\<close> m by (simp_all add: ring_def)
  let ?d = "(m mod k + 1) * ?S"
  have nxt: "CBMEM_ENTRY_NEXT (slot L k m) c = Some ?d" using holds_size(2) [OF hm] slot_Suc [OF k(1)] by simp
  show ?thesis
  proof (cases "Suc (m mod k) = k")
    case True
    have "k \<le> ?n" using True m mod_less_eq_dividend [of m k] by linarith
    moreover have "?d = k * ?S" using True by simp
    moreover have "?n mod k = 0" using True m by (simp add: mod_Suc)
    ultimately have wrap: "k * ?S < ?d + L" "?n mod k = 0" "k \<le> ?n" "?d = k * ?S" using k by simp_all
    have z: "slot L k (?n - k) = 0" "slot L k ?n = 0" using wrap by (simp_all add: slot_def le_mod_geq [symmetric])
    define c1 where "c1 = c\<lparr>c_buf_cur_end := Some (k * ?S), c_entry_start := Some 0\<rparr>"
    have n1: "CBMEM_ENTRY_SIZE 0 c1 = Some ?S" "CBMEM_ENTRY_NEXT 0 c1 = Some ?S" using holds_size [OF hb] z
      by (simp_all add: c1_def CBMEM_ENTRY_SIZE_def CBMEM_ENTRY_NEXT_def ceh_len_def)
    have "advance_start 0 L c1 = Some (slot L k (Suc ?n))"
      using advance_one [OF n1(2), of L] k wrap(2) S by (auto simp: c1_def slot_def mod_Suc)
    then show ?thesis
      using start cend nxt wrap z n1 k S unfolding append_place_def c1_def by (simp del: add_mult_distrib mult_Suc)
  next
    case False
    then have nk: "?n mod k = Suc (m mod k)" "?n \<noteq> k" using m by (auto simp: mod_Suc) 
    have "Suc (m mod k) < k" using False k by (simp add: Suc_lessI)
    then have fits: "\<not> k * ?S < ?d + L"
      using mult_le_mono1 [of "m mod k + 2" k ?S] S by (simp add: Suc_le_eq)
    show ?thesis
    proof (cases "?n < k")
      case True
      then show ?thesis using start cend nxt fits holds_size [OF hb] m nk
        unfolding append_place_def by (simp add: slot_def)
    next
      case False
      then have eq: "slot L k (?n - k) = slot L k ?n" "slot L k ?n = ?d" "k < ?n"
        using nk by (simp_all add: slot_def le_mod_geq)
      note h = holds_size [OF hb, unfolded eq]
      have "advance_start ?d (?d + L) c = Some (slot L k (Suc ?n))"
      proof -
        have d: "?d + ?S = Suc (Suc (m mod k)) * ?S" by simp
        then have "?d + ?S = k * ?S \<longleftrightarrow> Suc (Suc (m mod k)) = k" using S by (metis mult_right_cancel less_irrefl)
        then have "slot L k (Suc ?n) = (if k * ?S = ?d + ?S then 0 else ?d + ?S)"
          using nk d unfolding slot_def mod_Suc by auto
        then show ?thesis using advance_one [OF h(2), of "?d + L"] k S cend eq(3) by simp
      qed
      then show ?thesis using start cend nxt fits h k S eq nk False
        unfolding append_place_def by (simp del: add_mult_distrib mult_Suc)
    qed
  qed
qed

lemma ring_append:
  assumes r: "ring L k es c" and k: "0 < k" "0 < L" "L < 65536" and e: "length e = L"
  shows "\<exists>c'. append_entry e (of_nat L) c = Some c' \<and> ring L k (es @ [e]) c' \<and> c_lock c' = c_lock c"
proof -
  let ?n = "length es" and ?S = "sizeof_entry_hdr + L" and ?p = "slot L k (length es)"
  obtain c1 where c1: "append_place L c = Some (?p, c1)" "c_mem c1 = c_mem c" "c_buf_end c1 = c_buf_end c"
      "c_lock c1 = c_lock c"
      "c_entry_start c1 = (if es = [] then None else Some (if ?n < k then 0 else slot L k (Suc ?n)))"
      "c_buf_cur_end c1 = (if ?n < k then None else Some (k * ?S))"
  proof (cases "es = []")
    case True
    show thesis using ring_place_first [of L k c] r k that [of c] True by (simp add: ring_def slot_def)
  qed (rule that [OF ring_place [OF r k(1,2)]], simp_all)
  have len: "length (c_mem c) = k * ?S" using r by (simp add: ring_def)
  have L: "unat (of_nat L :: u16) = L" using k by (simp add: unat_of_nat)
  obtain m1 m2 where m: "poke (int ?p) (le16 (of_nat L)) (c_mem c) = Some m1"
      "poke (int (?p + sizeof_entry_hdr)) e m1 = Some m2" "length m2 = length (c_mem c)"
      "\<And>c. c_mem c = m2 \<Longrightarrow> holds L c ?p e"
      "\<And>c' d q x. c_mem c' = m2 \<Longrightarrow> c_mem d = c_mem c \<Longrightarrow> holds L d q x \<Longrightarrow>
         q + ?S \<le> ?p \<or> ?p + ?S \<le> q \<Longrightarrow> holds L c' q x"
    by (rule write_entry [of ?p L "c_mem c" e]) (use slot_fits [OF k(1), of L ?n] len e k(3) in auto)
  define c' where "c' = c1\<lparr>c_mem := m2, c_entry_end := Some ?p,
      c_entry_start := (case c_entry_start c1 of None \<Rightarrow> Some ?p | Some st \<Rightarrow> Some st)\<rparr>"
  have "append_entry e (of_nat L) c = Some c'"
    using c1(1,2) m(1,2) e L by (simp add: append_entry_def c'_def peek_def)
  moreover have "holds L c' (slot L k i) ((es @ [e]) ! i)" if "i < Suc ?n" "Suc ?n \<le> i + k" for i
  proof (cases "i = ?n")
    case False
    then have i: "i < ?n" "?n \<le> i + k" using that by simp_all
    have "slot L k i \<noteq> ?p" by (rule slot_inj) (use i that in simp_all)
    then show ?thesis using m(5) [of c' c "slot L k i" "es ! i"] r i slot_disjoint
      by (simp add: c'_def ring_def nth_append)
  qed (simp add: m(4) c'_def)
  moreover have "c_lock c' = c_lock c" by (simp add: c'_def c1)
  moreover have "c_entry_start c' = Some (if Suc ?n \<le> k then 0 else slot L k (Suc ?n))"
    using c1(5) k by (auto simp: c'_def slot_def)
  ultimately show ?thesis using r c1(3,6) m(3) len by (auto simp: ring_def c'_def)
qed

lemma walk_at_start:
  assumes "ring L k es c" "es \<noteq> []" "0 < k"
  shows "walk_at L k (length es) (length es - k) (cbmem_iter_start c)"
  using assms by (auto simp: ring_def walk_at_def cbmem_iter_start_def slot_def le_mod_geq)

lemma walk_at_end:
  assumes r: "ring L k es c" "es \<noteq> []" "0 < k" and w: "walk_at L k (length es) (length es) it"
  shows "cbmem_iter_next c it = Some (None, it)"
proof -
  have "holds L c (slot L k (length es - 1)) (es ! (length es - 1))" using r by (auto simp: ring_def)
  then show ?thesis using w holds_size by (auto simp: walk_at_def cbmem_iter_next_def ptr_gt_def)
qed

lemma walk_at_step:
  assumes r: "ring L k es c" "0 < k" and i: "i < length es" "length es \<le> i + k"
    and w: "walk_at L k (length es) i it"
  shows "\<exists>it'. cbmem_iter_next c it = Some (Some (slot L k i), it') \<and> walk_at L k (length es) (Suc i) it'"
proof -
  let ?n = "length es" and ?S = "sizeof_entry_hdr + L"
  have hi: "holds L c (slot L k i) (es ! i)" and he: "holds L c (slot L k (?n - 1)) (es ! (?n - 1))"
    using r i by (auto simp: ring_def)
  have cur: "ci_cur it = Some (slot L k i)" "ci_end it = Some (slot L k (?n - 1))" using w i by (simp_all add: walk_at_def)
  have neq: "slot L k i \<noteq> slot L k (?n - 1) + ?S" if "\<not> slot L k (?n - 1) < slot L k i"
    using that by (simp add: sizeof_entry_hdr_def)
  have suc: "slot L k i + ?S = (if Suc (i mod k) = k then k * ?S else slot L k (Suc i))"
    unfolding slot_Suc [OF r(2)] by (cases "Suc (i mod k) = k") (simp_all add: slot_def mod_Suc)
  show ?thesis
  proof (cases "slot L k (?n - 1) < slot L k i")
    case True
    then have "i \<noteq> ?n - 1" by auto
    then have i': "Suc i < ?n" using i by simp
    have gt: "ptr_gt (ci_start it) (ci_end it)" using w True i by (auto simp: walk_at_def ptr_gt_def)
    have "k < ?n"
    proof (rule ccontr)
      assume "\<not> k < ?n"
      then show False using True i by (auto simp: slot_def)
    qed
    then have ce: "c_buf_cur_end c = Some (k * ?S)" using r by (simp add: ring_def)
    show ?thesis
    proof (cases "Suc (i mod k) = k")
      case True
      then show ?thesis using gt cur suc ce holds_size [OF hi] i' w
        by (auto simp: cbmem_iter_next_def walk_at_def slot_def mod_Suc)
    next
      case False
      have "slot L k (Suc i) \<noteq> k * ?S" using r(2) by (simp add: slot_def sizeof_entry_hdr_def) (metis mod_less_divisor less_irrefl)
      then show ?thesis using gt cur suc ce holds_size [OF hi] i' w False True
        by (auto simp: cbmem_iter_next_def walk_at_def)
    qed
  next
    case False
    then have gt: "\<not> ptr_gt (ci_start it) (ci_end it)" using w i by (auto simp: walk_at_def ptr_gt_def)
    have nxt: "cbmem_iter_next c it = Some (Some (slot L k i), it\<lparr>ci_cur := Some (slot L k i + ?S)\<rparr>)"
      using gt cur holds_size [OF hi] holds_size [OF he] neq [OF False] by (simp add: cbmem_iter_next_def)
    have "slot L k i + ?S = slot L k (Suc i) \<and> slot L k (Suc i) \<le> slot L k (?n - 1)" if "Suc i < ?n"
    proof -
      have "slot L k i \<noteq> slot L k (?n - 1)"
        using slot_inj [of i "?n - 1" k L] that i by auto
      then have "slot L k i + ?S \<le> slot L k (?n - 1)" using slot_disjoint False by fastforce
      moreover have "slot L k (?n - 1) + ?S \<le> k * ?S" by (rule slot_fits [OF r(2)])
      ultimately show ?thesis using suc by (auto simp: sizeof_entry_hdr_def split: if_splits)
    qed
    moreover have "i = ?n - 1" if "\<not> Suc i < ?n" using that i by simp
    ultimately show ?thesis using nxt w i False by (cases "Suc i < ?n") (auto simp: walk_at_def)
  qed
qed

lemma ring_walk_from:
  assumes "ring L k es c" "0 < k" "i \<le> length es" "length es \<le> i + k" "walk_at L k (length es) i it" "es \<noteq> []"
  shows "walk_loop f c it st = Some (walk_list f (map (slot L k) [i ..< length es]) st)"
  using assms(3-5)
proof (induction "length es - i" arbitrary: i it st)
  case 0
  then have "i = length es" by simp
  then show ?case using walk_at_end [OF assms(1,6,2)] 0 by (subst walk_loop.simps) simp
next
  case (Suc d)
  then have i: "i < length es" by simp
  obtain it' where it': "cbmem_iter_next c it = Some (Some (slot L k i), it')" "walk_at L k (length es) (Suc i) it'"
    using walk_at_step [OF assms(1,2) i Suc.prems(2,3)] by blast
  have "walk_loop f c it' s = Some (walk_list f (map (slot L k) [Suc i ..< length es]) s)" for s
    using Suc.hyps(1) [of "Suc i" it' s] Suc.hyps(2) Suc.prems it' i by simp
  then show ?case using it'(1) i
    by (subst walk_loop.simps) (simp add: upt_conv_Cons split: prod.split)
qed

lemma ring_walk:
  assumes "ring L k es c" "0 < k" "es \<noteq> []"
  shows "walk_loop f c (cbmem_iter_start c) st = Some (walk_list f (map (slot L k) [length es - k ..< length es]) st)"
  by (rule ring_walk_from [OF assms(1,2) _ _ walk_at_start [OF assms(1,3,2)] assms(3)]) simp_all

lemma collect_holds:
  assumes "holds L c p e" "L < 65536"
  shows "collect c p acc = (0, acc @ [e])"
  using assms by (simp add: collect_def holds_def read_entry_def unat_of_nat)

lemma ring_collect:
  assumes "ring L k es c" "L < 65536" "j \<le> length es" "length es \<le> j + k"
  shows "walk_list (collect c) (map (slot L k) [j ..< length es]) acc = acc @ drop j es"
  using assms(3,4)
proof (induction "length es - j" arbitrary: j acc)
  case (Suc d)
  then have j: "j < length es" by simp
  have "holds L c (slot L k j) (es ! j)" using assms(1) j Suc.prems by (simp add: ring_def)
  then show ?case using Suc.hyps(1) [of "Suc j" "acc @ [es ! j]"] Suc.hyps(2) Suc.prems j collect_holds assms(2)
    by (simp add: upt_conv_Cons Cons_nth_drop_Suc)
qed simp

text \<open>Taking the free lock and releasing it.\<close>

lemma lock_round:
  assumes "lock_free i s"
  shows "\<exists>s1 s2. lock_free i s2 \<and> (\<forall>c. c_lock c = i \<longrightarrow>
     cbmem_lock_acquire c s = Some (Pend_Return OS_OK, s1) \<and> cbmem_lock_release c s1 = Some (OS_OK, s2))"
proof (cases "g_os_started s")
  case True
  with assms obtain idle where inv: "os_inv idle s" "mutex_inv s" "mu_level (os_mutexes s i) = 0"
    by (auto simp: lock_free_def)
  obtain t where t: "g_current_task s = Some t" by (rule os_inv_current [OF inv(1)])
  define s1 where "s1 = upd_mutex i (\<lambda>m. m\<lparr>mu_owner := Some t, mu_prio := task_prio s t, mu_level := 1\<rparr>) s"
  have pend: "os_mutex_pend (Some i) OS_TIMEOUT_NEVER s = Some (Pend_Return OS_OK, s1)"
    using True t inv(3) by (simp add: os_mutex_pend_def os_sched_get_current_task_def s1_def)
  note m = mutex_okD(1,2) [OF inv(2,3)]
  have "live s t" using os_inv_hd(2) [OF inv(1) t] by (simp add: live_def)
  then have "mutex_ok s1 j" for j
    using m inv(2) mutex_ok_frame [of s j s1]
    by (cases "j = i") (auto simp: s1_def mutex_inv_def mutex_ok_def)
  then have s1: "os_inv idle s1" "mutex_inv s1" "g_current_task s1 = Some t" "g_os_started s1"
    "mu_owner (os_mutexes s1 i) = Some t" "mu_level (os_mutexes s1 i) = 1" "obj_head s1 (ObjMutex i) = []"
    using inv t m True by (simp_all add: mutex_inv_def s1_def)
  from os_mutex_release_owner [OF s1(1-3,5,6)] s1(7) obtain s2 where
    "os_mutex_release (Some i) s1 = Some (OS_OK, s2)" "os_inv idle s2" "mutex_inv s2" "mu_level (os_mutexes s2 i) = 0"
    by auto
  with pend True s1(4) show ?thesis
    by (intro exI [of _ s1] exI [of _ s2]) (auto simp: lock_free_def cbmem_lock_acquire_def cbmem_lock_release_def)
qed (auto simp: lock_free_def cbmem_lock_acquire_def cbmem_lock_release_def)

lemma append_entry_lock: "append_entry data len c = Some c' \<Longrightarrow> c_lock c' = c_lock c"
  by (auto simp: append_entry_def append_place_def Let_def split: bind_splits option.splits if_splits prod.splits)

lemma ring_append_all:
  assumes "ring L k ds c" "0 < k" "0 < L" "L < 65536" "\<And>e. e \<in> set es \<Longrightarrow> length e = L"
    and "lock_free (c_lock c) s"
  shows "\<exists>c' s'. append_all es c s = Some (c', s') \<and> ring L k (ds @ es) c' \<and> c_lock c' = c_lock c \<and>
     lock_free (c_lock c) s'"
  using assms(1,5,6)
proof (induction es arbitrary: ds c s)
  case (Cons e es)
  obtain c1 where c1: "append_entry e (of_nat L) c = Some c1" "ring L k (ds @ [e]) c1"
    using ring_append [OF Cons.prems(1) assms(2-4)] Cons.prems(2) by force
  note l = append_entry_lock [OF c1(1)]
  from lock_round [OF Cons.prems(3)] obtain s1 s2 where s: "lock_free (c_lock c) s2"
    "cbmem_lock_acquire c s = Some (Pend_Return OS_OK, s1)" "cbmem_lock_release c1 s1 = Some (OS_OK, s2)"
    using l by metis
  from Cons.IH [OF c1(2), of s2] Cons.prems(2) s(1) l obtain c2 s3 where
    "append_all es c1 s2 = Some (c2, s3)" "ring L k ((ds @ [e]) @ es) c2" "c_lock c2 = c_lock c" "lock_free (c_lock c) s3"
    by auto
  then show ?case using c1(1) s Cons.prems(2) by (simp add: cbmem_append_def)
qed simp

lemma ring_init: "length buf = k * (sizeof_entry_hdr + L) \<Longrightarrow> ring L k [] (fst (cbmem_init lock buf s))"
  by (simp add: ring_def cbmem_init_def Let_def)

lemma cbmem_init_lock: "lock_free lock s \<Longrightarrow> lock_free lock (snd (cbmem_init lock buf s))"
proof (cases "g_os_started s")
  case True
  assume "lock_free lock s"
  with True have inv: "\<exists>idle. os_inv idle s" "mutex_inv s" "mu_level (os_mutexes s lock) = 0"
    by (auto simp: lock_free_def)
  let ?S = "upd_mutex lock (\<lambda>_. \<lparr>mu_prio = 0, mu_level = 0, mu_owner = None\<rparr>) s"
  note m = mutex_okD(1,2) [OF inv(2,3)]
  have S: "snd (cbmem_init lock buf s) = ?S"
    using m(2) by (simp add: cbmem_init_def os_mutex_init_def Let_def upd_defs fun_upd_idem)
  have "mutex_ok ?S j" for j
    using m inv(2) mutex_ok_frame [of s j ?S] by (cases "j = lock") (auto simp: mutex_inv_def mutex_ok_def)
  with inv show ?thesis by (simp add: S lock_free_def mutex_inv_def)
qed (simp add: lock_free_def cbmem_init_def os_mutex_init_def Let_def)

text \<open>
  C26: A circular buffer whose size is a whole number \<open>k\<close> of entries of \<open>L\<close> payload bytes keeps the
  newest entries: however many entries of that size are appended, every append succeeds without
  touching memory outside the buffer, and a walk then visits exactly the last \<open>k\<close> of them (all of
  them when there are fewer), oldest first and unchanged. This covers the wrap-around of the buffer.
  The entries have at least one byte and at most 65535, and at least one has been appended: for
  entries without payload the code writes a header past a full buffer (\<open>cbmem_append_no_payload\<close>), and
  the walk of an empty buffer follows a null pointer (\<open>cbmem_walk_empty\<close>). The calls are made one after the other,
  before the kernel starts, when the lock is not used, or by a task of the running kernel while no
  other task holds the lock; the lock is free again afterwards.
\<close>

theorem cbmem_keeps_newest:
  assumes "length buf = k * (sizeof_entry_hdr + L)" "0 < k" "0 < L" "L < 65536"
    and "\<forall>e \<in> set es. length e = L" "es \<noteq> []" "lock_free lock s" "cbmem_init lock buf s = (c0, s0)"
  shows "\<exists>c s1 s2. append_all es c0 s0 = Some (c, s1) \<and>
    cbmem_walk (collect c) [] c s1 = Some (Cb_Return OS_OK, drop (length es - k) es, s2) \<and> lock_free lock s2"
proof -
  have c0: "lock_free lock s0" "ring L k [] c0" "c_lock c0 = lock"
    using cbmem_init_lock [OF assms(7), of buf] ring_init [OF assms(1), of lock s] assms(8)
    by (auto simp: cbmem_init_def Let_def)
  obtain c s1 where c: "append_all es c0 s0 = Some (c, s1)" "ring L k es c" "c_lock c = lock" "lock_free lock s1"
    using ring_append_all [OF c0(2) assms(2-4), of es s0] assms(5) c0(1,3) by auto
  have "walk_loop (collect c) c (cbmem_iter_start c) [] = Some (drop (length es - k) es)"
    unfolding ring_walk [OF c(2) assms(2,6)]
    using ring_collect [OF c(2) assms(4), of "length es - k" "[]"] by (simp add: le_diff_conv)
  moreover obtain u s2 where "lock_free lock s2" "cbmem_lock_acquire c s1 = Some (Pend_Return OS_OK, u)"
    "cbmem_lock_release c u = Some (OS_OK, s2)"
    using lock_round [OF c(4)] c(3) by blast
  ultimately show ?thesis using c(1) by (auto simp: cbmem_walk_def)
qed

theorem cbmem_keeps_newest_witness:
  "\<exists>c s1 s2. append_all [[1, 2], [3, 4], [5, 6]] (fst (cbmem_init 7 (replicate 12 0) sample_os))
       (snd (cbmem_init 7 (replicate 12 0) sample_os)) = Some (c, s1) \<and>
     cbmem_walk (collect c) [] c s1 = Some (Cb_Return OS_OK, [[3, 4], [5, 6]], s2)"
proof -
  have "lock_free 7 sample_os"
    using os_inv_sample by (auto simp: lock_free_def mutex_inv_def mutex_ok_def sample_os_def)
  with cbmem_keeps_newest [of "replicate 12 0" 2 2 "[[1, 2], [3, 4], [5, 6]]" 7 sample_os
    "fst (cbmem_init 7 (replicate 12 0) sample_os)" "snd (cbmem_init 7 (replicate 12 0) sample_os)"]
  show ?thesis by (simp add: sizeof_entry_hdr_def) blast
qed

text \<open>
  The test whether an entry fits leaves out its header. An entry that fits only without its header
  is written past the end of the buffer.
\<close>

lemma cbmem_append_overflows:
  assumes "length buf < unat len + sizeof_entry_hdr" "unat len \<le> length buf" "length data = unat len" "0 < unat len"
  shows "append_entry data len (fst (cbmem_init lock buf s)) = None"
  using assms by (simp add: append_entry_def append_place_def cbmem_init_def Let_def poke_def peek_def bind_eq_None_conv) linarith

lemma cbmem_append_no_payload:
  "Option.bind (append_entry [] 0 (fst (cbmem_init lock [0, 0, 0, 0] s))) (append_entry [] 0) = None"
  by (simp add: append_entry_def append_place_def cbmem_init_def Let_def poke_def peek_def le16_def of_le16_def
      CBMEM_ENTRY_NEXT_def CBMEM_ENTRY_SIZE_def ceh_len_def sizeof_entry_hdr_def)

text \<open>Walking a buffer with no entry follows the null pointer that stands for its newest entry.\<close>

lemma cbmem_walk_empty:
  assumes "\<not> g_os_started s"
  shows "cbmem_walk f st (fst (cbmem_init lock buf s)) s = None"
  using assms by (simp add: cbmem_walk_def cbmem_lock_acquire_def cbmem_init_def Let_def cbmem_iter_start_def
      walk_loop.simps cbmem_iter_next_def ptr_gt_def)

end
