(* ===== verification/Hal_Flash.thy ===== *)
theory Hal_Flash
  imports Mynewt_Prelude
begin

text \<open>
  The flash layer of the hardware abstraction, \<^verbatim>\<open>hw/hal/src/hal_flash.c\<close>, and the simulated flash of
  the native target, \<^verbatim>\<open>hw/mcu/native/src/hal_flash.c\<close>.

  A driver is the table of functions \<^verbatim>\<open>struct hal_flash\<close>, working on a state of its own type; the
  table of devices \<^verbatim>\<open>bsp_flash_dev\<close> comes with the board and is an argument of every operation. The
  locale \<^verbatim>\<open>flash_bank\<close> states what a driver promises, including what a failing one may not touch; the
  operations of the abstraction layer are proved correct against it, and the native driver is shown
  to provide it.
\<close>

subsection \<open>hal_flash_int.h and hal_flash.c\<close>

record 'd hal_flash =
  hff_read :: "u32 \<Rightarrow> u32 \<Rightarrow> 'd \<Rightarrow> (int \<times> u8 list \<times> 'd) option"
  hff_write :: "u32 \<Rightarrow> u8 list \<Rightarrow> u32 \<Rightarrow> 'd \<Rightarrow> (int \<times> 'd) option"
  hff_erase_sector :: "u32 \<Rightarrow> 'd \<Rightarrow> (int \<times> 'd) option"
  hff_sector_info :: "int \<Rightarrow> (int \<times> u32 \<times> u32) option"
  hff_init :: "'d \<Rightarrow> (int \<times> 'd) option"
  hf_base_addr :: u32
  hf_size :: u32
  hf_sector_cnt :: int
  hf_align :: int

type_synonym 'd flash_devs = "u8 \<Rightarrow> 'd hal_flash option"

partial_function (option) init_devs :: "'d flash_devs \<Rightarrow> u8 \<Rightarrow> int \<Rightarrow> 'd \<Rightarrow> (int \<times> 'd) option" where
  "init_devs bsp i rc d =
     (case bsp i of
        None \<Rightarrow> Some (rc, d)
      | Some hf \<Rightarrow> do {
          (r, d1) \<leftarrow> hff_init hf d;
          init_devs bsp (i + 1) (if r \<noteq> 0 then -1 else rc) d1
        })"

definition hal_flash_init :: "'d flash_devs \<Rightarrow> 'd \<Rightarrow> (int \<times> 'd) option" where
  "hal_flash_init bsp d = init_devs bsp 0 0 d"

definition hal_flash_align :: "'d flash_devs \<Rightarrow> u8 \<Rightarrow> u8" where
  "hal_flash_align bsp flash_id = (case bsp flash_id of None \<Rightarrow> 1 | Some hf \<Rightarrow> word_of_int (hf_align hf))"

definition hal_flash_sector_size :: "'d hal_flash \<Rightarrow> int \<Rightarrow> u32 option" where
  "hal_flash_sector_size hf sec_idx = do {
     (rc, start, sz) \<leftarrow> hff_sector_info hf sec_idx;
     Some (if rc \<noteq> 0 then 0 else sz)
   }"

definition hal_flash_check_addr :: "'d hal_flash \<Rightarrow> u32 \<Rightarrow> int" where
  "hal_flash_check_addr hf addr =
     (if addr < hf_base_addr hf \<or> hf_base_addr hf + hf_size hf < addr then -1 else 0)"

definition hal_flash_read :: "'d flash_devs \<Rightarrow> u8 \<Rightarrow> u32 \<Rightarrow> u32 \<Rightarrow> 'd \<Rightarrow> (int \<times> u8 list \<times> 'd) option" where
  "hal_flash_read bsp i address num_bytes d =
     (case bsp i of
        None \<Rightarrow> Some (-1, [], d)
      | Some hf \<Rightarrow>
          if hal_flash_check_addr hf address \<noteq> 0 \<or> hal_flash_check_addr hf (address + num_bytes) \<noteq> 0
          then Some (-1, [], d)
          else hff_read hf address num_bytes d)"

definition hal_flash_write :: "'d flash_devs \<Rightarrow> u8 \<Rightarrow> u32 \<Rightarrow> u8 list \<Rightarrow> u32 \<Rightarrow> 'd \<Rightarrow> (int \<times> 'd) option" where
  "hal_flash_write bsp i address src num_bytes d =
     (case bsp i of
        None \<Rightarrow> Some (-1, d)
      | Some hf \<Rightarrow>
          if hal_flash_check_addr hf address \<noteq> 0 \<or> hal_flash_check_addr hf (address + num_bytes) \<noteq> 0
          then Some (-1, d)
          else hff_write hf address src num_bytes d)"

definition hal_flash_erase_sector :: "'d flash_devs \<Rightarrow> u8 \<Rightarrow> u32 \<Rightarrow> 'd \<Rightarrow> (int \<times> 'd) option" where
  "hal_flash_erase_sector bsp i sector_address d =
     (case bsp i of
        None \<Rightarrow> Some (-1, d)
      | Some hf \<Rightarrow>
          if hal_flash_check_addr hf sector_address \<noteq> 0 then Some (-1, d)
          else hff_erase_sector hf sector_address d)"

fun erase_sectors :: "'d hal_flash \<Rightarrow> u32 \<Rightarrow> u32 \<Rightarrow> int list \<Rightarrow> 'd \<Rightarrow> (int \<times> 'd) option" where
  "erase_sectors hf address endp [] d = Some (0, d)"
| "erase_sectors hf address endp (i # is) d = do {
     (rc, start, sz) \<leftarrow> hff_sector_info hf i;
     if rc \<noteq> 0 then None
     else if address < start + sz \<and> start < endp then do {
       (rc, d1) \<leftarrow> hff_erase_sector hf start d;
       if rc \<noteq> 0 then Some (-1, d1) else erase_sectors hf address endp is d1
     }
     else erase_sectors hf address endp is d
   }"

definition hal_flash_erase :: "'d flash_devs \<Rightarrow> u8 \<Rightarrow> u32 \<Rightarrow> u32 \<Rightarrow> 'd \<Rightarrow> (int \<times> 'd) option" where
  "hal_flash_erase bsp i address num_bytes d =
     (case bsp i of
        None \<Rightarrow> Some (-1, d)
      | Some hf \<Rightarrow>
          if hal_flash_check_addr hf address \<noteq> 0 \<or> hal_flash_check_addr hf (address + num_bytes) \<noteq> 0
          then Some (-1, d)
          else if address + num_bytes \<le> address then Some (-1, d)
          else erase_sectors hf address (address + num_bytes) [0 .. hf_sector_cnt hf - 1] d)"

subsection \<open>The native flash\<close>

text \<open>
  The mapped file, once it is open. Opening the file of a name that does not exist creates it erased;
  the contents of an existing one are an argument. A temporary file is always a new one.
\<close>

record native_flash =
  nf_open :: bool
  nf_mem :: "nat \<Rightarrow> u8"

definition native_flash_sectors :: "u32 list" where
  "native_flash_sectors = [0x00000000, 0x00004000, 0x00008000, 0x0000c000, 0x00010000, 0x00020000,
     0x00040000, 0x00060000, 0x00080000, 0x000a0000, 0x000c0000, 0x000e0000]"

definition FLASH_NUM_AREAS :: int where "FLASH_NUM_AREAS = 12"

definition native_size :: u32 where "native_size = 1024 * 1024"

definition native_align :: int where "native_align = 1"

definition flash_native_erase :: "u32 \<Rightarrow> u32 \<Rightarrow> native_flash \<Rightarrow> native_flash option" where
  "flash_native_erase addr len s =
     (if unat addr + unat len \<le> unat native_size
      then Some (s\<lparr>nf_mem := (\<lambda>x. if unat addr \<le> x \<and> x < unat addr + unat len then 0xff else nf_mem s x)\<rparr>)
      else None)"

definition flash_native_file_open :: "(nat \<Rightarrow> u8) option \<Rightarrow> native_flash \<Rightarrow> native_flash option" where
  "flash_native_file_open existing s =
     (case existing of
        Some contents \<Rightarrow> Some (s\<lparr>nf_open := True, nf_mem := contents\<rparr>)
      | None \<Rightarrow> flash_native_erase 0 native_size (s\<lparr>nf_open := True, nf_mem := (\<lambda>_. 0)\<rparr>))"

definition flash_native_ensure_file_open :: "native_flash \<Rightarrow> native_flash option" where
  "flash_native_ensure_file_open s = (if \<not> nf_open s then flash_native_file_open None s else Some s)"

definition native_flash_read :: "u32 \<Rightarrow> u32 \<Rightarrow> native_flash \<Rightarrow> (int \<times> u8 list \<times> native_flash) option" where
  "native_flash_read address len s = do {
     s1 \<leftarrow> flash_native_ensure_file_open s;
     if unat address + unat len \<le> unat native_size
     then Some (0, map (nf_mem s1) [unat address ..< unat address + unat len], s1)
     else None
   }"

text \<open>The loop of \<^verbatim>\<open>flash_native_write_internal\<close> that checks that no data is overwritten.\<close>

partial_function (option) check_erased :: "bool \<Rightarrow> u32 \<Rightarrow> u32 \<Rightarrow> native_flash \<Rightarrow> native_flash option" where
  "check_erased allow_overwrite cur endp s =
     (if cur < endp then
        (let chunk_sz = (if endp - cur < 256 then endp - cur else 256)
         in if \<not> allow_overwrite then do {
              (rc, buf, s1) \<leftarrow> native_flash_read cur chunk_sz s;
              if rc = 0 \<and> list_all (\<lambda>b. b = 0xff) buf
              then check_erased allow_overwrite (cur + chunk_sz) endp s1
              else None
            }
            else check_erased allow_overwrite (cur + chunk_sz) endp s)
      else Some s)"

definition flash_native_write_internal ::
    "u32 \<Rightarrow> u8 list \<Rightarrow> u32 \<Rightarrow> bool \<Rightarrow> native_flash \<Rightarrow> (int \<times> native_flash) option" where
  "flash_native_write_internal address src len allow_overwrite s =
     (if len = 0 then Some (0, s)
      else do {
        s1 \<leftarrow> flash_native_ensure_file_open s;
        s2 \<leftarrow> check_erased allow_overwrite address (address + len) s1;
        if unat address + unat len \<le> unat native_size \<and> unat len \<le> length src
        then Some (0, s2\<lparr>nf_mem := (\<lambda>x. if unat address \<le> x \<and> x < unat address + unat len
                                          then src ! (x - unat address) else nf_mem s2 x)\<rparr>)
        else None
      })"

definition native_flash_write :: "u32 \<Rightarrow> u8 list \<Rightarrow> u32 \<Rightarrow> native_flash \<Rightarrow> (int \<times> native_flash) option" where
  "native_flash_write address src len s =
     (if uint address mod native_align = 0
      then flash_native_write_internal address src len False s else None)"

definition flash_native_memset :: "u32 \<Rightarrow> u8 \<Rightarrow> u32 \<Rightarrow> native_flash \<Rightarrow> (int \<times> native_flash) option" where
  "flash_native_memset offset c len s =
     (if nf_open s \<and> unat offset + unat len \<le> unat native_size
      then Some (0, s\<lparr>nf_mem := (\<lambda>x. if unat offset \<le> x \<and> x < unat offset + unat len then c else nf_mem s x)\<rparr>)
      else None)"

fun find_area_from :: "int \<Rightarrow> u32 list \<Rightarrow> u32 \<Rightarrow> int" where
  "find_area_from i [] address = -1"
| "find_area_from i (a # as) address = (if a = address then i else find_area_from (i + 1) as address)"

definition find_area :: "u32 \<Rightarrow> int" where
  "find_area address = find_area_from 0 native_flash_sectors address"

definition flash_sector_len :: "int \<Rightarrow> u32 option" where
  "flash_sector_len sector = do {
     endp \<leftarrow> (if sector = FLASH_NUM_AREAS - 1 then Some (native_size + native_flash_sectors ! 0)
             else if 0 \<le> sector + 1 \<and> sector + 1 < FLASH_NUM_AREAS
             then Some (native_flash_sectors ! nat (sector + 1)) else None);
     if 0 \<le> sector \<and> sector < FLASH_NUM_AREAS then Some (endp - native_flash_sectors ! nat sector) else None
   }"

definition native_flash_erase_sector :: "u32 \<Rightarrow> native_flash \<Rightarrow> (int \<times> native_flash) option" where
  "native_flash_erase_sector sector_address s = do {
     s1 \<leftarrow> flash_native_ensure_file_open s;
     let area_id = find_area sector_address;
     if area_id = -1 then Some (-1, s1)
     else do {
       len \<leftarrow> flash_sector_len area_id;
       s2 \<leftarrow> flash_native_erase sector_address len s1;
       Some (0, s2)
     }
   }"

definition native_flash_sector_info :: "int \<Rightarrow> (int \<times> u32 \<times> u32) option" where
  "native_flash_sector_info idx =
     (if 0 \<le> idx \<and> idx < FLASH_NUM_AREAS
      then do { len \<leftarrow> flash_sector_len idx; Some (0, native_flash_sectors ! nat idx, len) }
      else None)"

definition native_flash_init :: "(nat \<Rightarrow> u8) option option \<Rightarrow> native_flash \<Rightarrow> (int \<times> native_flash) option" where
  "native_flash_init native_flash_file s =
     (case native_flash_file of
        None \<Rightarrow> Some (0, s)
      | Some existing \<Rightarrow> do { s1 \<leftarrow> flash_native_file_open existing s; Some (0, s1) })"

definition native_flash_dev :: "(nat \<Rightarrow> u8) option option \<Rightarrow> native_flash hal_flash" where
  "native_flash_dev native_flash_file =
     \<lparr>hff_read = native_flash_read, hff_write = native_flash_write, hff_erase_sector = native_flash_erase_sector,
      hff_sector_info = native_flash_sector_info, hff_init = native_flash_init native_flash_file,
      hf_base_addr = 0, hf_size = native_size, hf_sector_cnt = FLASH_NUM_AREAS, hf_align = native_align\<rparr>"

text \<open>The board of the native target has one flash, with the identifier 0.\<close>

definition bsp_flash_dev :: "(nat \<Rightarrow> u8) option option \<Rightarrow> native_flash flash_devs" where
  "bsp_flash_dev native_flash_file i = (if i \<noteq> 0 then None else Some (native_flash_dev native_flash_file))"

text \<open>Two states of the flash agree except on the addresses \<open>A\<close> of the device \<open>i\<close>.\<close>

definition same_outside :: "('d \<Rightarrow> u8 \<Rightarrow> nat \<Rightarrow> u8) \<Rightarrow> u8 \<Rightarrow> nat set \<Rightarrow> 'd \<Rightarrow> 'd \<Rightarrow> bool" where
  "same_outside view i A d d' \<longleftrightarrow> (\<forall>j x. j \<noteq> i \<or> x \<notin> A \<longrightarrow> view d' j x = view d j x)"

definition in_dev :: "'d hal_flash \<Rightarrow> u32 \<Rightarrow> u32 \<Rightarrow> bool" where
  "in_dev hf a n \<longleftrightarrow> unat (hf_base_addr hf) \<le> unat a \<and> unat a + unat n \<le> unat (hf_base_addr hf) + unat (hf_size hf)"

definition addrs :: "u32 \<Rightarrow> u32 \<Rightarrow> nat set" where
  "addrs a n = {unat a ..< unat a + unat n}"

text \<open>The bytes of the sectors that share a byte with a range.\<close>

definition sectors_meeting :: "'d hal_flash \<Rightarrow> u32 \<Rightarrow> u32 \<Rightarrow> nat set" where
  "sectors_meeting hf a n = {x. \<exists>k st sz. 0 \<le> k \<and> k < hf_sector_cnt hf \<and> hff_sector_info hf k = Some (0, st, sz) \<and>
     x \<in> addrs st sz \<and> addrs st sz \<inter> addrs a n \<noteq> {}}"

text \<open>The contents of the native flash: those of the file, or erased bytes if it is not open yet.\<close>

definition native_view :: "native_flash \<Rightarrow> u8 \<Rightarrow> nat \<Rightarrow> u8" where
  "native_view s i x = (if i = 0 then nf_mem (the (flash_native_ensure_file_open s)) x else 0)"

subsection \<open>Lemmas\<close>

lemma same_outside_refl [simp]: "same_outside view i A d d"
  by (simp add: same_outside_def)

lemma same_outside_mono: "same_outside view i A d d' \<Longrightarrow> A \<subseteq> B \<Longrightarrow> same_outside view i B d d'"
  by (auto simp: same_outside_def)

lemma same_outside_trans:
  "same_outside view i A d d' \<Longrightarrow> same_outside view i A d' d'' \<Longrightarrow> same_outside view i A d d''"
  by (auto simp: same_outside_def)

lemma same_outsideD: "same_outside view i A d d' \<Longrightarrow> j \<noteq> i \<or> x \<notin> A \<Longrightarrow> view d' j x = view d j x"
  by (auto simp: same_outside_def)

text \<open>
  What the flash drivers of a board promise. Reading and writing inside a device never fail an
  assertion when only erased bytes are written; an operation that reports an error may have spoiled
  the bytes it was to change, but no others.
\<close>

locale flash_bank =
  fixes bsp :: "'d flash_devs" and view :: "'d \<Rightarrow> u8 \<Rightarrow> nat \<Rightarrow> u8"
  assumes dev_range: "bsp i = Some hf \<Longrightarrow> unat (hf_base_addr hf) + unat (hf_size hf) < 2 ^ 32"
    and dev_read: "bsp i = Some hf \<Longrightarrow> in_dev hf a n \<Longrightarrow>
      \<exists>rc bs d'. hff_read hf a n d = Some (rc, bs, d') \<and> view d' = view d \<and>
        (rc = 0 \<longrightarrow> bs = map (view d i) [unat a ..< unat a + unat n])"
    and dev_write: "bsp i = Some hf \<Longrightarrow> in_dev hf a n \<Longrightarrow> uint a mod hf_align hf = 0 \<Longrightarrow> unat n \<le> length src \<Longrightarrow>
      \<forall>x \<in> addrs a n. view d i x = 0xff \<Longrightarrow>
      \<exists>rc d'. hff_write hf a src n d = Some (rc, d') \<and> same_outside view i (addrs a n) d d' \<and>
        (rc = 0 \<longrightarrow> map (view d' i) [unat a ..< unat a + unat n] = take (unat n) src)"
    and dev_sector: "bsp i = Some hf \<Longrightarrow> 0 \<le> k \<Longrightarrow> k < hf_sector_cnt hf \<Longrightarrow>
      \<exists>st sz. hff_sector_info hf k = Some (0, st, sz) \<and> in_dev hf st sz"
    and dev_erase: "bsp i = Some hf \<Longrightarrow> 0 \<le> k \<Longrightarrow> k < hf_sector_cnt hf \<Longrightarrow> hff_sector_info hf k = Some (0, st, sz) \<Longrightarrow>
      \<exists>rc d'. hff_erase_sector hf st d = Some (rc, d') \<and> same_outside view i (addrs st sz) d d' \<and>
        (rc = 0 \<longrightarrow> (\<forall>x \<in> addrs st sz. view d' i x = 0xff))"
    and dev_tiles: "bsp i = Some hf \<Longrightarrow> unat (hf_base_addr hf) \<le> x \<Longrightarrow> x < unat (hf_base_addr hf) + unat (hf_size hf) \<Longrightarrow>
      \<exists>k st sz. 0 \<le> k \<and> k < hf_sector_cnt hf \<and> hff_sector_info hf k = Some (0, st, sz) \<and> x \<in> addrs st sz"
begin

lemma range_in_sectors:
  assumes "bsp i = Some hf" "in_dev hf a n"
  shows "addrs a n \<subseteq> sectors_meeting hf a n"
proof
  fix x assume x: "x \<in> addrs a n"
  then obtain k st sz where "0 \<le> k" "k < hf_sector_cnt hf" "hff_sector_info hf k = Some (0, st, sz)" "x \<in> addrs st sz"
    using dev_tiles [OF assms(1), of x] assms(2) by (auto simp: addrs_def in_dev_def)
  then show "x \<in> sectors_meeting hf a n" using x by (auto simp: sectors_meeting_def)
qed

lemma in_dev_check:
  assumes "bsp i = Some hf" "in_dev hf a n"
  shows "hal_flash_check_addr hf a = 0" "hal_flash_check_addr hf (a + n) = 0" "unat (a + n) = unat a + unat n"
proof -
  have r: "unat (hf_base_addr hf) + unat (hf_size hf) < 2 ^ 32" by (rule dev_range [OF assms(1)])
  then show n: "unat (a + n) = unat a + unat n" using assms(2)
    by (simp add: in_dev_def unat_word_ariths)
  have "unat (hf_base_addr hf + hf_size hf) = unat (hf_base_addr hf) + unat (hf_size hf)"
    using r by (simp add: unat_word_ariths)
  then show "hal_flash_check_addr hf a = 0" "hal_flash_check_addr hf (a + n) = 0"
    using assms(2) n by (auto simp: hal_flash_check_addr_def in_dev_def word_less_nat_alt)
qed

lemma hal_read:
  assumes "bsp i = Some hf" "in_dev hf a n"
  shows "\<exists>rc bs d'. hal_flash_read bsp i a n d = Some (rc, bs, d') \<and> view d' = view d \<and>
    (rc = 0 \<longrightarrow> bs = map (view d i) [unat a ..< unat a + unat n])"
  using in_dev_check [OF assms] dev_read [OF assms] assms(1) by (simp add: hal_flash_read_def)

lemma hal_write:
  assumes "bsp i = Some hf" "in_dev hf a n" "uint a mod hf_align hf = 0" "unat n \<le> length src"
    "\<forall>x \<in> addrs a n. view d i x = 0xff"
  shows "\<exists>rc d'. hal_flash_write bsp i a src n d = Some (rc, d') \<and> same_outside view i (addrs a n) d d' \<and>
    (rc = 0 \<longrightarrow> map (view d' i) [unat a ..< unat a + unat n] = take (unat n) src)"
  using in_dev_check [OF assms(1,2)] dev_write [OF assms] assms(1) by (simp add: hal_flash_write_def)

text \<open>Erasing a range erases every sector that meets it, and touches no other sector.\<close>

lemma erase_some:
  assumes "bsp i = Some hf" "\<And>k. k \<in> set ks \<Longrightarrow> 0 \<le> k \<and> k < hf_sector_cnt hf"
    and "A = {x. \<exists>k \<in> set ks. \<exists>st sz. hff_sector_info hf k = Some (0, st, sz) \<and> a < st + sz \<and> st < e \<and> x \<in> addrs st sz}"
  shows "\<exists>rc d'. erase_sectors hf a e ks d = Some (rc, d') \<and> same_outside view i A d d' \<and>
    (rc = 0 \<longrightarrow> (\<forall>x \<in> A. view d' i x = 0xff))"
  using assms(2,3)
proof (induction ks arbitrary: d A)
  case (Cons k ks)
  obtain st sz where k: "hff_sector_info hf k = Some (0, st, sz)" "0 \<le> k" "k < hf_sector_cnt hf"
    using dev_sector [OF assms(1), of k] Cons.prems(1) by force
  define B where "B = {x. \<exists>k \<in> set ks. \<exists>st sz. hff_sector_info hf k = Some (0, st, sz) \<and> a < st + sz \<and> st < e \<and> x \<in> addrs st sz}"
  note IH = Cons.IH [of B, OF _ B_def]
  show ?case
  proof (cases "a < st + sz \<and> st < e")
    case False
    then have "A = B" using k Cons.prems(2) by (auto simp: B_def)
    then show ?thesis using IH [of d] Cons.prems(1) k False by auto
  next
    case True
    then have A: "A = addrs st sz \<union> B" using k Cons.prems(2) by (auto simp: B_def)
    obtain rc d1 where d1: "hff_erase_sector hf st d = Some (rc, d1)" "same_outside view i (addrs st sz) d d1"
        "rc = 0 \<longrightarrow> (\<forall>x \<in> addrs st sz. view d1 i x = 0xff)"
      using dev_erase [OF assms(1) k(2,3,1)] by blast
    have s1: "same_outside view i A d d1" using d1(2) A by (auto intro: same_outside_mono)
    show ?thesis
    proof (cases "rc = 0")
      case False
      then show ?thesis using k True d1(1) s1 by simp
    next
      case rc: True
      obtain rc2 d2 where d2: "erase_sectors hf a e ks d1 = Some (rc2, d2)" "same_outside view i B d1 d2"
          "rc2 = 0 \<longrightarrow> (\<forall>x \<in> B. view d2 i x = 0xff)"
        using IH [of d1] Cons.prems(1) by auto
      have "same_outside view i A d d2"
        by (rule same_outside_trans [OF s1]) (use d2(2) A in \<open>auto intro: same_outside_mono\<close>)
      moreover have "view d2 i x = 0xff" if "rc2 = 0" "x \<in> A" for x
        using that A d1(3) rc d2(3) same_outsideD [OF d2(2), of i x] by (cases "x \<in> B") auto
      ultimately show ?thesis using k True d1(1) rc d2(1) by auto
    qed
  qed
qed auto

lemma hal_erase:
  assumes "bsp i = Some hf" "in_dev hf a n" "0 < unat n"
  shows "\<exists>rc d'. hal_flash_erase bsp i a n d = Some (rc, d') \<and> same_outside view i (sectors_meeting hf a n) d d' \<and>
    (rc = 0 \<longrightarrow> (\<forall>x \<in> sectors_meeting hf a n. view d' i x = 0xff))"
proof -
  note c = in_dev_check [OF assms(1,2)]
  have meets: "a < st + sz \<and> st < a + n \<longleftrightarrow> addrs st sz \<inter> addrs a n \<noteq> {}"
    if "0 \<le> k" "k < hf_sector_cnt hf" "hff_sector_info hf k = Some (0, st, sz)" "x \<in> addrs st sz" for k st sz x
  proof -
    have "in_dev hf st sz" using dev_sector [OF assms(1), of k] that by auto
    then have "unat (st + sz) = unat st + unat sz" by (rule in_dev_check(3) [OF assms(1)])
    then have *: "a < st + sz \<and> st < a + n \<longleftrightarrow> unat a < unat st + unat sz \<and> unat st < unat a + unat n"
      using c(3) by (simp add: word_less_nat_alt)
    have "max (unat st) (unat a) \<in> addrs st sz \<inter> addrs a n" if "unat a < unat st + unat sz \<and> unat st < unat a + unat n"
      using that assms(3) \<open>x \<in> addrs st sz\<close> by (auto simp: addrs_def max_def)
    then show ?thesis unfolding * by (auto simp: addrs_def)
  qed
  have "sectors_meeting hf a n = {x. \<exists>k \<in> set [0 .. hf_sector_cnt hf - 1]. \<exists>st sz.
      hff_sector_info hf k = Some (0, st, sz) \<and> a < st + sz \<and> st < a + n \<and> x \<in> addrs st sz}"
    unfolding sectors_meeting_def Bex_def set_upto atLeastAtMost_iff zle_diff1_eq
    using meets by (intro Collect_cong) meson
  from erase_some [OF assms(1) _ this] show ?thesis using assms(1) c assms(3)
    by (auto simp: hal_flash_erase_def word_le_nat_alt)
qed

end

text \<open>Drivers that report no error, for operations inside the device.\<close>

locale reliable_flash = flash_bank +
  assumes read_rc: "bsp i = Some hf \<Longrightarrow> hff_read hf a n d = Some (rc, bs, d') \<Longrightarrow> rc = 0"
    and write_rc: "bsp i = Some hf \<Longrightarrow> hff_write hf a src n d = Some (rc, d') \<Longrightarrow> rc = 0"
    and erase_rc: "bsp i = Some hf \<Longrightarrow> 0 \<le> k \<Longrightarrow> k < hf_sector_cnt hf \<Longrightarrow> hff_sector_info hf k = Some (0, st, sz) \<Longrightarrow>
      hff_erase_sector hf st d = Some (rc, d') \<Longrightarrow> rc = 0"
begin

lemma hal_read_rc:
  assumes "bsp i = Some hf" "in_dev hf a n" "hal_flash_read bsp i a n d = Some (rc, bs, d')"
  shows "rc = 0"
  using in_dev_check [OF assms(1,2)] assms read_rc [OF assms(1)] by (auto simp: hal_flash_read_def)

lemma hal_write_rc:
  assumes "bsp i = Some hf" "in_dev hf a n" "hal_flash_write bsp i a src n d = Some (rc, d')"
  shows "rc = 0"
  using in_dev_check [OF assms(1,2)] assms write_rc [OF assms(1)] by (auto simp: hal_flash_write_def)

lemma erase_sectors_rc:
  assumes "bsp i = Some hf" "\<And>k. k \<in> set ks \<Longrightarrow> 0 \<le> k \<and> k < hf_sector_cnt hf" "erase_sectors hf a e ks d = Some (rc, d')"
  shows "rc = 0"
  using assms(2,3)
proof (induction ks arbitrary: d)
  case (Cons k ks)
  obtain st sz where k: "hff_sector_info hf k = Some (0, st, sz)" "0 \<le> k" "k < hf_sector_cnt hf"
    using dev_sector [OF assms(1), of k] Cons.prems(1) by force
  show ?case using Cons.IH Cons.prems k erase_rc [OF assms(1) k(2,3,1)]
    by (auto simp: bind_eq_Some_conv split: if_splits)
qed simp

lemma hal_erase_rc:
  assumes "bsp i = Some hf" "in_dev hf a n" "0 < unat n" "hal_flash_erase bsp i a n d = Some (rc, d')"
  shows "rc = 0"
proof -
  note c = in_dev_check [OF assms(1,2)]
  have "erase_sectors hf a (a + n) [0 .. hf_sector_cnt hf - 1] d = Some (rc, d')"
    using assms c by (auto simp: hal_flash_erase_def word_le_nat_alt)
  from erase_sectors_rc [OF assms(1) _ this] show ?thesis by auto
qed

text \<open>Updating a range: erase it, write it, and read back what was written.\<close>

lemma update:
  assumes "bsp i = Some hf" "in_dev hf a n" "0 < unat n" "uint a mod hf_align hf = 0" "length src = unat n"
  shows "\<exists>d1 d2 d3. hal_flash_erase bsp i a n d = Some (0, d1) \<and> hal_flash_write bsp i a src n d1 = Some (0, d2) \<and>
    hal_flash_read bsp i a n d2 = Some (0, src, d3) \<and> same_outside view i (sectors_meeting hf a n) d d3"
proof -
  obtain d1 where d1: "hal_flash_erase bsp i a n d = Some (0, d1)" "same_outside view i (sectors_meeting hf a n) d d1"
      "\<forall>x \<in> sectors_meeting hf a n. view d1 i x = 0xff"
    using hal_erase [OF assms(1-3)] hal_erase_rc [OF assms(1-3)] by (metis (no_types))
  then have "\<forall>x \<in> addrs a n. view d1 i x = 0xff" using range_in_sectors [OF assms(1,2)] by blast
  then obtain d2 where d2: "hal_flash_write bsp i a src n d1 = Some (0, d2)" "same_outside view i (addrs a n) d1 d2"
      "map (view d2 i) [unat a ..< unat a + unat n] = take (unat n) src"
    using hal_write [OF assms(1,2,4)] hal_write_rc [OF assms(1,2)] assms(5) by (metis order_refl)
  obtain d3 where d3: "hal_flash_read bsp i a n d2 = Some (0, map (view d2 i) [unat a ..< unat a + unat n], d3)" "view d3 = view d2"
    using hal_read [OF assms(1,2)] hal_read_rc [OF assms(1,2)] by metis
  have "same_outside view i (sectors_meeting hf a n) d d2"
    by (rule same_outside_trans [OF d1(2) same_outside_mono [OF d2(2) range_in_sectors [OF assms(1,2)]]])
  then have "same_outside view i (sectors_meeting hf a n) d d3" using d3(2) by (simp add: same_outside_def)
  then show ?thesis using d1(1) d2(1,3) d3(1) assms(5) by auto
qed

end

lemma native_size: "unat native_size = 1048576"
  by (simp add: native_size_def)

lemma ensure_open:
  obtains s1 where "flash_native_ensure_file_open s = Some s1" "nf_open s1" "native_view s1 = native_view s"
    "native_view s 0 = nf_mem s1"
proof -
  have "\<exists>s1. flash_native_ensure_file_open s = Some s1 \<and> nf_open s1"
    by (simp add: flash_native_ensure_file_open_def flash_native_file_open_def flash_native_erase_def)
  then obtain s1 where "flash_native_ensure_file_open s = Some s1" "nf_open s1" by blast
  moreover have "flash_native_ensure_file_open s1 = Some s1" using calculation by (simp add: flash_native_ensure_file_open_def)
  ultimately show thesis by (intro that) (auto simp: native_view_def fun_eq_iff)
qed

lemma native_view_open: "nf_open s \<Longrightarrow> native_view s i x = (if i = 0 then nf_mem s x else 0)"
  by (simp add: native_view_def flash_native_ensure_file_open_def)

lemma check_erased_ok:
  assumes "nf_open s" "unat endp \<le> unat native_size" "\<forall>x. unat cur \<le> x \<and> x < unat endp \<longrightarrow> nf_mem s x = 0xff"
  shows "check_erased False cur endp s = Some s"
  using assms(3)
proof (induction "unat endp - unat cur" arbitrary: cur rule: less_induct)
  case less
  show ?case
  proof (cases "cur < endp")
    case True
    let ?c = "if endp - cur < 256 then endp - cur else 256"
    have d: "unat (endp - cur) = unat endp - unat cur" by (rule unat_sub) (use True in simp)
    then have c: "unat ?c = min 256 (unat endp - unat cur)" by (simp add: word_less_nat_alt)
    have lt: "unat cur < unat endp" using True by (simp add: word_less_nat_alt)
    have endp: "unat endp < 2 ^ 32" using unsigned_less [of endp] by simp
    have "unat (cur + ?c) = unat cur + unat ?c"
      by (subst unat_word_ariths, rule mod_less) (use c lt endp in simp)
    then have s: "unat (cur + ?c) = unat cur + unat ?c" "unat cur + unat ?c \<le> unat endp" "0 < unat ?c"
      using c lt by simp_all
    have "list_all (\<lambda>b. b = 0xff) (map (nf_mem s) [unat cur ..< unat cur + unat ?c])"
      using less.prems s(2) by (auto simp: list_all_iff)
    moreover have "native_flash_read cur ?c s = Some (0, map (nf_mem s) [unat cur ..< unat cur + unat ?c], s)"
      using assms(1,2) s(2) by (simp add: native_flash_read_def flash_native_ensure_file_open_def)
    moreover have "check_erased False (cur + ?c) endp s = Some s"
      using less.hyps [of "cur + ?c"] less.prems s lt by simp
    ultimately show ?thesis using True by (subst check_erased.simps) (simp add: Let_def)
  qed (subst check_erased.simps, simp)
qed

lemma native_info:
  "native_flash_sector_info 0 = Some (0, 0x0, 0x4000)"
  "native_flash_sector_info 1 = Some (0, 0x4000, 0x4000)"
  "native_flash_sector_info 2 = Some (0, 0x8000, 0x4000)"
  "native_flash_sector_info 3 = Some (0, 0xc000, 0x4000)"
  "native_flash_sector_info 4 = Some (0, 0x10000, 0x10000)"
  "native_flash_sector_info 5 = Some (0, 0x20000, 0x20000)"
  "native_flash_sector_info 6 = Some (0, 0x40000, 0x20000)"
  "native_flash_sector_info 7 = Some (0, 0x60000, 0x20000)"
  "native_flash_sector_info 8 = Some (0, 0x80000, 0x20000)"
  "native_flash_sector_info 9 = Some (0, 0xa0000, 0x20000)"
  "native_flash_sector_info 10 = Some (0, 0xc0000, 0x20000)"
  "native_flash_sector_info 11 = Some (0, 0xe0000, 0x20000)"
  by (simp_all add: native_flash_sector_info_def flash_sector_len_def FLASH_NUM_AREAS_def
      native_flash_sectors_def native_size_def)

lemma native_sector:
  assumes "0 \<le> k" "k < FLASH_NUM_AREAS"
  shows "\<exists>st sz. native_flash_sector_info k = Some (0, st, sz) \<and> find_area st = k \<and> flash_sector_len k = Some sz \<and>
    unat st + unat sz \<le> unat native_size"
proof -
  have "k = 0 \<or> k = 1 \<or> k = 2 \<or> k = 3 \<or> k = 4 \<or> k = 5 \<or> k = 6 \<or> k = 7 \<or> k = 8 \<or> k = 9 \<or> k = 10 \<or> k = 11"
    using assms unfolding FLASH_NUM_AREAS_def by presburger
  then show ?thesis
    by (elim disjE) (simp_all add: native_flash_sector_info_def flash_sector_len_def FLASH_NUM_AREAS_def
        native_flash_sectors_def find_area_def native_size_def)
qed

lemma native_write_ok:
  assumes "unat a + unat n \<le> unat native_size" "unat n \<le> length src" "\<forall>x \<in> addrs a n. native_view d 0 x = 0xff"
  shows "\<exists>d'. native_flash_write a src n d = Some (0, d') \<and> same_outside native_view 0 (addrs a n) d d' \<and>
    map (native_view d' 0) [unat a ..< unat a + unat n] = take (unat n) src"
proof (cases "n = 0")
  case False
  obtain s1 where s1: "flash_native_ensure_file_open d = Some s1" "nf_open s1" "native_view s1 = native_view d"
    "native_view d 0 = nf_mem s1" by (rule ensure_open)
  have sum: "unat (a + n) = unat a + unat n" using assms(1) by (simp add: unat_word_ariths native_size)
  have "check_erased False a (a + n) s1 = Some s1"
    by (rule check_erased_ok) (use s1 assms sum in \<open>auto simp: addrs_def\<close>)
  moreover define d' where "d' = s1\<lparr>nf_mem := (\<lambda>x. if unat a \<le> x \<and> x < unat a + unat n then src ! (x - unat a) else nf_mem s1 x)\<rparr>"
  ultimately have w: "native_flash_write a src n d = Some (0, d')" using assms(1,2) False s1(1)
    by (simp add: native_flash_write_def native_align_def flash_native_write_internal_def)
  have v: "native_view d' i x = (if i = 0 \<and> x \<in> addrs a n then src ! (x - unat a) else native_view d i x)" for i x
    using s1(2-4) by (simp add: d'_def native_view_open addrs_def) (simp add: native_view_def)
  have "map (native_view d' 0) [unat a ..< unat a + unat n] = take (unat n) src"
    by (rule nth_equalityI) (use assms(2) in \<open>auto simp: v addrs_def\<close>)
  then show ?thesis using w by (auto simp: v same_outside_def)
qed (simp add: native_flash_write_def native_align_def flash_native_write_internal_def)

lemma native_erase_ok:
  assumes "0 \<le> k" "k < FLASH_NUM_AREAS" "native_flash_sector_info k = Some (0, st, sz)"
  shows "\<exists>d'. native_flash_erase_sector st d = Some (0, d') \<and> same_outside native_view 0 (addrs st sz) d d' \<and>
    (\<forall>x \<in> addrs st sz. native_view d' 0 x = 0xff)"
proof -
  have k: "find_area st = k" "flash_sector_len k = Some sz" "unat st + unat sz \<le> unat native_size"
    using native_sector [OF assms(1,2)] assms(3) by auto
  obtain s1 where s1: "flash_native_ensure_file_open d = Some s1" "nf_open s1" "native_view s1 = native_view d"
    "native_view d 0 = nf_mem s1" by (rule ensure_open)
  define d' where "d' = s1\<lparr>nf_mem := (\<lambda>x. if unat st \<le> x \<and> x < unat st + unat sz then 0xff else nf_mem s1 x)\<rparr>"
  have "native_flash_erase_sector st d = Some (0, d')" using s1(1) k assms(1)
    by (simp add: native_flash_erase_sector_def flash_native_erase_def d'_def)
  moreover have "native_view d' i x = (if i = 0 \<and> x \<in> addrs st sz then 0xff else native_view d i x)" for i x
    using s1(2-4) by (simp add: d'_def native_view_open addrs_def) (simp add: native_view_def)
  ultimately show ?thesis by (auto simp: same_outside_def)
qed

lemma in_sector:
  assumes "native_flash_sector_info k = Some (0, st, sz)" "0 \<le> k" "k < FLASH_NUM_AREAS" "x < unat st + unat sz"
  shows "x < unat st \<or> (\<exists>k st sz. 0 \<le> k \<and> k < FLASH_NUM_AREAS \<and> native_flash_sector_info k = Some (0, st, sz) \<and> x \<in> addrs st sz)"
  using assms by (auto simp: addrs_def not_less)

lemma native_tiles:
  assumes "x < unat native_size"
  shows "\<exists>k st sz. 0 \<le> k \<and> k < FLASH_NUM_AREAS \<and> native_flash_sector_info k = Some (0, st, sz) \<and> x \<in> addrs st sz"
proof (rule ccontr)
  assume no: "\<not> ?thesis"
  have below: "x < unat st" if "native_flash_sector_info k = Some (0, st, sz)" "x < unat st + unat sz" "0 \<le> k" "k < FLASH_NUM_AREAS"
    for k st sz using in_sector [OF that(1,3,4,2)] no by blast
  have "x < 0x100000" using assms by (simp add: native_size)
  then have "x < 0xe0000" using below [OF native_info(12)] by (simp add: FLASH_NUM_AREAS_def)
  then have "x < 0xc0000" using below [OF native_info(11)] by (simp add: FLASH_NUM_AREAS_def)
  then have "x < 0xa0000" using below [OF native_info(10)] by (simp add: FLASH_NUM_AREAS_def)
  then have "x < 0x80000" using below [OF native_info(9)] by (simp add: FLASH_NUM_AREAS_def)
  then have "x < 0x60000" using below [OF native_info(8)] by (simp add: FLASH_NUM_AREAS_def)
  then have "x < 0x40000" using below [OF native_info(7)] by (simp add: FLASH_NUM_AREAS_def)
  then have "x < 0x20000" using below [OF native_info(6)] by (simp add: FLASH_NUM_AREAS_def)
  then have "x < 0x10000" using below [OF native_info(5)] by (simp add: FLASH_NUM_AREAS_def)
  then have "x < 0xc000" using below [OF native_info(4)] by (simp add: FLASH_NUM_AREAS_def)
  then have "x < 0x8000" using below [OF native_info(3)] by (simp add: FLASH_NUM_AREAS_def)
  then have "x < 0x4000" using below [OF native_info(2)] by (simp add: FLASH_NUM_AREAS_def)
  then show False using below [OF native_info(1)] by (simp add: FLASH_NUM_AREAS_def)
qed

interpretation native: reliable_flash "bsp_flash_dev f" native_view
proof unfold_locales
  note defs = bsp_flash_dev_def native_flash_dev_def
  show "unat (hf_base_addr hf) + unat (hf_size hf) < 2 ^ 32" if "bsp_flash_dev f i = Some hf" for i hf
    using that by (auto simp: defs native_size split: if_splits)
  show "\<exists>rc bs d'. hff_read hf a n d = Some (rc, bs, d') \<and> native_view d' = native_view d \<and>
      (rc = 0 \<longrightarrow> bs = map (native_view d i) [unat a ..< unat a + unat n])"
    if "bsp_flash_dev f i = Some hf" "in_dev hf a n" for i hf a n d
    by (rule ensure_open [of d]) (use that in \<open>auto simp: defs in_dev_def native_flash_read_def split: if_splits\<close>)
  show "\<exists>rc d'. hff_write hf a src n d = Some (rc, d') \<and> same_outside native_view i (addrs a n) d d' \<and>
      (rc = 0 \<longrightarrow> map (native_view d' i) [unat a ..< unat a + unat n] = take (unat n) src)"
    if "bsp_flash_dev f i = Some hf" "in_dev hf a n" "uint a mod hf_align hf = 0" "unat n \<le> length src"
      "\<forall>x \<in> addrs a n. native_view d i x = 0xff" for i hf a n src d
    using that native_write_ok [of a n src d] by (auto simp: defs in_dev_def split: if_splits)
  show "\<exists>st sz. hff_sector_info hf k = Some (0, st, sz) \<and> in_dev hf st sz"
    if "bsp_flash_dev f i = Some hf" "0 \<le> k" "k < hf_sector_cnt hf" for i hf k
    using that native_sector [of k] by (auto simp: defs in_dev_def split: if_splits)
  show "\<exists>rc d'. hff_erase_sector hf st d = Some (rc, d') \<and> same_outside native_view i (addrs st sz) d d' \<and>
      (rc = 0 \<longrightarrow> (\<forall>x \<in> addrs st sz. native_view d' i x = 0xff))"
    if "bsp_flash_dev f i = Some hf" "0 \<le> k" "k < hf_sector_cnt hf" "hff_sector_info hf k = Some (0, st, sz)" for i hf k st sz d
    using that native_erase_ok [of k st sz d] by (auto simp: defs split: if_splits)
  show "\<exists>k st sz. 0 \<le> k \<and> k < hf_sector_cnt hf \<and> hff_sector_info hf k = Some (0, st, sz) \<and> x \<in> addrs st sz"
    if "bsp_flash_dev f i = Some hf" "unat (hf_base_addr hf) \<le> x" "x < unat (hf_base_addr hf) + unat (hf_size hf)" for i hf x
    using that native_tiles [of x] by (auto simp: defs split: if_splits)
  show "rc = 0" if "bsp_flash_dev f i = Some hf" "hff_read hf a n d = Some (rc, bs, d')" for i hf a n d rc bs d'
    using that by (auto simp: defs native_flash_read_def bind_eq_Some_conv split: if_splits)
  show "rc = 0" if "bsp_flash_dev f i = Some hf" "hff_write hf a src n d = Some (rc, d')" for i hf a n src d rc d'
    using that by (auto simp: defs native_flash_write_def flash_native_write_internal_def bind_eq_Some_conv split: if_splits)
  show "rc = 0" if "bsp_flash_dev f i = Some hf" "0 \<le> k" "k < hf_sector_cnt hf" "hff_sector_info hf k = Some (0, st, sz)"
    "hff_erase_sector hf st d = Some (rc, d')" for i hf k st sz d rc d'
    using that native_erase_ok [of k st sz d] by (auto simp: defs split: if_splits)
qed

text \<open>
  C27: On the native flash, any range inside the device can be rewritten: erasing it, writing the new
  bytes and reading them back succeed and return the bytes written, and every byte of a sector that
  does not meet the range keeps its value. No assertion of the driver fails on the way.
\<close>

theorem native_flash_update:
  assumes "unat a + unat n \<le> 1048576" "0 < unat n" "length src = unat n"
  shows "\<exists>d1 d2 d3. hal_flash_erase (bsp_flash_dev f) 0 a n d = Some (0, d1) \<and>
    hal_flash_write (bsp_flash_dev f) 0 a src n d1 = Some (0, d2) \<and>
    hal_flash_read (bsp_flash_dev f) 0 a n d2 = Some (0, src, d3) \<and>
    same_outside native_view 0 (sectors_meeting (native_flash_dev f) a n) d d3"
  by (rule native.update) (use assms in \<open>simp_all add: bsp_flash_dev_def native_flash_dev_def in_dev_def native_size native_align_def\<close>)

theorem native_flash_update_witness:
  "\<exists>d1 d2 d3. hal_flash_erase (bsp_flash_dev None) 0 0x3ffe 4 \<lparr>nf_open = False, nf_mem = \<lambda>_. 0\<rparr> = Some (0, d1) \<and>
    hal_flash_write (bsp_flash_dev None) 0 0x3ffe [1, 2, 3, 4] 4 d1 = Some (0, d2) \<and>
    hal_flash_read (bsp_flash_dev None) 0 0x3ffe 4 d2 = Some (0, [1, 2, 3, 4], d3) \<and>
    same_outside native_view 0 (sectors_meeting (native_flash_dev None) 0x3ffe 4) \<lparr>nf_open = False, nf_mem = \<lambda>_. 0\<rparr> d3"
  using native_flash_update [of "0x3ffe" 4 "[1, 2, 3, 4]" None "\<lparr>nf_open = False, nf_mem = \<lambda>_. 0\<rparr>"] by simp

text \<open>
  The address checks of reading and writing look at the first address and at the sum with the length,
  which wraps: a length close to \<open>2 ^ 32\<close> passes them and the copy leaves the device.
\<close>

lemma hal_flash_read_wraps:
  "hal_flash_check_addr (native_flash_dev f) 0x100 = 0" "hal_flash_check_addr (native_flash_dev f) (0x100 + 0xffffff80) = 0"
  "hal_flash_read (bsp_flash_dev f) 0 0x100 0xffffff80 d = None"
  by (simp_all add: hal_flash_read_def hal_flash_check_addr_def bsp_flash_dev_def native_flash_dev_def native_size_def
      native_flash_read_def flash_native_ensure_file_open_def flash_native_file_open_def flash_native_erase_def)

end
