(* ===== verification/Hal_Flash_Map.thy ===== *)
theory Hal_Flash_Map
  imports Hal_Flash
begin

text \<open>
  The flash map, \<^verbatim>\<open>hw/hal/src/flash_map.c\<close>: named areas of the flashes of a board, with access that is
  checked against the bounds of the area, and the translation of an area into its sectors or into
  the area descriptors of the file system.
\<close>

subsection \<open>flash_map.c\<close>

record flash_area =
  fa_flash_id :: u8
  fa_off :: u32
  fa_size :: u32

record flash_map =
  fm_map :: "flash_area list option"
  fm_entries :: int

record nffs_area_desc =
  nad_offset :: u32
  nad_length :: u32
  nad_flash_id :: u8

definition flash_area_init :: "flash_area list option \<Rightarrow> int \<Rightarrow> flash_map" where
  "flash_area_init mp map_entries = \<lparr>fm_map = mp, fm_entries = map_entries\<rparr>"

text \<open>An entry of the map; an index that passes the check but is outside the array has no result.\<close>

definition map_entry :: "flash_map \<Rightarrow> int \<Rightarrow> (int + flash_area) option" where
  "map_entry fm idx =
     (case fm_map fm of
        None \<Rightarrow> Some (Inl (-1))
      | Some as \<Rightarrow>
          if fm_entries fm \<le> idx then Some (Inl (-1))
          else if 0 \<le> idx \<and> nat idx < length as then Some (Inr (as ! nat idx)) else None)"

definition flash_area_open :: "flash_map \<Rightarrow> int \<Rightarrow> (int \<times> flash_area option) option" where
  "flash_area_open fm idx = do {
     r \<leftarrow> map_entry fm idx;
     case r of Inl rc \<Rightarrow> Some (rc, None) | Inr fa \<Rightarrow> Some (0, Some fa)
   }"

definition sector_in :: "flash_area \<Rightarrow> u32 \<Rightarrow> bool" where
  "sector_in fa start \<longleftrightarrow> fa_off fa \<le> start \<and> start < fa_off fa + fa_size fa"

fun to_sectors_loop :: "'d hal_flash \<Rightarrow> flash_area \<Rightarrow> int list \<Rightarrow> flash_area list option" where
  "to_sectors_loop hf fa [] = Some []"
| "to_sectors_loop hf fa (i # is) = do {
     (rc, start, sz) \<leftarrow> hff_sector_info hf i;
     rest \<leftarrow> to_sectors_loop hf fa is;
     Some (if sector_in fa start
       then \<lparr>fa_flash_id = fa_flash_id fa, fa_off = start, fa_size = sz\<rparr> # rest else rest)
   }"

definition flash_area_to_sectors ::
    "'d flash_devs \<Rightarrow> flash_map \<Rightarrow> int \<Rightarrow> (int \<times> int \<times> flash_area list) option" where
  "flash_area_to_sectors bsp fm idx = do {
     r \<leftarrow> map_entry fm idx;
     case r of
       Inl rc \<Rightarrow> Some (rc, 0, [])
     | Inr fa \<Rightarrow> do {
         hf \<leftarrow> bsp (fa_flash_id fa);
         ret \<leftarrow> to_sectors_loop hf fa [0 .. hf_sector_cnt hf - 1];
         Some (0, int (length ret), ret)
       }
   }"

text \<open>The first loop of \<^verbatim>\<open>flash_area_to_nffs_desc\<close>: first and last sector of the area and their number.\<close>

fun nffs_scan :: "'d hal_flash \<Rightarrow> flash_area \<Rightarrow> int list \<Rightarrow> int \<times> int \<times> int \<Rightarrow> (int \<times> int \<times> int) option" where
  "nffs_scan hf fa [] r = Some r"
| "nffs_scan hf fa (i # is) (first_idx, last_idx, cnt) = do {
     (rc, start, sz) \<leftarrow> hff_sector_info hf i;
     nffs_scan hf fa is
       (if sector_in fa start then (if first_idx = -1 then i else first_idx, i, cnt + 1)
        else (first_idx, last_idx, cnt))
   }"

text \<open>The second loop: start a new descriptor when \<^verbatim>\<open>move_on\<close> is set, extend the current one otherwise.\<close>

fun nffs_group ::
    "'d hal_flash \<Rightarrow> flash_area \<Rightarrow> u32 \<Rightarrow> int list \<Rightarrow> nat \<times> nat \<times> bool \<times> nffs_area_desc list \<Rightarrow>
     (nat \<times> nat \<times> bool \<times> nffs_area_desc list) option" where
  "nffs_group hf fa min_size [] st = Some st"
| "nffs_group hf fa min_size (i # is) (j, cnt, move_on, nad) = do {
     (rc, start, sz) \<leftarrow> hff_sector_info hf i;
     if j < length nad then
       let d = (if move_on
                then \<lparr>nad_offset = start, nad_length = sz, nad_flash_id = fa_flash_id fa\<rparr>
                else (nad ! j)\<lparr>nad_length := nad_length (nad ! j) + sz\<rparr>);
           cnt' = (if move_on then cnt + 1 else cnt);
           nad' = nad[j := d]
       in if min_size \<le> nad_length d then nffs_group hf fa min_size is (j + 1, cnt', True, nad')
          else nffs_group hf fa min_size is (j, cnt', False, nad')
     else None
   }"

definition flash_area_to_nffs_desc ::
    "'d flash_devs \<Rightarrow> flash_map \<Rightarrow> int \<Rightarrow> int \<Rightarrow> nffs_area_desc list \<Rightarrow> (int \<times> int \<times> nffs_area_desc list) option" where
  "flash_area_to_nffs_desc bsp fm idx max_cnt nad = do {
     r \<leftarrow> map_entry fm idx;
     case r of
       Inl rc \<Rightarrow> Some (rc, max_cnt, nad)
     | Inr fa \<Rightarrow> do {
         hf \<leftarrow> bsp (fa_flash_id fa);
         (first_idx, last_idx, cnt) \<leftarrow> nffs_scan hf fa [0 .. hf_sector_cnt hf - 1] (-1, -1, 0);
         min_size \<leftarrow> (if max_cnt < cnt
            then if max_cnt = 0 then None else Some (fa_size fa div word_of_int max_cnt)
            else Some 0);
         (j, n, move_on, nad1) \<leftarrow> nffs_group hf fa min_size [first_idx .. last_idx] (0, 0, True, nad);
         if n < length nad1
         then Some (0, int n, nad1[n := (nad1 ! n)\<lparr>nad_length := 0\<rparr>])
         else None
       }
   }"

definition flash_area_read :: "'d flash_devs \<Rightarrow> flash_area \<Rightarrow> u32 \<Rightarrow> u32 \<Rightarrow> 'd \<Rightarrow> (int \<times> u8 list \<times> 'd) option" where
  "flash_area_read bsp fa off len d =
     (if fa_size fa < off \<or> fa_size fa < off + len then Some (-1, [], d)
      else hal_flash_read bsp (fa_flash_id fa) (fa_off fa + off) len d)"

definition flash_area_write :: "'d flash_devs \<Rightarrow> flash_area \<Rightarrow> u32 \<Rightarrow> u8 list \<Rightarrow> u32 \<Rightarrow> 'd \<Rightarrow> (int \<times> 'd) option" where
  "flash_area_write bsp fa off src len d =
     (if fa_size fa < off \<or> fa_size fa < off + len then Some (-1, d)
      else hal_flash_write bsp (fa_flash_id fa) (fa_off fa + off) src len d)"

definition flash_area_erase :: "'d flash_devs \<Rightarrow> flash_area \<Rightarrow> u32 \<Rightarrow> u32 \<Rightarrow> 'd \<Rightarrow> (int \<times> 'd) option" where
  "flash_area_erase bsp fa off len d =
     (if fa_size fa < off \<or> fa_size fa < off + len then Some (-1, d)
      else hal_flash_erase bsp (fa_flash_id fa) (fa_off fa + off) len d)"

text \<open>Descriptors that cover the addresses from \<open>a\<close> to \<open>e\<close> of a flash, in order and without gaps.\<close>

fun tiles :: "u8 \<Rightarrow> nat \<Rightarrow> nffs_area_desc list \<Rightarrow> nat \<Rightarrow> bool" where
  "tiles f a [] e \<longleftrightarrow> a = e"
| "tiles f a (d # ds) e \<longleftrightarrow> nad_flash_id d = f \<and> unat (nad_offset d) = a \<and> 0 < unat (nad_length d) \<and>
     tiles f (a + unat (nad_length d)) ds e"

text \<open>Flashes whose sectors follow each other without gaps.\<close>

definition sec_start :: "'d hal_flash \<Rightarrow> int \<Rightarrow> nat" where
  "sec_start hf k = (case hff_sector_info hf k of Some (_, st, _) \<Rightarrow> unat st | None \<Rightarrow> 0)"

definition sec_len :: "'d hal_flash \<Rightarrow> int \<Rightarrow> nat" where
  "sec_len hf k = (case hff_sector_info hf k of Some (_, _, sz) \<Rightarrow> unat sz | None \<Rightarrow> 0)"

text \<open>An area that consists of the sectors \<open>a\<close> to \<open>b\<close>.\<close>

definition area_sectors :: "'d hal_flash \<Rightarrow> flash_area \<Rightarrow> int \<Rightarrow> int \<Rightarrow> bool" where
  "area_sectors hf fa a b \<longleftrightarrow> 0 \<le> a \<and> a \<le> b \<and> b < hf_sector_cnt hf \<and> unat (fa_off fa) = sec_start hf a \<and>
     unat (fa_off fa) + unat (fa_size fa) = sec_start hf b + sec_len hf b"

text \<open>The grouping loop, after the sectors from \<open>a\<close> up to \<open>k\<close>.\<close>

definition grouped :: "'a hal_flash \<Rightarrow> flash_area \<Rightarrow> nat \<Rightarrow> int \<Rightarrow> nat \<Rightarrow> int \<Rightarrow>
    nat \<times> nat \<times> bool \<times> nffs_area_desc list \<Rightarrow> bool" where
  "grouped hf fa q a e k = (\<lambda>(j, cnt, mv, nad). tiles (fa_flash_id fa) (sec_start hf a) (take cnt nad) e \<and>
     (if mv then j = cnt else cnt = Suc j) \<and> cnt \<le> length nad \<and> int j \<le> k - a \<and>
     (\<forall>d \<in> set (take j nad). q \<le> unat (nad_length d)))"

subsection \<open>Lemmas\<close>

lemma tiles_append: "tiles f a (ds @ es) e \<longleftrightarrow> (\<exists>m. tiles f a ds m \<and> tiles f m es e)"
  by (induction ds arbitrary: a) auto

lemma tiles_sum: "tiles f a ds e \<Longrightarrow> a + (\<Sum>d \<leftarrow> ds. unat (nad_length d)) = e"
  by (induction ds arbitrary: a) force+

lemma sum_ge: "\<forall>d \<in> set ds. q \<le> unat (nad_length d) \<Longrightarrow> length ds * q \<le> (\<Sum>d \<leftarrow> ds. unat (nad_length d))"
  by (induction ds) auto

lemma group_step:
  assumes "tiles f s (take cnt nad) e" "unat st = e" "0 < unat sz" "e + unat sz < 2 ^ 32" "j < length nad"
    and "if mv then j = cnt else cnt = Suc j"
    and "d = (if mv then \<lparr>nad_offset = st, nad_length = sz, nad_flash_id = f\<rparr>
      else (nad ! j)\<lparr>nad_length := nad_length (nad ! j) + sz\<rparr>)"
  shows "tiles f s (take (Suc j) (nad[j := d])) (e + unat sz)"
proof -
  have t: "take (Suc j) (nad[j := d]) = take j nad @ [d]" using assms(5) by (simp add: take_Suc_conv_app_nth)
  show ?thesis
  proof (cases mv)
    case True
    then show ?thesis using assms unfolding t tiles_append by auto
  next
    case False
    then have "tiles f s (take j nad @ [nad ! j]) e" using assms(1,5,6) by (simp add: take_Suc_conv_app_nth)
    then obtain m where m: "tiles f s (take j nad) m" "nad_flash_id (nad ! j) = f" "unat (nad_offset (nad ! j)) = m"
        "m + unat (nad_length (nad ! j)) = e" "0 < unat (nad_length (nad ! j))" by (auto simp: tiles_append)
    have "unat (nad_length (nad ! j) + sz) = unat (nad_length (nad ! j)) + unat sz"
      using m(4) assms(4) by (simp add: unat_word_ariths)
    then show ?thesis using m False assms(7) unfolding t tiles_append by auto
  qed
qed

locale contiguous_flash = flash_bank +
  assumes sec_next: "bsp i = Some hf \<Longrightarrow> 0 \<le> k \<Longrightarrow> k + 1 < hf_sector_cnt hf \<Longrightarrow>
      sec_start hf (k + 1) = sec_start hf k + sec_len hf k"
    and sec_pos: "bsp i = Some hf \<Longrightarrow> 0 \<le> k \<Longrightarrow> k < hf_sector_cnt hf \<Longrightarrow> 0 < sec_len hf k"
begin

lemma sec_info:
  assumes "bsp i = Some hf" "0 \<le> k" "k < hf_sector_cnt hf"
  obtains st sz where "hff_sector_info hf k = Some (0, st, sz)" "unat st = sec_start hf k" "unat sz = sec_len hf k"
    "sec_start hf k + sec_len hf k < 2 ^ 32"
proof -
  obtain st sz where "hff_sector_info hf k = Some (0, st, sz)" "in_dev hf st sz" using dev_sector [OF assms] by blast
  then show thesis using dev_range [OF assms(1)] by (intro that) (auto simp: sec_start_def sec_len_def in_dev_def)
qed

lemma sec_mono:
  assumes "bsp i = Some hf" "0 \<le> k" "k < l" "l < hf_sector_cnt hf"
  shows "sec_start hf k + sec_len hf k \<le> sec_start hf l"
  using assms(3,4)
proof (induction "nat (l - k)" arbitrary: l)
  case (Suc n)
  show ?case
  proof (cases "k = l - 1")
    case True
    then show ?thesis using sec_next [OF assms(1,2)] Suc.prems by simp
  next
    case False
    have "sec_start hf k + sec_len hf k \<le> sec_start hf (l - 1)"
      by (rule Suc.hyps(1)) (use Suc.hyps(2) Suc.prems False in simp_all)
    then show ?thesis using sec_next [OF assms(1), of "l - 1"] Suc.prems assms(2) by simp
  qed
qed simp

lemma in_area:
  assumes "bsp i = Some hf" "area_sectors hf fa a b" "0 \<le> k" "k < hf_sector_cnt hf" "hff_sector_info hf k = Some (rc, st, sz)"
  shows "sector_in fa st \<longleftrightarrow> a \<le> k \<and> k \<le> b"
proof -
  note ab = assms(2) [unfolded area_sectors_def]
  have st: "unat st = sec_start hf k" using assms(5) by (simp add: sec_start_def)
  have "sec_start hf b + sec_len hf b < 2 ^ 32" using ab by (auto intro: sec_info [OF assms(1), of b])
  then have e: "unat (fa_off fa + fa_size fa) = sec_start hf b + sec_len hf b" using ab by (simp add: unat_word_ariths)
  have "sec_start hf k < sec_start hf a" if "k < a"
    using sec_mono [OF assms(1,3) that] sec_pos [OF assms(1,3,4)] ab by simp
  moreover have "sec_start hf a \<le> sec_start hf k" if "a \<le> k"
    using sec_mono [OF assms(1), of a k] that ab assms(4) by (cases "a = k") simp_all
  moreover have "sec_start hf b + sec_len hf b \<le> sec_start hf k" if "b < k"
    using sec_mono [OF assms(1) _ that assms(4)] ab by simp
  moreover have "sec_start hf k < sec_start hf b + sec_len hf b" if "k \<le> b"
    using sec_mono [OF assms(1,3), of b] that ab sec_pos [OF assms(1,3,4)] by (cases "k = b") simp_all
  ultimately show ?thesis using ab st e
    by (cases "k < a"; cases "b < k") (auto simp: sector_in_def word_le_nat_alt word_less_nat_alt)
qed

lemma scan_from:
  assumes "bsp i = Some hf" "area_sectors hf fa a b" "0 \<le> k" "k \<le> hf_sector_cnt hf"
  shows "nffs_scan hf fa [k .. hf_sector_cnt hf - 1]
      (if k \<le> a then (-1, -1, 0) else (a, min b (k - 1), min b (k - 1) - a + 1)) = Some (a, b, b - a + 1)"
  using assms(3,4)
proof (induction "nat (hf_sector_cnt hf - k)" arbitrary: k)
  case 0
  then show ?case using assms(2) by (auto simp: area_sectors_def)
next
  case (Suc n)
  then have k: "k < hf_sector_cnt hf" by simp
  then obtain st sz where s: "hff_sector_info hf k = Some (0, st, sz)" using sec_info [OF assms(1) Suc.prems(1)] by blast
  have n: "n = nat (hf_sector_cnt hf - (k + 1))" using Suc.hyps(2) by linarith
  have IH: "nffs_scan hf fa [k + 1 .. hf_sector_cnt hf - 1]
      (if k + 1 \<le> a then (-1, -1, 0) else (a, min b k, min b k - a + 1)) = Some (a, b, b - a + 1)"
    using Suc.hyps(1) [OF n] Suc.prems(1) k by (cases "k + 1 \<le> a") simp_all
  show ?case using k IH in_area [OF assms(1,2) Suc.prems(1) k s] s Suc.prems(1) assms(2)
    by (subst upto_rec1) (auto simp: min_def area_sectors_def split: if_splits)
qed

lemma group_from:
  assumes "bsp i = Some hf" "area_sectors hf fa a b" "a \<le> k" "k \<le> b + 1" "unat ms = q"
    and room: "\<And>j k. a \<le> k \<Longrightarrow> k \<le> b \<Longrightarrow> int j \<le> k - a \<Longrightarrow> j * q + sec_len hf k \<le> unat (fa_size fa) \<Longrightarrow> j < mx"
    and "mx < length nad" "grouped hf fa q a (if k \<le> b then sec_start hf k else sec_start hf b + sec_len hf b) k (j, cnt, mv, nad)" "k \<le> b \<or> cnt \<le> mx"
  shows "\<exists>j' cnt' mv' nad'. nffs_group hf fa ms [k .. b] (j, cnt, mv, nad) = Some (j', cnt', mv', nad') \<and>
    length nad' = length nad \<and> grouped hf fa q a (sec_start hf b + sec_len hf b) (b + 1) (j', cnt', mv', nad') \<and> cnt' \<le> mx"
  using assms(3,4,7,8,9)
proof (induction "nat (b + 1 - k)" arbitrary: k j cnt mv nad)
  case 0
  then have "k = b + 1" by simp
  then show ?case using 0 by simp
next
  case (Suc n)
  then have k: "k \<le> b" "0 \<le> k" "k < hf_sector_cnt hf" using assms(2) by (auto simp: area_sectors_def)
  obtain st sz where s: "hff_sector_info hf k = Some (0, st, sz)" "unat st = sec_start hf k" "unat sz = sec_len hf k"
    "sec_start hf k + sec_len hf k < 2 ^ 32" using sec_info [OF assms(1) k(2,3)] by blast
  have ab: "unat (fa_off fa) = sec_start hf a" "unat (fa_off fa) + unat (fa_size fa) = sec_start hf b + sec_len hf b"
      "b < hf_sector_cnt hf" "0 \<le> a"
    using assms(2) by (auto simp: area_sectors_def)
  have nx: "(if k + 1 \<le> b then sec_start hf (k + 1) else sec_start hf b + sec_len hf b) = sec_start hf k + unat sz"
    using k s(3) sec_next [OF assms(1) k(2)] ab by (cases "k + 1 \<le> b") (auto simp: le_less)
  have le: "sec_start hf k + sec_len hf k \<le> sec_start hf b + sec_len hf b"
    using k sec_mono [OF assms(1) k(2) _ ab(3)] by (cases "k = b") auto
  note g = Suc.prems(4) [unfolded grouped_def, simplified]
  have tl: "tiles (fa_flash_id fa) (sec_start hf a) (take cnt nad) (sec_start hf k)" using g k by simp
  have "take cnt nad = take j nad @ drop j (take cnt nad)" using g
    by (metis append_take_drop_id take_take min.absorb1 lessI less_imp_le order_refl)
  then obtain m where m: "tiles (fa_flash_id fa) (sec_start hf a) (take j nad) m"
      "tiles (fa_flash_id fa) m (drop j (take cnt nad)) (sec_start hf k)" using tl tiles_append by metis
  have "length (take j nad) = j" using g by (auto simp: min_def split: if_splits)
  then have "sec_start hf a + j * q \<le> sec_start hf k"
    using sum_ge [of "take j nad" q] g tiles_sum [OF m(1)] tiles_sum [OF m(2)] by auto
  then have "j * q + sec_len hf k \<le> unat (fa_size fa)" using le ab by linarith
  then have j: "j < mx" using room [OF Suc.prems(1) k(1)] g by simp
  define d where "d = (if mv then \<lparr>nad_offset = st, nad_length = sz, nad_flash_id = fa_flash_id fa\<rparr>
      else (nad ! j)\<lparr>nad_length := nad_length (nad ! j) + sz\<rparr>)"
  have jn: "j < length nad" using j Suc.prems(3) by simp
  have t: "tiles (fa_flash_id fa) (sec_start hf a) (take (Suc j) (nad[j := d])) (sec_start hf k + unat sz)"
    by (rule group_step [OF tl s(2) _ _ jn _ d_def]) (use g s sec_pos [OF assms(1) k(2,3)] in simp_all)
  have n: "n = nat (b + 1 - (k + 1))" using Suc.hyps(2) by linarith
  let ?st = "if ms \<le> nad_length d then (j + 1, Suc j, True, nad[j := d]) else (j, Suc j, False, nad[j := d])"
  have step: "nffs_group hf fa ms [k .. b] (j, cnt, mv, nad) = nffs_group hf fa ms [k + 1 .. b] ?st"
    using k(1) s(1) jn g by (subst upto_rec1) (auto simp: Let_def d_def)
  have tk: "take (Suc j) (nad[j := d]) = take j nad @ [d]" using jn by (simp add: take_Suc_conv_app_nth)
  have "grouped hf fa q a (if k + 1 \<le> b then sec_start hf (k + 1) else sec_start hf b + sec_len hf b) (k + 1) ?st"
    unfolding nx using t tk jn g assms(5) by (auto simp: grouped_def word_le_nat_alt)
  moreover have "a \<le> k + 1" "k + 1 \<le> b + 1" "mx < length (nad[j := d])" "k + 1 \<le> b \<or> Suc j \<le> mx"
    using Suc.prems(1,3) k(1) j by simp_all
  ultimately have "\<exists>j' cnt' mv' nad'. nffs_group hf fa ms [k + 1 .. b] ?st = Some (j', cnt', mv', nad') \<and>
    length nad' = length (nad[j := d]) \<and> grouped hf fa q a (sec_start hf b + sec_len hf b) (b + 1) (j', cnt', mv', nad') \<and> cnt' \<le> mx"
    using Suc.hyps(1) [OF n] by (cases "ms \<le> nad_length d") (simp_all only: if_True if_False)
  then show ?case unfolding step by simp
qed

text \<open>The bound on the number of descriptors, for sectors not smaller than that number.\<close>

lemma group_room:
  assumes "sz \<le> j * q + sz" "j * q + sz \<le> n" "q = n div mx" "mx \<le> sz" "0 < mx"
  shows "j < (mx :: nat)"
proof (rule ccontr)
  assume "\<not> j < mx"
  then have "mx * q \<le> j * q" by simp
  moreover have "n < mx * q + mx" using assms(3,5) by (metis div_mult_mod_eq mod_less_divisor add_less_cancel_left mult.commute)
  ultimately show False using assms(2,4) by linarith
qed

lemma nffs_desc:
  assumes "bsp i = Some hf" "area_sectors hf fa a b" "map_entry fm idx = Some (Inr fa)" "fa_flash_id fa = i"
    and "0 < mx" "int mx < 2 ^ 31" "\<And>k. a \<le> k \<Longrightarrow> k \<le> b \<Longrightarrow> mx \<le> sec_len hf k" "mx < length nad"
  shows "\<exists>n nad'. flash_area_to_nffs_desc bsp fm idx (int mx) nad = Some (0, int n, nad') \<and> n \<le> mx \<and>
    length nad' = length nad \<and> nad_length (nad' ! n) = 0 \<and>
    tiles i (unat (fa_off fa)) (take n nad') (unat (fa_off fa) + unat (fa_size fa))"
proof -
  have ab: "0 \<le> a" "a \<le> b" "b < hf_sector_cnt hf" "unat (fa_off fa) = sec_start hf a"
    "unat (fa_off fa) + unat (fa_size fa) = sec_start hf b + sec_len hf b" using assms(2) by (auto simp: area_sectors_def)
  have scan: "nffs_scan hf fa [0 .. hf_sector_cnt hf - 1] (-1, -1, 0) = Some (a, b, b - a + 1)"
    using scan_from [OF assms(1,2), of 0] ab by simp
  define ms :: u32 where "ms = (if int mx < b - a + 1 then fa_size fa div word_of_int (int mx) else 0)"
  have mx: "unat (of_nat mx :: u32) = mx" using assms(6) by (simp add: unat_of_nat)
  have "\<exists>j cnt mv nad1. nffs_group hf fa ms [a .. b] (0, 0, True, nad) = Some (j, cnt, mv, nad1) \<and> length nad1 = length nad \<and>
      grouped hf fa (unat ms) a (sec_start hf b + sec_len hf b) (b + 1) (j, cnt, mv, nad1) \<and> cnt \<le> mx"
  proof (rule group_from [OF assms(1,2) _ _ refl _ assms(8)])
    show "j < mx" if "a \<le> k" "k \<le> b" "int j \<le> k - a" "j * unat ms + sec_len hf k \<le> unat (fa_size fa)" for j k
    proof (cases "int mx < b - a + 1")
      case True
      then have "unat ms = unat (fa_size fa) div mx" by (simp add: ms_def unat_div mx)
      then show ?thesis using group_room [of "sec_len hf k" j "unat ms"] that assms(5,7) by simp
    next
      case False
      then show ?thesis using that by simp
    qed
  qed (use ab in \<open>simp_all add: grouped_def\<close>)
  then obtain j cnt mv nad1 where g: "nffs_group hf fa ms [a .. b] (0, 0, True, nad) = Some (j, cnt, mv, nad1)"
      "length nad1 = length nad" "grouped hf fa (unat ms) a (sec_start hf b + sec_len hf b) (b + 1) (j, cnt, mv, nad1)" "cnt \<le> mx"
    by blast
  have "flash_area_to_nffs_desc bsp fm idx (int mx) nad = Some (0, int cnt, nad1[cnt := (nad1 ! cnt)\<lparr>nad_length := 0\<rparr>])"
    using assms(1,3,4,5,8) scan g(1,2,4) by (simp add: flash_area_to_nffs_desc_def ms_def split: if_splits)
  moreover have "tiles i (unat (fa_off fa)) (take cnt nad1) (unat (fa_off fa) + unat (fa_size fa))"
    using g(3) assms(4) ab by (simp add: grouped_def)
  ultimately show ?thesis using g(2,4) assms(8) by auto
qed

end

lemma native_sec_cases:
  assumes "0 \<le> k" "k < FLASH_NUM_AREAS"
  shows "k = 0 \<or> k = 1 \<or> k = 2 \<or> k = 3 \<or> k = 4 \<or> k = 5 \<or> k = 6 \<or> k = 7 \<or> k = 8 \<or> k = 9 \<or> k = 10 \<or> k = 11"
  using assms unfolding FLASH_NUM_AREAS_def by presburger

lemma native_sec_next:
  assumes "0 \<le> k" "k + 1 < FLASH_NUM_AREAS"
  shows "sec_start (native_flash_dev f) (k + 1) = sec_start (native_flash_dev f) k + sec_len (native_flash_dev f) k"
proof -
  have "k < FLASH_NUM_AREAS" using assms by simp
  from native_sec_cases [OF assms(1) this] show ?thesis using assms(2)
    by (elim disjE) (simp_all add: sec_start_def sec_len_def native_flash_dev_def native_info FLASH_NUM_AREAS_def)
qed

lemma native_sec_len:
  assumes "0 \<le> k" "k < FLASH_NUM_AREAS"
  shows "0x4000 \<le> sec_len (native_flash_dev f) k"
  using native_sec_cases [OF assms] by (elim disjE) (simp_all add: sec_len_def native_flash_dev_def native_info)

lemma bsp_native: "bsp_flash_dev f i = Some hf \<Longrightarrow> i = 0 \<and> hf = native_flash_dev f"
  by (simp add: bsp_flash_dev_def split: if_splits)

lemma native_cnt [simp]: "hf_sector_cnt (native_flash_dev f) = FLASH_NUM_AREAS"
  by (simp add: native_flash_dev_def)

interpretation native: contiguous_flash "bsp_flash_dev f" native_view
proof unfold_locales
  show "sec_start hf (k + 1) = sec_start hf k + sec_len hf k"
    if "bsp_flash_dev f i = Some hf" "0 \<le> k" "k + 1 < hf_sector_cnt hf" for i hf k
    using bsp_native [OF that(1)] that native_sec_next by auto
  show "0 < sec_len hf k" if "bsp_flash_dev f i = Some hf" "0 \<le> k" "k < hf_sector_cnt hf" for i hf k
    using bsp_native [OF that(1)] that native_sec_len [of k f] by auto
qed

text \<open>
  C28: An area of the native flash that consists of whole sectors is turned into descriptors for the
  file system that cover it exactly: in order, without gaps or overlaps, at most as many as \<^verbatim>\<open>*cnt\<close> says,
  and closed by a descriptor of length 0. Here \<^verbatim>\<open>*cnt\<close> is from 1 to 0x4000, the size of the smallest
  sector, and the array of the caller has more than \<^verbatim>\<open>*cnt\<close> entries; then nothing is written outside it.
  The bound \<^verbatim>\<open>*cnt\<close> is reached, in contrast to the comment in the source, which announces fewer
  descriptors, and an array of \<^verbatim>\<open>*cnt\<close> entries is then too small (\<open>flash_area_to_nffs_desc_overflows\<close>).
\<close>

theorem flash_area_to_nffs_desc_tiles:
  assumes "area_sectors (native_flash_dev f) fa a b" "map_entry fm idx = Some (Inr fa)" "fa_flash_id fa = 0"
    and "0 < mx" "mx \<le> 0x4000" "mx < length nad"
  shows "\<exists>n nad'. flash_area_to_nffs_desc (bsp_flash_dev f) fm idx (int mx) nad = Some (0, int n, nad') \<and> n \<le> mx \<and>
    length nad' = length nad \<and> nad_length (nad' ! n) = 0 \<and>
    tiles 0 (unat (fa_off fa)) (take n nad') (unat (fa_off fa) + unat (fa_size fa))"
proof (rule native.nffs_desc [OF _ assms(1-3)])
  show "mx \<le> sec_len (native_flash_dev f) k" if "a \<le> k" "k \<le> b" for k
    using native_sec_len [of k f] that assms(1,5) by (auto simp: area_sectors_def)
qed (use assms in \<open>simp_all add: bsp_flash_dev_def\<close>)

theorem flash_area_to_nffs_desc_tiles_witness:
  "\<exists>n nad'. flash_area_to_nffs_desc (bsp_flash_dev None)
      (flash_area_init (Some [\<lparr>fa_flash_id = 0, fa_off = 0x20000, fa_size = 0x60000\<rparr>]) 1) 0 (int 2)
      (replicate 3 \<lparr>nad_offset = 0, nad_length = 0, nad_flash_id = 0\<rparr>) = Some (0, int n, nad') \<and> n \<le> 2 \<and>
    length nad' = 3 \<and> nad_length (nad' ! n) = 0 \<and> tiles 0 0x20000 (take n nad') 0x80000"
  using flash_area_to_nffs_desc_tiles [of None "\<lparr>fa_flash_id = 0, fa_off = 0x20000, fa_size = 0x60000\<rparr>" 5 7
    "flash_area_init (Some [\<lparr>fa_flash_id = 0, fa_off = 0x20000, fa_size = 0x60000\<rparr>]) 1" 0 2
    "replicate 3 \<lparr>nad_offset = 0, nad_length = 0, nad_flash_id = 0\<rparr>"]
  by (simp add: area_sectors_def sec_start_def sec_len_def native_flash_dev_def native_info FLASH_NUM_AREAS_def
      map_entry_def flash_area_init_def)

text \<open>An area that contains the start of no sector makes the loop ask for the sector before the first one.\<close>

lemma flash_area_to_nffs_desc_empty:
  "flash_area_to_nffs_desc (bsp_flash_dev f)
     (flash_area_init (Some [\<lparr>fa_flash_id = 0, fa_off = 0x20100, fa_size = 0x100\<rparr>]) 1) 0 4 nad = None"
  by (simp add: flash_area_to_nffs_desc_def map_entry_def flash_area_init_def bsp_flash_dev_def native_flash_dev_def
      FLASH_NUM_AREAS_def upto.simps native_info sector_in_def native_flash_sector_info_def flash_sector_len_def
      native_flash_sectors_def native_size_def)

text \<open>
  Finding: as many descriptors as \<^verbatim>\<open>*cnt\<close> allows are made, not fewer, and the one that closes them is
  then written behind an array of that many entries.
\<close>

lemma flash_area_to_nffs_desc_overflows:
  defines "fm \<equiv> flash_area_init (Some [\<lparr>fa_flash_id = 0, fa_off = 0x20000, fa_size = 0x60000\<rparr>]) 1"
  shows "flash_area_to_nffs_desc (bsp_flash_dev f) fm 0 3 [d, d, d] = None"
    and "map_option (fst \<circ> snd) (flash_area_to_nffs_desc (bsp_flash_dev f) fm 0 3 [d, d, d, d]) = Some 3"
  unfolding fm_def
  by (simp_all add: flash_area_to_nffs_desc_def map_entry_def flash_area_init_def bsp_flash_dev_def native_flash_dev_def
      FLASH_NUM_AREAS_def upto.simps native_info sector_in_def Let_def)

text \<open>Access to an area stays inside the area, as long as the sum of offset and length does not wrap.\<close>

lemma unat_u32_less: "unat (w :: u32) < 4294967296"
  by (rule order_less_le_trans [OF unsigned_less]) simp

lemma area_range:
  assumes "unat (fa_off fa) + unat (fa_size fa) \<le> unat native_size" "unat off + unat len \<le> unat (fa_size fa)"
  shows "addrs (fa_off fa + off) len \<subseteq> addrs (fa_off fa) (fa_size fa)"
    and "unat (fa_off fa + off) + unat len \<le> unat native_size"
proof -
  have s: "unat (fa_off fa + off) = unat (fa_off fa) + unat off"
    using assms by (simp add: unat_word_ariths native_size)
  then show "addrs (fa_off fa + off) len \<subseteq> addrs (fa_off fa) (fa_size fa)" using assms(2) by (auto simp: addrs_def)
  show "unat (fa_off fa + off) + unat len \<le> unat native_size" using s assms by linarith
qed

text \<open>The driver writes only to erased bytes.\<close>

lemma check_erased_all:
  assumes "check_erased False cur e s = Some s'" "nf_open s" "unat cur \<le> x" "x < unat e"
  shows "nf_mem s x = 0xff"
proof -
  let ?P = "\<lambda>ow cur e s. \<not> ow \<and> nf_open s \<longrightarrow> (\<forall>x. unat cur \<le> x \<and> x < unat e \<longrightarrow> nf_mem s x = 0xff)"
  have "?P False cur e s"
  proof (rule check_erased.raw_induct [OF _ assms(1), of "\<lambda>ow cur e s s'. ?P ow cur e s"])
    fix check :: "bool \<Rightarrow> u32 \<Rightarrow> u32 \<Rightarrow> native_flash \<Rightarrow> native_flash option" and ow cur e s s'
    assume IH: "\<And>ow cur e s s'. check ow cur e s = Some s' \<Longrightarrow> ?P ow cur e s"
    assume step: "(if cur < e then
        (let chunk_sz = (if e - cur < 256 then e - cur else 256)
         in if \<not> ow then native_flash_read cur chunk_sz s \<bind> (\<lambda>(rc, buf, s1).
              if rc = 0 \<and> list_all (\<lambda>b. b = 0xff) buf then check ow (cur + chunk_sz) e s1 else None)
            else check ow (cur + chunk_sz) e s)
      else Some s) = Some s'"
    show "?P ow cur e s"
    proof (intro impI allI)
      fix x assume s: "\<not> ow \<and> nf_open s" and x: "unat cur \<le> x \<and> x < unat e"
      define n where "n = (if e - cur < 256 then e - cur else 256)"
      have ce: "cur < e" using x by (simp add: word_less_nat_alt)
      then have "unat (e - cur) = unat e - unat cur" by (simp add: unat_sub word_le_nat_alt word_less_nat_alt)
      then have n: "unat n \<le> unat e - unat cur" by (auto simp: n_def word_less_nat_alt)
      then have "unat cur + unat n < 4294967296" using unat_u32_less [of e] x by linarith
      then have sum: "unat (cur + n) = unat cur + unat n" by (simp add: unat_word_ariths)
      have r: "list_all (\<lambda>b. b = 0xff) (map (nf_mem s) [unat cur ..< unat cur + unat n])" "check ow (cur + n) e s = Some s'"
        using step ce s
        by (auto simp: Let_def native_flash_read_def flash_native_ensure_file_open_def simp flip: n_def split: if_splits)
      show "nf_mem s x = 0xff"
      proof (cases "x < unat cur + unat n")
        case True
        with r(1) x show ?thesis by (simp add: list_all_iff)
      next
        case False
        with IH [OF r(2)] s x sum show ?thesis by simp
      qed
    qed
  qed
  with assms(2-4) show ?thesis by blast
qed

lemma native_write_not_erased:
  assumes "unat a + unat n \<le> unat native_size" "x \<in> addrs a n" "native_view d 0 x \<noteq> 0xff"
  shows "native_flash_write a src n d = None"
proof (rule ccontr)
  obtain s1 where s1: "flash_native_ensure_file_open d = Some s1" "nf_open s1" "native_view d 0 = nf_mem s1"
    by (rule ensure_open)
  have sum: "unat (a + n) = unat a + unat n" using assms(1) by (simp add: unat_word_ariths native_size)
  have "n \<noteq> 0" using assms(2) by (auto simp: addrs_def)
  moreover assume "native_flash_write a src n d \<noteq> None"
  ultimately obtain s2 where "check_erased False a (a + n) s1 = Some s2"
    using s1(1) by (auto simp: native_flash_write_def flash_native_write_internal_def split: if_splits bind_splits)
  with check_erased_all [OF this s1(2), of x] assms(2,3) s1(3) sum show False by (simp add: addrs_def)
qed

lemma hal_write_native:
  assumes "unat a + unat n \<le> unat native_size"
  shows "hal_flash_write (bsp_flash_dev f) 0 a src n d = native_flash_write a src n d"
proof -
  have "in_dev (native_flash_dev f) a n" using assms by (simp add: in_dev_def native_flash_dev_def)
  from native.in_dev_check(1,2) [OF _ this, of f 0]
  show ?thesis by (simp add: hal_flash_write_def bsp_flash_dev_def) (simp add: native_flash_dev_def)
qed

lemma sectors_of_area:
  assumes "area_sectors (native_flash_dev f) fa a b" "addrs p n \<subseteq> addrs (fa_off fa) (fa_size fa)"
  shows "sectors_meeting (native_flash_dev f) p n \<subseteq> addrs (fa_off fa) (fa_size fa)"
proof
  fix x assume "x \<in> sectors_meeting (native_flash_dev f) p n"
  then obtain k st sz where k: "0 \<le> k" "k < FLASH_NUM_AREAS" "hff_sector_info (native_flash_dev f) k = Some (0, st, sz)"
      "x \<in> addrs st sz" "addrs st sz \<inter> addrs p n \<noteq> {}" by (auto simp: sectors_meeting_def)
  have ss: "unat st = sec_start (native_flash_dev f) k" "unat sz = sec_len (native_flash_dev f) k"
    using k(3) by (simp_all add: sec_start_def sec_len_def)
  note ab = assms(1) [unfolded area_sectors_def]
  have bsp: "bsp_flash_dev f 0 = Some (native_flash_dev f)" by (simp add: bsp_flash_dev_def)
  obtain y where y: "y \<in> addrs st sz" "y \<in> addrs (fa_off fa) (fa_size fa)" using k(5) assms(2) by blast
  have "a \<le> k"
  proof (rule ccontr)
    assume "\<not> a \<le> k"
    then have "sec_start (native_flash_dev f) k + sec_len (native_flash_dev f) k \<le> sec_start (native_flash_dev f) a"
      using native.sec_mono [OF bsp k(1), of a] ab by simp
    then show False using y ss ab by (simp add: addrs_def)
  qed
  moreover have "k \<le> b"
  proof (rule ccontr)
    assume "\<not> k \<le> b"
    then have "sec_start (native_flash_dev f) b + sec_len (native_flash_dev f) b \<le> sec_start (native_flash_dev f) k"
      using native.sec_mono [OF bsp, of b k] ab k(2) by simp
    then show False using y ss ab by (simp add: addrs_def)
  qed
  moreover have "sec_start (native_flash_dev f) a \<le> sec_start (native_flash_dev f) k"
    using native.sec_mono [OF bsp, of a k] ab k(2) calculation(1) by (cases "a = k") simp_all
  moreover have "sec_start (native_flash_dev f) k + sec_len (native_flash_dev f) k \<le>
      sec_start (native_flash_dev f) b + sec_len (native_flash_dev f) b"
    using native.sec_mono [OF bsp k(1), of b] ab calculation(2) by (cases "k = b") simp_all
  ultimately show "x \<in> addrs (fa_off fa) (fa_size fa)" using k(4) ss ab by (auto simp: addrs_def)
qed

lemma area_in_native:
  "area_sectors (native_flash_dev f) fa a b \<Longrightarrow> unat (fa_off fa) + unat (fa_size fa) \<le> unat native_size"
  using native.dev_sector [of f 0 "native_flash_dev f" b]
  by (auto simp: bsp_flash_dev_def area_sectors_def in_dev_def sec_start_def sec_len_def) (simp add: native_flash_dev_def)

lemma area_write:
  assumes "area_sectors (native_flash_dev f) fa a b" "fa_flash_id fa = 0"
    and "unat off + unat len \<le> unat (fa_size fa)" "unat len \<le> length src"
  shows "if \<forall>x \<in> addrs (fa_off fa + off) len. native_view d 0 x = 0xff
    then \<exists>d'. flash_area_write (bsp_flash_dev f) fa off src len d = Some (0, d') \<and>
      same_outside native_view 0 (addrs (fa_off fa + off) len) d d' \<and>
      map (native_view d' 0) [unat (fa_off fa + off) ..< unat (fa_off fa + off) + unat len] = take (unat len) src
    else flash_area_write (bsp_flash_dev f) fa off src len d = None"
proof -
  note r = area_range(2) [OF area_in_native [OF assms(1)] assms(3)]
  have "unat (off + len) = unat off + unat len"
    using assms(3) unat_u32_less [of "fa_size fa"] by (simp add: unat_word_ariths)
  then have "\<not> (fa_size fa < off \<or> fa_size fa < off + len)" using assms(3) by (simp add: word_less_nat_alt)
  then have "flash_area_write (bsp_flash_dev f) fa off src len d = native_flash_write (fa_off fa + off) src len d"
    using hal_write_native [OF r] assms(2) by (simp add: flash_area_write_def)
  then show ?thesis using native_write_ok [OF r assms(4), of d] native_write_not_erased [OF r, of _ d src] by auto
qed

lemma area_erase:
  assumes "area_sectors (native_flash_dev f) fa a b" "fa_flash_id fa = 0"
    and "unat off + unat len \<le> unat (fa_size fa)" "len \<noteq> 0"
  shows "\<exists>d'. flash_area_erase (bsp_flash_dev f) fa off len d = Some (0, d') \<and>
      same_outside native_view 0 (addrs (fa_off fa) (fa_size fa)) d d' \<and>
      (\<forall>x \<in> addrs (fa_off fa + off) len. native_view d' 0 x = 0xff)"
proof -
  note r = area_range [OF area_in_native [OF assms(1)] assms(3)]
  have "unat (off + len) = unat off + unat len"
    using assms(3) unat_u32_less [of "fa_size fa"] by (simp add: unat_word_ariths)
  then have "\<not> (fa_size fa < off \<or> fa_size fa < off + len)" using assms(3) by (simp add: word_less_nat_alt)
  then have e: "flash_area_erase (bsp_flash_dev f) fa off len d = hal_flash_erase (bsp_flash_dev f) 0 (fa_off fa + off) len d"
    using assms(2) by (simp add: flash_area_erase_def)
  have dev: "bsp_flash_dev f 0 = Some (native_flash_dev f)" "in_dev (native_flash_dev f) (fa_off fa + off) len" "0 < unat len"
    using r(2) assms(4) by (simp_all add: bsp_flash_dev_def in_dev_def unat_gt_0) (simp add: native_flash_dev_def)
  from native.hal_erase [OF dev, of d] native.hal_erase_rc [OF dev, of d] obtain d' where
    d': "hal_flash_erase (bsp_flash_dev f) 0 (fa_off fa + off) len d = Some (0, d')"
    "same_outside native_view 0 (sectors_meeting (native_flash_dev f) (fa_off fa + off) len) d d'"
    "\<forall>x \<in> sectors_meeting (native_flash_dev f) (fa_off fa + off) len. native_view d' 0 x = 0xff" by metis
  with same_outside_mono [OF d'(2) sectors_of_area [OF assms(1) r(1)]] native.range_in_sectors [OF dev(1,2)] e
  show ?thesis by auto
qed

text \<open>
  C29: Access through an area of whole sectors of the native flash stays inside the area, for every
  offset and length whose sum does not wrap around 32 bits. Beyond the end of the area writing and
  erasing are refused and change nothing. Inside it a write to erased bytes succeeds and changes
  exactly these bytes, a write to other bytes fails the assertion of the driver before anything is
  written, and erasing succeeds, erases the range and changes nothing outside the area (an empty
  range is refused). When the sum wraps, the checks of the code let a length of nearly \<open>2^32\<close> bytes
  pass (\<open>flash_area_write_wraps\<close>).
\<close>

theorem flash_area_isolated:
  assumes "area_sectors (native_flash_dev f) fa a b" "fa_flash_id fa = 0"
    and "unat off + unat len < 2 ^ 32" "unat len \<le> length src"
  shows "if unat off + unat len \<le> unat (fa_size fa)
    then addrs (fa_off fa + off) len \<subseteq> addrs (fa_off fa) (fa_size fa) \<and>
      (if \<forall>x \<in> addrs (fa_off fa + off) len. native_view d 0 x = 0xff
       then \<exists>d'. flash_area_write (bsp_flash_dev f) fa off src len d = Some (0, d') \<and>
         same_outside native_view 0 (addrs (fa_off fa + off) len) d d' \<and>
         map (native_view d' 0) [unat (fa_off fa + off) ..< unat (fa_off fa + off) + unat len] = take (unat len) src
       else flash_area_write (bsp_flash_dev f) fa off src len d = None) \<and>
      (if len = 0 then flash_area_erase (bsp_flash_dev f) fa off len d = Some (-1, d)
       else \<exists>d'. flash_area_erase (bsp_flash_dev f) fa off len d = Some (0, d') \<and>
         same_outside native_view 0 (addrs (fa_off fa) (fa_size fa)) d d' \<and>
         (\<forall>x \<in> addrs (fa_off fa + off) len. native_view d' 0 x = 0xff))
    else flash_area_write (bsp_flash_dev f) fa off src len d = Some (-1, d) \<and>
      flash_area_erase (bsp_flash_dev f) fa off len d = Some (-1, d)"
proof (cases "unat off + unat len \<le> unat (fa_size fa)")
  case True
  have "flash_area_erase (bsp_flash_dev f) fa off 0 d = Some (-1, d)"
    by (simp add: flash_area_erase_def hal_flash_erase_def split: option.split)
  then show ?thesis
    using True area_range(1) [OF area_in_native [OF assms(1)] True] area_write [OF assms(1,2) True assms(4), of d]
      area_erase [OF assms(1,2) True, of d] by (cases "len = 0") simp_all
next
  case False
  have "unat (off + len) = unat off + unat len" using assms(3) by (simp add: unat_word_ariths)
  then have "fa_size fa < off + len" using False by (simp add: word_less_nat_alt)
  with False show ?thesis by (simp add: flash_area_write_def flash_area_erase_def)
qed

theorem flash_area_isolated_witness:
  "\<exists>d'. flash_area_write (bsp_flash_dev None) \<lparr>fa_flash_id = 0, fa_off = 0x20000, fa_size = 0x20000\<rparr> 0x1ffff [7] 1
      \<lparr>nf_open = False, nf_mem = \<lambda>_. 0\<rparr> = Some (0, d') \<and>
    same_outside native_view 0 (addrs 0x3ffff 1) \<lparr>nf_open = False, nf_mem = \<lambda>_. 0\<rparr> d'"
proof -
  let ?fa = "\<lparr>fa_flash_id = 0, fa_off = 0x20000, fa_size = 0x20000\<rparr> :: flash_area"
  let ?d = "\<lparr>nf_open = False, nf_mem = \<lambda>_. 0\<rparr> :: native_flash"
  have "native_view ?d 0 x = 0xff" if "x < unat native_size" for x
    using that by (simp add: native_view_def flash_native_ensure_file_open_def flash_native_file_open_def flash_native_erase_def)
  moreover have "area_sectors (native_flash_dev None) ?fa 5 5"
    by (simp add: area_sectors_def sec_start_def sec_len_def native_flash_dev_def native_info FLASH_NUM_AREAS_def)
  ultimately show ?thesis
    using flash_area_isolated [of None ?fa 5 5 "0x1ffff" 1 "[7]" ?d] by (auto simp: addrs_def native_size)
qed

text \<open>
  Finding: both checks of a write use 32-bit sums that wrap. With offset 0x100 and length 0xffffff80 they
  pass, the driver finds nothing to check either, and the copy runs out of the area and of the device.
\<close>

lemma flash_area_write_wraps:
  defines "fa \<equiv> \<lparr>fa_flash_id = 0, fa_off = 0x20000, fa_size = 0x20000\<rparr>"
  shows "flash_area_write (bsp_flash_dev f) fa 0x100 src 0xffffff80 d = native_flash_write 0x20100 src 0xffffff80 d"
    and "check_erased False 0x20100 (0x20100 + 0xffffff80) s = Some s"
    and "flash_area_write (bsp_flash_dev f) fa 0x100 src 0xffffff80 d = None"
proof -
  show w: "flash_area_write (bsp_flash_dev f) fa 0x100 src 0xffffff80 d = native_flash_write 0x20100 src 0xffffff80 d"
    by (simp add: fa_def flash_area_write_def hal_flash_write_def bsp_flash_dev_def native_flash_dev_def
        hal_flash_check_addr_def native_size_def)
  show c: "check_erased False 0x20100 (0x20100 + 0xffffff80) s = Some s" for s by (simp add: check_erased.simps)
  show "flash_area_write (bsp_flash_dev f) fa 0x100 src 0xffffff80 d = None"
    unfolding w by (simp add: native_flash_write_def flash_native_write_internal_def native_size bind_eq_None_conv)
qed

end
