(* ===== verification/Fs_Interface.thy ===== *)
theory Fs_Interface
  imports Mynewt_Prelude
begin

text \<open>
  The file system interface, \<^verbatim>\<open>fs/fs/src\<close>: the functions every user of files calls, which pass the
  call on to the file system that has registered itself, and the helpers of \<^verbatim>\<open>fsutil.c\<close>.

  A file system is the table of functions \<^verbatim>\<open>struct fs_ops\<close> over a state of its own. Calling a function
  before any file system has registered follows a null pointer and has no result. The predicate
  \<^verbatim>\<open>fs_laws\<close> states what the operations do when they report success and what they leave alone when they
  report an error, which any of them may; \<^verbatim>\<open>fs_works\<close> says of a state that from there on the operations
  on some given files succeed.
\<close>

subsection \<open>fs.h and fs_if.h\<close>

definition FS_ACCESS_READ :: u8 where "FS_ACCESS_READ = 0x01"

definition FS_ACCESS_WRITE :: u8 where "FS_ACCESS_WRITE = 0x02"

definition FS_ACCESS_APPEND :: u8 where "FS_ACCESS_APPEND = 0x04"

definition FS_ACCESS_TRUNCATE :: u8 where "FS_ACCESS_TRUNCATE = 0x08"

definition FS_EOK :: int where "FS_EOK = 0"

definition FS_EEXIST :: int where "FS_EEXIST = 11"

text \<open>Handles of files, directories and directory entries are numbers; \<open>None\<close> is the null pointer.\<close>

record 'f fs_ops =
  f_open :: "string \<Rightarrow> u8 \<Rightarrow> 'f \<Rightarrow> (int \<times> nat option \<times> 'f) option"
  f_close :: "nat option \<Rightarrow> 'f \<Rightarrow> (int \<times> 'f) option"
  f_read :: "nat option \<Rightarrow> u32 \<Rightarrow> 'f \<Rightarrow> (int \<times> u8 list \<times> 'f) option"
  f_write :: "nat option \<Rightarrow> u8 list \<Rightarrow> int \<Rightarrow> 'f \<Rightarrow> (int \<times> 'f) option"
  f_seek :: "nat option \<Rightarrow> u32 \<Rightarrow> 'f \<Rightarrow> (int \<times> 'f) option"
  f_getpos :: "nat option \<Rightarrow> 'f \<Rightarrow> u32 option"
  f_filelen :: "nat option \<Rightarrow> 'f \<Rightarrow> (int \<times> u32 \<times> 'f) option"
  f_unlink :: "string \<Rightarrow> 'f \<Rightarrow> (int \<times> 'f) option"
  f_rename :: "string \<Rightarrow> string \<Rightarrow> 'f \<Rightarrow> (int \<times> 'f) option"
  f_mkdir :: "string \<Rightarrow> 'f \<Rightarrow> (int \<times> 'f) option"
  f_opendir :: "string \<Rightarrow> 'f \<Rightarrow> (int \<times> nat option \<times> 'f) option"
  f_readdir :: "nat option \<Rightarrow> 'f \<Rightarrow> (int \<times> nat option \<times> 'f) option"
  f_closedir :: "nat option \<Rightarrow> 'f \<Rightarrow> (int \<times> 'f) option"
  f_dirent_name :: "nat option \<Rightarrow> nat \<Rightarrow> 'f \<Rightarrow> (int \<times> string \<times> 'f) option"
  f_dirent_is_dir :: "nat option \<Rightarrow> 'f \<Rightarrow> int option"
  f_name :: string

text \<open>The registered file system, \<^verbatim>\<open>fs_root_ops\<close>.\<close>

type_synonym 'f fs_root = "'f fs_ops option"

definition fs_register :: "'f fs_ops \<Rightarrow> 'f fs_root \<Rightarrow> int \<times> 'f fs_root" where
  "fs_register fops fs_root_ops =
     (case fs_root_ops of Some _ \<Rightarrow> (FS_EEXIST, fs_root_ops) | None \<Rightarrow> (FS_EOK, Some fops))"

definition fs_open :: "'f fs_root \<Rightarrow> string \<Rightarrow> u8 \<Rightarrow> 'f \<Rightarrow> (int \<times> nat option \<times> 'f) option" where
  "fs_open root filename access_flags f = do { ops \<leftarrow> root; f_open ops filename access_flags f }"

definition fs_close :: "'f fs_root \<Rightarrow> nat option \<Rightarrow> 'f \<Rightarrow> (int \<times> 'f) option" where
  "fs_close root h f = do { ops \<leftarrow> root; f_close ops h f }"

definition fs_read :: "'f fs_root \<Rightarrow> nat option \<Rightarrow> u32 \<Rightarrow> 'f \<Rightarrow> (int \<times> u8 list \<times> 'f) option" where
  "fs_read root h len f = do { ops \<leftarrow> root; f_read ops h len f }"

definition fs_write :: "'f fs_root \<Rightarrow> nat option \<Rightarrow> u8 list \<Rightarrow> int \<Rightarrow> 'f \<Rightarrow> (int \<times> 'f) option" where
  "fs_write root h data len f = do { ops \<leftarrow> root; f_write ops h data len f }"

definition fs_seek :: "'f fs_root \<Rightarrow> nat option \<Rightarrow> u32 \<Rightarrow> 'f \<Rightarrow> (int \<times> 'f) option" where
  "fs_seek root h offset f = do { ops \<leftarrow> root; f_seek ops h offset f }"

definition fs_getpos :: "'f fs_root \<Rightarrow> nat option \<Rightarrow> 'f \<Rightarrow> u32 option" where
  "fs_getpos root h f = do { ops \<leftarrow> root; f_getpos ops h f }"

definition fs_filelen :: "'f fs_root \<Rightarrow> nat option \<Rightarrow> 'f \<Rightarrow> (int \<times> u32 \<times> 'f) option" where
  "fs_filelen root h f = do { ops \<leftarrow> root; f_filelen ops h f }"

definition fs_unlink :: "'f fs_root \<Rightarrow> string \<Rightarrow> 'f \<Rightarrow> (int \<times> 'f) option" where
  "fs_unlink root filename f = do { ops \<leftarrow> root; f_unlink ops filename f }"

definition fs_rename :: "'f fs_root \<Rightarrow> string \<Rightarrow> string \<Rightarrow> 'f \<Rightarrow> (int \<times> 'f) option" where
  "fs_rename root from to f = do { ops \<leftarrow> root; f_rename ops from to f }"

definition fs_mkdir :: "'f fs_root \<Rightarrow> string \<Rightarrow> 'f \<Rightarrow> (int \<times> 'f) option" where
  "fs_mkdir root path f = do { ops \<leftarrow> root; f_mkdir ops path f }"

definition fs_opendir :: "'f fs_root \<Rightarrow> string \<Rightarrow> 'f \<Rightarrow> (int \<times> nat option \<times> 'f) option" where
  "fs_opendir root path f = do { ops \<leftarrow> root; f_opendir ops path f }"

definition fs_readdir :: "'f fs_root \<Rightarrow> nat option \<Rightarrow> 'f \<Rightarrow> (int \<times> nat option \<times> 'f) option" where
  "fs_readdir root dir f = do { ops \<leftarrow> root; f_readdir ops dir f }"

definition fs_closedir :: "'f fs_root \<Rightarrow> nat option \<Rightarrow> 'f \<Rightarrow> (int \<times> 'f) option" where
  "fs_closedir root dir f = do { ops \<leftarrow> root; f_closedir ops dir f }"

definition fs_dirent_name :: "'f fs_root \<Rightarrow> nat option \<Rightarrow> nat \<Rightarrow> 'f \<Rightarrow> (int \<times> string \<times> 'f) option" where
  "fs_dirent_name root dirent max_len f = do { ops \<leftarrow> root; f_dirent_name ops dirent max_len f }"

definition fs_dirent_is_dir :: "'f fs_root \<Rightarrow> nat option \<Rightarrow> 'f \<Rightarrow> int option" where
  "fs_dirent_is_dir root dirent f = do { ops \<leftarrow> root; f_dirent_is_dir ops dirent f }"

subsection \<open>fsutil.c\<close>

text \<open>The offset is an argument the function does not use.\<close>

definition fsutil_read_file :: "'f fs_root \<Rightarrow> string \<Rightarrow> u32 \<Rightarrow> u32 \<Rightarrow> 'f \<Rightarrow> (int \<times> u8 list \<times> 'f) option" where
  "fsutil_read_file root path offset len f = do {
     (rc, h, f1) \<leftarrow> fs_open root path FS_ACCESS_READ f;
     if rc \<noteq> 0 then do { (_, f2) \<leftarrow> fs_close root h f1; Some (rc, [], f2) }
     else do {
       (rc, bytes, f2) \<leftarrow> fs_read root h len f1;
       (_, f3) \<leftarrow> fs_close root h f2;
       Some (rc, bytes, f3)
     }
   }"

definition fsutil_write_file :: "'f fs_root \<Rightarrow> string \<Rightarrow> u8 list \<Rightarrow> u32 \<Rightarrow> 'f \<Rightarrow> (int \<times> 'f) option" where
  "fsutil_write_file root path data len f = do {
     (rc, h, f1) \<leftarrow> fs_open root path (FS_ACCESS_WRITE OR FS_ACCESS_TRUNCATE) f;
     if rc \<noteq> 0 then do { (_, f2) \<leftarrow> fs_close root h f1; Some (rc, f2) }
     else do {
       (rc, f2) \<leftarrow> fs_write root h data (sint len) f1;
       (_, f3) \<leftarrow> fs_close root h f2;
       Some (rc, f3)
     }
   }"

subsection \<open>What callers rely on\<close>

text \<open>
  \<open>files\<close> are the contents of the files by path, \<open>cursor\<close> the file and position of an open handle. Any
  operation may report an error: the file system may not be mounted, be full, or fail on its flash.
  Opening for reading succeeds only for a file that exists, opening to write and truncate leaves the
  file empty, reading and writing start at the cursor and move it, a failed open gives the null handle,
  and no operation touches another file than its own; of that one nothing is said after an error.
\<close>

definition fs_laws ::
    "'f fs_ops \<Rightarrow> ('f \<Rightarrow> string \<Rightarrow> u8 list option) \<Rightarrow> ('f \<Rightarrow> nat \<Rightarrow> (string \<times> nat) option) \<Rightarrow> bool" where
  "fs_laws ops files cursor \<longleftrightarrow>
     (\<forall>p f. \<exists>rc h f'. f_open ops p FS_ACCESS_READ f = Some (rc, h, f') \<and> files f' = files f \<and>
        (if rc = 0 then files f p \<noteq> None \<and> (\<exists>i. h = Some i \<and> cursor f' i = Some (p, 0)) else h = None)) \<and>
     (\<forall>p f. \<exists>rc h f'. f_open ops p (FS_ACCESS_WRITE OR FS_ACCESS_TRUNCATE) f = Some (rc, h, f') \<and>
        (\<forall>q. q \<noteq> p \<longrightarrow> files f' q = files f q) \<and>
        (if rc = 0 then files f' p = Some [] \<and> (\<exists>i. h = Some i \<and> cursor f' i = Some (p, 0)) else h = None)) \<and>
     (\<forall>i len f p n c. cursor f i = Some (p, n) \<longrightarrow> files f p = Some c \<longrightarrow>
        (\<exists>rc bs f' n'. f_read ops (Some i) len f = Some (rc, bs, f') \<and> files f' = files f \<and> cursor f' i = Some (p, n') \<and>
          (rc = 0 \<longrightarrow> bs = take (unat len) (drop n c) \<and> n' = n + length bs))) \<and>
     (\<forall>i data len f p n c. cursor f i = Some (p, n) \<longrightarrow> files f p = Some c \<longrightarrow> 0 \<le> len \<longrightarrow> nat len \<le> length data \<longrightarrow>
        (\<exists>rc f' c' n'. f_write ops (Some i) data len f = Some (rc, f') \<and> (\<forall>q. q \<noteq> p \<longrightarrow> files f' q = files f q) \<and>
          files f' p = Some c' \<and> cursor f' i = Some (p, n') \<and>
          (rc = 0 \<longrightarrow> c' = take n c @ take (nat len) data @ drop (n + nat len) c \<and> n' = n + nat len))) \<and>
     (\<forall>h f. (h = None \<or> (\<exists>i p n. h = Some i \<and> cursor f i = Some (p, n))) \<longrightarrow>
        (\<exists>rc f'. f_close ops h f = Some (rc, f') \<and> files f' = files f)) \<and>
     (\<forall>p f. \<exists>rc f'. f_unlink ops p f = Some (rc, f') \<and> (\<forall>q. q \<noteq> p \<longrightarrow> files f' q = files f q) \<and>
        (rc = 0 \<longrightarrow> files f' p = None)) \<and>
     (\<forall>p f. \<exists>rc f'. f_mkdir ops p f = Some (rc, f') \<and> files f' = files f)"

text \<open>
  A state \<open>f\<close> of a file system that is mounted and has room for the files \<open>paths\<close> of up to \<open>room\<close>
  bytes each: from there on, whatever is called, opening, reading and writing these files
  within that size succeeds, and a file that is unlinked is gone.
\<close>

definition fs_serves ::
    "'f fs_ops \<Rightarrow> ('f \<Rightarrow> string \<Rightarrow> u8 list option) \<Rightarrow> ('f \<Rightarrow> nat \<Rightarrow> (string \<times> nat) option) \<Rightarrow>
     string set \<Rightarrow> nat \<Rightarrow> ('f \<Rightarrow> bool) \<Rightarrow> 'f \<Rightarrow> bool" where
  "fs_serves ops files cursor paths room ready f \<longleftrightarrow>
     (\<forall>p rc h f'. f_open ops p FS_ACCESS_READ f = Some (rc, h, f') \<longrightarrow>
        ready f' \<and> (p \<in> paths \<and> files f p \<noteq> None \<longrightarrow> rc = 0)) \<and>
     (\<forall>p rc h f'. f_open ops p (FS_ACCESS_WRITE OR FS_ACCESS_TRUNCATE) f = Some (rc, h, f') \<longrightarrow>
        ready f' \<and> (p \<in> paths \<longrightarrow> rc = 0)) \<and>
     (\<forall>i len rc bs f'. f_read ops (Some i) len f = Some (rc, bs, f') \<longrightarrow>
        ready f' \<and> (\<forall>p n. cursor f i = Some (p, n) \<and> p \<in> paths \<longrightarrow> rc = 0)) \<and>
     (\<forall>i data len rc f'. f_write ops (Some i) data len f = Some (rc, f') \<longrightarrow>
        ready f' \<and> (\<forall>p n. cursor f i = Some (p, n) \<and> p \<in> paths \<and> n + nat len \<le> room \<longrightarrow> rc = 0)) \<and>
     (\<forall>h rc f'. f_close ops h f = Some (rc, f') \<longrightarrow> ready f') \<and>
     (\<forall>p rc f'. f_unlink ops p f = Some (rc, f') \<longrightarrow> ready f' \<and> (p \<in> paths \<longrightarrow> files f' p = None)) \<and>
     (\<forall>p rc f'. f_mkdir ops p f = Some (rc, f') \<longrightarrow> ready f')"

definition fs_works ::
    "'f fs_ops \<Rightarrow> ('f \<Rightarrow> string \<Rightarrow> u8 list option) \<Rightarrow> ('f \<Rightarrow> nat \<Rightarrow> (string \<times> nat) option) \<Rightarrow>
     string set \<Rightarrow> nat \<Rightarrow> 'f \<Rightarrow> bool" where
  "fs_works ops files cursor paths room f \<longleftrightarrow>
     (\<exists>ready. ready f \<and> (\<forall>g. ready g \<longrightarrow> fs_serves ops files cursor paths room ready g))"

subsection \<open>Lemmas\<close>

lemma fs_open_read:
  assumes "fs_laws ops files cursor"
  obtains rc h f' where "fs_open (Some ops) p FS_ACCESS_READ f = Some (rc, h, f')" "files f' = files f"
    "if rc = 0 then files f p \<noteq> None \<and> (\<exists>i. h = Some i \<and> cursor f' i = Some (p, 0)) else h = None"
  using assms [unfolded fs_laws_def, THEN conjunct1, THEN spec, THEN spec] that unfolding fs_open_def Option.bind.simps by blast

lemma fs_open_write:
  assumes "fs_laws ops files cursor"
  obtains rc h f' where "fs_open (Some ops) p (FS_ACCESS_WRITE OR FS_ACCESS_TRUNCATE) f = Some (rc, h, f')"
    "\<forall>q. q \<noteq> p \<longrightarrow> files f' q = files f q"
    "if rc = 0 then files f' p = Some [] \<and> (\<exists>i. h = Some i \<and> cursor f' i = Some (p, 0)) else h = None"
  using assms [unfolded fs_laws_def, THEN conjunct2, THEN conjunct1, THEN spec, THEN spec] that unfolding fs_open_def Option.bind.simps by blast

lemma fs_read_at:
  assumes "fs_laws ops files cursor" "cursor f i = Some (p, n)" "files f p = Some c"
  shows "\<exists>rc bs f' n'. fs_read (Some ops) (Some i) len f = Some (rc, bs, f') \<and> files f' = files f \<and> cursor f' i = Some (p, n') \<and>
    (rc = 0 \<longrightarrow> bs = take (unat len) (drop n c) \<and> n' = n + length bs)"
  using assms(1) [unfolded fs_laws_def, THEN conjunct2, THEN conjunct2, THEN conjunct1, THEN spec, THEN spec, THEN spec, THEN spec, THEN spec, THEN spec] assms(2,3) unfolding fs_read_def Option.bind.simps by blast

lemma fs_write_at:
  assumes "fs_laws ops files cursor" "cursor f i = Some (p, n)" "files f p = Some c" "nat len \<le> length data" "0 \<le> len"
  shows "\<exists>rc f' c' n'. fs_write (Some ops) (Some i) data len f = Some (rc, f') \<and> (\<forall>q. q \<noteq> p \<longrightarrow> files f' q = files f q) \<and>
    files f' p = Some c' \<and> cursor f' i = Some (p, n') \<and>
    (rc = 0 \<longrightarrow> c' = take n c @ take (nat len) data @ drop (n + nat len) c \<and> n' = n + nat len)"
  using assms(1) [unfolded fs_laws_def, THEN conjunct2, THEN conjunct2, THEN conjunct2, THEN conjunct1, THEN spec, THEN spec, THEN spec, THEN spec, THEN spec, THEN spec, THEN spec] assms(2-5) unfolding fs_write_def Option.bind.simps by blast

lemma fs_close_null:
  assumes "fs_laws ops files cursor"
  obtains rc f' where "fs_close (Some ops) None f = Some (rc, f')" "files f' = files f"
  using assms [unfolded fs_laws_def, THEN conjunct2, THEN conjunct2, THEN conjunct2, THEN conjunct2, THEN conjunct1, THEN spec, THEN spec] that unfolding fs_close_def Option.bind.simps by blast

lemma fs_close_open:
  assumes "fs_laws ops files cursor" "cursor f i = Some pn"
  obtains rc f' where "fs_close (Some ops) (Some i) f = Some (rc, f')" "files f' = files f"
  using assms(1) [unfolded fs_laws_def, THEN conjunct2, THEN conjunct2, THEN conjunct2, THEN conjunct2, THEN conjunct1, THEN spec, THEN spec] assms(2) that unfolding fs_close_def Option.bind.simps by (cases pn) blast

lemma fs_unlink_any:
  assumes "fs_laws ops files cursor"
  obtains rc f' where "fs_unlink (Some ops) p f = Some (rc, f')" "\<forall>q. q \<noteq> p \<longrightarrow> files f' q = files f q"
    "rc = 0 \<longrightarrow> files f' p = None"
  using assms [unfolded fs_laws_def, THEN conjunct2, THEN conjunct2, THEN conjunct2, THEN conjunct2, THEN conjunct2, THEN conjunct1, THEN spec, THEN spec] that unfolding fs_unlink_def Option.bind.simps by blast

lemma fs_mkdir_any:
  assumes "fs_laws ops files cursor"
  obtains rc f' where "fs_mkdir (Some ops) p f = Some (rc, f')" "files f' = files f"
  using assms [unfolded fs_laws_def, THEN conjunct2, THEN conjunct2, THEN conjunct2, THEN conjunct2, THEN conjunct2, THEN conjunct2, THEN spec, THEN spec] that unfolding fs_mkdir_def Option.bind.simps by blast

text \<open>What a working file system adds.\<close>

lemma worksE:
  assumes "fs_works ops files cursor paths room f"
  obtains ready where "fs_serves ops files cursor paths room ready f"
    "\<And>g. ready g \<Longrightarrow> fs_works ops files cursor paths room g"
  using assms unfolding fs_works_def by blast

lemma works_open_read:
  assumes "fs_works ops files cursor paths room f" "fs_open (Some ops) p FS_ACCESS_READ f = Some (rc, h, f')"
  shows "fs_works ops files cursor paths room f'" "p \<in> paths \<Longrightarrow> files f p \<noteq> None \<Longrightarrow> rc = 0"
  by (rule worksE [OF assms(1)], use assms(2) in \<open>simp add: fs_serves_def fs_open_def\<close>)+

lemma works_open_write:
  assumes "fs_works ops files cursor paths room f" "fs_open (Some ops) p (FS_ACCESS_WRITE OR FS_ACCESS_TRUNCATE) f = Some (rc, h, f')"
  shows "fs_works ops files cursor paths room f'" "p \<in> paths \<Longrightarrow> rc = 0"
  by (rule worksE [OF assms(1)], use assms(2) in \<open>simp add: fs_serves_def fs_open_def\<close>)+

lemma works_read:
  assumes "fs_works ops files cursor paths room f" "fs_read (Some ops) (Some i) len f = Some (rc, bs, f')"
  shows "fs_works ops files cursor paths room f'" "cursor f i = Some (p, n) \<Longrightarrow> p \<in> paths \<Longrightarrow> rc = 0"
  by (rule worksE [OF assms(1)], use assms(2) in \<open>simp add: fs_serves_def fs_read_def\<close>)+

lemma works_write:
  assumes "fs_works ops files cursor paths room f" "fs_write (Some ops) (Some i) data len f = Some (rc, f')"
  shows "fs_works ops files cursor paths room f'" "cursor f i = Some (p, n) \<Longrightarrow> p \<in> paths \<Longrightarrow> n + nat len \<le> room \<Longrightarrow> rc = 0"
  by (rule worksE [OF assms(1)], use assms(2) in \<open>simp add: fs_serves_def fs_write_def\<close>)+

lemma works_close:
  assumes "fs_works ops files cursor paths room f" "fs_close (Some ops) h f = Some (rc, f')"
  shows "fs_works ops files cursor paths room f'"
  by (rule worksE [OF assms(1)], use assms(2) in \<open>simp add: fs_serves_def fs_close_def\<close>)

lemma works_unlink:
  assumes "fs_works ops files cursor paths room f" "fs_unlink (Some ops) p f = Some (rc, f')"
  shows "fs_works ops files cursor paths room f'" "p \<in> paths \<Longrightarrow> files f' p = None"
  by (rule worksE [OF assms(1)], use assms(2) in \<open>simp add: fs_serves_def fs_unlink_def\<close>)+

lemma works_mkdir:
  assumes "fs_works ops files cursor paths room f" "fs_mkdir (Some ops) p f = Some (rc, f')"
  shows "fs_works ops files cursor paths room f'"
  by (rule worksE [OF assms(1)], use assms(2) in \<open>simp add: fs_serves_def fs_mkdir_def\<close>)

lemma fsutil_read:
  assumes l: "fs_laws ops files cursor" and w: "fs_works ops files cursor paths room f" and c: "files f p = Some c" "p \<in> paths"
  obtains f' where "fsutil_read_file (Some ops) p off len f = Some (0, take (unat len) c, f')" "files f' = files f"
    "fs_works ops files cursor paths room f'"
proof -
  obtain rc h f1 where f1: "fs_open (Some ops) p FS_ACCESS_READ f = Some (rc, h, f1)" "files f1 = files f"
      "if rc = 0 then files f p \<noteq> None \<and> (\<exists>i. h = Some i \<and> cursor f1 i = Some (p, 0)) else h = None" by (rule fs_open_read [OF l])
  note w1 = works_open_read [OF w f1(1)]
  have rc: "rc = 0" using w1(2) c by simp
  then obtain i where i: "h = Some i" "cursor f1 i = Some (p, 0)" using f1(3) by auto
  have "files f1 p = Some c" using f1(2) c(1) by simp
  from fs_read_at [OF l i(2) this] obtain rc2 bs f2 n where f2: "fs_read (Some ops) (Some i) len f1 = Some (rc2, bs, f2)"
      "files f2 = files f1" "cursor f2 i = Some (p, n)" "rc2 = 0 \<longrightarrow> bs = take (unat len) (drop 0 c) \<and> n = 0 + length bs" by blast
  note w2 = works_read [OF w1(1) f2(1)]
  have rc2: "rc2 = 0" using w2(2) [OF i(2) c(2)] .
  obtain rc3 f3 where f3: "fs_close (Some ops) (Some i) f2 = Some (rc3, f3)" "files f3 = files f2" by (rule fs_close_open [OF l f2(3)])
  show thesis
    by (rule that [OF _ _ works_close [OF w2(1) f3(1)]])
      (use f1 f2 f3 rc rc2 i(1) in \<open>simp_all add: fsutil_read_file_def\<close>)
qed

end
