(* ===== verification/Boot_Loader.thy ===== *)
theory Boot_Loader
  imports Hal_Flash_Map Fs_Interface
begin

text \<open>
  The boot loader, \<^verbatim>\<open>libs/bootutil/src/loader.c\<close> and \<^verbatim>\<open>bootutil_misc.c\<close>: it picks the image to run from the
  boot vectors in the file system, and when that image is in the second slot it swaps the two slots,
  area by area through a scratch area, recording after each step in a status file where every part of
  the images is.

  The flash devices of the board, the registered file system and the request are arguments; the
  globals of the loader are the fields of the state. Failed assertions have no result, errors are
  the return codes of the source.
\<close>

subsection \<open>Data\<close>

definition IMAGE_MAGIC :: u32 where "IMAGE_MAGIC = 0x96f3b83c"

definition IMAGE_MAGIC_NONE :: u32 where "IMAGE_MAGIC_NONE = 0xffffffff"

definition IMAGE_HEADER_SIZE :: nat where "IMAGE_HEADER_SIZE = 32"

definition BOOT_EFLASH :: int where "BOOT_EFLASH = 1"

definition BOOT_EFILE :: int where "BOOT_EFILE = 2"

definition BOOT_EBADIMAGE :: int where "BOOT_EBADIMAGE = 3"

definition BOOT_EBADVECT :: int where "BOOT_EBADVECT = 4"

definition BOOT_EBADSTATUS :: int where "BOOT_EBADSTATUS = 5"

definition BOOT_ENOMEM :: int where "BOOT_ENOMEM = 6"

definition BOOT_IMAGE_NUM_NONE :: u8 where "BOOT_IMAGE_NUM_NONE = 0xff"

definition BOOT_PATH_MAIN :: string where "BOOT_PATH_MAIN = ''/boot/main''"

definition BOOT_PATH_TEST :: string where "BOOT_PATH_TEST = ''/boot/test''"

definition BOOT_PATH_STATUS :: string where "BOOT_PATH_STATUS = ''/boot/status''"

definition BOOT_NUM_SLOTS :: int where "BOOT_NUM_SLOTS = 2"

record image_version =
  iv_major :: u8
  iv_minor :: u8
  iv_revision :: u16
  iv_build_num :: u32

record image_header =
  ih_magic :: u32
  ih_crc32 :: u32
  ih_hdr_size :: u32
  ih_img_size :: u32
  ih_flags :: u32
  ih_ver :: image_version
  ih_pad :: u32

record boot_status =
  bs_img1_length :: u32
  bs_img2_length :: u32

record boot_status_entry =
  bse_image_num :: u8
  bse_part_num :: u8

record boot_image_location =
  bil_flash_id :: u8
  bil_address :: u32

record boot_req =
  br_area_descs :: "nffs_area_desc list"
  br_image_areas :: "u8 list"
  br_slot_areas :: "u8 list"
  br_num_image_areas :: u8
  br_scratch_area_idx :: u8

record boot_rsp =
  br_hdr :: image_header
  br_flash_id :: u8
  br_image_addr :: u32

text \<open>The state: the flashes, the file system, and the globals of \<^verbatim>\<open>loader.c\<close>.\<close>

record ('d, 'f) boot_state =
  bt_flash :: 'd
  bt_fs :: 'f
  boot_img_hdrs :: "image_header list"
  bt_status :: boot_status
  bt_entries :: "boot_status_entry list"

subsection \<open>Memory layout of the structures\<close>

definition le32 :: "u32 \<Rightarrow> u8 list" where
  "le32 w = [ucast w, ucast (drop_bit 8 w), ucast (drop_bit 16 w), ucast (drop_bit 24 w)]"

definition of_le32 :: "u8 list \<Rightarrow> u32" where
  "of_le32 bs = ucast (bs ! 0) OR push_bit 8 (ucast (bs ! 1)) OR push_bit 16 (ucast (bs ! 2)) OR push_bit 24 (ucast (bs ! 3))"

definition decode_version :: "u8 list \<Rightarrow> image_version" where
  "decode_version bs = \<lparr>iv_major = bs ! 0, iv_minor = bs ! 1,
     iv_revision = of_le16 (take 2 (drop 2 bs)), iv_build_num = of_le32 (take 4 (drop 4 bs))\<rparr>"

definition decode_header :: "u8 list \<Rightarrow> image_header" where
  "decode_header bs = \<lparr>ih_magic = of_le32 (take 4 bs), ih_crc32 = of_le32 (take 4 (drop 4 bs)),
     ih_hdr_size = of_le32 (take 4 (drop 8 bs)), ih_img_size = of_le32 (take 4 (drop 12 bs)),
     ih_flags = of_le32 (take 4 (drop 16 bs)), ih_ver = decode_version (take 8 (drop 20 bs)),
     ih_pad = of_le32 (take 4 (drop 28 bs))\<rparr>"

definition status_bytes :: "boot_status \<Rightarrow> u8 list" where
  "status_bytes st = le32 (bs_img1_length st) @ le32 (bs_img2_length st)"

definition decode_status :: "u8 list \<Rightarrow> boot_status" where
  "decode_status bs = \<lparr>bs_img1_length = of_le32 (take 4 bs), bs_img2_length = of_le32 (take 4 (drop 4 bs))\<rparr>"

fun entries_bytes :: "boot_status_entry list \<Rightarrow> u8 list" where
  "entries_bytes [] = []"
| "entries_bytes (e # es) = bse_image_num e # bse_part_num e # entries_bytes es"

fun decode_entries :: "u8 list \<Rightarrow> boot_status_entry list" where
  "decode_entries (a # b # bs) = \<lparr>bse_image_num = a, bse_part_num = b\<rparr> # decode_entries bs"
| "decode_entries bs = []"

text \<open>What a read of fewer bytes than asked for leaves in a structure.\<close>

definition overlay :: "u8 list \<Rightarrow> u8 list \<Rightarrow> u8 list" where
  "overlay new old = new @ drop (length new) old"

subsection \<open>bootutil\_misc.c\<close>

definition boot_vect_read_one :: "'f fs_root \<Rightarrow> string \<Rightarrow> 'f \<Rightarrow> (int \<times> image_version option \<times> 'f) option" where
  "boot_vect_read_one root path f = do {
     (rc, bytes, f1) \<leftarrow> fsutil_read_file root path 0 8 f;
     if rc \<noteq> 0 \<or> length bytes \<noteq> 8 then Some (BOOT_EBADVECT, None, f1)
     else Some (0, Some (decode_version bytes), f1)
   }"

definition boot_vect_read_test :: "'f fs_root \<Rightarrow> 'f \<Rightarrow> (int \<times> image_version option \<times> 'f) option" where
  "boot_vect_read_test root f = boot_vect_read_one root BOOT_PATH_TEST f"

definition boot_vect_read_main :: "'f fs_root \<Rightarrow> 'f \<Rightarrow> (int \<times> image_version option \<times> 'f) option" where
  "boot_vect_read_main root f = boot_vect_read_one root BOOT_PATH_MAIN f"

definition boot_vect_delete_test :: "'f fs_root \<Rightarrow> 'f \<Rightarrow> (int \<times> 'f) option" where
  "boot_vect_delete_test root f = fs_unlink root BOOT_PATH_TEST f"

definition boot_vect_delete_main :: "'f fs_root \<Rightarrow> 'f \<Rightarrow> (int \<times> 'f) option" where
  "boot_vect_delete_main root f = fs_unlink root BOOT_PATH_MAIN f"

definition boot_read_image_header ::
    "'d flash_devs \<Rightarrow> boot_image_location \<Rightarrow> 'd \<Rightarrow> (int \<times> image_header option \<times> 'd) option" where
  "boot_read_image_header bsp loc d = do {
     (rc, bytes, d1) \<leftarrow> hal_flash_read bsp (bil_flash_id loc) (bil_address loc) (of_nat IMAGE_HEADER_SIZE) d;
     if rc \<noteq> 0 then Some (BOOT_EFLASH, None, d1)
     else let hdr = decode_header bytes in
       if ih_magic hdr \<noteq> IMAGE_MAGIC then Some (BOOT_EBADIMAGE, Some hdr, d1) else Some (0, Some hdr, d1)
   }"

fun boot_read_image_headers ::
    "'d flash_devs \<Rightarrow> boot_image_location list \<Rightarrow> 'd \<Rightarrow> (image_header list \<times> 'd) option" where
  "boot_read_image_headers bsp [] d = Some ([], d)"
| "boot_read_image_headers bsp (loc # locs) d = do {
     (rc, hdr, d1) \<leftarrow> boot_read_image_header bsp loc d;
     (hdrs, d2) \<leftarrow> boot_read_image_headers bsp locs d1;
     Some ((case hdr of
              Some h \<Rightarrow> if rc \<noteq> 0 \<or> ih_magic h \<noteq> IMAGE_MAGIC then decode_header (replicate IMAGE_HEADER_SIZE 0xff) else h
            | None \<Rightarrow> decode_header (replicate IMAGE_HEADER_SIZE 0xff)) # hdrs, d2)
   }"

definition clear_none :: "u32 \<Rightarrow> u32" where
  "clear_none len = (if len = 0xffffffff then 0 else len)"

definition bad_entry :: "boot_status \<Rightarrow> boot_status_entry \<Rightarrow> bool" where
  "bad_entry st e \<longleftrightarrow> (bse_image_num e = 0 \<and> bs_img1_length st = 0) \<or> (bse_image_num e = 1 \<and> bs_img2_length st = 0)"

definition boot_read_status ::
    "'f fs_root \<Rightarrow> nat \<Rightarrow> ('d, 'f) boot_state \<Rightarrow> (int \<times> ('d, 'f) boot_state) option" where
  "boot_read_status root num_areas s = do {
     (rc, file, f1) \<leftarrow> fs_open root BOOT_PATH_STATUS FS_ACCESS_READ (bt_fs s);
     if rc \<noteq> 0 then do { (_, f2) \<leftarrow> fs_close root file f1; Some (BOOT_EBADSTATUS, s\<lparr>bt_fs := f2\<rparr>) }
     else do {
       (rc, bytes, f2) \<leftarrow> fs_read root file 8 f1;
       let s1 = s\<lparr>bt_status := decode_status (overlay bytes (status_bytes (bt_status s)))\<rparr>;
       if rc \<noteq> 0 \<or> length bytes \<noteq> 8 then do {
         (_, f3) \<leftarrow> fs_close root file f2; Some (BOOT_EBADSTATUS, s1\<lparr>bt_fs := f3\<rparr>) }
       else do {
         (rc, bytes, f3) \<leftarrow> fs_read root file (of_nat (num_areas * 2)) f2;
         let s2 = s1\<lparr>bt_entries := decode_entries (overlay bytes (entries_bytes (bt_entries s1)))\<rparr>;
         if rc \<noteq> 0 \<or> length bytes \<noteq> num_areas * 2 then do {
           (_, f4) \<leftarrow> fs_close root file f3; Some (BOOT_EBADSTATUS, s2\<lparr>bt_fs := f4\<rparr>) }
         else do {
           let st = \<lparr>bs_img1_length = clear_none (bs_img1_length (bt_status s2)),
                     bs_img2_length = clear_none (bs_img2_length (bt_status s2))\<rparr>;
           (_, f4) \<leftarrow> fs_close root file f3;
           Some (if list_ex (bad_entry st) (take num_areas (bt_entries s2)) then BOOT_EBADSTATUS else 0,
             s2\<lparr>bt_status := st, bt_fs := f4\<rparr>)
         }
       }
     }
   }"

definition boot_write_status ::
    "'f fs_root \<Rightarrow> boot_status \<Rightarrow> boot_status_entry list \<Rightarrow> nat \<Rightarrow> 'f \<Rightarrow> (int \<times> 'f) option" where
  "boot_write_status root status entries num_areas f = do {
     (rc, file, f1) \<leftarrow> fs_open root BOOT_PATH_STATUS (FS_ACCESS_WRITE OR FS_ACCESS_TRUNCATE) f;
     if rc \<noteq> 0 then do { (_, f2) \<leftarrow> fs_close root file f1; Some (BOOT_EFILE, f2) }
     else do {
       (rc, f2) \<leftarrow> fs_write root file (status_bytes status) 8 f1;
       if rc \<noteq> 0 then do { (_, f3) \<leftarrow> fs_close root file f2; Some (BOOT_EFILE, f3) }
       else do {
         (rc, f3) \<leftarrow> fs_write root file (entries_bytes entries) (int (num_areas * 2)) f2;
         (_, f4) \<leftarrow> fs_close root file f3;
         Some (if rc \<noteq> 0 then BOOT_EFILE else 0, f4)
       }
     }
   }"

definition boot_clear_status :: "'f fs_root \<Rightarrow> 'f \<Rightarrow> 'f option" where
  "boot_clear_status root f = do { (_, f1) \<leftarrow> fs_unlink root BOOT_PATH_STATUS f; Some f1 }"

subsection \<open>loader.c: finding images and areas\<close>

text \<open>An entry of the array of area descriptors; an index outside the array has no result.\<close>

definition area_desc :: "boot_req \<Rightarrow> int \<Rightarrow> nffs_area_desc option" where
  "area_desc req i = (if 0 \<le> i \<and> nat i < length (br_area_descs req) then Some (br_area_descs req ! nat i) else None)"

definition boot_slot_addr :: "boot_req \<Rightarrow> int \<Rightarrow> (u8 \<times> u32) option" where
  "boot_slot_addr req slot_num =
     (if 0 \<le> slot_num \<and> slot_num < BOOT_NUM_SLOTS \<and> nat slot_num < length (br_slot_areas req) then do {
        d \<leftarrow> area_desc req (uint (br_slot_areas req ! nat slot_num));
        Some (nad_flash_id d, nad_offset d)
      } else None)"

definition boot_find_image_slot :: "image_header list \<Rightarrow> image_version \<Rightarrow> int" where
  "boot_find_image_slot hdrs ver =
     (if ih_ver (hdrs ! 0) = ver then 0 else if ih_ver (hdrs ! 1) = ver then 1 else -1)"

definition boot_select_image_slot ::
    "'f fs_root \<Rightarrow> ('d, 'f) boot_state \<Rightarrow> (int \<times> ('d, 'f) boot_state) option" where
  "boot_select_image_slot root s = do {
     (rc, ver, f1) \<leftarrow> boot_vect_read_test root (bt_fs s);
     (slot, f2) \<leftarrow> (case ver of
         None \<Rightarrow> Some (-1, f1)
       | Some v \<Rightarrow>
           let slot = boot_find_image_slot (boot_img_hdrs s) v in
           if slot = -1 then do { (_, f') \<leftarrow> boot_vect_delete_test root f1; Some (-1, f') }
           else Some (slot, f1));
     if slot \<noteq> -1 then Some (slot, s\<lparr>bt_fs := f2\<rparr>)
     else do {
       (rc, ver, f3) \<leftarrow> boot_vect_read_main root f2;
       (slot, f4) \<leftarrow> (case ver of
           None \<Rightarrow> Some (-1, f3)
         | Some v \<Rightarrow>
             let slot = boot_find_image_slot (boot_img_hdrs s) v in
             if slot = -1 then do { (_, f') \<leftarrow> boot_vect_delete_main root f3; Some (-1, f') }
             else Some (slot, f3));
       Some (slot, s\<lparr>bt_fs := f4\<rparr>)
     }
   }"

fun find_part_from :: "boot_req \<Rightarrow> int \<Rightarrow> int \<Rightarrow> boot_status_entry list \<Rightarrow> u8 list \<Rightarrow> int" where
  "find_part_from req image_num part_num (e # es) (a # as) =
     (if uint (bse_image_num e) = image_num \<and> uint (bse_part_num e) = part_num then uint a
      else find_part_from req image_num part_num es as)"
| "find_part_from req image_num part_num _ _ = -1"

definition boot_find_image_part :: "boot_req \<Rightarrow> int \<Rightarrow> int \<Rightarrow> ('d, 'f) boot_state \<Rightarrow> int" where
  "boot_find_image_part req image_num part_num s =
     find_part_from req image_num part_num (bt_entries s) (take (unat (br_num_image_areas req)) (br_image_areas req))"

fun slot_area_from :: "boot_req \<Rightarrow> int \<Rightarrow> int \<Rightarrow> nffs_area_desc list \<Rightarrow> int option" where
  "slot_area_from req slot_num i [] = None"
| "slot_area_from req slot_num i (d # ds) =
     (if nad_length d = 0 then Some (-1)
      else do {
        (flash_id, address) \<leftarrow> boot_slot_addr req slot_num;
        if nad_offset d = address \<and> nad_flash_id d = flash_id then Some i
        else slot_area_from req slot_num (i + 1) ds
      })"

definition boot_slot_to_area_idx :: "boot_req \<Rightarrow> int \<Rightarrow> int option" where
  "boot_slot_to_area_idx req slot_num =
     (if 0 \<le> slot_num \<and> slot_num < BOOT_NUM_SLOTS then slot_area_from req slot_num 0 (br_area_descs req) else None)"

fun area_idx_from :: "int \<Rightarrow> int \<Rightarrow> u8 list \<Rightarrow> int" where
  "area_idx_from area_idx i [] = -1"
| "area_idx_from area_idx i (a # as) = (if uint a = area_idx then i else area_idx_from area_idx (i + 1) as)"

definition boot_find_image_area_idx :: "boot_req \<Rightarrow> int \<Rightarrow> int" where
  "boot_find_image_area_idx req area_idx =
     area_idx_from area_idx 0 (take (unat (br_num_image_areas req)) (br_image_areas req))"

subsection \<open>loader.c: moving areas\<close>

definition boot_erase_area ::
    "'d flash_devs \<Rightarrow> boot_req \<Rightarrow> int \<Rightarrow> ('d, 'f) boot_state \<Rightarrow> (int \<times> ('d, 'f) boot_state) option" where
  "boot_erase_area bsp req area_idx s = do {
     d \<leftarrow> area_desc req area_idx;
     (rc, fl) \<leftarrow> hal_flash_erase bsp (nad_flash_id d) (nad_offset d) (nad_length d) (bt_flash s);
     Some (if rc \<noteq> 0 then BOOT_EFLASH else 0, s\<lparr>bt_flash := fl\<rparr>)
   }"

partial_function (option) copy_loop ::
    "'d flash_devs \<Rightarrow> nffs_area_desc \<Rightarrow> nffs_area_desc \<Rightarrow> u32 \<Rightarrow> 'd \<Rightarrow> (int \<times> 'd) option" where
  "copy_loop bsp from_desc to_desc off d =
     (if off < nad_length from_desc then
        (let chunk_sz = (if 1024 < nad_length from_desc - off then 1024 else nad_length from_desc - off)
         in do {
           (rc, buf, d1) \<leftarrow> hal_flash_read bsp (nad_flash_id from_desc) (nad_offset from_desc + off) chunk_sz d;
           if rc \<noteq> 0 then Some (rc, d1)
           else do {
             (rc, d2) \<leftarrow> hal_flash_write bsp (nad_flash_id to_desc) (nad_offset to_desc + off) buf chunk_sz d1;
             if rc \<noteq> 0 then Some (rc, d2) else copy_loop bsp from_desc to_desc (off + chunk_sz) d2
           }
         })
      else Some (0, d))"

definition boot_copy_area ::
    "'d flash_devs \<Rightarrow> boot_req \<Rightarrow> int \<Rightarrow> int \<Rightarrow> ('d, 'f) boot_state \<Rightarrow> (int \<times> ('d, 'f) boot_state) option" where
  "boot_copy_area bsp req from_area_idx to_area_idx s = do {
     from_desc \<leftarrow> area_desc req from_area_idx;
     to_desc \<leftarrow> area_desc req to_area_idx;
     if nad_length to_desc < nad_length from_desc then None
     else do {
       (rc, fl) \<leftarrow> copy_loop bsp from_desc to_desc 0 (bt_flash s);
       Some (rc, s\<lparr>bt_flash := fl\<rparr>)
     }
   }"

definition none_entry :: boot_status_entry where
  "none_entry = \<lparr>bse_image_num = BOOT_IMAGE_NUM_NONE, bse_part_num = BOOT_IMAGE_NUM_NONE\<rparr>"

definition save_status ::
    "'f fs_root \<Rightarrow> boot_req \<Rightarrow> ('d, 'f) boot_state \<Rightarrow> (int \<times> ('d, 'f) boot_state) option" where
  "save_status root req s = do {
     (rc, f) \<leftarrow> boot_write_status root (bt_status s) (bt_entries s) (unat (br_num_image_areas req)) (bt_fs s);
     Some (rc, s\<lparr>bt_fs := f\<rparr>)
   }"

definition boot_move_area ::
    "'d flash_devs \<Rightarrow> 'f fs_root \<Rightarrow> boot_req \<Rightarrow> int \<Rightarrow> int \<Rightarrow> int \<Rightarrow> u8 \<Rightarrow> ('d, 'f) boot_state \<Rightarrow>
     (int \<times> ('d, 'f) boot_state) option" where
  "boot_move_area bsp root req from_area_idx to_area_idx img_num part_num s =
     (let src_image_idx = boot_find_image_area_idx req from_area_idx;
          dst_image_idx = boot_find_image_area_idx req to_area_idx
      in if src_image_idx = -1 \<or> dst_image_idx = -1 then None
         else do {
           (rc, s1) \<leftarrow> boot_erase_area bsp req to_area_idx s;
           if rc \<noteq> 0 then Some (rc, s1) else do {
           (rc, s2) \<leftarrow> boot_copy_area bsp req from_area_idx to_area_idx s1;
           if rc \<noteq> 0 then Some (rc, s2) else do {
           let s3 = s2\<lparr>bt_entries := (bt_entries s2)[nat src_image_idx := none_entry,
                 nat dst_image_idx := \<lparr>bse_image_num = word_of_int img_num, bse_part_num = part_num\<rparr>]\<rparr>;
           (rc, s4) \<leftarrow> save_status root req s3;
           if rc \<noteq> 0 then Some (rc, s4) else
           boot_erase_area bsp req from_area_idx s4 }}})"

text \<open>
  The block that \<^verbatim>\<open>boot_swap_areas\<close> goes through three times: erase an area, copy another one into it,
  move the status entry along and write the status.
\<close>

definition swap_step ::
    "'d flash_devs \<Rightarrow> 'f fs_root \<Rightarrow> boot_req \<Rightarrow> int \<Rightarrow> int \<Rightarrow> int \<Rightarrow> int \<Rightarrow> ('d, 'f) boot_state \<Rightarrow>
     (int \<times> ('d, 'f) boot_state) option" where
  "swap_step bsp root req from_area_idx to_area_idx src_image_idx dst_image_idx s = do {
     (rc, s1) \<leftarrow> boot_erase_area bsp req to_area_idx s;
     if rc \<noteq> 0 then Some (rc, s1) else do {
     (rc, s2) \<leftarrow> boot_copy_area bsp req from_area_idx to_area_idx s1;
     if rc \<noteq> 0 then Some (rc, s2) else
     save_status root req (s2\<lparr>bt_entries := (bt_entries s2)[nat dst_image_idx := bt_entries s2 ! nat src_image_idx,
       nat src_image_idx := none_entry]\<rparr>) }}"

definition boot_swap_areas ::
    "'d flash_devs \<Rightarrow> 'f fs_root \<Rightarrow> boot_req \<Rightarrow> int \<Rightarrow> int \<Rightarrow> ('d, 'f) boot_state \<Rightarrow>
     (int \<times> ('d, 'f) boot_state) option" where
  "boot_swap_areas bsp root req area_idx_1 area_idx_2 s =
     (let scratch = uint (br_scratch_area_idx req);
          image_idx_1 = boot_find_image_area_idx req area_idx_1;
          image_idx_2 = boot_find_image_area_idx req area_idx_2;
          scratch_image_idx = boot_find_image_area_idx req scratch
      in if area_idx_1 = area_idx_2 \<or> area_idx_1 = scratch \<or> area_idx_2 = scratch \<or>
            image_idx_1 = -1 \<or> image_idx_2 = -1 \<or> scratch_image_idx = -1 then None
         else do {
           (rc, s1) \<leftarrow> swap_step bsp root req area_idx_2 scratch image_idx_2 scratch_image_idx s;
           if rc \<noteq> 0 then Some (rc, s1) else do {
           (rc, s2) \<leftarrow> swap_step bsp root req area_idx_1 area_idx_2 image_idx_1 image_idx_2 s1;
           if rc \<noteq> 0 then Some (rc, s2) else
           swap_step bsp root req scratch area_idx_1 scratch_image_idx image_idx_1 s2 }})"

partial_function (option) fill_loop ::
    "'d flash_devs \<Rightarrow> 'f fs_root \<Rightarrow> boot_req \<Rightarrow> int \<Rightarrow> u32 \<Rightarrow> int \<Rightarrow> int \<Rightarrow> u32 \<Rightarrow> ('d, 'f) boot_state \<Rightarrow>
     (int \<times> ('d, 'f) boot_state) option" where
  "fill_loop bsp root req img_num img_length start_area_idx part_num off s =
     (if off < img_length then
        (let src_area_idx = boot_find_image_part req img_num part_num s;
             dst_area_idx = start_area_idx + part_num;
             dst_image_area_idx = boot_find_image_area_idx req dst_area_idx
         in if src_area_idx = -1 then Some (BOOT_EBADIMAGE, s)
            else do {
              (rc, s1) \<leftarrow> (if src_area_idx = dst_area_idx then Some (0, s)
                 else if \<not> (0 \<le> dst_image_area_idx \<and> nat dst_image_area_idx < length (bt_entries s)) then None
                 else if bse_image_num (bt_entries s ! nat dst_image_area_idx) = BOOT_IMAGE_NUM_NONE
                 then boot_move_area bsp root req src_area_idx dst_area_idx img_num (word_of_int part_num) s
                 else boot_swap_areas bsp root req src_area_idx dst_area_idx s);
              if rc \<noteq> 0 then Some (rc, s1)
              else do {
                d \<leftarrow> area_desc req dst_area_idx;
                fill_loop bsp root req img_num img_length start_area_idx (part_num + 1) (off + nad_length d) s1
              }
            })
      else Some (0, s))"

definition boot_fill_slot ::
    "'d flash_devs \<Rightarrow> 'f fs_root \<Rightarrow> boot_req \<Rightarrow> int \<Rightarrow> u32 \<Rightarrow> int \<Rightarrow> ('d, 'f) boot_state \<Rightarrow>
     (int \<times> ('d, 'f) boot_state) option" where
  "boot_fill_slot bsp root req img_num img_length start_area_idx s =
     fill_loop bsp root req img_num img_length start_area_idx 0 0 s"

definition boot_copy_image ::
    "'d flash_devs \<Rightarrow> 'f fs_root \<Rightarrow> boot_req \<Rightarrow> u32 \<Rightarrow> u32 \<Rightarrow> ('d, 'f) boot_state \<Rightarrow>
     (int \<times> ('d, 'f) boot_state) option" where
  "boot_copy_image bsp root req img1_length img2_length s = do {
     a0 \<leftarrow> boot_slot_to_area_idx req 0;
     (rc, s1) \<leftarrow> boot_fill_slot bsp root req 1 img2_length a0 s;
     if rc \<noteq> 0 then Some (rc, s1)
     else do {
       a1 \<leftarrow> boot_slot_to_area_idx req 1;
       boot_fill_slot bsp root req 0 img1_length a1 s1
     }
   }"

subsection \<open>loader.c: the status of a fresh start\<close>

fun find_area_at :: "boot_req \<Rightarrow> u8 \<Rightarrow> u32 \<Rightarrow> int \<Rightarrow> u8 list \<Rightarrow> (int \<times> int) option" where
  "find_area_at req flash_id addr i [] = None"
| "find_area_at req flash_id addr i (a # as) = do {
     d \<leftarrow> area_desc req (uint a);
     if nad_offset d = addr \<and> nad_flash_id d = flash_id then Some (i, uint a)
     else find_area_at req flash_id addr (i + 1) as
   }"

partial_function (option) build_parts ::
    "boot_req \<Rightarrow> int \<Rightarrow> u32 \<Rightarrow> int \<Rightarrow> int \<Rightarrow> int \<Rightarrow> u32 \<Rightarrow> boot_status_entry list \<Rightarrow>
     (int \<times> boot_status_entry list) option" where
  "build_parts req image_num len i area_idx part_num offset es =
     (if offset < len then
        if 0 \<le> i \<and> nat i < length es \<and> bse_image_num (es ! nat i) = 0xff then do {
          d \<leftarrow> area_desc req area_idx;
          build_parts req image_num len (i + 1) (area_idx + 1) (part_num + 1) (offset + nad_length d)
            (es[nat i := \<lparr>bse_image_num = word_of_int image_num, bse_part_num = word_of_int part_num\<rparr>])
        } else None
      else Some (i, es))"

definition boot_build_status_one ::
    "boot_req \<Rightarrow> int \<Rightarrow> u8 \<Rightarrow> u32 \<Rightarrow> u32 \<Rightarrow> boot_status_entry list \<Rightarrow> boot_status_entry list option" where
  "boot_build_status_one req image_num flash_id addr len es = do {
     (i, area_idx) \<leftarrow> find_area_at req flash_id addr 0 (take (unat (br_num_image_areas req)) (br_image_areas req));
     (i', es') \<leftarrow> build_parts req image_num len i area_idx 0 0 es;
     if i' \<le> uint (br_num_image_areas req) then Some es' else None
   }"

definition boot_build_status :: "boot_req \<Rightarrow> ('d, 'f) boot_state \<Rightarrow> ('d, 'f) boot_state option" where
  "boot_build_status req s = do {
     let es0 = replicate (unat (br_num_image_areas req)) \<lparr>bse_image_num = 0xff, bse_part_num = 0xff\<rparr>
               @ drop (unat (br_num_image_areas req)) (bt_entries s);
     let h0 = boot_img_hdrs s ! 0;
     let h1 = boot_img_hdrs s ! 1;
     (len1, es1) \<leftarrow> (if ih_magic h0 = IMAGE_MAGIC then do {
         (flash_id, address) \<leftarrow> boot_slot_addr req 0;
         es1 \<leftarrow> boot_build_status_one req 0 flash_id address (ih_img_size h0) es0;
         Some (ih_img_size h0, es1) } else Some (0, es0));
     (len2, es2) \<leftarrow> (if ih_magic h1 = IMAGE_MAGIC then do {
         (flash_id, address) \<leftarrow> boot_slot_addr req 1;
         es2 \<leftarrow> boot_build_status_one req 1 flash_id address (ih_img_size h1) es1;
         Some (ih_img_size h1, es2) } else Some (0, es1));
     Some (s\<lparr>bt_status := \<lparr>bs_img1_length = len1, bs_img2_length = len2\<rparr>, bt_entries := es2\<rparr>)
   }"

subsection \<open>loader.c: booting\<close>

text \<open>Starting the file system is an operation of its own: \<^verbatim>\<open>nffs_init\<close> and \<^verbatim>\<open>nffs_detect\<close> are arguments.\<close>

definition boot_init_flash ::
    "'d flash_devs \<Rightarrow> 'f fs_root \<Rightarrow> ('f \<Rightarrow> int \<times> 'f) \<Rightarrow> (nffs_area_desc list \<Rightarrow> 'f \<Rightarrow> 'f) \<Rightarrow> boot_req \<Rightarrow>
     ('d, 'f) boot_state \<Rightarrow> (int \<times> ('d, 'f) boot_state) option" where
  "boot_init_flash bsp root nffs_init nffs_detect req s = do {
     (rc, fl) \<leftarrow> hal_flash_init bsp (bt_flash s);
     let s1 = s\<lparr>bt_flash := fl\<rparr>;
     if rc \<noteq> 0 then Some (BOOT_EFLASH, s1)
     else do {
       let (rc, f) = nffs_init (bt_fs s1);
       let s2 = s1\<lparr>bt_fs := f\<rparr>;
       if rc \<noteq> 0 then Some (BOOT_EFILE, s2)
       else do {
         (_, f2) \<leftarrow> fs_mkdir root ''/boot'' (nffs_detect (br_area_descs req) f);
         Some (0, s2\<lparr>bt_fs := f2\<rparr>)
       }
     }
   }"

text \<open>The slot to boot from when no boot vector names a present image.\<close>

definition default_slot :: "image_header list \<Rightarrow> int" where
  "default_slot hdrs =
     (if ih_magic (hdrs ! 0) \<noteq> IMAGE_MAGIC_NONE then 0
      else if ih_magic (hdrs ! 1) \<noteq> IMAGE_MAGIC_NONE then 1 else -1)"

text \<open>What follows the choice of the slot: swap the images if needed, answer, and clean up.\<close>

definition boot_finish ::
    "'d flash_devs \<Rightarrow> 'f fs_root \<Rightarrow> boot_req \<Rightarrow> u8 \<times> u32 \<Rightarrow> int \<Rightarrow> ('d, 'f) boot_state \<Rightarrow>
     (int \<times> boot_rsp option \<times> ('d, 'f) boot_state) option" where
  "boot_finish bsp root req addr0 slot s = do {
     (rc, hdr, s1) \<leftarrow> (if slot = 0 then Some (0, boot_img_hdrs s ! 0, s)
        else if slot = 1 then do {
          (rc, s1) \<leftarrow> boot_copy_image bsp root req (bs_img1_length (bt_status s)) (bs_img2_length (bt_status s)) s;
          Some (rc, boot_img_hdrs s1 ! 1, s1)
        } else None);
     if rc \<noteq> 0 then Some (rc, None, s1)
     else do {
       (_, f1) \<leftarrow> fs_unlink root BOOT_PATH_STATUS (bt_fs s1);
       (_, f2) \<leftarrow> boot_vect_delete_test root f1;
       Some (0, Some \<lparr>br_hdr = hdr, br_flash_id = fst addr0, br_image_addr = snd addr0\<rparr>, s1\<lparr>bt_fs := f2\<rparr>)
     }
   }"

text \<open>What follows the repair of an interrupted swap: read the headers, choose the slot, boot it.\<close>

definition boot_choose ::
    "'d flash_devs \<Rightarrow> 'f fs_root \<Rightarrow> boot_req \<Rightarrow> ('d, 'f) boot_state \<Rightarrow>
     (int \<times> boot_rsp option \<times> ('d, 'f) boot_state) option" where
  "boot_choose bsp root req s = do {
     addr0 \<leftarrow> boot_slot_addr req 0;
     addr1 \<leftarrow> boot_slot_addr req 1;
     (hdrs, fl) \<leftarrow> boot_read_image_headers bsp
        [\<lparr>bil_flash_id = fst addr0, bil_address = snd addr0\<rparr>, \<lparr>bil_flash_id = fst addr1, bil_address = snd addr1\<rparr>] (bt_flash s);
     s1 \<leftarrow> boot_build_status req (s\<lparr>bt_flash := fl, boot_img_hdrs := hdrs\<rparr>);
     (slot, s2) \<leftarrow> boot_select_image_slot root s1;
     let slot' = (if slot = -1 then default_slot (boot_img_hdrs s2) else slot);
     if slot' = -1 then Some (BOOT_EBADIMAGE, None, s2) else boot_finish bsp root req addr0 slot' s2
   }"

text \<open>The entries are allocated with \<^verbatim>\<open>malloc\<close>: \<open>fresh\<close> is the memory it returns, if any.\<close>

definition boot_go ::
    "'d flash_devs \<Rightarrow> 'f fs_root \<Rightarrow> ('f \<Rightarrow> int \<times> 'f) \<Rightarrow> (nffs_area_desc list \<Rightarrow> 'f \<Rightarrow> 'f) \<Rightarrow>
     boot_status_entry list option \<Rightarrow> boot_req \<Rightarrow> ('d, 'f) boot_state \<Rightarrow>
     (int \<times> boot_rsp option \<times> ('d, 'f) boot_state) option" where
  "boot_go bsp root nffs_init nffs_detect fresh req s = do {
     (rc, s1) \<leftarrow> boot_init_flash bsp root nffs_init nffs_detect req s;
     if rc \<noteq> 0 then Some (rc, None, s1)
     else case fresh of
       None \<Rightarrow> Some (BOOT_ENOMEM, None, s1)
     | Some es \<Rightarrow> do {
         (rc, s2) \<leftarrow> boot_read_status root (unat (br_num_image_areas req)) (s1\<lparr>bt_entries := es\<rparr>);
         if rc = 0 then do {
           (rc, s3) \<leftarrow> boot_copy_image bsp root req (bs_img1_length (bt_status s2)) (bs_img2_length (bt_status s2)) s2;
           if rc \<noteq> 0 then Some (rc, None, s3) else boot_choose bsp root req s3
         } else boot_choose bsp root req s2
       }
   }"

subsection \<open>Lemmas\<close>

end
