(* ===== verification/Boot_Swap.thy ===== *)
theory Boot_Swap
  imports Boot_Loader
begin

text \<open>
  The boot loader at work on the flash: erasing and copying areas, the status file, and the swap of the
  two image slots. The lemmas hold for any flash that keeps the promises of \<^verbatim>\<open>flash_bank\<close>, so the flash
  may fail at any time; what is known then is stated along with what holds when it does not.
\<close>

text \<open>The addresses of an area, and areas that consist of whole sectors of a device of the board.\<close>

definition daddrs :: "nffs_area_desc \<Rightarrow> nat set" where
  "daddrs d = addrs (nad_offset d) (nad_length d)"

definition desc_ok :: "'d flash_devs \<Rightarrow> nffs_area_desc \<Rightarrow> bool" where
  "desc_ok bsp d \<longleftrightarrow> (\<exists>hf. bsp (nad_flash_id d) = Some hf \<and> in_dev hf (nad_offset d) (nad_length d) \<and>
     sectors_meeting hf (nad_offset d) (nad_length d) = daddrs d \<and> 0 < unat (nad_length d) \<and>
     hf_align hf dvd 1024 \<and> hf_align hf dvd uint (nad_offset d))"

definition apart :: "nffs_area_desc \<Rightarrow> nffs_area_desc \<Rightarrow> bool" where
  "apart d e \<longleftrightarrow> nad_flash_id d \<noteq> nad_flash_id e \<or> daddrs d \<inter> daddrs e = {}"

text \<open>The bytes in an area.\<close>

definition contents :: "('d \<Rightarrow> u8 \<Rightarrow> nat \<Rightarrow> u8) \<Rightarrow> 'd \<Rightarrow> nffs_area_desc \<Rightarrow> u8 list" where
  "contents view fl d = map (view fl (nad_flash_id d)) [unat (nad_offset d) ..< unat (nad_offset d) + unat (nad_length d)]"

definition same_except :: "('d \<Rightarrow> u8 \<Rightarrow> nat \<Rightarrow> u8) \<Rightarrow> nffs_area_desc \<Rightarrow> 'd \<Rightarrow> 'd \<Rightarrow> bool" where
  "same_except view d = same_outside view (nad_flash_id d) (daddrs d)"

text \<open>
  Requests whose image areas, the scratch area among them, consist of whole sectors, do not overlap
  and are all of the same length.
\<close>

definition adesc :: "boot_req \<Rightarrow> u8 \<Rightarrow> nffs_area_desc" where
  "adesc req a = br_area_descs req ! unat a"

definition req_ok :: "'d flash_devs \<Rightarrow> boot_req \<Rightarrow> u32 \<Rightarrow> bool" where
  "req_ok bsp req L \<longleftrightarrow> length (br_image_areas req) = unat (br_num_image_areas req) \<and> distinct (br_image_areas req) \<and>
     (\<forall>a \<in> set (br_image_areas req). unat a < length (br_area_descs req) \<and> desc_ok bsp (adesc req a) \<and> nad_length (adesc req a) = L) \<and>
     (\<forall>a \<in> set (br_image_areas req). \<forall>b \<in> set (br_image_areas req). a \<noteq> b \<longrightarrow> apart (adesc req a) (adesc req b)) \<and>
     br_scratch_area_idx req \<in> set (br_image_areas req)"

definition free_entry :: "boot_status_entry \<Rightarrow> bool" where
  "free_entry e \<longleftrightarrow> bse_image_num e = BOOT_IMAGE_NUM_NONE"

text \<open>Every image part that the entries \<open>es\<close> name is where they say; \<open>img\<close> are the bytes of the parts.\<close>

definition placed ::
    "('d \<Rightarrow> u8 \<Rightarrow> nat \<Rightarrow> u8) \<Rightarrow> boot_req \<Rightarrow> (boot_status_entry \<Rightarrow> u8 list) \<Rightarrow> boot_status_entry list \<Rightarrow> 'd \<Rightarrow> bool" where
  "placed view req img es fl \<longleftrightarrow> length es = length (br_image_areas req) \<and>
     (\<forall>i < length es. \<not> free_entry (es ! i) \<longrightarrow> contents view fl (adesc req (br_image_areas req ! i)) = img (es ! i))"

text \<open>
  The file system serves the boot loader: from the state \<open>f\<close> on, the status file and the test vector
  can be opened, read, written and deleted, and there is room for the status of all image areas.
\<close>

definition boot_fs_works ::
    "'f fs_ops \<Rightarrow> ('f \<Rightarrow> string \<Rightarrow> u8 list option) \<Rightarrow> ('f \<Rightarrow> nat \<Rightarrow> (string \<times> nat) option) \<Rightarrow> boot_req \<Rightarrow> 'f \<Rightarrow> bool" where
  "boot_fs_works ops files cursor req f \<longleftrightarrow>
     fs_works ops files cursor {BOOT_PATH_STATUS, BOOT_PATH_TEST} (8 + 2 * length (br_image_areas req)) f"

text \<open>
  The status that counts after a way from \<open>s\<close> to \<open>s'\<close>: the one of the beginning, with all files
  untouched, or the one in the status file.
\<close>

definition recorded ::
    "('f \<Rightarrow> string \<Rightarrow> u8 list option) \<Rightarrow> ('d, 'f) boot_state \<Rightarrow> ('d, 'f) boot_state \<Rightarrow> boot_status_entry list \<Rightarrow> bool" where
  "recorded files s s' es \<longleftrightarrow> es = bt_entries s \<and> files (bt_fs s') = files (bt_fs s) \<or>
     files (bt_fs s') BOOT_PATH_STATUS = Some (status_bytes (bt_status s) @ entries_bytes es)"

text \<open>
  What holds of a state \<open>s'\<close> reached from \<open>s\<close> with the return code \<open>rc\<close>, whether the way there succeeded
  or not: the status \<open>es\<close> names all the parts \<open>E\<close>, and they are where it says. It is the status that
  counts unless writing the status file failed: then the code is \<^verbatim>\<open>BOOT_EFILE\<close>, the file system was not
  one that \<open>works\<close>, and \<open>es\<close> is only in memory. No file but the status file has changed.
\<close>

definition safe ::
    "('d \<Rightarrow> u8 \<Rightarrow> nat \<Rightarrow> u8) \<Rightarrow> ('f \<Rightarrow> string \<Rightarrow> u8 list option) \<Rightarrow> ('f \<Rightarrow> bool) \<Rightarrow> boot_req \<Rightarrow>
     (boot_status_entry \<Rightarrow> u8 list) \<Rightarrow> boot_status_entry set \<Rightarrow> ('d, 'f) boot_state \<Rightarrow> int \<Rightarrow>
     ('d, 'f) boot_state \<Rightarrow> boot_status_entry list \<Rightarrow> bool" where
  "safe view files works req img E s rc s' es \<longleftrightarrow> bt_status s' = bt_status s \<and> boot_img_hdrs s' = boot_img_hdrs s \<and>
     placed view req img es (bt_flash s') \<and> E \<subseteq> set es \<and>
     (recorded files s s' es \<or> rc = BOOT_EFILE \<and> bt_entries s' = es \<and> \<not> works (bt_fs s)) \<and>
     (\<forall>q. q \<noteq> BOOT_PATH_STATUS \<longrightarrow> files (bt_fs s') q = files (bt_fs s) q) \<and> (works (bt_fs s) \<longrightarrow> works (bt_fs s'))"

text \<open>The entry of part \<open>p\<close> of image \<open>m\<close>, and slots of \<open>np\<close> consecutive areas.\<close>

definition part :: "int \<Rightarrow> nat \<Rightarrow> boot_status_entry" where
  "part m p = \<lparr>bse_image_num = word_of_int m, bse_part_num = word_of_int (int p)\<rparr>"

definition slot_at :: "boot_req \<Rightarrow> int \<Rightarrow> nat \<Rightarrow> nat \<Rightarrow> bool" where
  "slot_at req a b np \<longleftrightarrow> b + np \<le> length (br_image_areas req) \<and>
     (\<forall>p < np. uint (br_image_areas req ! (b + p)) = a + int p \<and> br_image_areas req ! (b + p) \<noteq> br_scratch_area_idx req)"

text \<open>The number of parts of an image of \<open>len\<close> bytes in areas of \<open>L\<close> bytes.\<close>

definition parts :: "u32 \<Rightarrow> u32 \<Rightarrow> nat \<Rightarrow> bool" where
  "parts len L np \<longleftrightarrow> np \<le> 255 \<and> np * unat L < 2 ^ 32 \<and> unat len \<le> np * unat L \<and> (\<forall>p < np. p * unat L < unat len)"

text \<open>The parts of two images of \<open>n0\<close> and \<open>n1\<close> parts.\<close>

definition all_parts :: "nat \<Rightarrow> nat \<Rightarrow> boot_status_entry set" where
  "all_parts n0 n1 = part 0 ` {..<n0} \<union> part 1 ` {..<n1}"

text \<open>
  A request whose slots start at the places \<open>b0\<close> and \<open>b1\<close> of the image areas: image 1, of \<open>n1\<close> parts, fits
  into the first slot and image 0, of \<open>n0\<close> parts, into the second.
\<close>

definition slots_ok :: "boot_req \<Rightarrow> nat \<Rightarrow> nat \<Rightarrow> nat \<Rightarrow> nat \<Rightarrow> bool" where
  "slots_ok req b0 n1 b1 n0 \<longleftrightarrow> (\<exists>a0 a1. boot_slot_to_area_idx req 0 = Some a0 \<and> slot_at req a0 b0 n1 \<and>
     boot_slot_to_area_idx req 1 = Some a1 \<and> slot_at req a1 b1 n0) \<and> {b0 ..< b0 + n1} \<inter> {b1 ..< b1 + n0} = {}"

subsection \<open>Lemmas\<close>

lemma unat_add_le:
  fixes x y z :: u32
  assumes "unat x + unat y \<le> unat z"
  shows "unat (x + y) = unat x + unat y"
proof -
  have "unat z < 2 ^ 32" using unsigned_less [of z] by simp
  then show ?thesis using assms by (simp add: unat_word_ariths)
qed

lemma contents_apart:
  assumes "same_except view d fl fl'" "apart d e"
  shows "contents view fl' e = contents view fl e"
proof -
  have "view fl' (nad_flash_id e) x = view fl (nad_flash_id e) x" if "x \<in> daddrs e" for x
    using assms that unfolding same_except_def apart_def by (intro same_outsideD) auto
  then show ?thesis by (auto simp: contents_def daddrs_def addrs_def)
qed

lemma apart_sym: "apart d e \<Longrightarrow> apart e d"
  by (auto simp: apart_def)

context flash_bank
begin

lemma erase_area:
  assumes "area_desc req a = Some d" "desc_ok bsp d"
  shows "\<exists>rc fl. boot_erase_area bsp req a s = Some (rc, s\<lparr>bt_flash := fl\<rparr>) \<and> same_except view d (bt_flash s) fl \<and>
    (rc = 0 \<longrightarrow> (\<forall>x \<in> daddrs d. view fl (nad_flash_id d) x = 0xff)) \<and> (reliable_flash bsp view \<longrightarrow> rc = 0)"
proof -
  obtain hf where hf: "bsp (nad_flash_id d) = Some hf" "in_dev hf (nad_offset d) (nad_length d)"
      "sectors_meeting hf (nad_offset d) (nad_length d) = daddrs d" "0 < unat (nad_length d)"
    using assms(2) by (auto simp: desc_ok_def)
  obtain rc fl where "hal_flash_erase bsp (nad_flash_id d) (nad_offset d) (nad_length d) (bt_flash s) = Some (rc, fl)"
      "same_outside view (nad_flash_id d) (daddrs d) (bt_flash s) fl"
      "rc = 0 \<longrightarrow> (\<forall>x \<in> daddrs d. view fl (nad_flash_id d) x = 0xff)"
    using hal_erase [OF hf(1,2,4), of "bt_flash s"] hf(3) by auto
  moreover have "reliable_flash bsp view \<longrightarrow> rc = 0" using reliable_flash.hal_erase_rc [OF _ hf(1,2,4) calculation(1)] by blast
  ultimately show ?thesis using assms(1) by (auto simp: boot_erase_area_def BOOT_EFLASH_def same_except_def)
qed

lemma in_dev_sub:
  assumes "in_dev hf a n" "bsp i = Some hf" "unat off + unat m \<le> unat n"
  shows "unat (a + off) = unat a + unat off" "in_dev hf (a + off) m" "addrs (a + off) m \<subseteq> addrs a n"
proof -
  have "unat (a + n) = unat a + unat n" by (rule in_dev_check(3) [OF assms(2,1)])
  moreover have "unat (a + n) < 2 ^ 32" using unsigned_less [of "a + n"] by simp
  ultimately have "unat a + unat n < 2 ^ 32" by simp
  then show s: "unat (a + off) = unat a + unat off" using assms(3) by (simp add: unat_word_ariths)
  show "in_dev hf (a + off) m" using assms(1,3) s by (simp add: in_dev_def)
  show "addrs (a + off) m \<subseteq> addrs a n" using assms(3) s by (auto simp: addrs_def)
qed

lemma copy_from:
  assumes f: "desc_ok bsp df" and t: "desc_ok bsp dt" and le: "nad_length df \<le> nad_length dt" and ap: "apart dt df"
    and off: "unat off \<le> unat (nad_length df)" "1024 dvd uint off \<or> off = nad_length df"
    and er: "\<And>k. unat off \<le> k \<Longrightarrow> k < unat (nad_length dt) \<Longrightarrow> view d (nad_flash_id dt) (unat (nad_offset dt) + k) = 0xff"
  shows "\<exists>rc d'. copy_loop bsp df dt off d = Some (rc, d') \<and> same_except view dt d d' \<and>
    (\<forall>k < unat off. view d' (nad_flash_id dt) (unat (nad_offset dt) + k) = view d (nad_flash_id dt) (unat (nad_offset dt) + k)) \<and>
    (rc = 0 \<longrightarrow> (\<forall>k. unat off \<le> k \<longrightarrow> k < unat (nad_length df) \<longrightarrow>
       view d' (nad_flash_id dt) (unat (nad_offset dt) + k) = view d (nad_flash_id df) (unat (nad_offset df) + k))) \<and>
    (reliable_flash bsp view \<longrightarrow> rc = 0)"
  using off er
proof (induction "unat (nad_length df) - unat off" arbitrary: off d rule: less_induct)
  case less
  show ?case
  proof (cases "off < nad_length df")
    case False
    then have "unat off = unat (nad_length df)" using less.prems(1) by (simp add: word_less_nat_alt)
    then show ?thesis using False by (subst copy_loop.simps) (auto simp: same_except_def)
  next
    case True
    define c where "c = (if 1024 < nad_length df - off then 1024 else nad_length df - off)"
    have lt: "unat off < unat (nad_length df)" using True by (simp add: word_less_nat_alt)
    have "unat (nad_length df - off) = unat (nad_length df) - unat off" by (rule unat_sub) (use True in simp)
    then have c: "unat c = min 1024 (unat (nad_length df) - unat off)" by (simp add: c_def word_less_nat_alt)
    have fit: "unat off + unat c \<le> unat (nad_length df)" "0 < unat c" using c lt by simp_all
    have tofit: "unat off + unat c \<le> unat (nad_length dt)" using fit le by (simp add: word_le_nat_alt)
    obtain hf where hf: "bsp (nad_flash_id df) = Some hf" "in_dev hf (nad_offset df) (nad_length df)" using f by (auto simp: desc_ok_def)
    obtain ht where ht: "bsp (nad_flash_id dt) = Some ht" "in_dev ht (nad_offset dt) (nad_length dt)"
        "hf_align ht dvd 1024" "hf_align ht dvd uint (nad_offset dt)" using t by (auto simp: desc_ok_def)
    note sf = in_dev_sub [OF hf(2,1) fit(1)] and st = in_dev_sub [OF ht(2,1) tofit]
    have dv: "1024 dvd uint off" using less.prems(2) lt by auto
    have "uint (nad_offset dt + off) = uint (nad_offset dt) + uint off"
      unfolding uint_nat st(1) by simp
    then have al: "uint (nad_offset dt + off) mod hf_align ht = 0" using dv ht(3,4) by (auto intro: dvd_trans)
    obtain rc bs d1 where r: "hal_flash_read bsp (nad_flash_id df) (nad_offset df + off) c d = Some (rc, bs, d1)" "view d1 = view d"
        "rc = 0 \<longrightarrow> bs = map (view d (nad_flash_id df)) [unat (nad_offset df + off) ..< unat (nad_offset df + off) + unat c]"
      using hal_read [OF hf(1) sf(2), of d] by blast
    show ?thesis
    proof (cases "rc = 0")
      case False
      then have "copy_loop bsp df dt off d = Some (rc, d1)"
        using True r(1) by (subst copy_loop.simps) (simp add: Let_def c_def)
      moreover have "\<not> reliable_flash bsp view" using reliable_flash.hal_read_rc [OF _ hf(1) sf(2) r(1)] False by blast
      ultimately show ?thesis using False r(2) by (auto simp: same_except_def same_outside_def)
    next
      case rc: True
      then have bs: "bs = map (view d (nad_flash_id df)) [unat (nad_offset df) + unat off ..< unat (nad_offset df) + unat off + unat c]"
        using r(3) sf(1) by simp
      have "view d1 (nad_flash_id dt) x = 0xff" if "x \<in> addrs (nad_offset dt + off) c" for x
        using less.prems(3) [of "x - unat (nad_offset dt)"] that st(1) tofit r(2) by (auto simp: addrs_def)
      then obtain rc2 d2 where w: "hal_flash_write bsp (nad_flash_id dt) (nad_offset dt + off) bs c d1 = Some (rc2, d2)"
          "same_outside view (nad_flash_id dt) (addrs (nad_offset dt + off) c) d1 d2"
          "rc2 = 0 \<longrightarrow> map (view d2 (nad_flash_id dt)) [unat (nad_offset dt + off) ..< unat (nad_offset dt + off) + unat c] = take (unat c) bs"
        using hal_write [OF ht(1) st(2) al, of bs d1] bs by auto
      let ?it = "nad_flash_id dt" and ?ot = "unat (nad_offset dt)" and ?if = "nad_flash_id df" and ?of = "unat (nad_offset df)"
      have "addrs (nad_offset dt + off) c \<subseteq> daddrs dt" using st(3) by (simp add: daddrs_def)
      then have s2: "same_except view dt d d2" using w(2) r(2)
        by (auto simp: same_except_def same_outside_def)
      have keep: "view d2 ?it (?ot + k) = view d ?it (?ot + k)" if "k < unat off \<or> unat off + unat c \<le> k" for k
        using same_outsideD [OF w(2), of ?it "?ot + k"] that st(1) r(2) by (auto simp: addrs_def)
      have src: "view d2 ?if x = view d ?if x" if "x \<in> daddrs df" for x
        using s2 ap that by (auto simp: same_except_def same_outside_def apart_def)
      show ?thesis
      proof (cases "rc2 = 0")
        case False
        have "copy_loop bsp df dt off d = Some (rc2, d2)"
          using True r(1) w(1) rc False by (subst copy_loop.simps) (simp add: Let_def c_def)
        moreover have "\<not> reliable_flash bsp view" using reliable_flash.hal_write_rc [OF _ ht(1) st(2) w(1)] False by blast
        ultimately show ?thesis using False s2 keep by auto
      next
        case rc2: True
        have new: "view d2 ?it (?ot + k) = view d ?if (?of + k)" if "unat off \<le> k" "k < unat off + unat c" for k
        proof -
          have "map (view d2 ?it) [?ot + unat off ..< ?ot + unat off + unat c] ! (k - unat off) = bs ! (k - unat off)"
            using w(3) rc2 st(1) that bs by simp
          then show ?thesis using that bs by simp
        qed
        have u: "unat (off + c) = unat off + unat c"
          by (rule unat_add_le [OF fit(1)])
        have "1024 dvd uint (off + c) \<or> off + c = nad_length df"
        proof (cases "1024 < nad_length df - off")
          case True
          then have "unat c = 1024" by (simp add: c_def)
          then have "uint (off + c) = uint off + 1024" unfolding uint_nat u by simp
          then show ?thesis using dv by simp
        qed (simp add: c_def)
        then obtain rc3 d' where d': "copy_loop bsp df dt (off + c) d2 = Some (rc3, d')" "same_except view dt d2 d'"
            "\<forall>k < unat (off + c). view d' ?it (?ot + k) = view d2 ?it (?ot + k)"
            "rc3 = 0 \<longrightarrow> (\<forall>k. unat (off + c) \<le> k \<longrightarrow> k < unat (nad_length df) \<longrightarrow> view d' ?it (?ot + k) = view d2 ?if (?of + k))"
            "reliable_flash bsp view \<longrightarrow> rc3 = 0"
          using less.hyps [of "off + c" d2] u fit lt less.prems(3) keep by fastforce
        have "copy_loop bsp df dt off d = Some (rc3, d')"
          using True r(1) w(1) rc rc2 d'(1) by (subst copy_loop.simps) (simp add: Let_def c_def)
        moreover have "same_except view dt d d'" using s2 d'(2) by (auto simp: same_except_def intro: same_outside_trans)
        moreover have "view d' ?it (?ot + k) = view d ?if (?of + k)" if "rc3 = 0" "unat off \<le> k" "k < unat (nad_length df)" for k
        proof (cases "k < unat off + unat c")
          case True
          then show ?thesis using d'(3) u new that by simp
        next
          case False
          then have "?of + k \<in> daddrs df" using that by (simp add: daddrs_def addrs_def)
          then show ?thesis using d'(4) u that False src by simp
        qed
        ultimately show ?thesis using d'(3,5) u keep by auto
      qed
    qed
  qed
qed

lemma copy_area:
  assumes "area_desc req a = Some df" "area_desc req b = Some dt" "desc_ok bsp df" "desc_ok bsp dt"
    "nad_length df = nad_length dt" "apart dt df" "\<forall>x \<in> daddrs dt. view (bt_flash s) (nad_flash_id dt) x = 0xff"
  shows "\<exists>rc fl. boot_copy_area bsp req a b s = Some (rc, s\<lparr>bt_flash := fl\<rparr>) \<and> same_except view dt (bt_flash s) fl \<and>
    (rc = 0 \<longrightarrow> contents view fl dt = contents view (bt_flash s) df) \<and> (reliable_flash bsp view \<longrightarrow> rc = 0)"
proof -
  obtain rc fl where c: "copy_loop bsp df dt 0 (bt_flash s) = Some (rc, fl)" "same_except view dt (bt_flash s) fl"
      "rc = 0 \<longrightarrow> (\<forall>k < unat (nad_length df). view fl (nad_flash_id dt) (unat (nad_offset dt) + k) =
         view (bt_flash s) (nad_flash_id df) (unat (nad_offset df) + k))" "reliable_flash bsp view \<longrightarrow> rc = 0"
    using copy_from [OF assms(3,4) _ assms(6), of 0 "bt_flash s"] assms(5,7) by (auto simp: daddrs_def addrs_def)
  then have "rc = 0 \<longrightarrow> contents view fl dt = contents view (bt_flash s) df"
    using assms(5) by (auto simp: contents_def intro!: nth_equalityI)
  then show ?thesis using c assms(1,2,5) by (auto simp: boot_copy_area_def)
qed

end

lemma of_le32_le32: "of_le32 (le32 w) = w"
proof (rule bit_word_eqI)
  fix n assume n: "n < LENGTH(32)"
  have "n < 8 \<or> 8 \<le> n \<and> n < 16 \<or> 16 \<le> n \<and> n < 24 \<or> 24 \<le> n \<and> n < 32" using n by auto
  then show "bit (of_le32 (le32 w)) n = bit w n"
    by (elim disjE conjE) (simp_all add: of_le32_def le32_def bit_simps less_diff_conv2)
qed

lemma length_entries_bytes [simp]: "length (entries_bytes es) = 2 * length es"
  by (induction es) auto

lemma length_status_bytes [simp]: "length (status_bytes st) = 8"
  by (simp add: status_bytes_def le32_def)

lemma decode_entries_bytes [simp]: "decode_entries (entries_bytes es) = es"
  by (induction es) auto

lemma decode_status_bytes [simp]: "decode_status (status_bytes st) = st"
proof -
  have "length (le32 w) = 4" for w by (simp add: le32_def)
  then show ?thesis by (simp add: decode_status_def status_bytes_def of_le32_le32)
qed

lemma write_status:
  assumes l: "fs_laws ops files cursor"
    and w: "works = fs_works ops files cursor paths room" "BOOT_PATH_STATUS \<in> paths" "8 + 2 * length es \<le> room"
  shows "\<exists>rc f'. boot_write_status (Some ops) st es (length es) f = Some (rc, f') \<and> (rc = 0 \<or> rc = BOOT_EFILE) \<and>
    (\<forall>q. q \<noteq> BOOT_PATH_STATUS \<longrightarrow> files f' q = files f q) \<and>
    (rc = 0 \<longrightarrow> files f' BOOT_PATH_STATUS = Some (status_bytes st @ entries_bytes es)) \<and> (works f \<longrightarrow> rc = 0 \<and> works f')"
proof -
  let ?P = BOOT_PATH_STATUS
  obtain rc h f1 where f1: "fs_open (Some ops) ?P (FS_ACCESS_WRITE OR FS_ACCESS_TRUNCATE) f = Some (rc, h, f1)"
      "\<forall>q. q \<noteq> ?P \<longrightarrow> files f1 q = files f q"
      "if rc = 0 then files f1 ?P = Some [] \<and> (\<exists>i. h = Some i \<and> cursor f1 i = Some (?P, 0)) else h = None" by (rule fs_open_write [OF l])
  have w1: "works f \<longrightarrow> works f1 \<and> rc = 0" using works_open_write [OF _ f1(1)] w(1,2) by blast
  show ?thesis
  proof (cases "rc = 0")
    case False
    obtain rc' f2 where "fs_close (Some ops) None f1 = Some (rc', f2)" "files f2 = files f1" by (rule fs_close_null [OF l])
    then show ?thesis using False f1 w1 by (auto simp: boot_write_status_def BOOT_EFILE_def)
  next
    case True
    then obtain i where i: "h = Some i" "files f1 ?P = Some []" "cursor f1 i = Some (?P, 0)" using f1(3) by auto
    from fs_write_at [OF l i(3,2), of 8 "status_bytes st"] obtain rc2 f2 c n where f2:
        "fs_write (Some ops) (Some i) (status_bytes st) 8 f1 = Some (rc2, f2)" "\<forall>q. q \<noteq> ?P \<longrightarrow> files f2 q = files f1 q"
        "files f2 ?P = Some c" "cursor f2 i = Some (?P, n)" "rc2 = 0 \<longrightarrow> c = status_bytes st \<and> n = 8" by auto
    have w2: "works f1 \<longrightarrow> works f2 \<and> rc2 = 0" using works_write(1) [OF _ f2(1)] works_write(2) [where cursor = cursor, OF _ f2(1) i(3)] w by simp
    show ?thesis
    proof (cases "rc2 = 0")
      case False
      obtain rc' f3 where "fs_close (Some ops) (Some i) f2 = Some (rc', f3)" "files f3 = files f2" by (rule fs_close_open [OF l f2(4)])
      then show ?thesis using True False i(1) f1(1,2) f2(1,2) w1 w2 by (auto simp: boot_write_status_def BOOT_EFILE_def)
    next
      case rc2: True
      then have c: "files f2 ?P = Some (status_bytes st)" "cursor f2 i = Some (?P, 8)" using f2(3-5) by auto
      have n: "nat (int (length es * 2)) = length es * 2" by (rule nat_int)
      from fs_write_at [OF l c(2,1), of "int (length es * 2)" "entries_bytes es"] n obtain rc3 f3 c' n' where f3:
          "fs_write (Some ops) (Some i) (entries_bytes es) (int (length es * 2)) f2 = Some (rc3, f3)" "\<forall>q. q \<noteq> ?P \<longrightarrow> files f3 q = files f2 q"
          "files f3 ?P = Some c'" "cursor f3 i = Some (?P, n')" "rc3 = 0 \<longrightarrow> c' = status_bytes st @ entries_bytes es" by auto
      have w3: "works f2 \<longrightarrow> works f3 \<and> rc3 = 0"
        using works_write(1) [OF _ f3(1)] works_write(2) [where cursor = cursor, OF _ f3(1) c(2)] w n by simp
      obtain rc' f4 where f4: "fs_close (Some ops) (Some i) f3 = Some (rc', f4)" "files f4 = files f3" by (rule fs_close_open [OF l f3(4)])
      have w4: "works f3 \<longrightarrow> works f4" using works_close [OF _ f4(1)] w(1) by blast
      have "boot_write_status (Some ops) st es (length es) f = Some (if rc3 \<noteq> 0 then BOOT_EFILE else 0, f4)"
        using f1(1) f2(1) f3(1) f4(1) True rc2 i(1) by (simp add: boot_write_status_def)
      then show ?thesis using f1(2) f2(2) f3(2,3,5) f4(2) w1 w2 w3 w4 by (auto simp: BOOT_EFILE_def)
    qed
  qed
qed

lemma read_status:
  assumes l: "fs_laws ops files cursor" and w: "fs_works ops files cursor paths room (bt_fs s)" "BOOT_PATH_STATUS \<in> paths"
    and st: "files (bt_fs s) BOOT_PATH_STATUS = Some (status_bytes st @ entries_bytes es)"
    and "length es < 2 ^ 30" "length (bt_entries s) = length es" "bs_img1_length st \<noteq> 0xffffffff" "bs_img2_length st \<noteq> 0xffffffff"
    "\<not> list_ex (bad_entry st) es"
  shows "\<exists>f'. boot_read_status (Some ops) (length es) s = Some (0, s\<lparr>bt_fs := f', bt_status := st, bt_entries := es\<rparr>) \<and>
    files f' = files (bt_fs s)"
proof -
  let ?P = BOOT_PATH_STATUS
  obtain rc h f1 where f1: "fs_open (Some ops) ?P FS_ACCESS_READ (bt_fs s) = Some (rc, h, f1)" "files f1 = files (bt_fs s)"
      "if rc = 0 then files (bt_fs s) ?P \<noteq> None \<and> (\<exists>i. h = Some i \<and> cursor f1 i = Some (?P, 0)) else h = None" by (rule fs_open_read [OF l])
  note w1 = works_open_read [OF w(1) f1(1)]
  have rc: "rc = 0" using w1(2) w(2) st by simp
  then obtain i where i: "h = Some i" "cursor f1 i = Some (?P, 0)" using f1(3) by auto
  have c1: "files f1 ?P = Some (status_bytes st @ entries_bytes es)" using f1(2) st by simp
  from fs_read_at [OF l i(2) c1, of 8] obtain rc2 bs f2 n where f2: "fs_read (Some ops) (Some i) 8 f1 = Some (rc2, bs, f2)"
      "files f2 = files f1" "cursor f2 i = Some (?P, n)" "rc2 = 0 \<longrightarrow> bs = status_bytes st \<and> n = 8" by auto
  note w2 = works_read [OF w1(1) f2(1)]
  have rc2: "rc2 = 0" using w2(2) [OF i(2) w(2)] .
  then have c2: "cursor f2 i = Some (?P, 8)" "files f2 ?P = Some (status_bytes st @ entries_bytes es)" using f2 c1 by auto
  have "unat (of_nat (length es * 2) :: u32) = length es * 2" unfolding unat_of_nat by (rule mod_less) (use assms(5) in simp)
  with fs_read_at [OF l c2, of "of_nat (length es * 2)"] obtain rc3 bs3 f3 n3 where
      f3: "fs_read (Some ops) (Some i) (of_nat (length es * 2)) f2 = Some (rc3, bs3, f3)" "files f3 = files f2"
      "cursor f3 i = Some (?P, n3)" "rc3 = 0 \<longrightarrow> bs3 = entries_bytes es" by auto
  have rc3: "rc3 = 0" using works_read(2) [OF w2(1) f3(1) c2(1) w(2)] .
  obtain rc4 f4 where f4: "fs_close (Some ops) (Some i) f3 = Some (rc4, f4)" "files f4 = files f3" by (rule fs_close_open [OF l f3(3)])
  have ov: "overlay (status_bytes st) (status_bytes st') = status_bytes st" for st' by (simp add: overlay_def)
  have ov2: "overlay (entries_bytes es) (entries_bytes (bt_entries s)) = entries_bytes es" using assms(6) by (simp add: overlay_def)
  have eta: "\<lparr>bs_img1_length = bs_img1_length st, bs_img2_length = bs_img2_length st\<rparr> = st" by (cases st) simp
  have "boot_read_status (Some ops) (length es) s = Some (0, s\<lparr>bt_fs := f4, bt_status := st, bt_entries := es\<rparr>)"
    using f1(1) f2(1,4) f3(1,4) f4(1) rc rc2 rc3 i(1) assms(7-9) by (simp add: boot_read_status_def ov ov2 clear_none_def Let_def eta)
  then show ?thesis using f1(2) f2(2) f3(2) f4(2) by auto
qed

lemma read_status_missing:
  assumes l: "fs_laws ops files cursor" and "files (bt_fs s) BOOT_PATH_STATUS = None"
  obtains f' where "boot_read_status (Some ops) n s = Some (BOOT_EBADSTATUS, s\<lparr>bt_fs := f'\<rparr>)" "files f' = files (bt_fs s)"
    "\<And>paths room. fs_works ops files cursor paths room (bt_fs s) \<Longrightarrow> fs_works ops files cursor paths room f'"
proof -
  obtain rc h f1 where f1: "fs_open (Some ops) BOOT_PATH_STATUS FS_ACCESS_READ (bt_fs s) = Some (rc, h, f1)" "files f1 = files (bt_fs s)"
      "if rc = 0 then files (bt_fs s) BOOT_PATH_STATUS \<noteq> None \<and> (\<exists>i. h = Some i \<and> cursor f1 i = Some (BOOT_PATH_STATUS, 0)) else h = None"
    by (rule fs_open_read [OF l])
  then have rc: "rc \<noteq> 0" "h = None" using assms(2) by (auto split: if_splits)
  obtain rc2 f2 where f2: "fs_close (Some ops) None f1 = Some (rc2, f2)" "files f2 = files f1" by (rule fs_close_null [OF l])
  show thesis
    by (rule that [of f2]) (use f1 f2 rc works_open_read(1) [OF _ f1(1)] works_close [OF _ f2(1)] in \<open>auto simp: boot_read_status_def\<close>)
qed

lemma safe_trans:
  "safe view files W req img E s 0 s1 (bt_entries s1) \<Longrightarrow> safe view files W req img E s1 rc s2 es \<Longrightarrow>
   safe view files W req img E s rc s2 es"
  by (auto simp: safe_def recorded_def BOOT_EFILE_def)

lemma safe_works: "safe view files W req img E s rc s' es \<Longrightarrow> W (bt_fs s) \<Longrightarrow> W (bt_fs s')"
  by (simp add: safe_def)

lemma safe_refl:
  "placed view req img (bt_entries s) (bt_flash s) \<Longrightarrow> E \<subseteq> set (bt_entries s) \<Longrightarrow> safe view files W req img E s rc s (bt_entries s)"
  by (simp add: safe_def recorded_def)

lemma area_desc_adesc: "unat a < length (br_area_descs req) \<Longrightarrow> area_desc req (uint a) = Some (adesc req a)"
  by (simp add: area_desc_def adesc_def)

lemma area_idx_from_nth:
  "distinct as \<Longrightarrow> i < length as \<Longrightarrow> area_idx_from (uint (as ! i)) k as = k + int i"
proof (induction as arbitrary: i k)
  case (Cons a as)
  then show ?case by (cases i) (auto simp: nth_eq_iff_index_eq in_set_conv_nth dest: word_uint_eqI)
qed simp

lemma find_area_idx:
  assumes "req_ok bsp req L" "i < length (br_image_areas req)"
  shows "boot_find_image_area_idx req (uint (br_image_areas req ! i)) = int i"
  using area_idx_from_nth [of "br_image_areas req" i 0] assms by (simp add: boot_find_image_area_idx_def req_ok_def)

lemma placed_other:
  assumes "req_ok bsp req L" "placed view req img es fl" "i < length es" "free_entry (es ! i)"
    and "same_except view (adesc req (br_image_areas req ! i)) fl fl'"
  shows "placed view req img es fl'"
proof -
  have "contents view fl' (adesc req (br_image_areas req ! j)) = contents view fl (adesc req (br_image_areas req ! j))"
    if "j < length es" "j \<noteq> i" for j
  proof (rule contents_apart [OF assms(5)])
    have "br_image_areas req ! i \<noteq> br_image_areas req ! j" using assms(1-3) that
      by (simp add: req_ok_def placed_def nth_eq_iff_index_eq)
    then show "apart (adesc req (br_image_areas req ! i)) (adesc req (br_image_areas req ! j))"
      using assms(1-3) that by (auto simp: req_ok_def placed_def)
  qed
  then show ?thesis using assms(2,4) unfolding placed_def by metis
qed

lemma free_none [simp]: "free_entry none_entry"
  by (simp add: free_entry_def none_entry_def)

text \<open>Moving an entry to a free place moves no part out of the status.\<close>

lemma placed_moved:
  assumes "req_ok bsp req L" "placed view req img es fl" "si < length es" "di < length es" "si \<noteq> di" "free_entry (es ! di)"
    and "same_except view (adesc req (br_image_areas req ! di)) fl fl'"
    and "contents view fl' (adesc req (br_image_areas req ! di)) = contents view fl (adesc req (br_image_areas req ! si))"
  shows "placed view req img (es[di := es ! si, si := none_entry]) fl'"
proof -
  have "placed view req img es fl'" by (rule placed_other [OF assms(1,2,4,6,7)])
  then show ?thesis using assms(2-5,8) by (auto simp: placed_def nth_list_update)
qed

lemma moved_set:
  assumes "E \<subseteq> set es" "si < length es" "di < length es" "si \<noteq> di" "free_entry (es ! di)" "\<forall>e \<in> E. \<not> free_entry e"
  shows "E \<subseteq> set (es[di := es ! si, si := none_entry])"
proof
  fix e assume e: "e \<in> E"
  then obtain i where i: "i < length es" "es ! i = e" using assms(1) by (metis subsetD in_set_conv_nth)
  then have "i \<noteq> di" using e assms(5,6) by auto
  then have "(es[di := es ! si, si := none_entry]) ! (if i = si then di else i) = e" using i assms(2-4) by (auto simp: nth_list_update)
  then show "e \<in> set (es[di := es ! si, si := none_entry])" using i(1) assms(3)
    by (metis length_list_update nth_mem)
qed

lemma save_status_ok:
  assumes "fs_laws ops files cursor" "W = boot_fs_works ops files cursor req"
    "length (bt_entries s) = unat (br_num_image_areas req)" "length (bt_entries s) = length (br_image_areas req)"
  obtains rc f where "save_status (Some ops) req s = Some (rc, s\<lparr>bt_fs := f\<rparr>)" "rc = 0 \<or> rc = BOOT_EFILE"
    "\<forall>q. q \<noteq> BOOT_PATH_STATUS \<longrightarrow> files f q = files (bt_fs s) q"
    "rc = 0 \<longrightarrow> files f BOOT_PATH_STATUS = Some (status_bytes (bt_status s) @ entries_bytes (bt_entries s))"
    "W (bt_fs s) \<longrightarrow> rc = 0 \<and> W f"
proof -
  have "W = fs_works ops files cursor {BOOT_PATH_STATUS, BOOT_PATH_TEST} (8 + 2 * length (br_image_areas req))"
    using assms(2) by (auto simp: boot_fs_works_def)
  from write_status [OF assms(1) this, of "bt_entries s" "bt_status s" "bt_fs s"] assms(3,4)
  show thesis using that by (auto simp: save_status_def)
qed

context flash_bank
begin

lemma erase_then_copy:
  assumes rq: "req_ok bsp req L" and i: "si < length (br_image_areas req)" "di < length (br_image_areas req)" "si \<noteq> di"
    and pl: "placed view req img (bt_entries s) (bt_flash s)" and fr: "free_entry (bt_entries s ! di)"
  obtains rc fl where "boot_erase_area bsp req (uint (br_image_areas req ! di)) s = Some (rc, s\<lparr>bt_flash := fl\<rparr>)"
      "placed view req img (bt_entries s) fl" "rc \<noteq> 0" "\<not> reliable_flash bsp view"
    | fl rc fl2 where "boot_erase_area bsp req (uint (br_image_areas req ! di)) s = Some (0, s\<lparr>bt_flash := fl\<rparr>)"
      "boot_copy_area bsp req (uint (br_image_areas req ! si)) (uint (br_image_areas req ! di)) (s\<lparr>bt_flash := fl\<rparr>) = Some (rc, s\<lparr>bt_flash := fl2\<rparr>)"
      "placed view req img (bt_entries s) fl2" "rc = 0 \<longrightarrow> placed view req img ((bt_entries s)[di := bt_entries s ! si, si := none_entry]) fl2"
      "reliable_flash bsp view \<longrightarrow> rc = 0"
proof -
  let ?as = "br_image_areas req" and ?es = "bt_entries s"
  let ?d = "adesc req (?as ! di)" and ?f = "adesc req (?as ! si)"
  have len: "length ?es = length ?as" using pl by (simp add: placed_def)
  have ne: "?as ! si \<noteq> ?as ! di" using rq i by (simp add: req_ok_def nth_eq_iff_index_eq)
  have d: "area_desc req (uint (?as ! di)) = Some ?d" "desc_ok bsp ?d" "area_desc req (uint (?as ! si)) = Some ?f" "desc_ok bsp ?f"
      "nad_length ?f = nad_length ?d" "apart ?d ?f"
    using rq i ne by (auto simp: req_ok_def area_desc_adesc)
  obtain rc fl where e: "boot_erase_area bsp req (uint (?as ! di)) s = Some (rc, s\<lparr>bt_flash := fl\<rparr>)" "same_except view ?d (bt_flash s) fl"
      "rc = 0 \<longrightarrow> (\<forall>x \<in> daddrs ?d. view fl (nad_flash_id ?d) x = 0xff)" "reliable_flash bsp view \<longrightarrow> rc = 0"
    using erase_area [OF d(1,2), of s] by blast
  have p1: "placed view req img ?es fl" by (rule placed_other [OF rq pl _ fr e(2)]) (use i len in simp)
  show thesis
  proof (cases "rc = 0")
    case False
    then show thesis using that(1) e p1 by blast
  next
    case True
    obtain rc2 fl2 where c: "boot_copy_area bsp req (uint (?as ! si)) (uint (?as ! di)) (s\<lparr>bt_flash := fl\<rparr>) = Some (rc2, s\<lparr>bt_flash := fl2\<rparr>)"
        "same_except view ?d fl fl2" "rc2 = 0 \<longrightarrow> contents view fl2 ?d = contents view fl ?f" "reliable_flash bsp view \<longrightarrow> rc2 = 0"
      using copy_area [OF d(3,1,4,2,5,6), of "s\<lparr>bt_flash := fl\<rparr>"] e(3) True by auto
    have p2: "placed view req img ?es fl2" by (rule placed_other [OF rq p1 _ fr c(2)]) (use i len in simp)
    have "rc2 = 0 \<longrightarrow> placed view req img (?es[di := ?es ! si, si := none_entry]) fl2"
      using placed_moved [OF rq p1 _ _ i(3) fr c(2)] c(3) i len by simp
    then show thesis using that(2) e(1) c(1,4) p2 True by blast
  qed
qed

lemma swap_step_ok:
  assumes fs: "fs_laws ops files cursor" "W = boot_fs_works ops files cursor req" and rq: "req_ok bsp req L"
    and i: "si < length (br_image_areas req)" "di < length (br_image_areas req)" "si \<noteq> di"
    and pl: "placed view req img (bt_entries s) (bt_flash s)" and fr: "free_entry (bt_entries s ! di)"
    and E: "E \<subseteq> set (bt_entries s)" "\<forall>e \<in> E. \<not> free_entry e"
  shows "\<exists>rc s' es. swap_step bsp (Some ops) req (uint (br_image_areas req ! si)) (uint (br_image_areas req ! di)) (int si) (int di) s = Some (rc, s') \<and>
    safe view files W req img E s rc s' es \<and> (reliable_flash bsp view \<and> W (bt_fs s) \<longrightarrow> rc = 0) \<and>
    (rc = 0 \<longrightarrow> bt_entries s' = es \<and> es = (bt_entries s)[di := bt_entries s ! si, si := none_entry])"
proof (rule erase_then_copy [OF rq i pl fr])
  fix rc fl
  assume "boot_erase_area bsp req (uint (br_image_areas req ! di)) s = Some (rc, s\<lparr>bt_flash := fl\<rparr>)"
    "placed view req img (bt_entries s) fl" "rc \<noteq> 0" "\<not> reliable_flash bsp view"
  then show ?thesis using E(1) by (intro exI [of _ rc] exI [of _ "s\<lparr>bt_flash := fl\<rparr>"] exI [of _ "bt_entries s"])
    (simp add: swap_step_def safe_def recorded_def)
next
  fix fl rc fl2
  let ?es = "(bt_entries s)[di := bt_entries s ! si, si := none_entry]"
  assume a: "boot_erase_area bsp req (uint (br_image_areas req ! di)) s = Some (0, s\<lparr>bt_flash := fl\<rparr>)"
    "boot_copy_area bsp req (uint (br_image_areas req ! si)) (uint (br_image_areas req ! di)) (s\<lparr>bt_flash := fl\<rparr>) = Some (rc, s\<lparr>bt_flash := fl2\<rparr>)"
    "placed view req img (bt_entries s) fl2" "rc = 0 \<longrightarrow> placed view req img ?es fl2" "reliable_flash bsp view \<longrightarrow> rc = 0"
  have len: "length (bt_entries s) = length (br_image_areas req)" using pl by (simp add: placed_def)
  show ?thesis
  proof (cases "rc = 0")
    case False
    then show ?thesis using a E(1) by (intro exI [of _ rc] exI [of _ "s\<lparr>bt_flash := fl2\<rparr>"] exI [of _ "bt_entries s"])
      (simp add: swap_step_def safe_def recorded_def)
  next
    case True
    define s3 where "s3 = s\<lparr>bt_flash := fl2, bt_entries := ?es\<rparr>"
    obtain rc2 f where f: "save_status (Some ops) req s3 = Some (rc2, s3\<lparr>bt_fs := f\<rparr>)" "rc2 = 0 \<or> rc2 = BOOT_EFILE"
        "\<forall>q. q \<noteq> BOOT_PATH_STATUS \<longrightarrow> files f q = files (bt_fs s3) q"
        "rc2 = 0 \<longrightarrow> files f BOOT_PATH_STATUS = Some (status_bytes (bt_status s3) @ entries_bytes (bt_entries s3))"
        "W (bt_fs s3) \<longrightarrow> rc2 = 0 \<and> W f"
      by (rule save_status_ok [OF fs, of s3]) (use len rq in \<open>simp_all add: req_ok_def s3_def\<close>)
    have "E \<subseteq> set ?es" by (rule moved_set [OF E(1) _ _ i(3) fr E(2)]) (use i len in simp_all)
    moreover have "recorded files s (s3\<lparr>bt_fs := f\<rparr>) ?es \<or> rc2 = BOOT_EFILE \<and> \<not> W (bt_fs s)"
      using f(2,4,5) by (auto simp: recorded_def s3_def BOOT_EFILE_def)
    ultimately show ?thesis using a f True
      by (intro exI [of _ rc2] exI [of _ "s3\<lparr>bt_fs := f\<rparr>"] exI [of _ ?es]) (simp add: swap_step_def safe_def s3_def)
  qed
qed

end

context flash_bank
begin

lemma move_area_ok:
  assumes fs: "fs_laws ops files cursor" "W = boot_fs_works ops files cursor req" and rq: "req_ok bsp req L"
    and i: "si < length (br_image_areas req)" "di < length (br_image_areas req)" "si \<noteq> di"
    and pl: "placed view req img (bt_entries s) (bt_flash s)" and fr: "free_entry (bt_entries s ! di)"
    and E: "E \<subseteq> set (bt_entries s)" "\<forall>e \<in> E. \<not> free_entry e"
    and e: "bt_entries s ! si = \<lparr>bse_image_num = word_of_int m, bse_part_num = pn\<rparr>"
  shows "\<exists>rc s' es. boot_move_area bsp (Some ops) req (uint (br_image_areas req ! si)) (uint (br_image_areas req ! di)) m pn s = Some (rc, s') \<and>
    safe view files W req img E s rc s' es \<and> (reliable_flash bsp view \<and> W (bt_fs s) \<longrightarrow> rc = 0) \<and>
    (rc = 0 \<longrightarrow> bt_entries s' = es \<and> es = (bt_entries s)[di := bt_entries s ! si, si := none_entry])"
proof (rule erase_then_copy [OF rq i pl fr])
  note idx = find_area_idx [OF rq i(1)] find_area_idx [OF rq i(2)]
  {
    fix rc fl
    assume "boot_erase_area bsp req (uint (br_image_areas req ! di)) s = Some (rc, s\<lparr>bt_flash := fl\<rparr>)"
      "placed view req img (bt_entries s) fl" "rc \<noteq> 0" "\<not> reliable_flash bsp view"
    then show ?thesis using E(1) idx by (intro exI [of _ rc] exI [of _ "s\<lparr>bt_flash := fl\<rparr>"] exI [of _ "bt_entries s"])
      (simp add: boot_move_area_def safe_def recorded_def)
  next
    fix fl rc fl2
    let ?es = "(bt_entries s)[di := bt_entries s ! si, si := none_entry]"
    assume a: "boot_erase_area bsp req (uint (br_image_areas req ! di)) s = Some (0, s\<lparr>bt_flash := fl\<rparr>)"
      "boot_copy_area bsp req (uint (br_image_areas req ! si)) (uint (br_image_areas req ! di)) (s\<lparr>bt_flash := fl\<rparr>) = Some (rc, s\<lparr>bt_flash := fl2\<rparr>)"
      "placed view req img (bt_entries s) fl2" "rc = 0 \<longrightarrow> placed view req img ?es fl2" "reliable_flash bsp view \<longrightarrow> rc = 0"
    have len: "length (bt_entries s) = length (br_image_areas req)" using pl by (simp add: placed_def)
    show ?thesis
    proof (cases "rc = 0")
      case False
      then show ?thesis using a E(1) idx by (intro exI [of _ rc] exI [of _ "s\<lparr>bt_flash := fl2\<rparr>"] exI [of _ "bt_entries s"])
        (simp add: boot_move_area_def safe_def recorded_def)
    next
      case True
      define s3 where "s3 = s\<lparr>bt_flash := fl2, bt_entries := ?es\<rparr>"
      have s3: "s\<lparr>bt_flash := fl2, bt_entries := (bt_entries s)[si := none_entry, di := \<lparr>bse_image_num = word_of_int m, bse_part_num = pn\<rparr>]\<rparr> = s3"
        using e i(3) by (simp add: s3_def list_update_swap)
      obtain rc1 f where f: "save_status (Some ops) req s3 = Some (rc1, s3\<lparr>bt_fs := f\<rparr>)" "rc1 = 0 \<or> rc1 = BOOT_EFILE"
          "\<forall>q. q \<noteq> BOOT_PATH_STATUS \<longrightarrow> files f q = files (bt_fs s3) q"
          "rc1 = 0 \<longrightarrow> files f BOOT_PATH_STATUS = Some (status_bytes (bt_status s3) @ entries_bytes (bt_entries s3))"
          "W (bt_fs s3) \<longrightarrow> rc1 = 0 \<and> W f"
        by (rule save_status_ok [OF fs, of s3]) (use len rq in \<open>simp_all add: req_ok_def s3_def\<close>)
      have rec: "recorded files s (s3\<lparr>bt_fs := f\<rparr>) ?es \<or> rc1 = BOOT_EFILE \<and> \<not> W (bt_fs s)"
        using f(2,4,5) by (auto simp: recorded_def s3_def BOOT_EFILE_def)
      have Es: "E \<subseteq> set ?es" by (rule moved_set [OF E(1) _ _ i(3) fr E(2)]) (use i len in simp_all)
      have si: "area_desc req (uint (br_image_areas req ! si)) = Some (adesc req (br_image_areas req ! si))"
          "desc_ok bsp (adesc req (br_image_areas req ! si))" using rq i(1) by (auto simp: req_ok_def area_desc_adesc)
      obtain rc2 fl3 where c: "boot_erase_area bsp req (uint (br_image_areas req ! si)) (s3\<lparr>bt_fs := f\<rparr>) = Some (rc2, s3\<lparr>bt_fs := f, bt_flash := fl3\<rparr>)"
          "same_except view (adesc req (br_image_areas req ! si)) fl2 fl3" "reliable_flash bsp view \<longrightarrow> rc2 = 0"
        using erase_area [OF si, of "s3\<lparr>bt_fs := f\<rparr>"] by (auto simp: s3_def)
      have pl3: "placed view req img ?es fl3"
        by (rule placed_other [OF rq _ _ _ c(2)]) (use a(4) True i len in simp_all)
      have mv: "boot_move_area bsp (Some ops) req (uint (br_image_areas req ! si)) (uint (br_image_areas req ! di)) m pn s =
          (if rc1 \<noteq> 0 then Some (rc1, s3\<lparr>bt_fs := f\<rparr>) else Some (rc2, s3\<lparr>bt_fs := f, bt_flash := fl3\<rparr>))"
        using a(1,2) True idx f(1) c(1) s3 by (simp add: boot_move_area_def Let_def)
      show ?thesis
      proof (cases "rc1 = 0")
        case True
        then have "recorded files s (s3\<lparr>bt_fs := f, bt_flash := fl3\<rparr>) ?es" using rec by (auto simp: recorded_def BOOT_EFILE_def)
        then show ?thesis unfolding mv using True c(3) f(3,5) pl3 Es
          by (intro exI [of _ rc2] exI [of _ "s3\<lparr>bt_fs := f, bt_flash := fl3\<rparr>"] exI [of _ ?es]) (simp add: s3_def safe_def)
      next
        case False
        then show ?thesis unfolding mv using f(3,5) rec a(4) \<open>rc = 0\<close> Es
          by (intro exI [of _ rc1] exI [of _ "s3\<lparr>bt_fs := f\<rparr>"] exI [of _ ?es]) (simp add: s3_def safe_def)
      qed
    qed
  }
qed

lemma swap_areas_ok:
  assumes fs: "fs_laws ops files cursor" "W = boot_fs_works ops files cursor req" and rq: "req_ok bsp req L"
    and i: "i1 < length (br_image_areas req)" "i2 < length (br_image_areas req)" "sc < length (br_image_areas req)"
      "br_image_areas req ! sc = br_scratch_area_idx req" "i1 \<noteq> i2" "i1 \<noteq> sc" "i2 \<noteq> sc"
    and pl: "placed view req img (bt_entries s) (bt_flash s)" and fr: "free_entry (bt_entries s ! sc)"
    and E: "E \<subseteq> set (bt_entries s)" "\<forall>e \<in> E. \<not> free_entry e"
  shows "\<exists>rc s' es. boot_swap_areas bsp (Some ops) req (uint (br_image_areas req ! i1)) (uint (br_image_areas req ! i2)) s = Some (rc, s') \<and>
    safe view files W req img E s rc s' es \<and> (reliable_flash bsp view \<and> W (bt_fs s) \<longrightarrow> rc = 0) \<and>
    (rc = 0 \<longrightarrow> bt_entries s' = es \<and> es = (bt_entries s)[i1 := bt_entries s ! i2, i2 := bt_entries s ! i1, sc := none_entry])"
proof -
  let ?as = "br_image_areas req"
  define step where "step = (\<lambda>a b. swap_step bsp (Some ops) req (uint (?as ! a)) (uint (?as ! b)) (int a) (int b))"
  have len: "length (bt_entries s) = length ?as" using pl by (simp add: placed_def)
  have "uint (?as ! a) \<noteq> uint (?as ! b)" if "a < length ?as" "b < length ?as" "a \<noteq> b" for a b
    using rq that by (auto simp: req_ok_def nth_eq_iff_index_eq dest: word_uint_eqI)
  then have ne: "uint (?as ! i1) \<noteq> uint (?as ! i2)" "uint (?as ! i1) \<noteq> uint (?as ! sc)" "uint (?as ! i2) \<noteq> uint (?as ! sc)" using i by blast+
  have eq: "boot_swap_areas bsp (Some ops) req (uint (?as ! i1)) (uint (?as ! i2)) s =
      do { (rc, s1) \<leftarrow> step i2 sc s; if rc \<noteq> 0 then Some (rc, s1) else do {
           (rc, s2) \<leftarrow> step i1 i2 s1; if rc \<noteq> 0 then Some (rc, s2) else step sc i1 s2 }}"
    using ne find_area_idx [OF rq i(1)] find_area_idx [OF rq i(2)] find_area_idx [OF rq i(3)]
    unfolding boot_swap_areas_def i(4) [symmetric] step_def by (simp add: Let_def cong: if_cong)
  obtain rc1 s1 es1 where s1: "step i2 sc s = Some (rc1, s1)" "safe view files W req img E s rc1 s1 es1" "reliable_flash bsp view \<and> W (bt_fs s) \<longrightarrow> rc1 = 0"
      "rc1 = 0 \<longrightarrow> bt_entries s1 = es1 \<and> es1 = (bt_entries s)[sc := bt_entries s ! i2, i2 := none_entry]"
    using swap_step_ok [OF fs rq i(2,3,7) pl fr E] unfolding step_def by blast
  show ?thesis
  proof (cases "rc1 = 0")
    case False
    then show ?thesis using s1 unfolding eq by auto
  next
    case True
    then have e1: "bt_entries s1 = (bt_entries s)[sc := bt_entries s ! i2, i2 := none_entry]" "safe view files W req img E s 0 s1 (bt_entries s1)"
      using s1 by auto
    have "placed view req img (bt_entries s1) (bt_flash s1)" "E \<subseteq> set (bt_entries s1)" "free_entry (bt_entries s1 ! i2)"
      using e1 i len by (auto simp: safe_def)
    from swap_step_ok [OF fs rq i(1,2,5) this(1,3,2) E(2)]
    obtain rc2 s2 es2 where s2: "step i1 i2 s1 = Some (rc2, s2)" "safe view files W req img E s1 rc2 s2 es2" "reliable_flash bsp view \<and> W (bt_fs s1) \<longrightarrow> rc2 = 0"
        "rc2 = 0 \<longrightarrow> bt_entries s2 = es2 \<and> es2 = (bt_entries s1)[i2 := bt_entries s1 ! i1, i1 := none_entry]"
      unfolding step_def by blast
    have t2: "safe view files W req img E s rc2 s2 es2" by (rule safe_trans [OF e1(2) s2(2)])
    show ?thesis
    proof (cases "rc2 = 0")
      case False
      then show ?thesis using s1(1) True s2 t2 safe_works [OF e1(2)] unfolding eq by auto
    next
      case rc2: True
      then have e2: "bt_entries s2 = (bt_entries s1)[i2 := bt_entries s1 ! i1, i1 := none_entry]" "safe view files W req img E s1 0 s2 (bt_entries s2)"
        using s2 by auto
      have "placed view req img (bt_entries s2) (bt_flash s2)" "E \<subseteq> set (bt_entries s2)" "free_entry (bt_entries s2 ! i1)"
        using e2 e1 i len by (auto simp: safe_def)
      from swap_step_ok [OF fs rq i(3,1) i(6) [symmetric] this(1,3,2) E(2)]
      obtain rc3 s3 es3 where s3: "step sc i1 s2 = Some (rc3, s3)" "safe view files W req img E s2 rc3 s3 es3" "reliable_flash bsp view \<and> W (bt_fs s2) \<longrightarrow> rc3 = 0"
          "rc3 = 0 \<longrightarrow> bt_entries s3 = es3 \<and> es3 = (bt_entries s2)[i1 := bt_entries s2 ! sc, sc := none_entry]"
        unfolding step_def by blast
      have t3: "safe view files W req img E s rc3 s3 es3" by (rule safe_trans [OF _ s3(2)]) (use t2 s2(4) rc2 in simp)
      have "(bt_entries s2)[i1 := bt_entries s2 ! sc, sc := none_entry] =
          (bt_entries s)[i1 := bt_entries s ! i2, i2 := bt_entries s ! i1, sc := none_entry]"
        using e1(1) e2(1) i len by (intro nth_equalityI) (auto simp: nth_list_update)
      then show ?thesis using s1(1) True s2(1) rc2 s3 t3 safe_works [OF e1(2)] safe_works [OF e2(2)] unfolding eq by auto
    qed
  qed
qed

end

lemma part_inj: "p < 256 \<Longrightarrow> q < 256 \<Longrightarrow> part m p = part m q \<Longrightarrow> p = q"
  by (auto simp: part_def of_nat_inverse dest!: arg_cong [where f = "unat :: u8 \<Rightarrow> nat"] simp: unat_of_nat)

lemma part_not_free: "m = 0 \<or> m = 1 \<Longrightarrow> \<not> free_entry (part m p)"
  by (auto simp: free_entry_def part_def BOOT_IMAGE_NUM_NONE_def)

lemma find_part:
  assumes "part m p \<in> set (bt_entries s)" "length (bt_entries s) = length (br_image_areas req)" "req_ok bsp req L"
    and "m = 0 \<or> m = 1" "p < 256"
  shows "\<exists>i < length (br_image_areas req). boot_find_image_part req m (int p) s = uint (br_image_areas req ! i) \<and> bt_entries s ! i = part m p"
proof -
  have m: "uint (word_of_int m :: u8) = m" "uint (word_of_int (int p) :: u8) = int p"
    unfolding uint_word_of_int using assms(4,5) by auto
  have *: "\<exists>i < length as. find_part_from req m (int p) es as = uint (as ! i) \<and> es ! i = part m p"
    if "part m p \<in> set es" "length es = length as" for es as
    using that
  proof (induction es arbitrary: as)
    case (Cons e es)
    then obtain a as' where as: "as = a # as'" by (cases as) auto
    show ?case
    proof (cases "e = part m p")
      case True
      then show ?thesis using as m by (intro exI [of _ 0]) (simp add: part_def)
    next
      case False
      have "e = part m p" if "uint (bse_image_num e) = m" "uint (bse_part_num e) = int p"
        unfolding part_def that [symmetric] word_of_int_uint by simp
      then have "\<not> (uint (bse_image_num e) = m \<and> uint (bse_part_num e) = int p)" using False by blast
      moreover obtain i where "i < length as'" "find_part_from req m (int p) es as' = uint (as' ! i)" "es ! i = part m p"
        using Cons.IH [of as'] Cons.prems False as by auto
      ultimately show ?thesis using as by (intro exI [of _ "Suc i"]) auto
    qed
  qed simp
  show ?thesis using * [OF assms(1,2)] assms(3) by (simp add: boot_find_image_part_def req_ok_def)
qed

context flash_bank
begin

text \<open>One round of the loop that fills a slot: part \<open>p\<close> gets to its place.\<close>

lemma fill_round:
  assumes fs: "fs_laws ops files cursor" "W = boot_fs_works ops files cursor req" and rq: "req_ok bsp req L" and sl: "slot_at req a b np" and p: "p < np" "np \<le> 255"
    and m: "m = 0 \<or> m = 1" and E: "E \<subseteq> set (bt_entries s)" "\<forall>e \<in> E. \<not> free_entry e" "part m p \<in> E"
    and pl: "placed view req img (bt_entries s) (bt_flash s)"
    and sc: "sc < length (br_image_areas req)" "br_image_areas req ! sc = br_scratch_area_idx req" "free_entry (bt_entries s ! sc)"
    and old: "\<forall>q < p. bt_entries s ! (b + q) = part m q"
    and src: "src = boot_find_image_part req m (int p) s"
    and op: "op = (if src = a + int p then Some (0, s)
        else if \<not> (0 \<le> boot_find_image_area_idx req (a + int p) \<and> nat (boot_find_image_area_idx req (a + int p)) < length (bt_entries s)) then None
        else if bse_image_num (bt_entries s ! nat (boot_find_image_area_idx req (a + int p))) = BOOT_IMAGE_NUM_NONE
        then boot_move_area bsp (Some ops) req src (a + int p) m (word_of_int (int p)) s
        else boot_swap_areas bsp (Some ops) req src (a + int p) s)"
  shows "src \<noteq> -1 \<and> (\<exists>rc s' es. op = Some (rc, s') \<and> safe view files W req img E s rc s' es \<and> (reliable_flash bsp view \<and> W (bt_fs s) \<longrightarrow> rc = 0) \<and>
    (rc = 0 \<longrightarrow> bt_entries s' = es \<and> (\<forall>q \<le> p. es ! (b + q) = part m q) \<and> free_entry (es ! sc) \<and>
      (\<forall>i < length es. \<not> (b \<le> i \<and> i < b + np) \<and> \<not> free_entry (bt_entries s ! i) \<and> bse_image_num (bt_entries s ! i) \<noteq> word_of_int m \<longrightarrow>
         es ! i = bt_entries s ! i)))"
proof -
  let ?as = "br_image_areas req" and ?es = "bt_entries s" and ?di = "b + p"
  have len: "length ?es = length ?as" using pl by (simp add: placed_def)
  have di: "?di < length ?as" "uint (?as ! ?di) = a + int p" "?as ! ?di \<noteq> br_scratch_area_idx req"
    using sl p by (auto simp: slot_at_def)
  then have "?di \<noteq> sc" using sc(2) by auto
  have idx: "boot_find_image_area_idx req (a + int p) = int ?di" using find_area_idx [OF rq di(1)] di(2) by simp
  obtain si where si: "si < length ?as" "src = uint (?as ! si)" "?es ! si = part m p"
    using find_part [of m p s req bsp L] E(1,3) len rq m p src by auto
  have "si \<noteq> sc" using si(3) sc(3) part_not_free [OF m] by auto
  have pq: "si \<noteq> b + q" if "q < p" for q using old that si(3) part_inj [of p q m] p by auto
  have "src \<noteq> -1" using si(2) by (metis uint_ge_0 not_numeral_le_zero neg_0_le_iff_le zero_le_one order_antisym_conv one_neq_neg_one add.inverse_neutral)
  show ?thesis
  proof (cases "si = ?di")
    case True
    then have "op = Some (0, s)" using op si(2) di(2) by simp
    moreover have "\<forall>q \<le> p. ?es ! (b + q) = part m q" using old True si(3) by (auto simp: le_less)
    ultimately show ?thesis using safe_refl [OF pl E(1)] sc(3) \<open>src \<noteq> -1\<close> by auto
  next
    case False
    then have ne: "src \<noteq> a + int p" using si(1,2) di(1,2) rq
      by (metis nth_eq_iff_index_eq req_ok_def word_uint_eqI)
    have "nat (boot_find_image_area_idx req (a + int p)) = ?di" "0 \<le> boot_find_image_area_idx req (a + int p)"
      by (simp_all only: idx nat_int of_nat_0_le_iff)
    then have op': "op = (if free_entry (?es ! ?di) then boot_move_area bsp (Some ops) req src (a + int p) m (word_of_int (int p)) s
        else boot_swap_areas bsp (Some ops) req src (a + int p) s)"
      using op ne di(1) len by (simp add: free_entry_def)
    show ?thesis
    proof (cases "free_entry (?es ! ?di)")
      case True
      obtain rc s' es where r: "boot_move_area bsp (Some ops) req (uint (?as ! si)) (uint (?as ! ?di)) m (word_of_int (int p)) s = Some (rc, s')"
          "safe view files W req img E s rc s' es" "reliable_flash bsp view \<and> W (bt_fs s) \<longrightarrow> rc = 0"
          "rc = 0 \<longrightarrow> bt_entries s' = es \<and> es = ?es[?di := ?es ! si, si := none_entry]"
        using move_area_ok [OF fs rq si(1) di(1) False pl True E(1,2) si(3) [unfolded part_def]] by blast
      then have "op = Some (rc, s')" using op' True si(2) di(2) by simp
      moreover have "(?es[?di := ?es ! si, si := none_entry]) ! (b + q) = part m q" if "q \<le> p" for q
        using that pq [of q] old si False di(1) len by (cases "q = p") (auto simp: nth_list_update)
      moreover have "free_entry ((?es[?di := ?es ! si, si := none_entry]) ! sc)" using \<open>si \<noteq> sc\<close> \<open>?di \<noteq> sc\<close> sc(3) by simp
      moreover have "(?es[?di := ?es ! si, si := none_entry]) ! i = ?es ! i"
        if "i < length es" "\<not> (b \<le> i \<and> i < b + np)" "bse_image_num (?es ! i) \<noteq> word_of_int m" for i
      proof -
        have "i \<noteq> si" "i \<noteq> ?di" using that si(3) p(1) by (auto simp: part_def)
        then show ?thesis by simp
      qed
      ultimately show ?thesis using r(2-4) \<open>src \<noteq> -1\<close> by auto
    next
      case nf: False
      obtain rc s' es where r: "boot_swap_areas bsp (Some ops) req (uint (?as ! si)) (uint (?as ! ?di)) s = Some (rc, s')"
          "safe view files W req img E s rc s' es" "reliable_flash bsp view \<and> W (bt_fs s) \<longrightarrow> rc = 0"
          "rc = 0 \<longrightarrow> bt_entries s' = es \<and> es = ?es[si := ?es ! ?di, ?di := ?es ! si, sc := none_entry]"
        using swap_areas_ok [OF fs rq si(1) di(1) sc(1,2) False \<open>si \<noteq> sc\<close> \<open>?di \<noteq> sc\<close> pl sc(3) E(1,2)] by blast
      then have "op = Some (rc, s')" using op' nf si(2) di(2) by simp
      moreover have "(?es[si := ?es ! ?di, ?di := ?es ! si, sc := none_entry]) ! (b + q) = part m q" if "q \<le> p" for q
      proof -
        have "b + q \<noteq> sc" using sl sc(2) that p by (auto simp: slot_at_def)
        then show ?thesis using that pq [of q] old si di(1) len by (cases "q = p") (auto simp: nth_list_update)
      qed
      moreover have "free_entry ((?es[si := ?es ! ?di, ?di := ?es ! si, sc := none_entry]) ! sc)" using sc(1) len by simp
      moreover have "(?es[si := ?es ! ?di, ?di := ?es ! si, sc := none_entry]) ! i = ?es ! i"
        if "i < length es" "\<not> (b \<le> i \<and> i < b + np)" "bse_image_num (?es ! i) \<noteq> word_of_int m" "\<not> free_entry (?es ! i)" for i
      proof -
        have "i \<noteq> si" "i \<noteq> ?di" "i \<noteq> sc" using that si(3) p(1) sc(3) by (auto simp: part_def)
        then show ?thesis by simp
      qed
      ultimately show ?thesis using r(2-4) \<open>src \<noteq> -1\<close> by auto
    qed
  qed
qed

end

context flash_bank
begin

lemma fill_from:
  assumes fs: "fs_laws ops files cursor" "W = boot_fs_works ops files cursor req" and rq: "req_ok bsp req L" and sl: "slot_at req a b np" and np: "parts len L np"
    and m: "m = 0 \<or> m = 1" and E2: "\<forall>e \<in> E. \<not> free_entry e" "\<forall>q < np. part m q \<in> E"
    and sc: "sc < length (br_image_areas req)" "br_image_areas req ! sc = br_scratch_area_idx req"
    and "p \<le> np" "placed view req img (bt_entries s) (bt_flash s)" "E \<subseteq> set (bt_entries s)" "free_entry (bt_entries s ! sc)"
      "\<forall>q < p. bt_entries s ! (b + q) = part m q"
  shows "\<exists>rc s' es. fill_loop bsp (Some ops) req m len a (int p) (of_nat (p * unat L)) s = Some (rc, s') \<and>
    safe view files W req img E s rc s' es \<and> (reliable_flash bsp view \<and> W (bt_fs s) \<longrightarrow> rc = 0) \<and>
    (rc = 0 \<longrightarrow> bt_entries s' = es \<and> (\<forall>q < np. es ! (b + q) = part m q) \<and> free_entry (es ! sc) \<and>
      (\<forall>i < length es. \<not> (b \<le> i \<and> i < b + np) \<and> \<not> free_entry (bt_entries s ! i) \<and> bse_image_num (bt_entries s ! i) \<noteq> word_of_int m \<longrightarrow>
         es ! i = bt_entries s ! i))"
  using assms(11-)
proof (induction "np - p" arbitrary: p s)
  case 0
  then have p: "p = np" by simp
  have "unat (of_nat (np * unat L) :: u32) = np * unat L" unfolding unat_of_nat by (rule mod_less) (use np in \<open>simp add: parts_def\<close>)
  then have "\<not> (of_nat (p * unat L) :: u32) < len" using np p by (simp add: parts_def word_less_nat_alt)
  then have "fill_loop bsp (Some ops) req m len a (int p) (of_nat (p * unat L)) s = Some (0, s)"
    by (subst fill_loop.simps) simp
  then show ?case using safe_refl [OF 0(3,4)] 0 p by (intro exI [of _ 0] exI [of _ s] exI [of _ "bt_entries s"]) simp
next
  case (Suc n)
  then have p: "p < np" "np \<le> 255" using np by (auto simp: parts_def)
  have bound: "p * unat L < 2 ^ 32" using np p(1) by (auto simp: parts_def intro: le_less_trans [OF mult_le_mono1])
  have "unat (of_nat (p * unat L) :: u32) = p * unat L" unfolding unat_of_nat by (rule mod_less) (use bound in simp)
  then have lt: "(of_nat (p * unat L) :: u32) < len" using np p(1) by (simp add: parts_def word_less_nat_alt)
  define src where "src = boot_find_image_part req m (int p) s"
  define op where "op = (if src = a + int p then Some (0, s)
        else if \<not> (0 \<le> boot_find_image_area_idx req (a + int p) \<and> nat (boot_find_image_area_idx req (a + int p)) < length (bt_entries s)) then None
        else if bse_image_num (bt_entries s ! nat (boot_find_image_area_idx req (a + int p))) = BOOT_IMAGE_NUM_NONE
        then boot_move_area bsp (Some ops) req src (a + int p) m (word_of_int (int p)) s
        else boot_swap_areas bsp (Some ops) req src (a + int p) s)"
  have "part m p \<in> E" using E2(2) p(1) by simp
  from fill_round [OF fs rq sl p m Suc.prems(3) E2(1) this Suc.prems(2) sc Suc.prems(4,5) src_def op_def]
  obtain rc s1 es where r: "src \<noteq> -1" "op = Some (rc, s1)" "safe view files W req img E s rc s1 es" "reliable_flash bsp view \<and> W (bt_fs s) \<longrightarrow> rc = 0"
      "rc = 0 \<longrightarrow> bt_entries s1 = es \<and> (\<forall>q \<le> p. es ! (b + q) = part m q) \<and> free_entry (es ! sc) \<and>
      (\<forall>i < length es. \<not> (b \<le> i \<and> i < b + np) \<and> \<not> free_entry (bt_entries s ! i) \<and> bse_image_num (bt_entries s ! i) \<noteq> word_of_int m \<longrightarrow>
         es ! i = bt_entries s ! i)" by blast
  have "uint (br_image_areas req ! (b + p)) = a + int p" "br_image_areas req ! (b + p) \<in> set (br_image_areas req)"
    using sl p(1) by (auto simp: slot_at_def)
  then obtain d where d: "area_desc req (a + int p) = Some d" "nad_length d = L"
    using rq area_desc_adesc [of "br_image_areas req ! (b + p)" req] by (auto simp: req_ok_def)
  have off: "of_nat (p * unat L) + nad_length d = of_nat (Suc p * unat L)" using d(2) by (simp add: add.commute)
  have "int p + 1 = int (Suc p)" by simp
  then have step: "fill_loop bsp (Some ops) req m len a (int p) (of_nat (p * unat L)) s =
      (if rc \<noteq> 0 then Some (rc, s1) else fill_loop bsp (Some ops) req m len a (int (Suc p)) (of_nat (Suc p * unat L)) s1)"
    using lt r(1,2) d(1) off unfolding src_def op_def by (subst fill_loop.simps) (simp add: Let_def add.commute cong: if_cong)
  show ?case
  proof (cases "rc = 0")
    case False
    then show ?thesis unfolding step using r(3,4) by auto
  next
    case True
    then have r1: "bt_entries s1 = es" "\<forall>q < Suc p. bt_entries s1 ! (b + q) = part m q" "free_entry (bt_entries s1 ! sc)"
      "safe view files W req img E s 0 s1 (bt_entries s1)" using r(3,5) by auto
    have n: "n = np - Suc p" "Suc p \<le> np" using Suc.hyps(2) p(1) by simp_all
    have "placed view req img (bt_entries s1) (bt_flash s1)" "E \<subseteq> set (bt_entries s1)" using r1(4) by (simp_all add: safe_def)
    from Suc.hyps(1) [OF n this r1(3,2)] obtain rc2 s2 es2 where t:
      "fill_loop bsp (Some ops) req m len a (int (Suc p)) (of_nat (Suc p * unat L)) s1 = Some (rc2, s2)"
      "safe view files W req img E s1 rc2 s2 es2" "reliable_flash bsp view \<and> W (bt_fs s1) \<longrightarrow> rc2 = 0"
      "rc2 = 0 \<longrightarrow> bt_entries s2 = es2 \<and> (\<forall>q < np. es2 ! (b + q) = part m q) \<and> free_entry (es2 ! sc) \<and>
      (\<forall>i < length es2. \<not> (b \<le> i \<and> i < b + np) \<and> \<not> free_entry (bt_entries s1 ! i) \<and> bse_image_num (bt_entries s1 ! i) \<noteq> word_of_int m \<longrightarrow>
         es2 ! i = bt_entries s1 ! i)" by blast
    have "length es = length es2" using t(2) r(3) by (simp add: safe_def placed_def)
    then have "rc2 = 0 \<longrightarrow> (\<forall>i < length es2. \<not> (b \<le> i \<and> i < b + np) \<and> \<not> free_entry (bt_entries s ! i) \<and> bse_image_num (bt_entries s ! i) \<noteq> word_of_int m \<longrightarrow>
         es2 ! i = bt_entries s ! i)" using t(4) r(5) True r1(1) by auto
    then show ?thesis unfolding step using True t safe_trans [OF r1(4) t(2)] safe_works [OF r1(4)]
      by (intro exI [of _ rc2] exI [of _ s2] exI [of _ es2]) (simp only: simp_thms if_False, blast)
  qed
qed

end

lemma scratch_index:
  assumes "req_ok bsp req L"
  obtains sc where "sc < length (br_image_areas req)" "br_image_areas req ! sc = br_scratch_area_idx req"
  using assms by (auto simp: req_ok_def in_set_conv_nth)

lemma all_parts_not_free: "e \<in> all_parts n0 n1 \<Longrightarrow> \<not> free_entry e"
  by (auto simp: all_parts_def part_not_free)

context flash_bank
begin

lemma copy_image_ok:
  assumes fs: "fs_laws ops files cursor" "W = boot_fs_works ops files cursor req" and rq: "req_ok bsp req L" and sl: "slots_ok req b0 n1 b1 n0"
    and np: "parts len0 L n0" "parts len1 L n1"
    and pl: "placed view req img (bt_entries s) (bt_flash s)" and E: "all_parts n0 n1 \<subseteq> set (bt_entries s)"
    and sc: "\<forall>i < length (br_image_areas req). br_image_areas req ! i = br_scratch_area_idx req \<longrightarrow> free_entry (bt_entries s ! i)"
  shows "\<exists>rc s' es. boot_copy_image bsp (Some ops) req len0 len1 s = Some (rc, s') \<and>
    safe view files W req img (all_parts n0 n1) s rc s' es \<and> (reliable_flash bsp view \<and> W (bt_fs s) \<longrightarrow> rc = 0) \<and>
    (rc = 0 \<longrightarrow> bt_entries s' = es \<and> (\<forall>q < n1. es ! (b0 + q) = part 1 q) \<and> (\<forall>q < n0. es ! (b1 + q) = part 0 q))"
proof -
  let ?E = "all_parts n0 n1"
  obtain a0 a1 where a: "boot_slot_to_area_idx req 0 = Some a0" "slot_at req a0 b0 n1" "boot_slot_to_area_idx req 1 = Some a1" "slot_at req a1 b1 n0"
    and dis: "{b0 ..< b0 + n1} \<inter> {b1 ..< b1 + n0} = {}" using sl by (auto simp: slots_ok_def)
  obtain k where k: "k < length (br_image_areas req)" "br_image_areas req ! k = br_scratch_area_idx req" by (rule scratch_index [OF rq])
  have nf: "\<forall>e \<in> ?E. \<not> free_entry e" using all_parts_not_free by blast
  have E01: "\<forall>q < n1. part 1 q \<in> ?E" "\<forall>q < n0. part 0 q \<in> ?E" by (auto simp: all_parts_def)
  have "free_entry (bt_entries s ! k)" using sc k by simp
  from fill_from [where p = 0, OF fs rq a(2) np(2) _ nf E01(1) k _ pl E this]
  obtain rc1 s1 es1 where f1: "boot_fill_slot bsp (Some ops) req 1 len1 a0 s = Some (rc1, s1)" "safe view files W req img ?E s rc1 s1 es1"
      "reliable_flash bsp view \<and> W (bt_fs s) \<longrightarrow> rc1 = 0"
      "rc1 = 0 \<longrightarrow> bt_entries s1 = es1 \<and> (\<forall>q < n1. es1 ! (b0 + q) = part 1 q) \<and> free_entry (es1 ! k)"
    by (auto simp: boot_fill_slot_def)
  show ?thesis
  proof (cases "rc1 = 0")
    case False
    then show ?thesis using a(1) f1 by (auto simp: boot_copy_image_def)
  next
    case True
    then have s1: "safe view files W req img ?E s 0 s1 (bt_entries s1)" "\<forall>q < n1. bt_entries s1 ! (b0 + q) = part 1 q" "free_entry (bt_entries s1 ! k)"
      using f1 by auto
    have "placed view req img (bt_entries s1) (bt_flash s1)" "?E \<subseteq> set (bt_entries s1)" using s1(1) by (simp_all add: safe_def)
    from fill_from [where p = 0, OF fs rq a(4) np(1) _ nf E01(2) k _ this s1(3)]
    obtain rc2 s2 es2 where f2: "boot_fill_slot bsp (Some ops) req 0 len0 a1 s1 = Some (rc2, s2)" "safe view files W req img ?E s1 rc2 s2 es2"
        "reliable_flash bsp view \<and> W (bt_fs s1) \<longrightarrow> rc2 = 0"
        "rc2 = 0 \<longrightarrow> bt_entries s2 = es2 \<and> (\<forall>q < n0. es2 ! (b1 + q) = part 0 q) \<and>
          (\<forall>i < length es2. \<not> (b1 \<le> i \<and> i < b1 + n0) \<and> \<not> free_entry (bt_entries s1 ! i) \<and> bse_image_num (bt_entries s1 ! i) \<noteq> 0 \<longrightarrow> es2 ! i = bt_entries s1 ! i)"
      by (auto simp: boot_fill_slot_def)
    have "es2 ! (b0 + q) = part 1 q" if "rc2 = 0" "q < n1" for q
    proof -
      have "b0 + q < length es2" using f2(2) a(2) that(2) by (simp add: safe_def placed_def slot_at_def)
      moreover have "\<not> (b1 \<le> b0 + q \<and> b0 + q < b1 + n0)" using dis that(2)
        by (metis Int_iff atLeastLessThan_iff empty_iff le_add1 nat_add_left_cancel_less)
      moreover have "bt_entries s1 ! (b0 + q) = part 1 q" using s1(2) that(2) by simp
      ultimately show ?thesis using f2(4) that(1) part_not_free [of 1 q] by (auto simp: part_def)
    qed
    then show ?thesis using a(1,3) f1(1) True f2 safe_trans [OF s1(1) f2(2)] safe_works [OF s1(1)]
      by (intro exI [of _ rc2] exI [of _ s2] exI [of _ es2]) (simp add: boot_copy_image_def)
  qed
qed

end

end
