(* ===== verification/Boot_Native.thy ===== *)
theory Boot_Native
  imports Boot_Swap
begin

text \<open>
  Booting the native target: the flash map of the board, \<^verbatim>\<open>hw/bsp/native/src/os_bsp.c\<close>, the boot program
  that turns it into a request for the boot loader, \<^verbatim>\<open>project/boot/src/boot.c\<close>, and what the boot loader
  does with that request, from the first call to the answer.
\<close>

subsection \<open>The flash map of the native board\<close>







subsection \<open>boot.c\<close>



text \<open>What \<^verbatim>\<open>main\<close> jumps to in the end: the address of the image past its header.\<close>

definition boot_entry :: "boot_rsp \<Rightarrow> u32" where
  "boot_entry rsp = br_image_addr rsp + ih_hdr_size (br_hdr rsp)"

text \<open>The descriptor of a sector of the native flash, and the request for the native board.\<close>

definition sec_desc :: "u32 \<Rightarrow> u32 \<Rightarrow> nffs_area_desc" where
  "sec_desc off len = \<lparr>nad_offset = off, nad_length = len, nad_flash_id = 0\<rparr>"

definition native_req :: "nffs_area_desc list \<Rightarrow> boot_req" where
  "native_req rest = \<lparr>br_area_descs =
       [sec_desc 0x20000 0x20000, sec_desc 0x40000 0x20000, sec_desc 0x60000 0x20000,
        sec_desc 0x80000 0x20000, sec_desc 0xa0000 0x20000, sec_desc 0xc0000 0x20000,
        sec_desc 0xe0000 0x20000, sec_desc 0x8000 0x4000, sec_desc 0xc000 0x4000] @ rest,
     br_image_areas = [0, 1, 2, 3, 4, 5, 6], br_slot_areas = [0, 3], br_num_image_areas = 7, br_scratch_area_idx = 6\<rparr>"


definition native_img :: "boot_req \<Rightarrow> native_flash \<Rightarrow> boot_status_entry \<Rightarrow> u8 list" where
  "native_img req fl e = contents native_view fl (adesc req (if bse_image_num e = 0 then bse_part_num e else 3 + bse_part_num e))"



text \<open>A file system in memory: the files, and the file and position of every handle given out.\<close>

record ram_fs =
  rf_files :: "string \<Rightarrow> u8 list option"
  rf_handles :: "(string \<times> nat) list"

definition ram_open :: "string \<Rightarrow> u8 \<Rightarrow> ram_fs \<Rightarrow> (int \<times> nat option \<times> ram_fs) option" where
  "ram_open p flags f =
     (let f' = f\<lparr>rf_handles := rf_handles f @ [(p, 0)]\<rparr> in
      if flags AND FS_ACCESS_TRUNCATE \<noteq> 0
      then Some (0, Some (length (rf_handles f)), f'\<lparr>rf_files := (rf_files f)(p := Some [])\<rparr>)
      else if rf_files f p = None then Some (6, None, f) else Some (0, Some (length (rf_handles f)), f'))"

definition ram_cursor :: "ram_fs \<Rightarrow> nat \<Rightarrow> (string \<times> nat) option" where
  "ram_cursor f i = (if i < length (rf_handles f) then Some (rf_handles f ! i) else None)"

definition ram_read :: "nat option \<Rightarrow> u32 \<Rightarrow> ram_fs \<Rightarrow> (int \<times> u8 list \<times> ram_fs) option" where
  "ram_read h len f = do {
     i \<leftarrow> h; (p, n) \<leftarrow> ram_cursor f i; c \<leftarrow> rf_files f p;
     let bs = take (unat len) (drop n c);
     Some (0, bs, f\<lparr>rf_handles := (rf_handles f)[i := (p, n + length bs)]\<rparr>) }"

definition ram_write :: "nat option \<Rightarrow> u8 list \<Rightarrow> int \<Rightarrow> ram_fs \<Rightarrow> (int \<times> ram_fs) option" where
  "ram_write h data len f = do {
     i \<leftarrow> h; (p, n) \<leftarrow> ram_cursor f i; c \<leftarrow> rf_files f p;
     Some (0, f\<lparr>rf_files := (rf_files f)(p := Some (take n c @ take (nat len) data @ drop (n + nat len) c)),
       rf_handles := (rf_handles f)[i := (p, n + nat len)]\<rparr>) }"

definition ram_ops :: "ram_fs fs_ops" where
  "ram_ops = \<lparr>f_open = ram_open, f_close = (\<lambda>h f. Some (0, f)), f_read = ram_read, f_write = ram_write,
     f_seek = (\<lambda>h off f. Some (0, f)), f_getpos = (\<lambda>h f. Some 0), f_filelen = (\<lambda>h f. Some (0, 0, f)),
     f_unlink = (\<lambda>p f. Some (0, f\<lparr>rf_files := (rf_files f)(p := None)\<rparr>)), f_rename = (\<lambda>p q f. Some (0, f)),
     f_mkdir = (\<lambda>p f. Some (0, f)), f_opendir = (\<lambda>p f. Some (6, None, f)), f_readdir = (\<lambda>h f. Some (6, None, f)),
     f_closedir = (\<lambda>h f. Some (0, f)), f_dirent_name = (\<lambda>h n f. Some (6, [], f)), f_dirent_is_dir = (\<lambda>h f. Some 0),
     f_name = ''ram''\<rparr>"

text \<open>The same with no room for data: files can be opened, but every write reports \<^verbatim>\<open>FS_EFULL\<close>.\<close>

definition full_ops :: "ram_fs fs_ops" where
  "full_ops = ram_ops\<lparr>f_write := \<lambda>h data len f. Some (8, f)\<rparr>"

text \<open>Two images of three and two parts, and a test vector that names the second one.\<close>

definition hdr_bytes :: "u8 \<Rightarrow> u8 \<Rightarrow> u8 list" where
  "hdr_bytes sz major = [0x3c, 0xb8, 0xf3, 0x96, 0, 0, 0, 0, 32, 0, 0, 0, 0, 0, sz, 0, 0, 0, 0, 0, major, 0, 0, 0, 0, 0, 0, 0, 0, 0, 0, 0]"

definition demo_flash :: native_flash where
  "demo_flash = \<lparr>nf_open = True, nf_mem = (\<lambda>x. if 0x20000 \<le> x \<and> x < 0x20020 then hdr_bytes 5 1 ! (x - 0x20000)
     else if 0x80000 \<le> x \<and> x < 0x80020 then hdr_bytes 3 2 ! (x - 0x80000) else 0xff)\<rparr>"


text \<open>The native flash behind a supply that fails: after \<open>n\<close> more erasures and writes every one reports an error.\<close>

definition failing_dev :: "(nat \<times> native_flash) hal_flash" where
  "failing_dev = \<lparr>hff_read = (\<lambda>a n (k, d). do { (rc, bs, d') \<leftarrow> native_flash_read a n d; Some (rc, bs, k, d') }),
     hff_write = (\<lambda>a src n (k, d). if k = 0 then Some (-1, 0, d)
        else do { (rc, d') \<leftarrow> native_flash_write a src n d; Some (rc, k - 1, d') }),
     hff_erase_sector = (\<lambda>a (k, d). if k = 0 then Some (-1, 0, d)
        else do { (rc, d') \<leftarrow> native_flash_erase_sector a d; Some (rc, k - 1, d') }),
     hff_sector_info = native_flash_sector_info, hff_init = (\<lambda>d. Some (0, d)),
     hf_base_addr = 0, hf_size = native_size, hf_sector_cnt = FLASH_NUM_AREAS, hf_align = native_align\<rparr>"

definition failing_devs :: "(nat \<times> native_flash) flash_devs" where
  "failing_devs i = (if i \<noteq> 0 then None else Some failing_dev)"

definition failing_view :: "nat \<times> native_flash \<Rightarrow> u8 \<Rightarrow> nat \<Rightarrow> u8" where
  "failing_view = (\<lambda>(k, d). native_view d)"

definition demo_swap :: "(nat \<times> native_flash, ram_fs) boot_state" where
  "demo_swap = \<lparr>bt_flash = (200, demo_flash), bt_fs = \<lparr>rf_files = Map.empty, rf_handles = []\<rparr>, boot_img_hdrs = [],
     bt_status = \<lparr>bs_img1_length = 0x50000, bs_img2_length = 0x30000\<rparr>,
     bt_entries = [part 0 0, part 0 1, part 0 2, part 1 0, part 1 1, none_entry, none_entry]\<rparr>"

definition demo_resume :: "(native_flash, ram_fs) boot_state" where
  "demo_resume = \<lparr>bt_flash = demo_flash, bt_fs = \<lparr>rf_files = Map.empty, rf_handles = []\<rparr>, boot_img_hdrs = [],
     bt_status = \<lparr>bs_img1_length = 0x50000, bs_img2_length = 0x30000\<rparr>,
     bt_entries = [part 1 0, part 0 1, part 0 2, none_entry, part 1 1, none_entry, part 0 0]\<rparr>"

subsection \<open>Lemmas\<close>



lemma sec_desc_ok:
  assumes "native_flash_sector_info k = Some (0, st, sz)" "0 \<le> k" "k < FLASH_NUM_AREAS"
  shows "desc_ok (bsp_flash_dev f) (sec_desc st sz)"
proof -
  let ?hf = "native_flash_dev f"
  have bsp: "bsp_flash_dev f 0 = Some ?hf" by (simp add: bsp_flash_dev_def)
  have hk: "hff_sector_info ?hf k = Some (0, st, sz)" using assms(1) by (simp add: native_flash_dev_def)
  have dev: "in_dev ?hf st sz" using native.dev_sector [OF bsp assms(2)] assms(3) hk by auto
  let ?fa = "\<lparr>fa_flash_id = 0, fa_off = st, fa_size = sz\<rparr> :: flash_area"
  have "area_sectors ?hf ?fa k k" using assms hk by (simp add: area_sectors_def sec_start_def sec_len_def)
  from sectors_of_area [OF this, of st sz] have "sectors_meeting ?hf st sz = addrs st sz"
    using native.range_in_sectors [OF bsp dev] by auto
  moreover have "0 < unat sz" using native.sec_pos [OF bsp assms(2)] assms(3) hk by (simp add: sec_len_def)
  ultimately show ?thesis using bsp dev
    by (simp add: desc_ok_def sec_desc_def daddrs_def) (simp add: native_flash_dev_def native_align_def)
qed

lemma native_adesc:
  "adesc (native_req rest) 0 = sec_desc 0x20000 0x20000" "adesc (native_req rest) 1 = sec_desc 0x40000 0x20000"
  "adesc (native_req rest) 2 = sec_desc 0x60000 0x20000" "adesc (native_req rest) 3 = sec_desc 0x80000 0x20000"
  "adesc (native_req rest) 4 = sec_desc 0xa0000 0x20000" "adesc (native_req rest) 5 = sec_desc 0xc0000 0x20000"
  "adesc (native_req rest) 6 = sec_desc 0xe0000 0x20000"
  by (simp_all add: adesc_def native_req_def)

lemma native_areas: "br_image_areas (native_req rest) = [0, 1, 2, 3, 4, 5, 6]"
  by (simp add: native_req_def)

lemma native_req_ok: "req_ok (bsp_flash_dev f) (native_req rest) 0x20000"
proof -
  have "desc_ok (bsp_flash_dev f) (adesc (native_req rest) a) \<and> nad_length (adesc (native_req rest) a) = 0x20000"
    if "a \<in> set (br_image_areas (native_req rest))" for a
    using that sec_desc_ok [OF native_info(6), of f] sec_desc_ok [OF native_info(7), of f] sec_desc_ok [OF native_info(8), of f]
      sec_desc_ok [OF native_info(9), of f] sec_desc_ok [OF native_info(10), of f] sec_desc_ok [OF native_info(11), of f]
      sec_desc_ok [OF native_info(12), of f]
    unfolding native_areas by (auto simp: native_adesc sec_desc_def FLASH_NUM_AREAS_def)
  moreover have "apart (adesc (native_req rest) a) (adesc (native_req rest) b)"
    if "a \<in> set [0, 1, 2, 3, 4, 5, 6]" "b \<in> set [0, 1, 2, 3, 4, 5, 6]" "a \<noteq> b" for a b
    using that by (auto simp: native_adesc apart_def sec_desc_def daddrs_def addrs_def)
  ultimately show ?thesis by (auto simp: req_ok_def native_req_def)
qed

lemma upto_3: "p < (3 :: nat) \<Longrightarrow> p = 0 \<or> p = 1 \<or> p = 2"
  by auto

lemma native_slot_idx:
  assumes "rest \<noteq> []"
  shows "boot_slot_to_area_idx (native_req rest) 0 = Some 0" "boot_slot_to_area_idx (native_req rest) 1 = Some 3"
    "boot_slot_addr (native_req rest) 0 = Some (0, 0x20000)" "boot_slot_addr (native_req rest) 1 = Some (0, 0x80000)"
  by (simp_all add: boot_slot_to_area_idx_def native_req_def boot_slot_addr_def area_desc_def sec_desc_def BOOT_NUM_SLOTS_def)

lemma native_slot_at:
  assumes "n \<le> 3"
  shows "slot_at (native_req rest) 0 0 n" "slot_at (native_req rest) 3 3 n"
  using assms by (auto simp: slot_at_def native_req_def dest!: less_le_trans [THEN upto_3])

lemma native_slots_ok:
  assumes "rest \<noteq> []" "n0 \<le> 3" "n1 \<le> 3"
  shows "slots_ok (native_req rest) 0 n1 3 n0"
  using native_slot_idx [OF assms(1)] native_slot_at(1) [OF assms(3)] native_slot_at(2) [OF assms(2)] assms(3)
  by (auto simp: slots_ok_def)







lemma native_area_nth: "i < 7 \<Longrightarrow> br_image_areas (native_req rest) ! i = of_nat i"
proof -
  assume "i < 7"
  then have "i = 0 \<or> i = 1 \<or> i = 2 \<or> i = 3 \<or> i = 4 \<or> i = 5 \<or> i = 6" by auto
  then show ?thesis by (elim disjE) (simp_all add: native_areas)
qed

lemma native_built:
  assumes "length es = 7" "n0 \<le> 3" "n1 \<le> 3"
    and "\<forall>i < 7. es ! i = (if i < n0 then part 0 i else if 3 \<le> i \<and> i < 3 + n1 then part 1 (i - 3)
       else \<lparr>bse_image_num = 0xff, bse_part_num = 0xff\<rparr>)"
  shows "placed native_view (native_req rest) (native_img (native_req rest) fl) es fl" "all_parts n0 n1 \<subseteq> set es"
    "free_entry (es ! 6)"
proof -
  have "native_img (native_req rest) fl (es ! i) = contents native_view fl (adesc (native_req rest) (br_image_areas (native_req rest) ! i))"
    if "i < 7" "\<not> free_entry (es ! i)" for i
  proof (cases "i < n0")
    case True
    then show ?thesis using assms that native_area_nth by (simp add: native_img_def part_def)
  next
    case False
    then have i: "3 \<le> i" "i < 3 + n1" "es ! i = part 1 (i - 3)"
      using assms(4) that by (auto simp: free_entry_def BOOT_IMAGE_NUM_NONE_def split: if_splits)
    have "3 + of_nat (i - 3) = (of_nat i :: u8)" using i(1) by (metis of_nat_add of_nat_numeral le_add_diff_inverse)
    then show ?thesis using i(3) native_area_nth [OF that(1)] by (simp add: native_img_def part_def)
  qed
  then show "placed native_view (native_req rest) (native_img (native_req rest) fl) es fl"
    using assms(1) by (simp add: placed_def native_areas)
  have "part 0 q \<in> set es" if "q < n0" for q using that assms nth_mem [of q es] by simp
  moreover have "part 1 q \<in> set es" if "q < n1" for q using that assms nth_mem [of "3 + q" es] by simp
  ultimately show "all_parts n0 n1 \<subseteq> set es" by (auto simp: all_parts_def)
  show "free_entry (es ! 6)" using assms by (simp add: free_entry_def BOOT_IMAGE_NUM_NONE_def)
qed


lemma ram_laws: "fs_laws ram_ops rf_files ram_cursor"
  unfolding fs_laws_def
  by (intro conjI allI)
    (auto simp: ram_ops_def ram_open_def ram_cursor_def ram_read_def ram_write_def FS_ACCESS_READ_def FS_ACCESS_WRITE_def
      FS_ACCESS_TRUNCATE_def Let_def split: if_splits)

lemma ram_works: "fs_works ram_ops rf_files ram_cursor paths room f"
  unfolding fs_works_def
  by (rule exI [of _ "\<lambda>_. True"])
    (auto simp: fs_serves_def ram_ops_def ram_open_def ram_read_def ram_write_def FS_ACCESS_WRITE_def FS_ACCESS_TRUNCATE_def Let_def
      bind_eq_Some_conv split: if_splits)

lemma ram_boot_works: "boot_fs_works ram_ops rf_files ram_cursor req f"
  by (simp add: boot_fs_works_def ram_works)

lemma full_laws: "fs_laws full_ops rf_files ram_cursor"
  unfolding fs_laws_def
  by (intro conjI allI)
    (auto simp: full_ops_def ram_ops_def ram_open_def ram_cursor_def ram_read_def FS_ACCESS_READ_def FS_ACCESS_WRITE_def
      FS_ACCESS_TRUNCATE_def Let_def split: if_splits)

text \<open>
  \<^verbatim>\<open>boot_write_status\<close> truncates the status file before it writes: if the file system is full, the old
  record is gone and there is no new one.
\<close>

lemma boot_write_status_full:
  "\<exists>f'. boot_write_status (Some full_ops) st es n f = Some (BOOT_EFILE, f') \<and> rf_files f' BOOT_PATH_STATUS = Some []"
  by (simp add: boot_write_status_def fs_open_def fs_write_def fs_close_def full_ops_def ram_ops_def ram_open_def
      FS_ACCESS_WRITE_def FS_ACCESS_TRUNCATE_def Let_def)










lemma demo_parts: "parts 0x50000 0x20000 3" "parts 0x30000 0x20000 2"
  by (auto simp: parts_def dest!: upto_3)


text \<open>
  C31: Swapping the images loses no part of them. For any flash that keeps to its contract, but may report an error at any
  erase, write or read, and any file system that keeps to its laws, but may report an error at any operation,
  swapping two images whose parts are all recorded, with nothing in the scratch area, and with image areas that
  consist of whole sectors, do not overlap and have one length, ends with or without an error in a state where some
  status still names every part of both images and every part is, unchanged, in the area that status says. That
  status is the one in the status file or, if no file was changed yet, the one of the beginning. The only exception is
  a failed write of the status file, for which the swap returns \<^verbatim>\<open>BOOT_EFILE\<close> at once: then the status is the one in
  memory and the file may be lost. There is no exception if the file system works, that is, if from the
  beginning of the swap on the operations on the status file and the test vector succeed. A reset in the middle
  of an operation is not covered.
\<close>

theorem boot_swap_loses_nothing:
  assumes "flash_bank bsp view" "fs_laws ops files cursor" "req_ok bsp req L" "slots_ok req b0 n1 b1 n0"
    and "parts len0 L n0" "parts len1 L n1"
    and "placed view req img (bt_entries s) (bt_flash s)" "all_parts n0 n1 \<subseteq> set (bt_entries s)"
    and "\<forall>i < length (br_image_areas req). br_image_areas req ! i = br_scratch_area_idx req \<longrightarrow> free_entry (bt_entries s ! i)"
  shows "\<exists>rc s' es. boot_copy_image bsp (Some ops) req len0 len1 s = Some (rc, s') \<and>
    placed view req img es (bt_flash s') \<and> all_parts n0 n1 \<subseteq> set es \<and>
    (recorded files s s' es \<or> rc = BOOT_EFILE \<and> bt_entries s' = es \<and> \<not> boot_fs_works ops files cursor req (bt_fs s)) \<and>
    (\<forall>q. q \<noteq> BOOT_PATH_STATUS \<longrightarrow> files (bt_fs s') q = files (bt_fs s) q)"
  using flash_bank.copy_image_ok [OF assms(1,2) refl assms(3-)] unfolding safe_def by blast

interpretation failing: flash_bank failing_devs failing_view
proof unfold_locales
  note defs = failing_devs_def failing_dev_def
  have dev: "in_dev hf a n \<longleftrightarrow> in_dev (native_flash_dev None) a n" if "failing_devs i = Some hf" for i hf a n
    using that by (auto simp: defs in_dev_def native_flash_dev_def split: if_splits)
  have bsp: "bsp_flash_dev None 0 = Some (native_flash_dev None)" by (simp add: bsp_flash_dev_def)
  show "unat (hf_base_addr hf) + unat (hf_size hf) < 2 ^ 32" if "failing_devs i = Some hf" for i hf
    using that by (auto simp: defs native_size split: if_splits)
  show "\<exists>rc bs d'. hff_read hf a n d = Some (rc, bs, d') \<and> failing_view d' = failing_view d \<and>
      (rc = 0 \<longrightarrow> bs = map (failing_view d i) [unat a ..< unat a + unat n])"
    if "failing_devs i = Some hf" "in_dev hf a n" for i hf a n d
    using native.dev_read [OF bsp, of a n "snd d"] that dev [OF that(1)]
    by (cases d) (auto simp: defs failing_view_def native_flash_dev_def split: if_splits)
  show "\<exists>rc d'. hff_write hf a src n d = Some (rc, d') \<and> same_outside failing_view i (addrs a n) d d' \<and>
      (rc = 0 \<longrightarrow> map (failing_view d' i) [unat a ..< unat a + unat n] = take (unat n) src)"
    if "failing_devs i = Some hf" "in_dev hf a n" "uint a mod hf_align hf = 0" "unat n \<le> length src"
      "\<forall>x \<in> addrs a n. failing_view d i x = 0xff" for i hf a n src d
    using native_write_ok [of a n src "snd d"] that
    by (cases d) (auto simp: defs failing_view_def same_outside_def in_dev_def split: if_splits)
  show "\<exists>st sz. hff_sector_info hf k = Some (0, st, sz) \<and> in_dev hf st sz"
    if "failing_devs i = Some hf" "0 \<le> k" "k < hf_sector_cnt hf" for i hf k
    using that native_sector [of k] by (auto simp: defs in_dev_def split: if_splits)
  show "\<exists>rc d'. hff_erase_sector hf st d = Some (rc, d') \<and> same_outside failing_view i (addrs st sz) d d' \<and>
      (rc = 0 \<longrightarrow> (\<forall>x \<in> addrs st sz. failing_view d' i x = 0xff))"
    if "failing_devs i = Some hf" "0 \<le> k" "k < hf_sector_cnt hf" "hff_sector_info hf k = Some (0, st, sz)" for i hf k st sz d
    using that native_erase_ok [of k st sz "snd d"]
    by (cases d) (auto simp: defs failing_view_def same_outside_def split: if_splits)
  show "\<exists>k st sz. 0 \<le> k \<and> k < hf_sector_cnt hf \<and> hff_sector_info hf k = Some (0, st, sz) \<and> x \<in> addrs st sz"
    if "failing_devs i = Some hf" "unat (hf_base_addr hf) \<le> x" "x < unat (hf_base_addr hf) + unat (hf_size hf)" for i hf x
    using that native_tiles [of x] by (auto simp: defs split: if_splits)
qed

lemma failing_req_ok: "req_ok failing_devs (native_req rest) 0x20000"
proof -
  have "desc_ok failing_devs d" if "desc_ok (bsp_flash_dev None) d" for d
    using that by (auto simp: desc_ok_def sectors_meeting_def in_dev_def failing_devs_def failing_dev_def
        bsp_flash_dev_def native_flash_dev_def split: if_splits)
  then show ?thesis using native_req_ok [of None rest] by (simp add: req_ok_def)
qed

theorem boot_swap_loses_nothing_witness:
  "\<exists>rc s' es. boot_copy_image failing_devs (Some full_ops) (native_req [sec_desc 0 0]) 0x50000 0x30000 demo_swap = Some (rc, s') \<and>
    placed failing_view (native_req [sec_desc 0 0]) (native_img (native_req [sec_desc 0 0]) demo_flash) es (bt_flash s') \<and>
    all_parts 3 2 \<subseteq> set es"
proof -
  let ?r = "native_req [sec_desc 0 0]" and ?es = "bt_entries demo_swap"
  have all7: "(\<forall>i < 7. Q i) \<longleftrightarrow> Q 0 \<and> Q 1 \<and> Q 2 \<and> Q 3 \<and> Q 4 \<and> Q 5 \<and> Q 6" for Q :: "nat \<Rightarrow> bool"
    by (simp add: eval_nat_numeral All_less_Suc conj_ac)
  have es: "length ?es = 7" "\<forall>i < 7. ?es ! i = (if i < 3 then part 0 i else if 3 \<le> i \<and> i < 3 + 2 then part 1 (i - 3)
       else \<lparr>bse_image_num = 0xff, bse_part_num = 0xff\<rparr>)"
    unfolding all7 by (simp_all add: demo_swap_def none_entry_def BOOT_IMAGE_NUM_NONE_def)
  have b: "placed failing_view ?r (native_img ?r demo_flash) ?es (bt_flash demo_swap)" "all_parts 3 2 \<subseteq> set ?es" "free_entry (?es ! 6)"
    using native_built(1) [OF es(1) _ _ es(2), of "[sec_desc 0 0]" demo_flash] native_built(2,3) [OF es(1) _ _ es(2)]
    by (simp_all add: placed_def contents_def failing_view_def) (simp_all add: demo_swap_def)
  have "br_image_areas ?r ! i = br_scratch_area_idx ?r \<longrightarrow> free_entry (?es ! i)" if "i < 7" for i
    using that b(3) native_area_nth [OF that, of "[sec_desc 0 0]"]
    by (cases "i = 6") (auto simp: native_req_def dest!: arg_cong [where f = unat] simp: unat_of_nat)
  then have "\<forall>i < length (br_image_areas ?r). br_image_areas ?r ! i = br_scratch_area_idx ?r \<longrightarrow> free_entry (?es ! i)"
    by (simp add: native_areas)
  from boot_swap_loses_nothing [OF failing.flash_bank_axioms full_laws failing_req_ok native_slots_ok demo_parts b(1,2) this]
  show ?thesis by auto
qed

context reliable_flash
begin

lemma swap_step_runs:
  assumes fs: "fs_laws ops files cursor" "W = boot_fs_works ops files cursor req" and w: "W (bt_fs s)" and rq: "req_ok bsp req L"
    and i: "si < length (br_image_areas req)" "di < length (br_image_areas req)" "si \<noteq> di"
    and len: "length (bt_entries s) = length (br_image_areas req)"
  shows "\<exists>s'. swap_step bsp (Some ops) req (uint (br_image_areas req ! si)) (uint (br_image_areas req ! di)) (int si) (int di) s = Some (0, s') \<and>
    bt_entries s' = (bt_entries s)[di := bt_entries s ! si, si := none_entry] \<and> W (bt_fs s')"
proof -
  let ?d = "adesc req (br_image_areas req ! di)" and ?f = "adesc req (br_image_areas req ! si)"
  have ne: "br_image_areas req ! si \<noteq> br_image_areas req ! di" using rq i by (simp add: req_ok_def nth_eq_iff_index_eq)
  have d: "area_desc req (uint (br_image_areas req ! di)) = Some ?d" "desc_ok bsp ?d"
      "area_desc req (uint (br_image_areas req ! si)) = Some ?f" "desc_ok bsp ?f" "nad_length ?f = nad_length ?d" "apart ?d ?f"
    using rq i ne by (auto simp: req_ok_def area_desc_adesc)
  obtain fl where e: "boot_erase_area bsp req (uint (br_image_areas req ! di)) s = Some (0, s\<lparr>bt_flash := fl\<rparr>)"
      "\<forall>x \<in> daddrs ?d. view fl (nad_flash_id ?d) x = 0xff"
    using erase_area [OF d(1,2), of s] reliable_flash_axioms by auto
  obtain fl2 where c: "boot_copy_area bsp req (uint (br_image_areas req ! si)) (uint (br_image_areas req ! di)) (s\<lparr>bt_flash := fl\<rparr>) =
      Some (0, s\<lparr>bt_flash := fl2\<rparr>)"
    using copy_area [OF d(3,1,4,2,5,6), of "s\<lparr>bt_flash := fl\<rparr>"] e(2) reliable_flash_axioms by auto
  let ?s = "s\<lparr>bt_flash := fl2, bt_entries := (bt_entries s)[di := bt_entries s ! si, si := none_entry]\<rparr>"
  obtain rc f where "save_status (Some ops) req ?s = Some (rc, ?s\<lparr>bt_fs := f\<rparr>)" "W (bt_fs ?s) \<longrightarrow> rc = 0 \<and> W f"
    by (rule save_status_ok [OF fs, of ?s]) (use len rq in \<open>simp_all add: req_ok_def\<close>)
  then show ?thesis using e(1) c w by (simp add: swap_step_def)
qed

lemma swap_areas_runs:
  assumes fs: "fs_laws ops files cursor" "W = boot_fs_works ops files cursor req" and w: "W (bt_fs s)" and rq: "req_ok bsp req L"
    and i: "i1 < length (br_image_areas req)" "i2 < length (br_image_areas req)" "sc < length (br_image_areas req)"
      "br_image_areas req ! sc = br_scratch_area_idx req" "i1 \<noteq> i2" "i1 \<noteq> sc" "i2 \<noteq> sc"
    and len: "length (bt_entries s) = length (br_image_areas req)"
  shows "\<exists>s'. boot_swap_areas bsp (Some ops) req (uint (br_image_areas req ! i1)) (uint (br_image_areas req ! i2)) s = Some (0, s') \<and>
    bt_entries s' = (bt_entries s)[i1 := bt_entries s ! i2, i2 := bt_entries s ! i1, sc := none_entry]"
proof -
  let ?as = "br_image_areas req" and ?es = "bt_entries s"
  have "uint (?as ! a) \<noteq> uint (?as ! b)" if "a < length ?as" "b < length ?as" "a \<noteq> b" for a b
    using rq that by (auto simp: req_ok_def nth_eq_iff_index_eq dest: word_uint_eqI)
  then have ne: "uint (?as ! i1) \<noteq> uint (?as ! i2)" "uint (?as ! i1) \<noteq> uint (?as ! sc)" "uint (?as ! i2) \<noteq> uint (?as ! sc)" using i by blast+
  obtain s1 where s1: "swap_step bsp (Some ops) req (uint (?as ! i2)) (uint (?as ! sc)) (int i2) (int sc) s = Some (0, s1)"
      "bt_entries s1 = ?es[sc := ?es ! i2, i2 := none_entry]" "W (bt_fs s1)"
    using swap_step_runs [OF fs w rq i(2,3,7) len] by blast
  obtain s2 where s2: "swap_step bsp (Some ops) req (uint (?as ! i1)) (uint (?as ! i2)) (int i1) (int i2) s1 = Some (0, s2)"
      "bt_entries s2 = (bt_entries s1)[i2 := bt_entries s1 ! i1, i1 := none_entry]" "W (bt_fs s2)"
    using swap_step_runs [OF fs s1(3) rq i(1,2,5)] s1(2) len by auto
  obtain s3 where s3: "swap_step bsp (Some ops) req (uint (?as ! sc)) (uint (?as ! i1)) (int sc) (int i1) s2 = Some (0, s3)"
      "bt_entries s3 = (bt_entries s2)[i1 := bt_entries s2 ! sc, sc := none_entry]"
    using swap_step_runs [OF fs s2(3) rq i(3,1) i(6) [symmetric]] s1(2) s2(2) len by auto
  have "bt_entries s3 = ?es[i1 := ?es ! i2, i2 := ?es ! i1, sc := none_entry]"
    using s1(2) s2(2) s3(2) i len by (intro nth_equalityI) (auto simp: nth_list_update)
  then show ?thesis
    using ne s1(1) s2(1) s3(1) find_area_idx [OF rq i(1)] find_area_idx [OF rq i(2)] find_area_idx [OF rq i(3)]
    unfolding boot_swap_areas_def i(4) [symmetric] by (simp add: Let_def cong: if_cong)
qed

end

lemma find_part_none:
  assumes "e \<notin> set es"
  shows "find_part_from req (uint (bse_image_num e)) (uint (bse_part_num e)) es as = -1"
  using assms
  by (induction req "uint (bse_image_num e)" "uint (bse_part_num e)" es as rule: find_part_from.induct)
    (auto dest!: word_uint_eqI)

text \<open>
  C32: \<^verbatim>\<open>boot_swap_areas\<close> takes the scratch area without looking at what the status records there. If the
  scratch area holds a part that no other area holds, as it does when a reset stopped an earlier swap between its
  first and its last status write, then a swap of two other areas, on a flash and a file system where nothing fails, reports success
  and leaves no entry for that part: its only copy has been erased, and \<^verbatim>\<open>boot_find_image_part\<close> does not find
  it again.
\<close>

theorem boot_swap_drops_scratch:
  assumes "reliable_flash bsp view" "fs_laws ops files cursor" "boot_fs_works ops files cursor req (bt_fs s)" "req_ok bsp req L"
    and i: "i1 < length (br_image_areas req)" "i2 < length (br_image_areas req)" "sc < length (br_image_areas req)"
      "br_image_areas req ! sc = br_scratch_area_idx req" "i1 \<noteq> i2" "i1 \<noteq> sc" "i2 \<noteq> sc"
    and len: "length (bt_entries s) = length (br_image_areas req)"
    and e: "bt_entries s ! sc = e" "e \<noteq> none_entry" "\<forall>i < length (bt_entries s). bt_entries s ! i = e \<longrightarrow> i = sc"
  shows "\<exists>s'. boot_swap_areas bsp (Some ops) req (uint (br_image_areas req ! i1)) (uint (br_image_areas req ! i2)) s = Some (0, s') \<and>
    boot_find_image_part req (uint (bse_image_num e)) (uint (bse_part_num e)) s' = -1"
proof -
  let ?es = "bt_entries s"
  obtain s' where s': "boot_swap_areas bsp (Some ops) req (uint (br_image_areas req ! i1)) (uint (br_image_areas req ! i2)) s = Some (0, s')"
      "bt_entries s' = ?es[i1 := ?es ! i2, i2 := ?es ! i1, sc := none_entry]"
    using reliable_flash.swap_areas_runs [OF assms(1,2) refl assms(3,4) i len] by blast
  have n: "bt_entries s' ! k = (if k = sc then none_entry else if k = i2 then ?es ! i1 else if k = i1 then ?es ! i2 else ?es ! k)"
    if "k < length ?es" for k
    unfolding s'(2) using that i by (simp add: nth_list_update)
  have "bt_entries s' ! k \<noteq> e" if "k < length ?es" for k
    using n [OF that] that i len e(2,3) by metis
  then have "e \<notin> set (bt_entries s')" using s'(2) by (simp add: in_set_conv_nth)
  then show ?thesis using s'(1) by (auto simp: boot_find_image_part_def find_part_none)
qed

theorem boot_swap_drops_scratch_witness:
  "\<exists>s'. boot_swap_areas (bsp_flash_dev None) (Some ram_ops) (native_req []) 1 4 demo_resume = Some (0, s') \<and>
    boot_find_image_part (native_req []) 0 0 s' = -1"
proof -
  have "bt_entries demo_resume ! i = part 0 0 \<longrightarrow> i = 6" if "i < 7" for i
    using that by (auto simp: demo_resume_def part_def none_entry_def BOOT_IMAGE_NUM_NONE_def nth_Cons' split: if_splits)
  then have d: "length (bt_entries demo_resume) = 7" "bt_entries demo_resume ! 6 = part 0 0" "part 0 0 \<noteq> none_entry"
      "\<forall>i < length (bt_entries demo_resume). bt_entries demo_resume ! i = part 0 0 \<longrightarrow> i = 6"
    by (simp_all add: demo_resume_def part_def none_entry_def BOOT_IMAGE_NUM_NONE_def)
  have n: "length (br_image_areas (native_req [])) = 7" "br_image_areas (native_req []) ! 6 = br_scratch_area_idx (native_req [])"
      "br_image_areas (native_req []) ! 1 = 1" "br_image_areas (native_req []) ! 4 = 4"
    by (simp_all add: native_req_def)
  show ?thesis
    using boot_swap_drops_scratch [OF native.reliable_flash_axioms ram_laws ram_boot_works native_req_ok _ _ _ n(2) _ _ _ _ d(2-4), of 1 4 None] n d(1)
    by (simp add: part_def)
qed

end
