(* ===== verification/Libc_Malloc.thy ===== *)
theory Libc_Malloc imports Mynewt_Prelude begin

section \<open>The allocator of baselibc\<close>

text \<open>
  \<^verbatim>\<open>libs/baselibc/src/malloc.c\<close>, \<^verbatim>\<open>calloc.c\<close>, \<^verbatim>\<open>realloc.c\<close> and the \<^verbatim>\<open>_sbrk\<close> of the board. The headers of the blocks are in
  memory: every field of \<^verbatim>\<open>struct free_arena_header\<close> is a function from addresses to its value, the pointers are
  32-bit addresses, and the two lists are the chains of pointers of the code. The two fields of the free chain lie
  where the data of a used block begins. The lemmas show that the chains stay rings, that the blocks never overlap
  and that neighbouring free blocks are always joined, and from that what \<^verbatim>\<open>malloc\<close> and \<^verbatim>\<open>free\<close> promise.
\<close>

definition ARENA_TYPE_USED :: u32 where "ARENA_TYPE_USED = 0"

definition ARENA_TYPE_FREE :: u32 where "ARENA_TYPE_FREE = 1"

definition ARENA_TYPE_HEAD :: u32 where "ARENA_TYPE_HEAD = 2"

definition sizeof_arena_header :: u32 where "sizeof_arena_header = 16"

definition sizeof_free_arena_header :: u32 where "sizeof_free_arena_header = 24"

definition ARENA_SIZE_MASK :: u32 where "ARENA_SIZE_MASK = NOT (sizeof_arena_header - 1)"

record 'e arena =
  a_type :: "u32 \<Rightarrow> u32"
  a_size :: "u32 \<Rightarrow> u32"
  a_next :: "u32 \<Rightarrow> u32"
  a_prev :: "u32 \<Rightarrow> u32"
  next_free :: "u32 \<Rightarrow> u32"
  prev_free :: "u32 \<Rightarrow> u32"
  malloc_head :: u32
  malloc_lock :: "'e \<Rightarrow> bool \<times> 'e"
  malloc_unlock :: "'e \<Rightarrow> 'e"
  lock_env :: 'e
  heap_base :: u32
  heap_limit :: u32
  brk :: u32

definition malloc_lock_nop :: "'e \<Rightarrow> bool \<times> 'e" where
  "malloc_lock_nop e = (True, e)"

definition malloc_unlock_nop :: "'e \<Rightarrow> 'e" where
  "malloc_unlock_nop e = e"

definition arena_init :: "u32 \<Rightarrow> u32 \<Rightarrow> u32 \<Rightarrow> 'e \<Rightarrow> 'e arena" where
  "arena_init h base limit e = \<lparr>a_type = (\<lambda>_. 0)(h := ARENA_TYPE_HEAD), a_size = (\<lambda>_. 0),
     a_next = (\<lambda>_. 0)(h := h), a_prev = (\<lambda>_. 0)(h := h), next_free = (\<lambda>_. 0)(h := h), prev_free = (\<lambda>_. 0)(h := h),
     malloc_head = h, malloc_lock = malloc_lock_nop, malloc_unlock = malloc_unlock_nop, lock_env = e,
     heap_base = base, heap_limit = limit, brk = base\<rparr>"

definition set_malloc_locking :: "('e \<Rightarrow> bool \<times> 'e) option \<Rightarrow> ('e \<Rightarrow> 'e) option \<Rightarrow> 'e arena \<Rightarrow> 'e arena" where
  "set_malloc_locking lock unlock a =
     a\<lparr>malloc_lock := (case lock of Some f \<Rightarrow> f | None \<Rightarrow> malloc_lock_nop),
       malloc_unlock := (case unlock of Some f \<Rightarrow> f | None \<Rightarrow> malloc_unlock_nop)\<rparr>"

definition take_lock :: "'e arena \<Rightarrow> bool \<times> 'e arena" where
  "take_lock a = (let (ok, e) = malloc_lock a (lock_env a) in (ok, a\<lparr>lock_env := e\<rparr>))"

definition drop_lock :: "'e arena \<Rightarrow> 'e arena" where
  "drop_lock a = a\<lparr>lock_env := malloc_unlock a (lock_env a)\<rparr>"

definition remove_from_main_chain :: "u32 \<Rightarrow> 'e arena \<Rightarrow> 'e arena" where
  "remove_from_main_chain ah a =
     (let ap = a_prev a ah;
          an = a_next a ah;
          a1 = a\<lparr>a_next := (a_next a)(ap := an)\<rparr>
      in a1\<lparr>a_prev := (a_prev a1)(an := ap)\<rparr>)"

definition remove_from_free_chain :: "u32 \<Rightarrow> 'e arena \<Rightarrow> 'e arena" where
  "remove_from_free_chain ah a =
     (let ap = prev_free a ah;
          an = next_free a ah;
          a1 = a\<lparr>next_free := (next_free a)(ap := an)\<rparr>
      in a1\<lparr>prev_free := (prev_free a1)(an := ap)\<rparr>)"

definition remove_from_chains :: "u32 \<Rightarrow> 'e arena \<Rightarrow> 'e arena" where
  "remove_from_chains ah a = remove_from_main_chain ah (remove_from_free_chain ah a)"

definition malloc_from_block :: "u32 \<Rightarrow> u32 \<Rightarrow> 'e arena \<Rightarrow> u32 \<times> 'e arena" where
  "malloc_from_block fp sz a =
     (let fsize = a_size a fp
      in (fp + sizeof_arena_header,
          if sz + 2 * sizeof_arena_header \<le> fsize then
            let nfp = fp + sz;
                na = a_next a fp;
                a1 = a\<lparr>a_type := (a_type a)(nfp := ARENA_TYPE_FREE)\<rparr>;
                a2 = a1\<lparr>a_size := (a_size a1)(nfp := fsize - sz)\<rparr>;
                a3 = a2\<lparr>a_type := (a_type a2)(fp := ARENA_TYPE_USED)\<rparr>;
                a4 = a3\<lparr>a_size := (a_size a3)(fp := sz)\<rparr>;
                a5 = a4\<lparr>a_prev := (a_prev a4)(nfp := fp)\<rparr>;
                a6 = a5\<lparr>a_next := (a_next a5)(nfp := na)\<rparr>;
                a7 = a6\<lparr>a_prev := (a_prev a6)(na := nfp)\<rparr>;
                a8 = a7\<lparr>a_next := (a_next a7)(fp := nfp)\<rparr>;
                fpn = next_free a8 fp;
                a9 = a8\<lparr>next_free := (next_free a8)(nfp := fpn)\<rparr>;
                fpp = prev_free a9 fp;
                a10 = a9\<lparr>prev_free := (prev_free a9)(nfp := fpp)\<rparr>;
                a11 = a10\<lparr>prev_free := (prev_free a10)(fpn := nfp)\<rparr>
            in a11\<lparr>next_free := (next_free a11)(fpp := nfp)\<rparr>
          else remove_from_free_chain fp (a\<lparr>a_type := (a_type a)(fp := ARENA_TYPE_USED)\<rparr>)))"

definition join_prev :: "u32 \<Rightarrow> 'e arena \<Rightarrow> u32 \<times> 'e arena" where
  "join_prev ah a =
     (let pah = a_prev a ah;
          nah = a_next a ah
      in if a_type a pah = ARENA_TYPE_FREE \<and> pah + a_size a pah = ah then
           let a1 = a\<lparr>a_size := (a_size a)(pah := a_size a pah + a_size a ah)\<rparr>;
               a2 = a1\<lparr>a_next := (a_next a1)(pah := nah)\<rparr>
           in (pah, a2\<lparr>a_prev := (a_prev a2)(nah := pah)\<rparr>)
         else
           let a1 = a\<lparr>a_type := (a_type a)(ah := ARENA_TYPE_FREE)\<rparr>;
               a2 = a1\<lparr>next_free := (next_free a1)(ah := next_free a1 (malloc_head a))\<rparr>;
               a3 = a2\<lparr>prev_free := (prev_free a2)(ah := malloc_head a)\<rparr>;
               a4 = a3\<lparr>next_free := (next_free a3)(malloc_head a := ah)\<rparr>
           in (ah, a4\<lparr>prev_free := (prev_free a4)(next_free a4 ah := ah)\<rparr>))"

definition join_next :: "u32 \<Rightarrow> u32 \<Rightarrow> 'e arena \<Rightarrow> 'e arena" where
  "join_next ah nah a =
     (if a_type a nah = ARENA_TYPE_FREE \<and> ah + a_size a ah = nah
      then remove_from_chains nah (a\<lparr>a_size := (a_size a)(ah := a_size a ah + a_size a nah)\<rparr>)
      else a)"

definition free_block :: "u32 \<Rightarrow> 'e arena \<Rightarrow> u32 \<times> 'e arena" where
  "free_block ah a =
     (let nah = a_next a ah;
          (ah1, a1) = join_prev ah a
      in (ah1, join_next ah1 nah a1))"

partial_function (option) find_pred :: "'e arena \<Rightarrow> u32 \<Rightarrow> u32 \<Rightarrow> u32 option" where
  "find_pred a fp pah =
     (if a_type a pah = ARENA_TYPE_HEAD then Some pah
      else if pah < fp then Some pah else find_pred a fp (a_prev a pah))"

definition add_malloc_block :: "u32 \<Rightarrow> u32 \<Rightarrow> 'e arena \<Rightarrow> 'e arena option" where
  "add_malloc_block fp sz a =
     (if sz < sizeof_free_arena_header then Some a
      else let a1 = a\<lparr>a_type := (a_type a)(fp := ARENA_TYPE_FREE)\<rparr>;
               a2 = a1\<lparr>a_size := (a_size a1)(fp := sz)\<rparr>;
               (ok, a3) = take_lock a2
           in if \<not> ok then Some a3
              else do {
                pah \<leftarrow> find_pred a3 fp (a_prev a3 (malloc_head a3));
                let a4 = a3\<lparr>a_next := (a_next a3)(fp := a_next a3 pah)\<rparr>;
                let a5 = a4\<lparr>a_prev := (a_prev a4)(fp := pah)\<rparr>;
                let a6 = a5\<lparr>a_next := (a_next a5)(pah := fp)\<rparr>;
                let a7 = a6\<lparr>a_prev := (a_prev a6)(a_next a6 fp := fp)\<rparr>;
                Some (drop_lock (snd (free_block fp a7)))
              })"

text \<open>
  \<^verbatim>\<open>_sbrk\<close> takes a signed integer. Negating the least integer, and moving the break below address 0, have no
  result.
\<close>

definition sbrk :: "u32 \<Rightarrow> 'e arena \<Rightarrow> (u32 \<times> 'e arena) option" where
  "sbrk incr a =
     (if sint incr < 0 then
        if incr = 0x80000000 \<or> uint (brk a) + sint incr < 0 then None
        else if uint (brk a) + sint incr < uint (heap_base a) then Some (-1, a)
        else Some (brk a, a\<lparr>brk := brk a + incr\<rparr>)
      else if sint incr \<le> uint (heap_limit a) - uint (brk a) then Some (brk a, a\<lparr>brk := brk a + incr\<rparr>)
      else Some (-1, a))"

partial_function (option) find_fit :: "'e arena \<Rightarrow> u32 \<Rightarrow> u32 \<Rightarrow> u32 option option" where
  "find_fit a sz fp =
     (if a_type a fp = ARENA_TYPE_HEAD then Some None
      else if sz \<le> a_size a fp then Some (Some fp) else find_fit a sz (next_free a fp))"

partial_function (option) retry_alloc :: "u32 \<Rightarrow> 'e arena \<Rightarrow> (u32 \<times> 'e arena) option" where
  "retry_alloc sz a = do {
     fit \<leftarrow> find_fit a sz (next_free a (malloc_head a));
     let (result, a1) = (case fit of None \<Rightarrow> (0, a) | Some fp \<Rightarrow> malloc_from_block fp sz a);
     if result = 0 then do {
       (more_mem, a2) \<leftarrow> sbrk sz a1;
       if more_mem \<noteq> -1 then do { a3 \<leftarrow> add_malloc_block more_mem sz a2; retry_alloc sz a3 }
       else Some (0, a2)
     } else Some (result, a1)
   }"

definition arena_round :: "u32 \<Rightarrow> u32" where
  "arena_round sz = (sz + 2 * sizeof_arena_header - 1) AND ARENA_SIZE_MASK"

definition malloc :: "u32 \<Rightarrow> 'e arena \<Rightarrow> (u32 \<times> 'e arena) option" where
  "malloc sz a =
     (if sz = 0 then Some (0, a)
      else let (ok, a1) = take_lock a
           in if \<not> ok then Some (0, a1)
              else do { (p, a2) \<leftarrow> retry_alloc (arena_round sz) a1; Some (p, drop_lock a2) })"

definition free :: "u32 \<Rightarrow> 'e arena \<Rightarrow> 'e arena" where
  "free ptr a =
     (if ptr = 0 then a
      else let ah = ptr - sizeof_arena_header;
               (ok, a1) = take_lock a
           in if \<not> ok then a1 else drop_lock (snd (free_block ah a1)))"

partial_function (option) sum_free :: "'e arena \<Rightarrow> u32 \<Rightarrow> u32 \<times> u32 \<Rightarrow> (u32 \<times> u32) option" where
  "sum_free a fp st =
     (if a_type a fp = ARENA_TYPE_HEAD then Some st
      else sum_free a (next_free a fp)
        (fst st + a_size a fp, if snd st \<le> a_size a fp then a_size a fp else snd st))"

definition get_malloc_memory_status :: "'e arena \<Rightarrow> ((u32 \<times> u32) \<times> 'e arena) option" where
  "get_malloc_memory_status a =
     (let (ok, a1) = take_lock a
      in if \<not> ok then Some ((0, 0), a1)
         else do { st \<leftarrow> sum_free a1 (next_free a1 (malloc_head a1)) (0, 0); Some (st, drop_lock a1) })"

fun links :: "(u32 \<Rightarrow> u32) \<Rightarrow> (u32 \<Rightarrow> u32) \<Rightarrow> u32 list \<Rightarrow> bool" where
  "links nxt prv (x # y # zs) \<longleftrightarrow> nxt x = y \<and> prv y = x \<and> links nxt prv (y # zs)"
| "links nxt prv _ \<longleftrightarrow> True"

definition ring :: "(u32 \<Rightarrow> u32) \<Rightarrow> (u32 \<Rightarrow> u32) \<Rightarrow> u32 \<Rightarrow> u32 list \<Rightarrow> bool" where
  "ring nxt prv h xs \<longleftrightarrow> distinct (h # xs) \<and> links nxt prv (h # xs @ [h])"

text \<open>The neighbours of an element of a ring.\<close>

definition before :: "u32 \<Rightarrow> u32 list \<Rightarrow> u32" where
  "before h us = last (h # us)"

definition after :: "u32 \<Rightarrow> u32 list \<Rightarrow> u32" where
  "after h vs = List.hd (vs @ [h])"

definition layout :: "(u32 \<Rightarrow> u32) \<Rightarrow> u32 list \<Rightarrow> bool" where
  "layout sz bs \<longleftrightarrow> sorted_wrt (\<lambda>x y. unat x + unat (sz x) \<le> unat y) bs \<and>
     (\<forall>b \<in> set bs. 24 \<le> unat (sz b) \<and> unat b + unat (sz b) < 2 ^ 32)"

definition cover :: "(u32 \<Rightarrow> u32) \<Rightarrow> u32 list \<Rightarrow> nat set" where
  "cover sz bs = (\<Union>b \<in> set bs. {unat b ..< unat b + unat (sz b)})"

definition arena_inv :: "'e arena \<Rightarrow> u32 list \<Rightarrow> u32 list \<Rightarrow> u32 set \<Rightarrow> bool" where
  "arena_inv a bs fs X \<longleftrightarrow> ring (a_next a) (a_prev a) (malloc_head a) bs \<and> ring (next_free a) (prev_free a) (malloc_head a) fs \<and>
     a_type a (malloc_head a) = ARENA_TYPE_HEAD \<and> layout (a_size a) bs \<and> unat (malloc_head a) \<notin> cover (a_size a) bs \<and>
     set fs = {b \<in> set bs - X. a_type a b = ARENA_TYPE_FREE} \<and>
     (\<forall>b \<in> set bs - X. a_type a b = ARENA_TYPE_FREE \<or> a_type a b = ARENA_TYPE_USED)"

definition merged :: "'e arena \<Rightarrow> u32 list \<Rightarrow> bool" where
  "merged a fs \<longleftrightarrow> (\<forall>x \<in> set fs. x + a_size a x \<notin> set fs)"

definition used :: "'e arena \<Rightarrow> u32 list \<Rightarrow> (u32 \<times> u32 \<times> u32 \<times> u32) set" where
  "used a bs = (\<lambda>b. (b, a_size a b, next_free a b, prev_free a b)) ` {b \<in> set bs. a_type a b = ARENA_TYPE_USED}"

definition around :: "'e arena \<Rightarrow> u32 \<times> ('e \<Rightarrow> bool \<times> 'e) \<times> ('e \<Rightarrow> 'e) \<times> u32 \<times> u32 \<times> u32" where
  "around a = (malloc_head a, malloc_lock a, malloc_unlock a, heap_base a, heap_limit a, brk a)"

definition lock_works :: "'e arena \<Rightarrow> bool" where
  "lock_works a \<longleftrightarrow> (\<forall>e. fst (malloc_lock a e))"

text \<open>A well-formed arena: \<open>bs\<close> are its blocks in order of address and \<open>fs\<close> those on the free chain.\<close>

definition heap_ok :: "'e arena \<Rightarrow> u32 list \<Rightarrow> bool" where
  "heap_ok a bs \<longleftrightarrow> heap_base a \<le> brk a \<and> brk a \<le> heap_limit a \<and>
     {unat (brk a) ..< unat (heap_limit a)} \<inter> insert (unat (malloc_head a)) (cover (a_size a) bs) = {}"

definition arena_ok :: "'e arena \<Rightarrow> u32 list \<Rightarrow> u32 list \<Rightarrow> bool" where
  "arena_ok a bs fs \<longleftrightarrow> arena_inv a bs fs {} \<and> merged a fs \<and> lock_works a \<and> heap_ok a bs"

definition gained :: "u32 \<Rightarrow> u32 \<Rightarrow> 'e arena \<Rightarrow> u32 list \<Rightarrow> 'e arena \<Rightarrow> u32 list \<Rightarrow> bool" where
  "gained p sz a bs a' bs' \<longleftrightarrow> p \<noteq> 0 \<and> p - 16 \<notin> fst ` used a bs \<and>
     (\<exists>s x y. used a' bs' = insert (p - 16, s, x, y) (used a bs) \<and> sz \<le> s)"

text \<open>
  The bytes of the memory are an argument of the functions that copy or clear them. Copying to a null pointer has
  no result.
\<close>

definition calloc :: "u32 \<Rightarrow> u32 \<Rightarrow> 'e arena \<times> (u32 \<Rightarrow> u8) \<Rightarrow> (u32 \<times> 'e arena \<times> (u32 \<Rightarrow> u8)) option" where
  "calloc nmemb sz st =
     (let sz = sz * nmemb
      in do {
        (ptr, a) \<leftarrow> malloc sz (fst st);
        Some (ptr, a, if ptr \<noteq> 0 then (\<lambda>x. if x - ptr < sz then 0 else snd st x) else snd st)
      })"

definition realloc :: "u32 \<Rightarrow> u32 \<Rightarrow> 'e arena \<times> (u32 \<Rightarrow> u8) \<Rightarrow> (u32 \<times> 'e arena \<times> (u32 \<Rightarrow> u8)) option" where
  "realloc ptr sz st =
     (let (a, mem) = st
      in if ptr = 0 then do { (p, a1) \<leftarrow> malloc sz a; Some (p, a1, mem) }
         else if sz = 0 then Some (0, free ptr a, mem)
         else
           let sz = arena_round sz;
               ah = ptr - sizeof_arena_header
           in if sz \<le> a_size a ah \<and> drop_bit 2 (a_size a ah) \<le> sz then Some (ptr, a, mem)
              else
                let oldsize = a_size a ah - sizeof_arena_header
                in do {
                  (newptr, a1) \<leftarrow> malloc sz a;
                  if newptr = 0 then None
                  else
                    let len = (if sz < oldsize then sz else oldsize)
                    in Some (newptr, free ptr a1, \<lambda>x. if x - newptr < len then mem (ptr + (x - newptr)) else mem x)
                })"

text \<open>
  The history of a heap: the program starts with an empty one, takes blocks of at most \<open>2 ^ 31 - 65\<close> bytes, gives
  back blocks it holds, and writes into them, also where the free chain would be. \<open>L\<close> are the pointers the
  program holds with the sizes it asked for.
\<close>

inductive heap_run :: "'e arena \<Rightarrow> (u32 \<times> u32) list \<Rightarrow> bool" where
  start: "base \<le> limit \<Longrightarrow> h < base \<or> limit \<le> h \<Longrightarrow> heap_run (arena_init h base limit e) []"
| alloc: "heap_run a L \<Longrightarrow> unat n < 2 ^ 31 - 64 \<Longrightarrow> malloc n a = Some (p, a') \<Longrightarrow>
    heap_run a' (if p = 0 then L else (p, n) # L)"
| free: "heap_run a L \<Longrightarrow> (p, n) \<in> set L \<Longrightarrow> heap_run (free p a) (filter (\<lambda>q. fst q \<noteq> p) L)"
| data: "heap_run a L \<Longrightarrow> (p, n) \<in> set L \<Longrightarrow>
    heap_run (a\<lparr>next_free := (next_free a)(p - sizeof_arena_header := v), prev_free := (prev_free a)(p - sizeof_arena_header := w)\<rparr>) L"

definition holds :: "'e arena \<Rightarrow> u32 list \<Rightarrow> (u32 \<times> u32) list \<Rightarrow> bool" where
  "holds a bs L \<longleftrightarrow> distinct (map fst L) \<and> fst ` used a bs = (\<lambda>q. fst q - 16) ` set L \<and>
     (\<forall>(p, n) \<in> set L. p \<noteq> 0 \<and> n \<noteq> 0 \<and> unat n < 2 ^ 31 - 64 \<and> (\<exists>s x y. (p - 16, s, x, y) \<in> used a bs \<and> arena_round n \<le> s))"

definition demo_heap :: "unit arena" where
  "demo_heap = arena_init 0x1000 0x20000000 0x20001000 ()"

subsection \<open>Lemmas\<close>

lemma links_append:
  "links nxt prv (xs @ y # z # zs) \<longleftrightarrow> links nxt prv (xs @ [y]) \<and> nxt y = z \<and> prv z = y \<and> links nxt prv (z # zs)"
proof (induction xs)
  case (Cons x xs)
  then show ?case by (cases xs) auto
qed simp

lemma links_cong:
  "(\<And>x. x \<in> set (butlast xs) \<Longrightarrow> nxt' x = nxt x) \<Longrightarrow> (\<And>x. x \<in> set (tl xs) \<Longrightarrow> prv' x = prv x) \<Longrightarrow>
   links nxt' prv' xs = links nxt prv xs"
  by (induction nxt prv xs rule: links.induct) (auto split: if_splits)

lemma links_join:
  assumes "links nxt prv (xs @ [p])" "links nxt prv (q # ys)" "p \<notin> set xs" "p \<notin> set (butlast (q # ys))"
    and "q \<notin> set (tl (xs @ [p]))" "q \<notin> set ys"
  shows "links (nxt(p := q)) (prv(q := p)) (xs @ p # q # ys)"
proof -
  have "links (nxt(p := q)) (prv(q := p)) (xs @ [p])"
    by (subst links_cong [of _ _ nxt _ prv]) (use assms(1,3,5) in auto)
  moreover have "links (nxt(p := q)) (prv(q := p)) (q # ys)"
    by (subst links_cong [of _ _ nxt _ prv]) (use assms(2,4,6) in auto)
  ultimately show ?thesis by (simp add: links_append)
qed

lemma snoc_before: "h # us = butlast (h # us) @ [before h us]"
  by (simp add: before_def)

lemma cons_after: "vs @ [h] = after h vs # tl (vs @ [h])"
  by (cases vs) (simp_all add: after_def)

lemma ring_list: "h # (us @ vs) @ [h] = butlast (h # us) @ before h us # after h vs # tl (vs @ [h])"
  using snoc_before [of h us] cons_after [of vs h] by (metis append.assoc append_Cons append_Nil)

lemma ring_split:
  assumes "ring nxt prv h (us @ vs)"
  shows "links nxt prv (h # us)" "links nxt prv (vs @ [h])" "nxt (before h us) = after h vs" "prv (after h vs) = before h us"
  using assms snoc_before [of h us] cons_after [of vs h] unfolding ring_def ring_list links_append by simp_all

lemma ring_neighbours:
  assumes "ring nxt prv h (us @ x # vs)"
  shows "nxt x = after h vs" "prv x = before h us" "nxt (before h us) = x" "prv (after h vs) = x"
  using ring_split(3,4) [of nxt prv h us "x # vs"] ring_split(3,4) [of nxt prv h "us @ [x]" vs] assms
  by (simp_all add: after_def before_def)

lemma ring_join:
  assumes "links nxt prv (h # us)" "links nxt prv (vs @ [h])" "distinct (h # us @ vs)"
  shows "ring (nxt(before h us := after h vs)) (prv(after h vs := before h us)) h (us @ vs)"
proof -
  let ?p = "before h us" and ?q = "after h vs"
  have "links (nxt(?p := ?q)) (prv(?q := ?p)) (butlast (h # us) @ ?p # ?q # tl (vs @ [h]))"
    using assms(1,2) snoc_before [of h us] cons_after [of vs h]
    by (intro links_join) (simp_all, (use assms(3) in \<open>cases us rule: rev_cases; cases vs; auto simp: before_def after_def\<close>)+)
  then show ?thesis using assms(3) unfolding ring_def ring_list by simp
qed

lemma ring_remove:
  assumes "ring nxt prv h (us @ x # vs)"
  shows "ring (nxt(prv x := nxt x)) (prv(nxt x := prv x)) h (us @ vs)"
proof -
  have "links nxt prv (h # us)" "links nxt prv (vs @ [h])"
    using ring_split [of nxt prv h us "x # vs"] ring_split [of nxt prv h "us @ [x]" vs] assms by simp_all
  moreover have "distinct (h # us @ vs)" using assms by (auto simp: ring_def)
  ultimately show ?thesis using ring_join ring_neighbours(1,2) [OF assms] by simp
qed

lemma ring_insert:
  assumes "ring nxt prv h (us @ vs)" "x \<notin> set (h # us @ vs)"
  shows "ring (nxt(x := after h vs, before h us := x)) (prv(x := before h us, after h vs := x)) h (us @ x # vs)"
proof -
  note s = ring_split [OF assms(1)]
  let ?p = "before h us" and ?q = "after h vs"
  have n: "?p \<noteq> x" "?q \<noteq> x" using assms(2) by (cases us rule: rev_cases; cases vs; auto simp: before_def after_def)+
  have b: "before h (us @ [x]) = x" "after h (x # vs) = x" by (simp_all add: before_def after_def)
  have "links (nxt(?p := x)) (prv(x := ?p)) (butlast (h # us) @ ?p # x # [])"
    using s(1) snoc_before [of h us]
    by (intro links_join) (simp_all, (use assms in \<open>cases us rule: rev_cases; auto simp: before_def ring_def\<close>)+)
  then have "links (nxt(?p := x)) (prv(x := ?p)) (h # us @ [x])" by (cases us rule: rev_cases) (simp_all add: before_def)
  moreover have "links (nxt(?p := x)) (prv(x := ?p)) (vs @ [h])"
    using s(2) by (subst links_cong [of _ _ nxt _ prv]) (use assms in \<open>cases us rule: rev_cases; cases vs; auto simp: before_def ring_def\<close>)+
  ultimately have "ring ((nxt(?p := x))(x := ?q)) ((prv(x := ?p))(?q := x)) h ((us @ [x]) @ vs)"
    using ring_join [of "nxt(?p := x)" "prv(x := ?p)" h "us @ [x]" vs] assms b by (auto simp: ring_def)
  then show ?thesis using n by (simp add: fun_upd_twist)
qed

subsection \<open>Layout\<close>

lemma layout_append:
  "layout sz (us @ vs) \<longleftrightarrow> layout sz us \<and> layout sz vs \<and> (\<forall>x \<in> set us. \<forall>y \<in> set vs. unat x + unat (sz x) \<le> unat y)"
  by (auto simp: layout_def sorted_wrt_append)

lemma layout_Cons:
  "layout sz (x # vs) \<longleftrightarrow> 24 \<le> unat (sz x) \<and> unat x + unat (sz x) < 2 ^ 32 \<and> layout sz vs \<and>
     (\<forall>y \<in> set vs. unat x + unat (sz x) \<le> unat y)"
  by (auto simp: layout_def)

lemma cover_append [simp]: "cover sz (us @ vs) = cover sz us \<union> cover sz vs"
  by (simp add: cover_def)

lemma cover_Cons [simp]: "cover sz (x # vs) = {unat x ..< unat x + unat (sz x)} \<union> cover sz vs"
  by (simp add: cover_def)

lemma cover_Nil [simp]: "cover sz [] = {}"
  by (simp add: cover_def)

lemma layout_cong: "(\<And>x. x \<in> set bs \<Longrightarrow> sz' x = sz x) \<Longrightarrow> layout sz' bs = layout sz bs"
  unfolding layout_def by (metis (mono_tags, lifting) sorted_wrt_mono_rel)

lemma cover_cong: "(\<And>x. x \<in> set bs \<Longrightarrow> sz' x = sz x) \<Longrightarrow> cover sz' bs = cover sz bs"
  unfolding cover_def by (intro SUP_cong) auto

lemma layout_upd [simp]: "x \<notin> set bs \<Longrightarrow> layout (sz(x := s)) bs = layout sz bs"
  by (rule layout_cong) auto

lemma cover_upd [simp]: "x \<notin> set bs \<Longrightarrow> cover (sz(x := s)) bs = cover sz bs"
  by (rule cover_cong) auto

lemma layout_mid:
  assumes "layout sz (us @ x # vs)"
  shows "y \<in> set us \<Longrightarrow> unat y < unat x" "y \<in> set vs \<Longrightarrow> unat x < unat y" "x \<notin> set us" "x \<notin> set vs"
proof -
  have u: "unat y < unat x" if "y \<in> set us" for y
  proof -
    have "24 \<le> unat (sz y)" "unat y + unat (sz y) \<le> unat x" using assms that by (auto simp: layout_def sorted_wrt_append)
    then show ?thesis by linarith
  qed
  have v: "unat x < unat y" if "y \<in> set vs" for y
  proof -
    have "24 \<le> unat (sz x)" "unat x + unat (sz x) \<le> unat y" using assms that by (auto simp: layout_def sorted_wrt_append)
    then show ?thesis by linarith
  qed
  from u v show "y \<in> set us \<Longrightarrow> unat y < unat x" "y \<in> set vs \<Longrightarrow> unat x < unat y" "x \<notin> set us" "x \<notin> set vs" by blast+
qed

lemma layout_split:
  assumes "layout sz (us @ x # vs)" "24 \<le> unat s" "unat s + 24 \<le> unat (sz x)"
  shows "layout (sz(x + s := sz x - s, x := s)) (us @ x # (x + s) # vs)"
    and "cover (sz(x + s := sz x - s, x := s)) (us @ x # (x + s) # vs) = cover sz (us @ x # vs)"
    and "x + s \<notin> set (us @ x # vs)" "unat (x + s) = unat x + unat s"
proof -
  have b: "unat x + unat (sz x) < 2 ^ 32" using assms(1) by (simp add: layout_append layout_Cons)
  show n: "unat (x + s) = unat x + unat s" using assms(3) b by (simp add: unat_word_ariths)
  have m: "unat (sz x - s) = unat (sz x) - unat s" using assms(3) by (intro unat_sub) (simp add: word_le_nat_alt)
  have ne: "x + s \<noteq> x" using n assms(2) by auto
  have nu: "x + s \<notin> set us" using layout_mid(1) [OF assms(1), of "x + s"] n by auto
  have nv: "x + s \<notin> set vs" using assms n by (auto simp: layout_append layout_Cons)
  show "x + s \<notin> set (us @ x # vs)" using ne nu nv by simp
  show "layout (sz(x + s := sz x - s, x := s)) (us @ x # (x + s) # vs)"
    using assms n m ne nu nv layout_mid(3,4) [OF assms(1)] by (auto simp: layout_append layout_Cons)
  show "cover (sz(x + s := sz x - s, x := s)) (us @ x # (x + s) # vs) = cover sz (us @ x # vs)"
    using n m ne nu nv layout_mid(3,4) [OF assms(1)] assms(3) by auto
qed

lemma layout_merge:
  assumes "layout sz (us @ x # y # vs)" "x + sz x = y"
  shows "layout (sz(x := sz x + sz y)) (us @ x # vs)" "cover (sz(x := sz x + sz y)) (us @ x # vs) = cover sz (us @ x # y # vs)"
    and "unat (sz x + sz y) = unat (sz x) + unat (sz y)"
proof -
  note l = assms(1) [unfolded layout_append layout_Cons]
  have "unat (x + sz x) = unat x + unat (sz x)" using l by (simp add: unat_word_ariths)
  then have y: "unat y = unat x + unat (sz x)" using assms(2) by simp
  show s: "unat (sz x + sz y) = unat (sz x) + unat (sz y)" using l y by (simp add: unat_word_ariths)
  have "x \<notin> set us" "x \<notin> set vs" using layout_mid(3,4) [OF assms(1)] by simp_all
  then show "layout (sz(x := sz x + sz y)) (us @ x # vs)" "cover (sz(x := sz x + sz y)) (us @ x # vs) = cover sz (us @ x # y # vs)"
    using l s y by (auto simp: layout_append layout_Cons)
qed

lemma layout_next:
  assumes "layout sz (us @ x # vs)" "y \<in> set (us @ x # vs)"
  shows "x + sz x = y \<Longrightarrow> \<exists>ws. vs = y # ws" "y + sz y = x \<Longrightarrow> \<exists>ws. us = ws @ [y]"
proof -
  note l = assms(1) [unfolded layout_append layout_Cons]
  assume e: "x + sz x = y"
  have "unat (x + sz x) = unat x + unat (sz x)" using l by (simp add: unat_word_ariths)
  then have y: "unat y = unat x + unat (sz x)" using e by simp
  then have "y \<in> set vs" using assms(2) layout_mid(1) [OF assms(1), of y] l by auto
  then obtain ws zs where vs: "vs = ws @ y # zs" by (meson split_list)
  have "ws = []"
  proof (cases ws)
    case (Cons w ws')
    then show ?thesis using l y unfolding vs by (auto simp: layout_append layout_Cons)
  qed simp
  then show "\<exists>ws. vs = y # ws" using vs by simp
next
  note l = assms(1) [unfolded layout_append layout_Cons]
  assume e: "y + sz y = x"
  have "unat y + unat (sz y) < 2 ^ 32" "24 \<le> unat (sz y)" using assms by (auto simp: layout_def)
  moreover from this have "unat (y + sz y) = unat y + unat (sz y)" by (simp add: unat_word_ariths)
  ultimately have y: "unat x = unat y + unat (sz y)" "unat y < unat x" using e by simp_all
  then have "y \<in> set us" using assms(2) layout_mid(2) [OF assms(1), of y] by auto
  then obtain ws zs where us: "us = ws @ y # zs" by (meson split_list)
  have "zs = []"
  proof (cases zs)
    case (Cons w ws')
    then show ?thesis using l y unfolding us by (auto simp: layout_append layout_Cons)
  qed simp
  then show "\<exists>ws. us = ws @ [y]" using us by simp
qed

lemmas arena_types = ARENA_TYPE_FREE_def ARENA_TYPE_USED_def ARENA_TYPE_HEAD_def

lemma ring_replace:
  assumes "ring nxt prv h (us @ x # vs)" "y \<notin> set (h # us @ x # vs)"
  shows "ring (nxt(y := nxt x, prv x := y)) (prv(y := prv x, nxt x := y)) h (us @ y # vs)"
proof -
  note n = ring_neighbours(1,2) [OF assms(1)]
  have "ring ((nxt(prv x := nxt x))(y := nxt x, prv x := y)) ((prv(nxt x := prv x))(y := prv x, nxt x := y)) h (us @ y # vs)"
    using ring_insert [OF ring_remove [OF assms(1)], of y] assms(2) n by simp
  moreover have "y \<noteq> prv x" "y \<noteq> nxt x"
    using assms(2) n by (cases us rule: rev_cases; cases vs; auto simp: before_def after_def)+
  ultimately show ?thesis by (simp add: fun_upd_twist)
qed

lemma ring_after:
  assumes "ring nxt prv h (us @ x # vs)" "y \<notin> set (h # us @ x # vs)"
  shows "ring (nxt(y := nxt x, x := y)) (prv(y := x, nxt x := y)) h (us @ x # y # vs)"
  using ring_insert [of nxt prv h "us @ [x]" vs y] assms ring_neighbours(1) [OF assms(1)] by (simp add: before_def)

lemma ring_nbr_in:
  assumes "ring nxt prv h xs" "x \<in> set xs"
  shows "nxt x \<in> insert h (set xs)" "prv x \<in> insert h (set xs)"
proof -
  obtain us vs where xs: "xs = us @ x # vs" using assms(2) by (meson split_list)
  show "nxt x \<in> insert h (set xs)" "prv x \<in> insert h (set xs)"
    using ring_neighbours(1,2) [OF assms(1) [unfolded xs]] unfolding xs
    by (cases us rule: rev_cases; cases vs; auto simp: before_def after_def)+
qed

lemma cover_mem: "b \<in> set bs \<Longrightarrow> 0 < unat (sz b) \<Longrightarrow> unat b \<in> cover sz bs"
  by (force simp: cover_def)

lemma remove_free_eq:
  "remove_from_free_chain x a = a\<lparr>next_free := (next_free a)(prev_free a x := next_free a x),
     prev_free := (prev_free a)(next_free a x := prev_free a x)\<rparr>"
  by (simp add: remove_from_free_chain_def Let_def)

lemma remove_main_eq:
  "remove_from_main_chain x a = a\<lparr>a_next := (a_next a)(a_prev a x := a_next a x),
     a_prev := (a_prev a)(a_next a x := a_prev a x)\<rparr>"
  by (simp add: remove_from_main_chain_def Let_def)

lemma arena_invD:
  assumes "arena_inv a bs fs X"
  shows "ring (a_next a) (a_prev a) (malloc_head a) bs" "ring (next_free a) (prev_free a) (malloc_head a) fs"
    "a_type a (malloc_head a) = ARENA_TYPE_HEAD" "layout (a_size a) bs" "unat (malloc_head a) \<notin> cover (a_size a) bs"
    "set fs = {b \<in> set bs - X. a_type a b = ARENA_TYPE_FREE}"
    "\<forall>b \<in> set bs - X. a_type a b = ARENA_TYPE_FREE \<or> a_type a b = ARENA_TYPE_USED"
    "malloc_head a \<notin> set bs" "distinct bs" "distinct fs" "set fs \<subseteq> set bs"
  using assms by (auto simp: arena_inv_def ring_def)

lemma from_block_eq:
  assumes "sz + 2 * sizeof_arena_header \<le> a_size a fp" "fp + sz \<noteq> fp"
  shows "malloc_from_block fp sz a = (fp + 16, a\<lparr>a_type := (a_type a)(fp + sz := ARENA_TYPE_FREE, fp := ARENA_TYPE_USED),
    a_size := (a_size a)(fp + sz := a_size a fp - sz, fp := sz),
    a_next := (a_next a)(fp + sz := a_next a fp, fp := fp + sz), a_prev := (a_prev a)(fp + sz := fp, a_next a fp := fp + sz),
    next_free := (next_free a)(fp + sz := next_free a fp, prev_free a fp := fp + sz),
    prev_free := (prev_free a)(fp + sz := prev_free a fp, next_free a fp := fp + sz)\<rparr>)"
  using assms by (simp add: malloc_from_block_def sizeof_arena_header_def Let_def)

lemma used_insert:
  assumes "{b \<in> set bs'. a_type a' b = ARENA_TYPE_USED} = insert x {b \<in> set bs. a_type a b = ARENA_TYPE_USED}"
    and "\<And>b. b \<in> set bs \<Longrightarrow> a_type a b = ARENA_TYPE_USED \<Longrightarrow> a_size a' b = a_size a b \<and> next_free a' b = next_free a b \<and> prev_free a' b = prev_free a b"
  shows "used a' bs' = insert (x, a_size a' x, next_free a' x, prev_free a' x) (used a bs)"
  unfolding used_def assms(1) image_insert using assms(2) by (auto intro!: image_eqI)

lemma used_eq:
  assumes "\<And>b. (b \<in> set bs' \<and> a_type a' b = ARENA_TYPE_USED) = (b \<in> set bs \<and> a_type a b = ARENA_TYPE_USED)"
    and "\<And>b. b \<in> set bs \<Longrightarrow> a_type a b = ARENA_TYPE_USED \<Longrightarrow> a_size a' b = a_size a b \<and> next_free a' b = next_free a b \<and> prev_free a' b = prev_free a b"
  shows "used a' bs' = used a bs"
  unfolding used_def assms(1) using assms(2) by (auto intro!: image_eqI)

lemma unat_end: "layout sz bs \<Longrightarrow> x \<in> set bs \<Longrightarrow> unat (x + sz x) = unat x + unat (sz x)"
  by (simp add: layout_def unat_word_ariths)

text \<open>A block whose end is the end or the inside of another one is that block.\<close>

lemma layout_end_inside:
  assumes "layout sz bs" "x \<in> set bs" "y \<in> set bs" "unat y < unat (x + sz x)" "unat (x + sz x) \<le> unat y + unat (sz y)"
  shows "x = y"
proof (rule ccontr)
  assume ne: "x \<noteq> y"
  obtain us vs where bs: "bs = us @ y # vs" using assms(3) by (meson split_list)
  have z: "24 \<le> unat (sz x)" using assms(1,2) by (simp add: layout_def)
  have "x \<in> set us \<or> x \<in> set vs" using assms(2) ne bs by auto
  then have "unat x + unat (sz x) \<le> unat y \<or> unat y + unat (sz y) \<le> unat x"
    using assms(1) unfolding bs layout_append layout_Cons by auto
  then show False using assms(4,5) z unfolding unat_end [OF assms(1,2)] by linarith
qed

lemma split_block:
  assumes inv: "arena_inv a bs fs {}" "merged a fs"
    and fp: "fp \<in> set fs" "32 \<le> unat sz" "unat sz + 32 \<le> unat (a_size a fp)"
  shows "\<exists>a' bs' fs'. malloc_from_block fp sz a = (fp + 16, a') \<and> arena_inv a' bs' fs' {} \<and> merged a' fs' \<and>
    used a' bs' = insert (fp, a_size a' fp, next_free a' fp, prev_free a' fp) (used a bs) \<and> sz \<le> a_size a' fp \<and>
    cover (a_size a') bs' = cover (a_size a) bs \<and> around a' = around a"
proof -
  let ?h = "malloc_head a"
  define n where "n = fp + sz"
  note i = arena_invD [OF inv(1)]
  have b: "fp \<in> set bs" "a_type a fp = ARENA_TYPE_FREE" using i(6) fp(1) by auto
  obtain A B where bs: "bs = A @ fp # B" using b(1) by (meson split_list)
  obtain us vs where fs: "fs = us @ fp # vs" using fp(1) by (meson split_list)
  define a' where "a' = snd (malloc_from_block fp sz a)"
  define bs' where "bs' = A @ fp # n # B"
  define fs' where "fs' = us @ n # vs"
  have l: "layout (a_size a) (A @ fp # B)" "24 \<le> unat sz" "unat sz + 24 \<le> unat (a_size a fp)" using i(4) fp bs by auto
  note s = layout_split [OF l, folded n_def]
  have nfp: "n \<noteq> fp" "n \<notin> set bs" using s(3,4) fp(2) bs by auto
  have c: "sz + 2 * sizeof_arena_header \<le> a_size a fp"
    using fp(3) unsigned_less [of "a_size a fp"] by (simp add: sizeof_arena_header_def word_le_nat_alt unat_word_ariths)
  note eq = from_block_eq [OF c nfp(1) [unfolded n_def], folded n_def]
  have "unat n \<in> cover (a_size a) bs"
    using s(4) fp(2,3) bs by auto
  then have nh: "n \<noteq> ?h" using i(5) by auto
  have a': "a_type a' = (a_type a)(n := ARENA_TYPE_FREE, fp := ARENA_TYPE_USED)" "a_size a' = (a_size a)(n := a_size a fp - sz, fp := sz)"
    "a_next a' = (a_next a)(n := a_next a fp, fp := n)" "a_prev a' = (a_prev a)(n := fp, a_next a fp := n)"
    "next_free a' = (next_free a)(n := next_free a fp, prev_free a fp := n)"
    "prev_free a' = (prev_free a)(n := prev_free a fp, next_free a fp := n)" "malloc_head a' = ?h" "around a' = around a"
    by (simp_all add: a'_def eq around_def)
  have sz: "n \<notin> set (?h # us @ fp # vs)" "n \<notin> set (?h # A @ fp # B)" using nfp nh i(11) bs fs by auto
  have "arena_inv a' bs' fs' {}"
    unfolding arena_inv_def
  proof (intro conjI)
    show "ring (a_next a') (a_prev a') (malloc_head a') bs'" unfolding a' bs'_def
      by (rule ring_after [OF _ sz(2)]) (use i(1) bs in simp)
    show "ring (next_free a') (prev_free a') (malloc_head a') fs'" unfolding a' fs'_def
      by (rule ring_replace [OF _ sz(1)]) (use i(2) fs in simp)
    show "a_type a' (malloc_head a') = ARENA_TYPE_HEAD" using i(3,8) nh b(1) by (auto simp: a')
    show "layout (a_size a') bs'" unfolding a' bs'_def by (rule s(1))
    show "unat (malloc_head a') \<notin> cover (a_size a') bs'" unfolding a' bs'_def s(2) using i(5) bs by simp
    show "set fs' = {b \<in> set bs' - {}. a_type a' b = ARENA_TYPE_FREE}"
    proof -
      have "set us \<union> set vs = set fs - {fp}" using i(10) fs by auto
      then show ?thesis using i(6,9) nfp unfolding fs'_def bs'_def bs a'(1) by (auto simp: arena_types)
    qed
    show "\<forall>b \<in> set bs' - {}. a_type a' b = ARENA_TYPE_FREE \<or> a_type a' b = ARENA_TYPE_USED"
      using i(7) unfolding bs'_def bs a'(1) by auto
  qed
  moreover have "merged a' fs'"
    unfolding merged_def
  proof
    fix x assume x: "x \<in> set fs'"
    show "x + a_size a' x \<notin> set fs'"
    proof (cases "x = n")
      case True
      have "x + a_size a' x = fp + a_size a fp" using True nfp(1) by (simp add: a'(2)) (simp add: n_def)
      moreover have "fp + a_size a fp \<notin> set fs" using inv(2) fp(1) by (simp add: merged_def)
      moreover have "fp + a_size a fp \<noteq> n" using fp(3) by (auto simp: n_def)
      ultimately show ?thesis by (auto simp: fs'_def fs)
    next
      case False
      then have x': "x \<in> set fs" "x \<noteq> fp" "x \<in> set bs" using x i(10,11) fs by (auto simp: fs'_def)
      have "x + a_size a x \<noteq> n"
      proof
        assume "x + a_size a x = n"
        then have "x = fp" using layout_end_inside [OF i(4) x'(3) b(1)] s(4) fp(2,3) by simp
        then show False using x'(2) by simp
      qed
      then show ?thesis using x' inv(2) False by (auto simp: a'(2) fs'_def fs merged_def)
    qed
  qed
  moreover have "used a' bs' = insert (fp, a_size a' fp, next_free a' fp, prev_free a' fp) (used a bs)"
  proof (rule used_insert)
    show "{b \<in> set bs'. a_type a' b = ARENA_TYPE_USED} = insert fp {b \<in> set bs. a_type a b = ARENA_TYPE_USED}"
    proof -
      have e: "set bs' = insert n (set bs)" by (auto simp: bs'_def bs)
      have "y \<in> {b \<in> set bs'. a_type a' b = ARENA_TYPE_USED} \<longleftrightarrow> y \<in> insert fp {b \<in> set bs. a_type a b = ARENA_TYPE_USED}" for y
        using nfp b(1) by (cases "y = n"; cases "y = fp") (simp_all add: e a'(1) arena_types)
      then show ?thesis by (rule set_eqI)
    qed
  next
    fix x assume x: "x \<in> set bs" "a_type a x = ARENA_TYPE_USED"
    have "x \<noteq> fp" using x(2) b(2) by (auto simp: arena_types)
    moreover have "x \<noteq> n" "x \<noteq> ?h" using x(1) nfp(2) i(8) by blast+
    moreover have "x \<notin> set fs" unfolding i(6) using x(2) by (simp add: arena_types)
    ultimately show "a_size a' x = a_size a x \<and> next_free a' x = next_free a x \<and> prev_free a' x = prev_free a x"
      using ring_nbr_in [OF i(2) fp(1)] by (auto simp: a')
  qed
  moreover have "malloc_from_block fp sz a = (fp + 16, a')" by (simp add: a'_def eq)
  moreover have "sz \<le> a_size a' fp" by (simp add: a')
  moreover have "cover (a_size a') bs' = cover (a_size a) bs" unfolding a' bs'_def s(2) bs ..
  ultimately show ?thesis using a'(8) by blast
qed

lemma whole_block:
  assumes inv: "arena_inv a bs fs {}" "merged a fs" and fp: "fp \<in> set fs" "sz \<le> a_size a fp"
    and c: "\<not> sz + 2 * sizeof_arena_header \<le> a_size a fp"
  shows "\<exists>a' bs' fs'. malloc_from_block fp sz a = (fp + 16, a') \<and> arena_inv a' bs' fs' {} \<and> merged a' fs' \<and>
    used a' bs' = insert (fp, a_size a' fp, next_free a' fp, prev_free a' fp) (used a bs) \<and> sz \<le> a_size a' fp \<and>
    cover (a_size a') bs' = cover (a_size a) bs \<and> around a' = around a"
proof -
  let ?h = "malloc_head a"
  note i = arena_invD [OF inv(1)]
  have b: "fp \<in> set bs" "a_type a fp = ARENA_TYPE_FREE" using i(6) fp(1) by auto
  obtain us vs where fs: "fs = us @ fp # vs" using fp(1) by (meson split_list)
  define a' where "a' = remove_from_free_chain fp (a\<lparr>a_type := (a_type a)(fp := ARENA_TYPE_USED)\<rparr>)"
  have a': "a_type a' = (a_type a)(fp := ARENA_TYPE_USED)" "a_size a' = a_size a" "a_next a' = a_next a" "a_prev a' = a_prev a"
    "next_free a' = (next_free a)(prev_free a fp := next_free a fp)"
    "prev_free a' = (prev_free a)(next_free a fp := prev_free a fp)" "malloc_head a' = ?h" "around a' = around a"
    by (simp_all add: a'_def remove_free_eq around_def)
  have s: "set (us @ vs) = set fs - {fp}" using i(10) fs by auto
  have "arena_inv a' bs (us @ vs) {}"
    unfolding arena_inv_def
  proof (intro conjI)
    show "ring (next_free a') (prev_free a') (malloc_head a') (us @ vs)" unfolding a'
      by (rule ring_remove) (use i(2) fs in simp)
    show "a_type a' (malloc_head a') = ARENA_TYPE_HEAD" using i(3,8) b(1) by (auto simp: a')
    show "set (us @ vs) = {b \<in> set bs - {}. a_type a' b = ARENA_TYPE_FREE}" unfolding s i(6) by (auto simp: a' arena_types)
    show "\<forall>b \<in> set bs - {}. a_type a' b = ARENA_TYPE_FREE \<or> a_type a' b = ARENA_TYPE_USED" using i(7) by (auto simp: a')
  qed (use i(1,4,5) in \<open>simp_all add: a'\<close>)
  moreover have "merged a' (us @ vs)" using inv(2) unfolding merged_def s by (simp add: a')
  moreover have "used a' bs = insert (fp, a_size a' fp, next_free a' fp, prev_free a' fp) (used a bs)"
  proof (rule used_insert)
    show "{b \<in> set bs. a_type a' b = ARENA_TYPE_USED} = insert fp {b \<in> set bs. a_type a b = ARENA_TYPE_USED}"
      using b(1) by (auto simp: a')
  next
    fix x assume x: "x \<in> set bs" "a_type a x = ARENA_TYPE_USED"
    have "x \<noteq> ?h" using x(1) i(8) by blast
    moreover have "x \<notin> set fs" unfolding i(6) using x(2) by (simp add: arena_types)
    ultimately show "a_size a' x = a_size a x \<and> next_free a' x = next_free a x \<and> prev_free a' x = prev_free a x"
      using ring_nbr_in [OF i(2) fp(1)] by (auto simp: a')
  qed
  moreover have "malloc_from_block fp sz a = (fp + 16, a')"
    using c by (simp add: malloc_from_block_def sizeof_arena_header_def a'_def)
  ultimately show ?thesis using a'(2,8) fp(2) by metis
qed

lemma from_block:
  assumes inv: "arena_inv a bs fs {}" "merged a fs"
    and fp: "fp \<in> set fs" "32 \<le> unat sz" "sz \<le> a_size a fp" "unat sz + 32 < 2 ^ 32"
  shows "\<exists>a' bs' fs'. malloc_from_block fp sz a = (fp + 16, a') \<and> arena_inv a' bs' fs' {} \<and> merged a' fs' \<and>
    used a' bs' = insert (fp, a_size a' fp, next_free a' fp, prev_free a' fp) (used a bs) \<and> sz \<le> a_size a' fp \<and>
    cover (a_size a') bs' = cover (a_size a) bs \<and> around a' = around a"
proof (cases "sz + 2 * sizeof_arena_header \<le> a_size a fp")
  case True
  then have "unat sz + 32 \<le> unat (a_size a fp)"
    using fp(4) by (simp add: sizeof_arena_header_def word_le_nat_alt unat_word_ariths)
  then show ?thesis by (rule split_block [OF inv fp(1,2)])
qed (rule whole_block [OF inv fp(1,3)])

subsection \<open>Freeing\<close>

lemma join_prev_free:
  assumes inv: "arena_inv a bs fs {ah}" "merged a fs" and bs: "bs = us @ ah # vs"
    and c: "a_type a (a_prev a ah) = ARENA_TYPE_FREE \<and> a_prev a ah + a_size a (a_prev a ah) = ah"
  shows "\<exists>ah' a' us'. join_prev ah a = (ah', a') \<and> arena_inv a' (us' @ ah' # vs) fs {} \<and> ah' \<in> set fs \<and>
    (\<forall>y \<in> set fs. y + a_size a' y \<in> set fs \<longrightarrow> y = ah') \<and>
    used a' (us' @ ah' # vs) = used a (us @ vs) \<and> a_size a ah \<le> a_size a' ah' \<and>
    cover (a_size a') (us' @ ah' # vs) = cover (a_size a) bs \<and> around a' = around a"
proof -
  let ?h = "malloc_head a"
  note i = arena_invD [OF inv(1)]
  define p where "p = a_prev a ah"
  have p: "p = before ?h us" "a_type a p = ARENA_TYPE_FREE" "p + a_size a p = ah"
    using ring_neighbours(2) [OF i(1) [unfolded bs]] c by (simp_all add: p_def)
  have "us \<noteq> []" using p(1,2) i(3) by (auto simp: before_def arena_types)
  then obtain us' where us: "us = us' @ [p]" using p(1) by (metis append_butlast_last_id before_def last_ConsR)
  define a' where "a' = snd (join_prev ah a)"
  have eq: "join_prev ah a = (p, a')" using c by (simp add: a'_def join_prev_def Let_def p_def)
  have a': "a_type a' = a_type a" "a_size a' = (a_size a)(p := a_size a p + a_size a ah)" "a_next a' = (a_next a)(a_prev a ah := a_next a ah)"
    "a_prev a' = (a_prev a)(a_next a ah := a_prev a ah)" "next_free a' = next_free a" "prev_free a' = prev_free a"
    "malloc_head a' = ?h" "around a' = around a"
    using c by (simp_all add: a'_def join_prev_def Let_def p_def around_def)
  have l: "layout (a_size a) (us' @ p # ah # vs)" using i(4) bs us by simp
  note m = layout_merge [OF l p(3)]
  have pf: "p \<in> set fs" using p(2) layout_mid(4) [OF l] unfolding i(6) bs us by auto
  have sb: "set (us' @ p # vs) = set bs - {ah}" using i(9) unfolding bs us by auto
  have "arena_inv a' (us' @ p # vs) fs {}"
    unfolding arena_inv_def
  proof (intro conjI)
    show "ring (a_next a') (a_prev a') (malloc_head a') (us' @ p # vs)" unfolding a'
      using ring_remove [OF i(1) [unfolded bs]] us by simp
    show "set fs = {b \<in> set (us' @ p # vs) - {}. a_type a' b = ARENA_TYPE_FREE}" unfolding sb a' using i(6) by simp
    show "\<forall>b \<in> set (us' @ p # vs) - {}. a_type a' b = ARENA_TYPE_FREE \<or> a_type a' b = ARENA_TYPE_USED"
      unfolding sb a' using i(7) by simp
    show "layout (a_size a') (us' @ p # vs)" unfolding a' by (rule m(1))
    show "unat (malloc_head a') \<notin> cover (a_size a') (us' @ p # vs)" unfolding a' m(2) using i(5) unfolding bs us by simp
  qed (use i(2,3) in \<open>simp_all add: a'\<close>)
  moreover have "\<forall>y \<in> set fs. y + a_size a' y \<in> set fs \<longrightarrow> y = p" using inv(2) by (simp add: a'(2) merged_def)
  moreover have "used a' (us' @ p # vs) = used a (us @ vs)"
    using p(2) by (intro used_eq) (auto simp: a' us arena_types)
  moreover have "a_size a ah \<le> a_size a' p" using m(3) by (simp add: a'(2) word_le_nat_alt)
  moreover have "cover (a_size a') (us' @ p # vs) = cover (a_size a) bs" unfolding a' m(2) bs us by simp
  ultimately show ?thesis using eq pf a'(8) by blast
qed

lemma join_prev_new:
  assumes inv: "arena_inv a bs fs {ah}" "merged a fs" and bs: "bs = us @ ah # vs"
    and c: "\<not> (a_type a (a_prev a ah) = ARENA_TYPE_FREE \<and> a_prev a ah + a_size a (a_prev a ah) = ah)"
  shows "\<exists>a'. join_prev ah a = (ah, a') \<and> arena_inv a' bs (ah # fs) {} \<and>
    (\<forall>y \<in> set (ah # fs). y + a_size a' y \<in> set (ah # fs) \<longrightarrow> y = ah) \<and>
    used a' bs = used a (us @ vs) \<and> a_size a' = a_size a \<and> around a' = around a"
proof -
  let ?h = "malloc_head a"
  note i = arena_invD [OF inv(1)]
  have p: "a_prev a ah = before ?h us" by (rule ring_neighbours(2) [OF i(1) [unfolded bs]])
  have ah: "ah \<noteq> ?h" "ah \<notin> set fs" "ah \<in> set bs" using i(6,8) bs by auto
  have nf: "next_free a ?h = after ?h fs" using ring_split(3) [of _ _ _ "[]" fs] i(2) by (simp add: before_def)
  define a' where "a' = snd (join_prev ah a)"
  have eq: "join_prev ah a = (ah, a')" using c by (auto simp: a'_def join_prev_def Let_def)
  have a': "a_type a' = (a_type a)(ah := ARENA_TYPE_FREE)" "a_size a' = a_size a" "a_next a' = a_next a" "a_prev a' = a_prev a"
    "next_free a' = (next_free a)(ah := after ?h fs, before ?h [] := ah)" "prev_free a' = (prev_free a)(ah := before ?h [], after ?h fs := ah)"
    "malloc_head a' = ?h" "around a' = around a"
    using c ah(1) by (auto simp: a'_def join_prev_def Let_def around_def nf before_def)
  have "arena_inv a' bs (ah # fs) {}"
    unfolding arena_inv_def
  proof (intro conjI)
    show "ring (next_free a') (prev_free a') (malloc_head a') (ah # fs)" unfolding a'
      using ring_insert [of "next_free a" "prev_free a" ?h "[]" fs ah] i(2) ah by simp
    show "set (ah # fs) = {b \<in> set bs - {}. a_type a' b = ARENA_TYPE_FREE}" using i(6) ah by (auto simp: a')
  qed (use i(1,3,4,5,7) ah(1) in \<open>auto simp: a'\<close>)
  moreover have "y + a_size a' y \<notin> set (ah # fs)" if y: "y \<in> set fs" for y
  proof -
    have "y + a_size a y \<noteq> ah"
    proof
      assume e: "y + a_size a y = ah"
      have "y \<in> set (us @ ah # vs)" using y i(11) bs by auto
      then obtain ws where "us = ws @ [y]" using layout_next(2) [OF i(4) [unfolded bs] _ e] by blast
      then show False using c e y p i(6) by (auto simp: before_def)
    qed
    then show ?thesis using inv(2) y by (simp add: merged_def a')
  qed
  moreover have "used a' bs = used a (us @ vs)"
  proof (rule used_eq)
    show "(b \<in> set bs \<and> a_type a' b = ARENA_TYPE_USED) = (b \<in> set (us @ vs) \<and> a_type a b = ARENA_TYPE_USED)" for b
      using i(9) bs by (auto simp: a' arena_types)
  next
    fix x assume x: "x \<in> set (us @ vs)" "a_type a x = ARENA_TYPE_USED"
    have "x \<noteq> ?h" "x \<noteq> ah" using x(1) i(8,9) bs by auto
    moreover have "x \<notin> set fs" unfolding i(6) using x(2) by (simp add: arena_types)
    ultimately show "a_size a' x = a_size a x \<and> next_free a' x = next_free a x \<and> prev_free a' x = prev_free a x"
      by (cases fs) (auto simp: a' before_def after_def)
  qed
  ultimately show ?thesis using eq a'(2,8) by auto
qed

lemma join_next_ok:
  assumes inv: "arena_inv a bs fs {}" and m: "\<forall>y \<in> set fs. y + a_size a y \<in> set fs \<longrightarrow> y = ah" and ah: "ah \<in> set fs"
    and a'_def: "a' = join_next ah (a_next a ah) a"
  shows "\<exists>bs' fs'. arena_inv a' bs' fs' {} \<and> merged a' fs' \<and> ah \<in> set fs' \<and> used a' bs' = used a bs \<and>
    a_size a ah \<le> a_size a' ah \<and> cover (a_size a') bs' = cover (a_size a) bs \<and> around a' = around a"
proof -
  let ?h = "malloc_head a"
  note i = arena_invD [OF inv]
  have b: "ah \<in> set bs" "a_type a ah = ARENA_TYPE_FREE" using ah i(6) by auto
  obtain us vs where bs: "bs = us @ ah # vs" using b(1) by (meson split_list)
  define n where "n = a_next a ah"
  have n: "n = after ?h vs" unfolding n_def by (rule ring_neighbours(1) [OF i(1) [unfolded bs]])
  show ?thesis
  proof (cases "a_type a n = ARENA_TYPE_FREE \<and> ah + a_size a ah = n")
    case False
    have "ah + a_size a ah \<notin> set fs"
    proof
      assume e: "ah + a_size a ah \<in> set fs"
      then obtain ws where "vs = (ah + a_size a ah) # ws" using layout_next(1) [OF i(4) [unfolded bs]] i(11) bs by blast
      then have "n = ah + a_size a ah" by (simp add: n after_def)
      then show False using False e i(6) by auto
    qed
    then have "merged a fs" using m by (auto simp: merged_def)
    moreover have "a' = a" using False unfolding a'_def n_def join_next_def by presburger
    ultimately show ?thesis using inv ah by blast
  next
    case True
    have "vs \<noteq> []" using True n i(3) by (auto simp: after_def arena_types)
    then obtain ws where vs: "vs = n # ws" using n by (cases vs) (auto simp: after_def)
    have nf: "n \<in> set fs" unfolding i(6) bs vs using True by simp
    obtain xs ys where fs: "fs = xs @ n # ys" using nf by (meson split_list)
    have l: "layout (a_size a) (us @ ah # n # ws)" using i(4) unfolding bs vs .
    have e: "ah + a_size a ah = n" using True by blast
    note g = layout_merge [OF l e]
    have ne: "n \<noteq> ah" using layout_mid(4) [OF l] by auto
    have a': "a_type a' = a_type a" "a_size a' = (a_size a)(ah := a_size a ah + a_size a n)"
      "a_next a' = (a_next a)(a_prev a n := a_next a n)" "a_prev a' = (a_prev a)(a_next a n := a_prev a n)"
      "next_free a' = (next_free a)(prev_free a n := next_free a n)" "prev_free a' = (prev_free a)(next_free a n := prev_free a n)"
      "malloc_head a' = ?h" "around a' = around a"
      using True by (simp_all add: a'_def join_next_def remove_from_chains_def remove_free_eq remove_main_eq around_def flip: n_def)
    have sb: "set (us @ ah # ws) = set bs - {n}" using i(9) unfolding bs vs by auto
    have sf: "set (xs @ ys) = set fs - {n}" using i(10) unfolding fs by auto
    have "arena_inv a' (us @ ah # ws) (xs @ ys) {}"
      unfolding arena_inv_def
    proof (intro conjI)
      show "ring (a_next a') (a_prev a') (malloc_head a') (us @ ah # ws)" unfolding a'
        using ring_remove [of "a_next a" "a_prev a" ?h "us @ [ah]" n ws] i(1) unfolding bs vs by simp
      show "ring (next_free a') (prev_free a') (malloc_head a') (xs @ ys)" unfolding a'
        using ring_remove i(2) unfolding fs by blast
      show "layout (a_size a') (us @ ah # ws)" unfolding a' by (rule g(1))
      show "unat (malloc_head a') \<notin> cover (a_size a') (us @ ah # ws)" unfolding a' g(2) using i(5) unfolding bs vs .
      show "set (xs @ ys) = {b \<in> set (us @ ah # ws) - {}. a_type a' b = ARENA_TYPE_FREE}" unfolding sb sf i(6) a'(1) by blast
      show "\<forall>b \<in> set (us @ ah # ws) - {}. a_type a' b = ARENA_TYPE_FREE \<or> a_type a' b = ARENA_TYPE_USED"
        unfolding sb a'(1) using i(7) by blast
    qed (use i(3) in \<open>simp add: a'\<close>)
    moreover have "merged a' (xs @ ys)"
      unfolding merged_def sf
    proof
      fix y assume y: "y \<in> set fs - {n}"
      have "y + a_size a' y = (if y = ah then n + a_size a n else y + a_size a y)"
        unfolding a'(2) by (simp add: add.assoc [symmetric] e)
      moreover have "n + a_size a n \<notin> set fs" using m nf ne by blast
      ultimately show "y + a_size a' y \<notin> set fs - {n}" using m y by (metis DiffD1)
    qed
    moreover have "used a' (us @ ah # ws) = used a bs"
    proof (rule used_eq)
      show "(b \<in> set (us @ ah # ws) \<and> a_type a' b = ARENA_TYPE_USED) = (b \<in> set bs \<and> a_type a b = ARENA_TYPE_USED)" for b
        unfolding sb a'(1) using True by (auto simp: arena_types)
    next
      fix x assume x: "x \<in> set bs" "a_type a x = ARENA_TYPE_USED"
      have "x \<noteq> ?h" using x(1) i(8) by auto
      moreover have "x \<notin> set fs" unfolding i(6) using x(2) by (simp add: arena_types)
      ultimately show "a_size a' x = a_size a x \<and> next_free a' x = next_free a x \<and> prev_free a' x = prev_free a x"
        using ring_nbr_in [OF i(2) nf] ah by (auto simp: a')
    qed
    moreover have "ah \<in> set (xs @ ys)" unfolding sf using ah ne by simp
    moreover have "a_size a ah \<le> a_size a' ah" using g(3) by (simp add: a'(2) word_le_nat_alt)
    moreover have "cover (a_size a') (us @ ah # ws) = cover (a_size a) bs" unfolding a' g(2) bs vs ..
    ultimately show ?thesis using a'(8) by blast
  qed
qed

lemma free_block_ok:
  assumes inv: "arena_inv a bs fs {ah}" "merged a fs" and bs: "bs = us @ ah # vs"
  shows "\<exists>ah' a' bs' fs'. free_block ah a = (ah', a') \<and> arena_inv a' bs' fs' {} \<and> merged a' fs' \<and> ah' \<in> set fs' \<and>
    used a' bs' = used a (us @ vs) \<and> a_size a ah \<le> a_size a' ah' \<and> cover (a_size a') bs' = cover (a_size a) bs \<and> around a' = around a"
proof -
  let ?P = "\<lambda>ah1 a1 bs1 fs1. join_prev ah a = (ah1, a1) \<and> arena_inv a1 bs1 fs1 {} \<and> ah1 \<in> set fs1 \<and>
    (\<forall>y \<in> set fs1. y + a_size a1 y \<in> set fs1 \<longrightarrow> y = ah1) \<and> used a1 bs1 = used a (us @ vs) \<and> a_size a ah \<le> a_size a1 ah1 \<and>
    cover (a_size a1) bs1 = cover (a_size a) bs \<and> around a1 = around a \<and> (\<exists>us1. bs1 = us1 @ ah1 # vs)"
  have "\<exists>ah1 a1 bs1 fs1. ?P ah1 a1 bs1 fs1"
  proof (cases "a_type a (a_prev a ah) = ARENA_TYPE_FREE \<and> a_prev a ah + a_size a (a_prev a ah) = ah")
    case True
    from join_prev_free [OF inv bs this]
    obtain ah1 a1 us1 where "?P ah1 a1 (us1 @ ah1 # vs) fs" by blast
    then show ?thesis by blast
  next
    case False
    then obtain a1 where a1: "join_prev ah a = (ah, a1)" "arena_inv a1 bs (ah # fs) {}"
        "\<forall>y \<in> set (ah # fs). y + a_size a1 y \<in> set (ah # fs) \<longrightarrow> y = ah" "used a1 bs = used a (us @ vs)"
        "a_size a1 = a_size a" "around a1 = around a"
      using join_prev_new [OF inv bs] by blast
    have "ah \<in> set (ah # fs)" "a_size a ah \<le> a_size a1 ah" "cover (a_size a1) bs = cover (a_size a) bs" using a1(5) by simp_all
    then show ?thesis using a1(1-4,6) bs by blast
  qed
  then obtain ah1 a1 bs1 fs1 us1 where j: "?P ah1 a1 bs1 fs1" "bs1 = us1 @ ah1 # vs" by blast
  have h: "malloc_head a1 = malloc_head a" using j(1) by (simp add: around_def)
  have "a_next a ah = after (malloc_head a) vs"
    using ring_neighbours(1) arena_invD(1) [OF inv(1)] unfolding bs by blast
  moreover have "a_next a1 ah1 = after (malloc_head a1) vs"
    using ring_neighbours(1) arena_invD(1) j unfolding j(2) by blast
  ultimately have n: "a_next a ah = a_next a1 ah1" using h by simp
  define a2 where "a2 = join_next ah1 (a_next a1 ah1) a1"
  obtain bs' fs' where r: "arena_inv a2 bs' fs' {}" "merged a2 fs'" "ah1 \<in> set fs'" "used a2 bs' = used a1 bs1" "a_size a1 ah1 \<le> a_size a2 ah1"
      "cover (a_size a2) bs' = cover (a_size a1) bs1" "around a2 = around a1"
    using join_next_ok [OF _ _ _ a2_def] j(1) by blast
  have "used a2 bs' = used a (us @ vs)" "a_size a ah \<le> a_size a2 ah1" "cover (a_size a2) bs' = cover (a_size a) bs" "around a2 = around a"
    using r(4-7) j(1) by (simp_all, blast intro: order_trans)
  moreover have "free_block ah a = (ah1, a2)" using j(1) n by (simp add: free_block_def a2_def)
  ultimately show ?thesis using r(1-3) by blast
qed

subsection \<open>Adding memory\<close>

lemma inv_lock [simp]:
  "arena_inv (a\<lparr>lock_env := e\<rparr>) bs fs X = arena_inv a bs fs X" "merged (a\<lparr>lock_env := e\<rparr>) fs = merged a fs"
  "used (a\<lparr>lock_env := e\<rparr>) bs = used a bs" "around (a\<lparr>lock_env := e\<rparr>) = around a" "lock_works (a\<lparr>lock_env := e\<rparr>) = lock_works a"
  by (simp_all add: arena_inv_def merged_def used_def around_def lock_works_def)

lemma inv_brk [simp]:
  "arena_inv (a\<lparr>brk := e\<rparr>) bs fs X = arena_inv a bs fs X" "merged (a\<lparr>brk := e\<rparr>) fs = merged a fs"
  "used (a\<lparr>brk := e\<rparr>) bs = used a bs" "lock_works (a\<lparr>brk := e\<rparr>) = lock_works a"
  by (simp_all add: arena_inv_def merged_def used_def lock_works_def)

lemma take_lock_ok: "lock_works a \<Longrightarrow> \<exists>e. take_lock a = (True, a\<lparr>lock_env := e\<rparr>)"
  by (auto simp: take_lock_def lock_works_def split: prod.splits) (metis fst_conv)

lemma layout_insert:
  assumes "layout sz (us @ vs)" "\<forall>x \<in> set us. x < p" "\<forall>x \<in> set vs. \<not> x < p" "24 \<le> unat s" "unat p + unat s < 2 ^ 32"
    and "{unat p ..< unat p + unat s} \<inter> cover sz (us @ vs) = {}"
  shows "layout (sz(p := s)) (us @ p # vs)" "p \<notin> set (us @ vs)"
    "cover (sz(p := s)) (us @ p # vs) = {unat p ..< unat p + unat s} \<union> cover sz (us @ vs)"
proof -
  have z: "24 \<le> unat (sz x)" if "x \<in> set (us @ vs)" for x using assms(1) that by (auto simp: layout_def)
  show n: "p \<notin> set (us @ vs)" using cover_mem [of p "us @ vs" sz] z [of p] assms(4,6) by fastforce
  have u: "unat x + unat (sz x) \<le> unat p" if "x \<in> set us" for x
  proof (rule ccontr)
    assume "\<not> unat x + unat (sz x) \<le> unat p"
    moreover have "unat x < unat p" using that assms(2) by (simp add: word_less_nat_alt)
    ultimately have "unat p \<in> cover sz (us @ vs)" unfolding cover_def using that by (intro UN_I [of x]) auto
    then show False using assms(4,6) by fastforce
  qed
  have v: "unat p + unat s \<le> unat x" if "x \<in> set vs" for x
  proof (rule ccontr)
    assume "\<not> unat p + unat s \<le> unat x"
    then have "unat x \<in> {unat p ..< unat p + unat s}" using that assms(3) by (auto simp: word_less_nat_alt)
    moreover have "unat x \<in> cover sz (us @ vs)" using that z [of x] by (intro cover_mem) auto
    ultimately show False using assms(6) by blast
  qed
  show "layout (sz(p := s)) (us @ p # vs)" using assms(1,4,5) n u v by (auto simp: layout_append layout_Cons)
  show "cover (sz(p := s)) (us @ p # vs) = {unat p ..< unat p + unat s} \<union> cover sz (us @ vs)" using n by auto
qed

lemma find_pred_walk:
  assumes "ring nxt (a_prev a) h (us @ vs)" "a_type a h = ARENA_TYPE_HEAD" "\<forall>x \<in> set us. a_type a x \<noteq> ARENA_TYPE_HEAD"
  shows "\<exists>ws zs. us = ws @ zs \<and> find_pred a fp (before h us) = Some (before h ws) \<and> (\<forall>x \<in> set zs. \<not> x < fp) \<and> (ws = [] \<or> last ws < fp)"
  using assms(1,3)
proof (induction us arbitrary: vs rule: rev_induct)
  case Nil
  then show ?case using assms(2) by (subst find_pred.simps) (simp add: before_def)
next
  case (snoc u us)
  have b: "before h (us @ [u]) = u" "a_prev a u = before h us"
    using ring_neighbours(2) [of nxt "a_prev a" h us u vs] snoc.prems(1) by (simp_all add: before_def)
  show ?case
  proof (cases "u < fp")
    case True
    then show ?thesis using snoc.prems(2) b(1)
      by (intro exI [of _ "us @ [u]"] exI [of _ "[]"]) (subst find_pred.simps, simp)
  next
    case False
    then have "find_pred a fp (before h (us @ [u])) = find_pred a fp (before h us)"
      using snoc.prems(2) b by (subst find_pred.simps) simp
    moreover obtain ws zs where "us = ws @ zs" "find_pred a fp (before h us) = Some (before h ws)" "\<forall>x \<in> set zs. \<not> x < fp" "ws = [] \<or> last ws < fp"
      using snoc.IH [of "u # vs"] snoc.prems by auto
    ultimately show ?thesis using False by (intro exI [of _ ws] exI [of _ "zs @ [u]"]) auto
  qed
qed

lemma add_block_ok:
  assumes inv: "arena_inv a bs fs {}" "merged a fs" "lock_works a"
    and fp: "24 \<le> unat sz" "unat fp + unat sz < 2 ^ 32" "{unat fp ..< unat fp + unat sz} \<inter> cover (a_size a) bs = {}"
      "unat (malloc_head a) \<notin> {unat fp ..< unat fp + unat sz}"
  shows "\<exists>a' bs' fs' ah. add_malloc_block fp sz a = Some a' \<and> arena_inv a' bs' fs' {} \<and> merged a' fs' \<and> ah \<in> set fs' \<and>
    used a' bs' = used a bs \<and> sz \<le> a_size a' ah \<and> cover (a_size a') bs' = {unat fp ..< unat fp + unat sz} \<union> cover (a_size a) bs \<and>
    around a' = around a"
proof -
  let ?h = "malloc_head a"
  note i = arena_invD [OF inv(1)]
  have fb: "fp \<notin> set bs" using cover_mem [of fp bs "a_size a"] fp(1,3) i(4) by (fastforce simp: layout_def)
  have fh: "fp \<noteq> ?h" using fp(1,4) by auto
  define a2 where "a2 = a\<lparr>a_type := (a_type a)(fp := ARENA_TYPE_FREE), a_size := (a_size a)(fp := sz)\<rparr>"
  obtain e where e: "take_lock a2 = (True, a2\<lparr>lock_env := e\<rparr>)"
    using take_lock_ok [of a2] inv(3) by (auto simp: a2_def lock_works_def)
  define a3 where "a3 = a2\<lparr>lock_env := e\<rparr>"
  have a3: "a_type a3 = (a_type a)(fp := ARENA_TYPE_FREE)" "a_size a3 = (a_size a)(fp := sz)" "a_next a3 = a_next a" "a_prev a3 = a_prev a"
    "next_free a3 = next_free a" "prev_free a3 = prev_free a" "malloc_head a3 = ?h" "around a3 = around a"
    by (simp_all add: a3_def a2_def around_def)
  have ty: "a_type a3 ?h = ARENA_TYPE_HEAD" "\<forall>x \<in> set bs. a_type a3 x \<noteq> ARENA_TYPE_HEAD"
    using i(3,7) fh fb by (auto simp: a3 arena_types)
  obtain us vs where bs: "bs = us @ vs" and p: "find_pred a3 fp (before ?h bs) = Some (before ?h us)"
    "\<forall>x \<in> set vs. \<not> x < fp" "us = [] \<or> last us < fp"
    using find_pred_walk [of "a_next a" a3 ?h bs "[]" fp] i(1) ty by (auto simp: a3)
  have u: "\<forall>x \<in> set us. x < fp"
  proof (cases us rule: rev_cases)
    case (snoc ys y)
    then show ?thesis using layout_mid(1) [of "a_size a" ys y vs] i(4) p(3) unfolding bs
      by (auto simp: word_less_nat_alt dest: less_trans)
  qed simp
  note l = layout_insert [OF i(4) [unfolded bs] u p(2) fp(1,2) fp(3) [unfolded bs]]
  have pv: "a_prev a ?h = before ?h bs" using ring_split(4) [of _ _ _ bs "[]"] i(1) by (simp add: after_def)
  have nx: "a_next a (before ?h us) = after ?h vs" using ring_split(3) i(1) unfolding bs by blast
  have ne: "before ?h us \<noteq> fp" using fh fb unfolding bs by (cases us rule: rev_cases) (auto simp: before_def)
  define a7 where "a7 = a3\<lparr>a_next := (a_next a)(fp := after ?h vs, before ?h us := fp),
    a_prev := (a_prev a)(fp := before ?h us, after ?h vs := fp)\<rparr>"
  have run: "add_malloc_block fp sz a = Some (drop_lock (snd (free_block fp a7)))"
    using fp(1) p(1) e ne nx pv
    by (simp add: add_malloc_block_def sizeof_free_arena_header_def word_less_nat_alt Let_def a7_def a3 flip: a2_def a3_def)
  have h7: "malloc_head a7 = ?h" by (simp add: a7_def a3)
  have "arena_inv a7 (us @ fp # vs) fs {fp}"
    unfolding arena_inv_def h7
  proof (intro conjI)
    show "ring (a_next a7) (a_prev a7) ?h (us @ fp # vs)" unfolding a7_def
      using ring_insert [OF i(1) [unfolded bs]] fh l(2) by simp
    have "{b \<in> set (us @ fp # vs) - {fp}. a_type a7 b = ARENA_TYPE_FREE} = {b \<in> set bs - {}. a_type a b = ARENA_TYPE_FREE}"
      using fb unfolding bs by (auto simp: a7_def a3)
    then show "set fs = {b \<in> set (us @ fp # vs) - {fp}. a_type a7 b = ARENA_TYPE_FREE}" using i(6) by simp
    show "\<forall>b \<in> set (us @ fp # vs) - {fp}. a_type a7 b = ARENA_TYPE_FREE \<or> a_type a7 b = ARENA_TYPE_USED"
      using i(7) unfolding bs by (auto simp: a7_def a3)
    show "unat ?h \<notin> cover (a_size a7) (us @ fp # vs)" using l(3) fp(4) i(5) unfolding bs by (simp add: a7_def a3)
  qed (use i(2) l(1) ty(1) in \<open>simp_all add: a7_def a3\<close>)
  moreover have "merged a7 fs" using inv(2) fb i(11) by (auto simp: merged_def a7_def a3)
  ultimately obtain ah' a' bs' fs' where f: "free_block fp a7 = (ah', a')" "arena_inv a' bs' fs' {}" "merged a' fs'" "ah' \<in> set fs'"
      "used a' bs' = used a7 (us @ vs)" "a_size a7 fp \<le> a_size a' ah'" "cover (a_size a') bs' = cover (a_size a7) (us @ fp # vs)" "around a' = around a7"
    using free_block_ok [OF _ _ refl] by blast
  have "used a7 (us @ vs) = used a bs" using fb unfolding bs by (intro used_eq) (auto simp: a7_def a3)
  moreover have "a_size a7 fp = sz" "around a7 = around a" by (simp_all add: a7_def a3 around_def a2_def a3_def)
  moreover have "cover (a_size a7) (us @ fp # vs) = {unat fp ..< unat fp + unat sz} \<union> cover (a_size a) bs"
    using l(3) unfolding bs by (simp add: a7_def a3)
  ultimately show ?thesis
    using f run by (intro exI [of _ "drop_lock a'"] exI [of _ bs'] exI [of _ fs'] exI [of _ ah']) (simp add: drop_lock_def)
qed

lemma find_fit_walk:
  assumes "ring (next_free a) prv h (us @ vs)" "a_type a h = ARENA_TYPE_HEAD" "\<forall>x \<in> set vs. a_type a x \<noteq> ARENA_TYPE_HEAD"
  shows "find_fit a sz (after h vs) = Some (List.find (\<lambda>b. sz \<le> a_size a b) vs)"
  using assms(1,3)
proof (induction vs arbitrary: us)
  case Nil
  then show ?case using assms(2) by (subst find_fit.simps) (simp add: after_def)
next
  case (Cons v vs)
  have "next_free a v = after h vs" by (rule ring_neighbours(1) [OF Cons.prems(1)])
  then show ?case using Cons.IH [of "us @ [v]"] Cons.prems by (subst find_fit.simps) (simp add: after_def)
qed

lemma sum_free_walk:
  assumes "ring (next_free a) prv h (us @ vs)" "a_type a h = ARENA_TYPE_HEAD" "\<forall>x \<in> set vs. a_type a x \<noteq> ARENA_TYPE_HEAD"
  shows "sum_free a (after h vs) (t, m) = Some (t + sum_list (map (a_size a) vs), fold max (map (a_size a) vs) m)"
  using assms(1,3)
proof (induction vs arbitrary: us t m)
  case Nil
  then show ?case using assms(2) by (subst sum_free.simps) (simp add: after_def)
next
  case (Cons v vs)
  have "next_free a v = after h vs" by (rule ring_neighbours(1) [OF Cons.prems(1)])
  moreover have "(if m \<le> a_size a v then a_size a v else m) = max (a_size a v) m" by (auto simp: max_def)
  ultimately show ?case using Cons.IH [of "us @ [v]"] Cons.prems by (subst sum_free.simps) (simp add: after_def add.assoc)
qed

subsection \<open>The operations\<close>

lemma unat_arena_round:
  assumes "unat n + 31 < 2 ^ 32"
  shows "unat (arena_round n) = (unat n + 31) div 16 * 16"
proof -
  have w: "unat (n + 31) = unat n + 31" using assms by (simp add: unat_word_ariths)
  have "(15 :: u32) = mask 4" by (simp add: mask_eq_exp_minus_1)
  then have "arena_round n = (n + 31) AND NOT (mask 4)" by (simp add: arena_round_def ARENA_SIZE_MASK_def sizeof_arena_header_def add.commute)
  also have "\<dots> = push_bit 4 (drop_bit 4 (n + 31))" by (rule bit_word_eqI) (auto simp: bit_simps)
  also have "unat \<dots> = (unat n + 31) div 16 * 16"
  proof -
    have "(unat n + 31) div 16 * 16 < 2 ^ 32" using assms by linarith
    then show ?thesis unfolding push_bit_eq_mult drop_bit_eq_div unat_word_ariths unat_div w by (simp add: mod_less)
  qed
  finally show ?thesis .
qed

lemma arena_round_bounds:
  assumes "n \<noteq> 0" "unat n < 2 ^ 31 - 64"
  shows "32 \<le> unat (arena_round n)" "unat n + 16 \<le> unat (arena_round n)" "unat (arena_round n) < 2 ^ 31 - 32"
proof -
  have n: "0 < unat n" using assms(1) by (simp add: unat_gt_0)
  have r: "unat (arena_round n) = (unat n + 31) div 16 * 16" by (rule unat_arena_round) (use assms(2) in simp)
  show "32 \<le> unat (arena_round n)" using n unfolding r by presburger
  show "unat n + 16 \<le> unat (arena_round n)" unfolding r by presburger
  have "unat (arena_round n) \<le> unat n + 31" unfolding r by presburger
  then show "unat (arena_round n) < 2 ^ 31 - 32" using assms(2) by simp
qed

lemma arena_find:
  assumes "arena_inv a bs fs {}"
  shows "find_fit a sz (next_free a (malloc_head a)) = Some (List.find (\<lambda>b. sz \<le> a_size a b) fs)"
proof -
  note i = arena_invD [OF assms]
  have "next_free a (malloc_head a) = after (malloc_head a) fs" using ring_split(3) [of _ _ _ "[]" fs] i(2) by (simp add: before_def)
  moreover have "\<forall>x \<in> set fs. a_type a x \<noteq> ARENA_TYPE_HEAD" unfolding i(6) by (simp add: arena_types)
  ultimately show ?thesis using find_fit_walk [of a "prev_free a" "malloc_head a" "[]" fs sz] i(2,3) by simp
qed

lemma heap_ok_around:
  assumes "around a' = around a" "cover (a_size a') bs' = cover (a_size a) bs"
  shows "heap_ok a' bs' = heap_ok a bs" "lock_works a' = lock_works a"
  using assms by (simp_all add: heap_ok_def around_def lock_works_def)

lemma gained_lock [simp]:
  "gained p sz (a\<lparr>lock_env := e\<rparr>) bs a' bs' = gained p sz a bs a' bs'" "gained p sz a bs (a'\<lparr>lock_env := e\<rparr>) bs' = gained p sz a bs a' bs'"
  by (simp_all add: gained_def)

lemma retry_found:
  assumes ok: "arena_ok a bs fs" and sz: "32 \<le> unat sz" "unat sz < 2 ^ 31 - 32" and b: "b \<in> set fs" "sz \<le> a_size a b"
  shows "\<exists>p a' bs' fs'. retry_alloc sz a = Some (p, a') \<and> arena_ok a' bs' fs' \<and> gained p sz a bs a' bs'"
proof -
  have inv: "arena_inv a bs fs {}" "merged a fs" "heap_ok a bs" "lock_works a" using ok by (simp_all add: arena_ok_def)
  obtain fp where fp: "List.find (\<lambda>b. sz \<le> a_size a b) fs = Some fp"
    using b by (cases "List.find (\<lambda>b. sz \<le> a_size a b) fs") (auto simp: find_None_iff)
  then have f: "fp \<in> set fs" "sz \<le> a_size a fp" by (auto simp: find_Some_iff)
  obtain a' bs' fs' where r: "malloc_from_block fp sz a = (fp + 16, a')" "arena_inv a' bs' fs' {}" "merged a' fs'"
      "used a' bs' = insert (fp, a_size a' fp, next_free a' fp, prev_free a' fp) (used a bs)" "sz \<le> a_size a' fp"
      "cover (a_size a') bs' = cover (a_size a) bs" "around a' = around a"
    using from_block [OF inv(1,2) f(1) sz(1) f(2)] sz(2) by auto
  have "fp \<in> set bs" "a_type a fp = ARENA_TYPE_FREE" using f(1) arena_invD(6) [OF inv(1)] by auto
  then have "unat fp + 24 < 2 ^ 32" "fp \<notin> fst ` used a bs"
    using arena_invD(4) [OF inv(1)] by (auto simp: layout_def used_def arena_types)
  moreover from this have "unat (fp + 16) = unat fp + 16" by (simp add: unat_word_ariths)
  ultimately have p: "fp + 16 \<noteq> 0" "fp + 16 - 16 \<notin> fst ` used a bs" by auto
  have "retry_alloc sz a = Some (fp + 16, a')"
    using p(1) r(1) arena_find [OF inv(1), of sz] fp by (subst retry_alloc.simps) simp
  moreover have "arena_ok a' bs' fs'" using r(2,3) inv heap_ok_around [OF r(7,6)] by (simp add: arena_ok_def)
  moreover have "gained (fp + 16) sz a bs a' bs'" using p r(4,5) by (auto simp: gained_def)
  ultimately show ?thesis by blast
qed

lemma grow_ok:
  assumes ok: "arena_ok a bs fs" and sz: "24 \<le> unat sz" and room: "unat (brk a) + unat sz \<le> unat (heap_limit a)"
  shows "\<exists>a' bs' fs' ah. add_malloc_block (brk a) sz (a\<lparr>brk := brk a + sz\<rparr>) = Some a' \<and> arena_ok a' bs' fs' \<and>
    ah \<in> set fs' \<and> sz \<le> a_size a' ah \<and> used a' bs' = used a bs"
proof -
  have inv: "arena_inv a bs fs {}" "merged a fs" "heap_ok a bs" "lock_works a" using ok by (simp_all add: arena_ok_def)
  let ?new = "{unat (brk a) ..< unat (brk a) + unat sz}"
  define a2 where "a2 = a\<lparr>brk := brk a + sz\<rparr>"
  have a2: "a_size a2 = a_size a" "malloc_head a2 = malloc_head a" by (simp_all add: a2_def)
  have lim: "unat (heap_limit a) < 2 ^ 32" using unsigned_less [of "heap_limit a"] by simp
  have ub: "unat (brk a + sz) = unat (brk a) + unat sz" using room lim by (simp add: unat_word_ariths)
  have sub: "?new \<subseteq> {unat (brk a) ..< unat (heap_limit a)}"
      "{unat (brk a) + unat sz ..< unat (heap_limit a)} \<subseteq> {unat (brk a) ..< unat (heap_limit a)} - ?new" using room by auto
  have hk: "{unat (brk a) ..< unat (heap_limit a)} \<inter> insert (unat (malloc_head a)) (cover (a_size a) bs) = {}"
    using inv(3) by (simp only: heap_ok_def)
  have "arena_inv a2 bs fs {}" "merged a2 fs" "lock_works a2" using inv by (simp_all add: a2_def)
  moreover have "?new \<inter> cover (a_size a2) bs = {}" "unat (malloc_head a2) \<notin> ?new" unfolding a2 using hk sub(1) by blast+
  ultimately obtain a3 bs3 fs3 ah where a3: "add_malloc_block (brk a) sz a2 = Some a3" "arena_inv a3 bs3 fs3 {}" "merged a3 fs3" "ah \<in> set fs3"
      "used a3 bs3 = used a2 bs" "sz \<le> a_size a3 ah" "cover (a_size a3) bs3 = ?new \<union> cover (a_size a2) bs" "around a3 = around a2"
    using add_block_ok [of a2 bs fs sz "brk a"] sz room lim by fastforce
  have e: "brk a3 = brk a + sz" "heap_limit a3 = heap_limit a" "malloc_head a3 = malloc_head a" "heap_base a3 = heap_base a"
      "malloc_lock a3 = malloc_lock a"
    using a3(8) by (simp_all add: around_def a2_def)
  have "{unat (brk a + sz) ..< unat (heap_limit a)} \<inter> insert (unat (malloc_head a)) (cover (a_size a3) bs3) = {}"
    using hk sub(2) unfolding a3(7) a2 ub by blast
  moreover have "heap_base a \<le> brk a + sz" "brk a + sz \<le> heap_limit a"
    using inv(3) room ub by (simp_all add: heap_ok_def word_le_nat_alt)
  ultimately have "arena_ok a3 bs3 fs3" using a3(2,3) inv(4) by (simp add: arena_ok_def heap_ok_def lock_works_def e)
  moreover have "used a3 bs3 = used a bs" using a3(5) by (simp add: a2_def)
  ultimately show ?thesis using a3(1,4,6) unfolding a2_def by blast
qed

lemma sint_small:
  fixes sz :: u32
  assumes "unat sz < 2 ^ 31 - 32"
  shows "sint sz = int (unat sz)"
proof -
  have "unat sz < 2147483616" using assms by simp
  then have "- 2147483648 \<le> uint sz" "uint sz < 2147483648" unfolding uint_nat by linarith+
  then have "sint sz = uint sz" unfolding sint_uint by (intro signed_take_bit_int_eq_self) simp_all
  then show ?thesis unfolding uint_nat .
qed

lemma retry_ok:
  assumes ok: "arena_ok a bs fs" and sz: "32 \<le> unat sz" "unat sz < 2 ^ 31 - 32"
  shows "\<exists>p a' bs' fs'. retry_alloc sz a = Some (p, a') \<and> arena_ok a' bs' fs' \<and>
    (p = 0 \<and> used a' bs' = used a bs \<or> gained p sz a bs a' bs')"
proof (cases "\<exists>b \<in> set fs. sz \<le> a_size a b")
  case True
  then show ?thesis using retry_found [OF ok sz] by blast
next
  case False
  have none: "find_fit a sz (next_free a (malloc_head a)) = Some None"
    using arena_find [of a bs fs sz] ok False by (simp add: find_None_iff arena_ok_def)
  have si: "\<not> sint sz < 0" "sint sz \<le> uint (heap_limit a) - uint (brk a) \<longleftrightarrow> unat (brk a) + unat sz \<le> unat (heap_limit a)"
    using sint_small [OF sz(2)] unfolding uint_nat by linarith+
  show ?thesis
  proof (cases "unat (brk a) + unat sz \<le> unat (heap_limit a)")
    case True
    obtain a3 bs3 fs3 ah where a3: "add_malloc_block (brk a) sz (a\<lparr>brk := brk a + sz\<rparr>) = Some a3" "arena_ok a3 bs3 fs3"
        "ah \<in> set fs3" "sz \<le> a_size a3 ah" "used a3 bs3 = used a bs"
      using grow_ok [OF ok _ True] sz(1) by auto
    obtain p a' bs' fs' where "retry_alloc sz a3 = Some (p, a')" "arena_ok a' bs' fs'" "gained p sz a3 bs3 a' bs'"
      using retry_found [OF a3(2) sz a3(3,4)] by blast
    moreover have "unat (heap_limit a) < 2 ^ 32" using unsigned_less [of "heap_limit a"] by simp
    then have "brk a \<noteq> -1"
      using True sz(1) by (auto simp: unsigned_minus_1_eq_mask mask_eq_exp_minus_1)
    then have "retry_alloc sz a = retry_alloc sz a3"
      using si True by (subst retry_alloc.simps) (simp add: none sbrk_def a3(1))
    ultimately show ?thesis using a3(5) by (auto simp: gained_def)
  next
    case False
    then have "retry_alloc sz a = Some (0, a)" using si by (subst retry_alloc.simps) (simp add: none sbrk_def)
    then show ?thesis using ok by blast
  qed
qed

lemma malloc_runs:
  assumes ok: "arena_ok a bs fs" and n: "unat n < 2 ^ 31 - 64"
  shows "\<exists>p a' bs' fs'. malloc n a = Some (p, a') \<and> arena_ok a' bs' fs' \<and>
    (p = 0 \<and> used a' bs' = used a bs \<or> gained p (arena_round n) a bs a' bs')"
proof (cases "n = 0")
  case True
  then show ?thesis using ok by (intro exI [of _ 0] exI [of _ a] exI [of _ bs] exI [of _ fs]) (simp add: malloc_def)
next
  case False
  obtain e where e: "take_lock a = (True, a\<lparr>lock_env := e\<rparr>)" using take_lock_ok ok by (auto simp: arena_ok_def)
  have "arena_ok (a\<lparr>lock_env := e\<rparr>) bs fs" using ok by (simp add: arena_ok_def heap_ok_def)
  from retry_ok [OF this arena_round_bounds(1,3) [OF False n]]
  obtain p a' bs' fs' where r: "retry_alloc (arena_round n) (a\<lparr>lock_env := e\<rparr>) = Some (p, a')" "arena_ok a' bs' fs'"
      "p = 0 \<and> used a' bs' = used a bs \<or> gained p (arena_round n) a bs a' bs'"
    unfolding inv_lock gained_lock by blast
  have "malloc n a = Some (p, drop_lock a')" using False e r(1) by (simp add: malloc_def)
  moreover have "arena_ok (drop_lock a') bs' fs'" using r(2) by (simp add: arena_ok_def heap_ok_def drop_lock_def)
  moreover have "p = 0 \<and> used (drop_lock a') bs' = used a bs \<or> gained p (arena_round n) a bs (drop_lock a') bs'"
    using r(3) by (simp add: drop_lock_def)
  ultimately show ?thesis by blast
qed

lemma free_runs:
  assumes ok: "arena_ok a bs fs" and p: "(p - 16, s, x, y) \<in> used a bs" "p \<noteq> 0"
  shows "\<exists>bs' fs' b. arena_ok (free p a) bs' fs' \<and> used (free p a) bs' = {u \<in> used a bs. fst u \<noteq> p - 16} \<and>
    b \<in> set fs' \<and> s \<le> a_size (free p a) b"
proof -
  have inv: "arena_inv a bs fs {}" "merged a fs" "heap_ok a bs" "lock_works a" using ok by (simp_all add: arena_ok_def)
  note i = arena_invD [OF inv(1)]
  obtain e where e: "take_lock a = (True, a\<lparr>lock_env := e\<rparr>)" using take_lock_ok [OF inv(4)] by blast
  let ?a = "a\<lparr>lock_env := e\<rparr>"
  have b: "p - 16 \<in> set bs" "a_type a (p - 16) = ARENA_TYPE_USED" "s = a_size a (p - 16)" using p(1) by (auto simp: used_def)
  obtain us vs where bs: "bs = us @ (p - 16) # vs" using b(1) by (meson split_list)
  have "set fs = {b \<in> set bs - {p - 16}. a_type a b = ARENA_TYPE_FREE}" unfolding i(6) using b(2) by (auto simp: arena_types)
  then have "arena_inv ?a bs fs {p - 16}" using inv(1) unfolding inv_lock arena_inv_def by auto
  moreover have "merged ?a fs" using inv(2) by simp
  ultimately obtain ah' a' bs' fs' where f: "free_block (p - 16) ?a = (ah', a')" "arena_inv a' bs' fs' {}" "merged a' fs'" "ah' \<in> set fs'"
      "used a' bs' = used ?a (us @ vs)" "a_size a (p - 16) \<le> a_size a' ah'" "cover (a_size a') bs' = cover (a_size a) bs" "around a' = around ?a"
    using free_block_ok [OF _ _ bs, of ?a fs] by auto
  have "free p a = drop_lock a'" using p(2) e f(1) by (simp add: free_def sizeof_arena_header_def)
  moreover have "arena_ok (drop_lock a') bs' fs'"
    using f(2,3) inv(3,4) heap_ok_around [of a' a bs' bs] f(7,8) by (simp add: arena_ok_def drop_lock_def heap_ok_def)
  moreover have "used ?a (us @ vs) = {u \<in> used a bs. fst u \<noteq> p - 16}"
    using i(9) unfolding bs by (auto simp: used_def)
  ultimately show ?thesis using f(4,5,6) b(3) by (intro exI [of _ bs'] exI [of _ fs'] exI [of _ ah']) (simp add: drop_lock_def)
qed

lemmas [code] = retry_alloc.simps find_fit.simps find_pred.simps sum_free.simps

lemma init_ok: "base \<le> limit \<Longrightarrow> h < base \<or> limit \<le> h \<Longrightarrow> arena_ok (arena_init h base limit e) [] []"
  by (auto simp: arena_ok_def arena_inv_def arena_init_def ring_def layout_def cover_def merged_def lock_works_def
      malloc_lock_nop_def heap_ok_def word_less_nat_alt word_le_nat_alt)

lemma used_unique: "(b, s, x, y) \<in> used a bs \<Longrightarrow> (b, s', x', y') \<in> used a bs \<Longrightarrow> s = s' \<and> x = x' \<and> y = y'"
  by (auto simp: used_def)

lemma data_ok:
  assumes ok: "arena_ok a bs fs" and u: "(b, s, x, y) \<in> used a bs"
    and a'_def: "a' = a\<lparr>next_free := (next_free a)(b := v), prev_free := (prev_free a)(b := w)\<rparr>"
  shows "arena_ok a' bs fs" "used a' bs = insert (b, s, v, w) {u \<in> used a bs. fst u \<noteq> b}"
proof -
  have inv: "arena_inv a bs fs {}" "merged a fs" "heap_ok a bs" "lock_works a" using ok by (simp_all add: arena_ok_def)
  note i = arena_invD [OF inv(1)]
  have b: "b \<in> set bs" "a_type a b = ARENA_TYPE_USED" "s = a_size a b" using u by (auto simp: used_def)
  have nb: "b \<notin> set fs" "b \<noteq> malloc_head a" using b(1,2) i(6,8) by (auto simp: arena_types)
  have "ring (next_free a') (prev_free a') (malloc_head a) fs"
    using i(2) nb unfolding ring_def a'_def
    by (simp, subst links_cong [of _ _ "next_free a" _ "prev_free a"]) (auto simp: butlast_append)
  then have "arena_inv a' bs fs {}" using inv(1) by (simp add: arena_inv_def a'_def)
  then show "arena_ok a' bs fs" using inv(2-4) by (simp add: arena_ok_def a'_def merged_def heap_ok_def lock_works_def)
  show "used a' bs = insert (b, s, v, w) {u \<in> used a bs. fst u \<noteq> b}" using b by (auto simp: used_def a'_def)
qed

lemma holds_gained:
  assumes "holds a bs L" "gained p (arena_round n) a bs a' bs'" "n \<noteq> 0" "unat n < 2 ^ 31 - 64"
  shows "holds a' bs' ((p, n) # L)"
proof -
  obtain s x y where g: "p \<noteq> 0" "p - 16 \<notin> fst ` used a bs" "used a' bs' = insert (p - 16, s, x, y) (used a bs)" "arena_round n \<le> s"
    using assms(2) by (auto simp: gained_def)
  have "p \<notin> fst ` set L" using g(2) assms(1) by (auto simp: holds_def)
  moreover have "(\<exists>s x y. (q - 16, s, x, y) \<in> used a' bs' \<and> arena_round m \<le> s)" if "(q, m) \<in> set L" for q m
    using assms(1) that unfolding holds_def g(3) by blast
  ultimately show ?thesis using assms(1,3,4) g by (auto simp: holds_def)
qed

lemma holds_freed:
  assumes "holds a bs L" "used a' bs' = {u \<in> used a bs. fst u \<noteq> p - 16}"
  shows "holds a' bs' (filter (\<lambda>q. fst q \<noteq> p) L)"
proof -
  have "fst ` used a' bs' = fst ` used a bs - {p - 16}" unfolding assms(2) by auto
  also have "\<dots> = (\<lambda>q. fst q - 16) ` set (filter (\<lambda>q. fst q \<noteq> p) L)" using assms(1) by (auto simp: holds_def)
  finally show ?thesis using assms unfolding holds_def by (auto simp: distinct_map_filter)
qed

lemma holds_data:
  assumes "holds a bs L" "(b, s, x, y) \<in> used a bs" "used a' bs = insert (b, s, v, w) {u \<in> used a bs. fst u \<noteq> b}"
  shows "holds a' bs L"
proof -
  have "b \<in> fst ` used a bs" using assms(2) by (rule image_eqI [rotated]) simp
  moreover have "fst ` {u \<in> used a bs. fst u \<noteq> b} = fst ` used a bs - {b}" by auto
  ultimately have "fst ` used a' bs = fst ` used a bs" unfolding assms(3) image_insert fst_conv by blast
  moreover have k: "\<exists>s x y. (q, s, x, y) \<in> used a' bs \<and> m \<le> s" if "(q, s', x', y') \<in> used a bs" "m \<le> s'" for q s' x' y' m
  proof (cases "q = b")
    case True
    then have "s' = s" using used_unique that(1) assms(2) by blast
    then show ?thesis using that(2) True unfolding assms(3) by blast
  next
    case False
    then have "(q, s', x', y') \<in> used a' bs" using that(1) unfolding assms(3) by simp
    then show ?thesis using that(2) by blast
  qed
  ultimately show ?thesis using assms(1) unfolding holds_def by (auto dest!: bspec k)
qed

lemma holdsD:
  assumes "holds a bs L" "(p, n) \<in> set L"
  shows "p \<noteq> 0" "n \<noteq> 0" "unat n < 2 ^ 31 - 64" "\<exists>s x y. (p - 16, s, x, y) \<in> used a bs \<and> arena_round n \<le> s"
  using assms unfolding holds_def by auto

lemma run_holds: "heap_run a L \<Longrightarrow> \<exists>bs fs. arena_ok a bs fs \<and> holds a bs L"
proof (induction rule: heap_run.induct)
  case (start base limit h e)
  then show ?case using init_ok [OF start] by (intro exI [of _ "[]"]) (simp add: holds_def used_def)
next
  case (alloc a L n p a')
  then obtain bs fs where s: "arena_ok a bs fs" "holds a bs L" by blast
  obtain bs' fs' where r: "arena_ok a' bs' fs'" "p = 0 \<and> used a' bs' = used a bs \<or> gained p (arena_round n) a bs a' bs'"
    using malloc_runs [OF s(1) alloc.hyps(2)] alloc.hyps(3) by auto
  show ?case
  proof (cases "p = 0")
    case True
    then have "used a' bs' = used a bs" using r(2) by (auto simp only: gained_def)
    then have "holds a' bs' L" using s(2) by (simp add: holds_def)
    then show ?thesis using r(1) True by auto
  next
    case False
    then have "n \<noteq> 0" using alloc.hyps(3) by (auto simp: malloc_def)
    moreover have "gained p (arena_round n) a bs a' bs'" using r(2) False by blast
    ultimately have "holds a' bs' ((p, n) # L)" using holds_gained [OF s(2) _ _ alloc.hyps(2)] by blast
    then show ?thesis using r(1) False by auto
  qed
next
  case (free a L p n)
  then obtain bs fs s x y where s: "arena_ok a bs fs" "holds a bs L" "p \<noteq> 0" "(p - 16, s, x, y) \<in> used a bs"
    using holdsD(1,4) by blast
  obtain bs' fs' where "arena_ok (Libc_Malloc.free p a) bs' fs'" "used (Libc_Malloc.free p a) bs' = {u \<in> used a bs. fst u \<noteq> p - 16}"
    using free_runs [OF s(1,4,3)] by blast
  then show ?case using holds_freed [OF s(2)] by blast
next
  case (data a L p n v w)
  then obtain bs fs s x y where s: "arena_ok a bs fs" "holds a bs L" "(p - 16, s, x, y) \<in> used a bs"
    using holdsD(4) by blast
  then show ?case using data_ok [OF s(1,3) refl, of v w] holds_data [OF s(2,3)] unfolding sizeof_arena_header_def by blast
qed

text \<open>Different blocks a program holds do not overlap.\<close>

lemma used_disjoint:
  assumes "arena_ok a bs fs" "(b, s, x, y) \<in> used a bs" "(c, t, v, w) \<in> used a bs" "b \<noteq> c"
  shows "unat b + unat s \<le> unat c \<or> unat c + unat t \<le> unat b"
proof -
  have l: "layout (a_size a) bs" using assms(1) by (simp add: arena_ok_def arena_inv_def)
  have b: "b \<in> set bs" "s = a_size a b" "c \<in> set bs" "t = a_size a c" using assms(2,3) by (auto simp: used_def)
  obtain us vs where bs: "bs = us @ b # vs" using b(1) by (meson split_list)
  have "c \<in> set us \<or> c \<in> set vs" using b(3) assms(4) unfolding bs by auto
  then show ?thesis using l unfolding bs b layout_append layout_Cons by auto
qed

lemma block_data:
  assumes "arena_ok a bs fs" "(p - 16, s, x, y) \<in> used a bs" "arena_round n \<le> s" "unat n < 2 ^ 31 - 64" "n \<noteq> 0"
  shows "unat (p - 16) + 16 = unat p" "unat p + unat n \<le> unat (p - 16) + unat s"
proof -
  have r: "unat n + 16 \<le> unat s" "32 \<le> unat s"
    using arena_round_bounds(1,2) [OF assms(5,4)] assms(3) by (auto simp: word_le_nat_alt)
  have "unat (p - 16) + unat s < 2 ^ 32" using assms(1,2) by (auto simp: arena_ok_def arena_inv_def layout_def used_def)
  then have "unat (p - 16 + 16) = unat (p - 16) + 16" using r by (simp only: unat_word_ariths) simp
  then show "unat (p - 16) + 16 = unat p" by simp
  then show "unat p + unat n \<le> unat (p - 16) + unat s" using r by linarith
qed

text \<open>
  C33: The heap is well formed at every point of a history in which no request reaches \<open>2 ^ 31 - 64\<close> bytes. Whatever
  sequence of \<^verbatim>\<open>malloc\<close> of less than \<open>2 ^ 31 - 64\<close> bytes, \<^verbatim>\<open>free\<close> of blocks it holds and writes to these blocks a
  program performs, starting with an empty heap between a break and a limit above it, both chains are rings with consistent back pointers, the blocks are ordered by
  address and do not overlap, no two free blocks are neighbours, the free chain holds exactly the free blocks, and
  the used blocks are exactly those the program holds; the memory of any two of them is disjoint.
  Larger requests wrap in the arithmetic of \<^verbatim>\<open>malloc\<close> and are not covered: \<open>malloc_hangs\<close> and \<open>malloc_oversized\<close>.
\<close>

theorem heap_well_formed:
  assumes "heap_run a L"
  shows "\<exists>bs fs. arena_ok a bs fs \<and> fst ` used a bs = (\<lambda>(p, n). p - sizeof_arena_header) ` set L \<and> distinct (map fst L) \<and>
    (\<forall>(p, n) \<in> set L. \<forall>(q, m) \<in> set L. p \<noteq> q \<longrightarrow> {unat p ..< unat p + unat n} \<inter> {unat q ..< unat q + unat m} = {})"
proof -
  obtain bs fs where r: "arena_ok a bs fs" "holds a bs L" using run_holds [OF assms] by blast
  have "{unat p ..< unat p + unat n} \<inter> {unat q ..< unat q + unat m} = {}"
    if pq: "(p, n) \<in> set L" "(q, m) \<in> set L" "p \<noteq> q" for p n q m
  proof -
    obtain s x y where u: "(p - 16, s, x, y) \<in> used a bs" "arena_round n \<le> s" using holdsD(4) [OF r(2) pq(1)] by blast
    obtain t v w where v: "(q - 16, t, v, w) \<in> used a bs" "arena_round m \<le> t" using holdsD(4) [OF r(2) pq(2)] by blast
    note d = block_data [OF r(1) u holdsD(3,2) [OF r(2) pq(1)]] block_data [OF r(1) v holdsD(3,2) [OF r(2) pq(2)]]
    have "p - 16 \<noteq> q - 16" using pq(3) by simp
    from used_disjoint [OF r(1) u(1) v(1) this] show ?thesis using d by auto
  qed
  then have "\<forall>(p, n) \<in> set L. \<forall>(q, m) \<in> set L. p \<noteq> q \<longrightarrow> {unat p ..< unat p + unat n} \<inter> {unat q ..< unat q + unat m} = {}" by blast
  moreover have "fst ` used a bs = (\<lambda>(p, n). p - sizeof_arena_header) ` set L" "distinct (map fst L)"
    using r(2) by (simp_all add: holds_def sizeof_arena_header_def split_def)
  ultimately show ?thesis using r(1) by blast
qed

text \<open>
  C34: The allocator always returns: in every well-formed heap a request of less than \<open>2 ^ 31 - 64\<close> bytes ends, and so
  does the walk over the free chain for the memory status, with the sum and the maximum of the sizes of the free
  blocks.
\<close>

theorem malloc_returns:
  assumes "heap_run a L" "unat n < 2 ^ 31 - 64"
  shows "(\<exists>p a'. malloc n a = Some (p, a')) \<and>
    (\<exists>bs fs a'. arena_ok a bs fs \<and> get_malloc_memory_status a = Some ((sum_list (map (a_size a) fs), fold max (map (a_size a) fs) 0), a'))"
proof -
  obtain bs fs where r: "arena_ok a bs fs" using run_holds [OF assms(1)] by blast
  have i: "arena_inv a bs fs {}" "lock_works a" using r by (simp_all add: arena_ok_def)
  obtain e where e: "take_lock a = (True, a\<lparr>lock_env := e\<rparr>)" using take_lock_ok [OF i(2)] by blast
  let ?a = "a\<lparr>lock_env := e\<rparr>" and ?h = "malloc_head a"
  note v = arena_invD [OF i(1)]
  have "next_free a ?h = after ?h fs" using ring_split(3) [of _ _ _ "[]" fs] v(2) by (simp add: before_def)
  moreover have "\<forall>x \<in> set fs. a_type a x \<noteq> ARENA_TYPE_HEAD" unfolding v(6) by (simp add: arena_types)
  ultimately have "sum_free ?a (next_free ?a (malloc_head ?a)) (0, 0) = Some (sum_list (map (a_size a) fs), fold max (map (a_size a) fs) 0)"
    using sum_free_walk [of ?a "prev_free a" ?h "[]" fs 0 0] v(2,3) by simp
  then have "\<exists>a'. get_malloc_memory_status a = Some ((sum_list (map (a_size a) fs), fold max (map (a_size a) fs) 0), a')"
    using e by (simp add: get_malloc_memory_status_def)
  then show ?thesis using malloc_runs [OF r assms(2)] r by blast
qed

text \<open>
  C35: Memory that is given back can be had again: after \<^verbatim>\<open>free\<close> of a block the program holds, \<^verbatim>\<open>malloc\<close> of the same
  size, or of a smaller one that is not 0, succeeds.
\<close>

theorem free_then_malloc:
  assumes "heap_run a L" "(p, n) \<in> set L" "m \<noteq> 0" "m \<le> n"
  shows "\<exists>q a'. malloc m (free p a) = Some (q, a') \<and> q \<noteq> 0"
proof -
  obtain bs fs where r: "arena_ok a bs fs" "holds a bs L" using run_holds [OF assms(1)] by blast
  obtain s x y where u: "(p - 16, s, x, y) \<in> used a bs" "arena_round n \<le> s" using holdsD(4) [OF r(2) assms(2)] by blast
  obtain bs' fs' b where f: "arena_ok (free p a) bs' fs'" "b \<in> set fs'" "s \<le> a_size (free p a) b"
    using free_runs [OF r(1) u(1) holdsD(1) [OF r(2) assms(2)]] by blast
  have m: "unat m \<le> unat n" "unat n < 2 ^ 31 - 64" using assms(4) holdsD(3) [OF r(2) assms(2)] by (simp_all add: word_le_nat_alt)
  then have "unat (arena_round m) \<le> unat (arena_round n)"
    by (subst (1 2) unat_arena_round) (auto intro!: mult_le_mono1 div_le_mono)
  then have le: "arena_round m \<le> a_size (free p a) b" using u(2) f(3) by (simp add: word_le_nat_alt)
  obtain e where e: "take_lock (free p a) = (True, (free p a)\<lparr>lock_env := e\<rparr>)" using take_lock_ok f(1) by (auto simp: arena_ok_def)
  let ?a = "(free p a)\<lparr>lock_env := e\<rparr>"
  have "arena_ok ?a bs' fs'" "arena_round m \<le> a_size ?a b" using f(1) le by (simp_all add: arena_ok_def heap_ok_def)
  from retry_found [OF this(1) arena_round_bounds(1,3) [OF assms(3)] f(2) this(2)]
  obtain q a' where "retry_alloc (arena_round m) ?a = Some (q, a')" "q \<noteq> 0" using m by (auto simp: gained_def)
  then show ?thesis using e assms(3) by (simp add: malloc_def)
qed

lemma demo_malloc: "\<exists>a. malloc 100 demo_heap = Some (0x20000010, a)"
proof -
  have "map_option fst (malloc 100 demo_heap) = Some 0x20000010" by code_simp
  then show ?thesis by auto
qed

text \<open>A request near \<open>2 ^ 32\<close> wraps to a size of 0, and the search goes on forever.\<close>

lemma retry_alloc_hangs:
  assumes "a_type a (next_free a (malloc_head a)) = ARENA_TYPE_HEAD" "brk a \<le> heap_limit a" "brk a \<noteq> -1"
  shows "retry_alloc 0 a = None"
proof (cases "retry_alloc 0 a")
  case (Some r)
  have fit: "find_fit a 0 (next_free a (malloc_head a)) = Some None" using assms(1) by (subst find_fit.simps) simp
  have "0 \<le> uint (heap_limit a) - uint (brk a)" using assms(2) by (simp add: word_le_def)
  then have s: "sbrk 0 a = Some (brk a, a)" by (simp add: sbrk_def)
  have m: "add_malloc_block (brk a) 0 a = Some a" by (simp add: add_malloc_block_def sizeof_free_arena_header_def)
  have "\<not> ((0 :: u32) = 0 \<and> a = a)"
    by (rule retry_alloc.raw_induct [OF _ Some, of "\<lambda>sz b r. \<not> (sz = 0 \<and> b = a)"]) (auto simp: fit s m assms(3), blast)
  then show ?thesis by simp
qed

lemma malloc_hangs: "malloc 0xfffffff0 demo_heap = None"
proof -
  let ?a = "demo_heap\<lparr>lock_env := ()\<rparr>"
  have "retry_alloc 0 ?a = None" by (rule retry_alloc_hangs) (simp_all add: demo_heap_def arena_init_def)
  moreover have "arena_round 0xfffffff0 = 0" by code_simp
  moreover have "take_lock demo_heap = (True, ?a)" by (simp add: take_lock_def demo_heap_def arena_init_def malloc_lock_nop_def)
  ultimately show ?thesis by (simp add: malloc_def)
qed

lemma calloc_wraps: "calloc 0x10001 0x10000 st = calloc 1 0x10000 st"
proof -
  have "(0x10000 :: u32) * 0x10001 = 0x10000 * 1" by code_simp
  then show ?thesis unfolding calloc_def by (simp only:)
qed

lemma realloc_null:
  assumes "p \<noteq> 0" "n \<noteq> 0" "a_size a (p - 16) < arena_round n" "malloc (arena_round n) a = Some (0, a')"
  shows "realloc p n (a, mem) = None"
  using assms by (simp add: realloc_def sizeof_arena_header_def Let_def)

theorem heap_well_formed_witness:
  "\<exists>a bs fs. malloc 100 demo_heap = Some (0x20000010, a) \<and> arena_ok a bs fs \<and> fst ` used a bs = {0x20000000}"
proof -
  obtain a where a: "malloc 100 demo_heap = Some (0x20000010, a)" using demo_malloc by blast
  have "heap_run demo_heap []" unfolding demo_heap_def by (rule heap_run.start) simp_all
  from heap_run.alloc [OF this _ a] have "heap_run a [(0x20000010, 100)]" by simp
  from heap_well_formed [OF this] show ?thesis using a by (auto simp: sizeof_arena_header_def)
qed

theorem malloc_returns_witness:
  "\<exists>p a'. malloc 5000 demo_heap = Some (p, a')"
proof -
  have "heap_run demo_heap []" unfolding demo_heap_def by (rule heap_run.start) simp_all
  then show ?thesis using malloc_returns [of demo_heap "[]" 5000] by simp
qed

theorem free_then_malloc_witness:
  "\<exists>a q a'. malloc 100 demo_heap = Some (0x20000010, a) \<and> malloc 90 (free 0x20000010 a) = Some (q, a') \<and> q \<noteq> 0"
proof -
  obtain a where a: "malloc 100 demo_heap = Some (0x20000010, a)" using demo_malloc by blast
  have "heap_run demo_heap []" unfolding demo_heap_def by (rule heap_run.start) simp_all
  from heap_run.alloc [OF this _ a] have "heap_run a [(0x20000010, 100)]" by simp
  from free_then_malloc [OF this, of "0x20000010" 100 90] show ?thesis using a by auto
qed

text \<open>A somewhat smaller one makes the break go back, and a block of nearly 4 GB is handed out.\<close>

lemma malloc_oversized:
  "(do { (p, a) \<leftarrow> malloc 0x100 demo_heap; (q, a') \<leftarrow> malloc 0xffffff00 a; Some (q, a_size a' (q - 16)) }) = Some (0x20000120, 0xffffff10)"
  by code_simp

end
