(* ===== verification/Os_Heap.thy ===== *)
theory Os_Heap
  imports Os_Mutex Libc_Malloc
begin

text \<open>
  \<^verbatim>\<open>libs/os/src/os_heap.c\<close>: the allocator of the C library under a mutex of the kernel. A call returns a value or
  leaves its task blocked on the mutex. Without contention a call has the effect of the library function and gives
  the mutex back.
\<close>

subsection \<open>os\_heap.c\<close>

datatype 'r heap_result = Heap_Return 'r | Heap_Blocked

definition os_malloc_lock :: "nat \<Rightarrow> os_state \<Rightarrow> (pend_result \<times> os_state) option" where
  "os_malloc_lock os_malloc_mutex s =
     (if g_os_started s then do {
        (r, s1) \<leftarrow> os_mutex_pend (Some os_malloc_mutex) OS_TIMEOUT_NEVER s;
        if r = Pend_Blocked \<or> r = Pend_Return OS_OK then Some (r, s1) else None
      } else Some (Pend_Return OS_OK, s))"

definition os_malloc_unlock :: "nat \<Rightarrow> os_state \<Rightarrow> os_state option" where
  "os_malloc_unlock os_malloc_mutex s =
     (if g_os_started s then do {
        (rc, s1) \<leftarrow> os_mutex_release (Some os_malloc_mutex) s;
        if rc = OS_OK then Some s1 else None
      } else Some s)"

definition os_malloc :: "nat \<Rightarrow> u32 \<Rightarrow> os_state \<times> 'e arena \<Rightarrow> (u32 heap_result \<times> os_state \<times> 'e arena) option" where
  "os_malloc mu sz st = do {
     (r, s1) \<leftarrow> os_malloc_lock mu (fst st);
     if r = Pend_Blocked then Some (Heap_Blocked, s1, snd st)
     else do {
       (ptr, a) \<leftarrow> malloc sz (snd st);
       s2 \<leftarrow> os_malloc_unlock mu s1;
       Some (Heap_Return ptr, s2, a)
     }
   }"

definition os_free :: "nat \<Rightarrow> u32 \<Rightarrow> os_state \<times> 'e arena \<Rightarrow> (unit heap_result \<times> os_state \<times> 'e arena) option" where
  "os_free mu mem st = do {
     (r, s1) \<leftarrow> os_malloc_lock mu (fst st);
     if r = Pend_Blocked then Some (Heap_Blocked, s1, snd st)
     else do {
       s2 \<leftarrow> os_malloc_unlock mu s1;
       Some (Heap_Return (), s2, free mem (snd st))
     }
   }"

definition os_realloc ::
    "nat \<Rightarrow> u32 \<Rightarrow> u32 \<Rightarrow> os_state \<times> 'e arena \<times> (u32 \<Rightarrow> u8) \<Rightarrow>
     (u32 heap_result \<times> os_state \<times> 'e arena \<times> (u32 \<Rightarrow> u8)) option" where
  "os_realloc mu ptr sz st = do {
     (r, s1) \<leftarrow> os_malloc_lock mu (fst st);
     if r = Pend_Blocked then Some (Heap_Blocked, s1, snd st)
     else do {
       (new_ptr, h) \<leftarrow> realloc ptr sz (snd st);
       s2 \<leftarrow> os_malloc_unlock mu s1;
       Some (Heap_Return new_ptr, s2, h)
     }
   }"

subsection \<open>Lemmas\<close>

lemma lock_unlock:
  assumes "g_os_started s" "g_current_task s = Some c" "mu_level (os_mutexes s i) = 0"
    and "obj_head s (ObjMutex i) = []" "os_sched_next_task s = Some c"
  shows "\<exists>s1. os_malloc_lock i s = Some (Pend_Return OS_OK, s1) \<and>
    os_malloc_unlock i s1 = Some (upd_mutex i (\<lambda>m. m\<lparr>mu_prio := task_prio s c, mu_level := 0, mu_owner := None\<rparr>) s)"
  using assms unfolding os_malloc_lock_def os_malloc_unlock_def os_mutex_pend_def os_mutex_release_def os_mutex_hand_over_def
  by (simp add: os_sched_get_current_task_def upd_mutex_def os_sched_next_task_def)

lemma os_malloc_uncontended:
  assumes "g_os_started s" "g_current_task s = Some c" "mu_level (os_mutexes s i) = 0"
    and "obj_head s (ObjMutex i) = []" "os_sched_next_task s = Some c" "malloc n a = Some (p, a')"
  shows "os_malloc i n (s, a) = Some (Heap_Return p, upd_mutex i (\<lambda>m. m\<lparr>mu_prio := task_prio s c, mu_level := 0, mu_owner := None\<rparr>) s, a')"
  using lock_unlock [OF assms(1-5)] assms(6) by (auto simp: os_malloc_def)

end
