(* ===== verification/Libc_Mem.thy ===== *)
theory Libc_Mem
  imports Mynewt_Prelude
begin

text \<open>
  The functions of \<^verbatim>\<open>libs/baselibc/src\<close> on memory areas and strings. All pointers of a call are offsets into one
  memory, so that areas may overlap; an access outside it has no result. Sizes are natural numbers: no size of this file is
  the result of arithmetic that can wrap. The branches for processors with string instructions, which are written in
  assembler, are left out.
\<close>

subsection \<open>Memory areas\<close>

primrec memcpy :: "u8 list \<Rightarrow> nat \<Rightarrow> nat \<Rightarrow> nat \<Rightarrow> u8 list option" where
  "memcpy m q p 0 = Some m"
| "memcpy m q p (Suc n) = do {
     x \<leftarrow> get8 m p;
     m \<leftarrow> put8 m q x;
     memcpy m (q + 1) (p + 1) n
   }"

text \<open>The two loops of \<^verbatim>\<open>memmove\<close>: the first is that of \<^verbatim>\<open>memcpy\<close>, the second goes down from the end.\<close>

primrec copy_up :: "u8 list \<Rightarrow> nat \<Rightarrow> nat \<Rightarrow> nat \<Rightarrow> u8 list option" where
  "copy_up m q p 0 = Some m"
| "copy_up m q p (Suc n) = do {
     x \<leftarrow> get8 m p;
     m \<leftarrow> put8 m q x;
     copy_up m (q + 1) (p + 1) n
   }"

primrec copy_down :: "u8 list \<Rightarrow> nat \<Rightarrow> nat \<Rightarrow> nat \<Rightarrow> u8 list option" where
  "copy_down m q p 0 = Some m"
| "copy_down m q p (Suc n) = do {
     x \<leftarrow> get8 m (p - 1);
     m \<leftarrow> put8 m (q - 1) x;
     copy_down m (q - 1) (p - 1) n
   }"

definition memmove :: "u8 list \<Rightarrow> nat \<Rightarrow> nat \<Rightarrow> nat \<Rightarrow> u8 list option" where
  "memmove m dst src n = (if dst < src then copy_up m dst src n else copy_down m (dst + n) (src + n) n)"

primrec memset :: "u8 list \<Rightarrow> nat \<Rightarrow> u8 \<Rightarrow> nat \<Rightarrow> u8 list option" where
  "memset m q c 0 = Some m"
| "memset m q c (Suc n) = do {
     m \<leftarrow> put8 m q c;
     memset m (q + 1) c n
   }"

definition bzero :: "u8 list \<Rightarrow> nat \<Rightarrow> nat \<Rightarrow> u8 list option" where
  "bzero m dst n = memset m dst 0 n"

primrec memcmp :: "u8 list \<Rightarrow> nat \<Rightarrow> nat \<Rightarrow> nat \<Rightarrow> int option" where
  "memcmp m c1 c2 0 = Some 0"
| "memcmp m c1 c2 (Suc n) = do {
     x \<leftarrow> get8 m c1;
     y \<leftarrow> get8 m c2;
     let d = uint x - uint y;
     if d \<noteq> 0 then Some d else memcmp m (c1 + 1) (c2 + 1) n
   }"

text \<open>The result of a search is \<open>None\<close> for a null pointer.\<close>

primrec memchr :: "u8 list \<Rightarrow> nat \<Rightarrow> u8 \<Rightarrow> nat \<Rightarrow> nat option option" where
  "memchr m sp c 0 = Some None"
| "memchr m sp c (Suc n) = do {
     x \<leftarrow> get8 m sp;
     if x = c then Some (Some sp) else memchr m (sp + 1) c n
   }"

text \<open>The pointer of \<^verbatim>\<open>memrchr\<close> is one behind the byte it looks at next.\<close>

primrec memrchr_loop :: "u8 list \<Rightarrow> nat \<Rightarrow> u8 \<Rightarrow> nat \<Rightarrow> nat option option" where
  "memrchr_loop m sp c 0 = Some None"
| "memrchr_loop m sp c (Suc n) = do {
     x \<leftarrow> get8 m (sp - 1);
     if x = c then Some (Some (sp - 1)) else memrchr_loop m (sp - 1) c n
   }"

definition memrchr :: "u8 list \<Rightarrow> nat \<Rightarrow> u8 \<Rightarrow> nat \<Rightarrow> nat option option" where
  "memrchr m s c n = memrchr_loop m (s + n) c n"

primrec memccpy :: "u8 list \<Rightarrow> nat \<Rightarrow> nat \<Rightarrow> u8 \<Rightarrow> nat \<Rightarrow> (nat option \<times> u8 list) option" where
  "memccpy m q p c 0 = Some (None, m)"
| "memccpy m q p c (Suc n) = do {
     ch \<leftarrow> get8 m p;
     m \<leftarrow> put8 m q ch;
     if ch = c then Some (Some (q + 1), m) else memccpy m (q + 1) (p + 1) c n
   }"

primrec memswap :: "u8 list \<Rightarrow> nat \<Rightarrow> nat \<Rightarrow> nat \<Rightarrow> u8 list option" where
  "memswap m p q 0 = Some m"
| "memswap m p q (Suc n) = do {
     tmp \<leftarrow> get8 m p;
     x \<leftarrow> get8 m q;
     m \<leftarrow> put8 m p x;
     m \<leftarrow> put8 m q tmp;
     memswap m (p + 1) (q + 1) n
   }"

text \<open>
  The search of a needle of more than one byte: \<open>j\<close> is the position in the haystack, \<open>k\<close> and \<open>l\<close> the steps after a
  mismatch in the second byte and elsewhere, which are 1 or 2; a step of 0, with which the loop would not end, does not occur.
\<close>

function memmem_loop :: "u8 list \<Rightarrow> nat \<Rightarrow> nat \<Rightarrow> nat \<Rightarrow> nat \<Rightarrow> nat \<Rightarrow> nat \<Rightarrow> nat \<Rightarrow> nat option option" where
  "memmem_loop m y n x mm k l j =
     (if j \<le> n - mm \<and> 0 < k \<and> 0 < l then do {
        x1 \<leftarrow> get8 m (x + 1);
        y1 \<leftarrow> get8 m (y + j + 1);
        if x1 \<noteq> y1 then memmem_loop m y n x mm k l (j + k)
        else do {
          d \<leftarrow> memcmp m (x + 2) (y + j + 2) (mm - 2);
          x0 \<leftarrow> get8 m x;
          y0 \<leftarrow> get8 m (y + j);
          if d = 0 \<and> x0 = y0 then Some (Some (y + j)) else memmem_loop m y n x mm k l (j + l)
        }
      } else Some None)"
  by pat_completeness auto
termination by (relation "measure (\<lambda>(m, y, n, x, mm, k, l, j). Suc (n - mm) - j)") auto

primrec memmem_byte :: "u8 list \<Rightarrow> nat \<Rightarrow> nat \<Rightarrow> nat \<Rightarrow> nat option option" where
  "memmem_byte m y x 0 = Some None"
| "memmem_byte m y x (Suc n) = do {
     b \<leftarrow> get8 m y;
     c \<leftarrow> get8 m x;
     if b = c then Some (Some y) else memmem_byte m (y + 1) x n
   }"

definition memmem :: "u8 list \<Rightarrow> nat \<Rightarrow> nat \<Rightarrow> nat \<Rightarrow> nat \<Rightarrow> nat option option" where
  "memmem m haystack n needle mm =
     (if mm > n \<or> mm = 0 \<or> n = 0 then Some None
      else if mm \<noteq> 1 then do {
        x0 \<leftarrow> get8 m needle;
        x1 \<leftarrow> get8 m (needle + 1);
        if x0 = x1 then memmem_loop m haystack n needle mm 2 1 0
        else memmem_loop m haystack n needle mm 1 2 0
      }
      else memmem_byte m haystack needle n)"

subsection \<open>Strings\<close>

function strlen_loop :: "u8 list \<Rightarrow> nat \<Rightarrow> nat option" where
  "strlen_loop m ss = do {
     c \<leftarrow> get8 m ss;
     if c \<noteq> 0 then strlen_loop m (ss + 1) else Some ss
   }"
  by pat_completeness auto
termination by (relation "measure (\<lambda>(m, ss). length m - ss)") (auto simp: get8_def split: if_splits)

definition strlen :: "u8 list \<Rightarrow> nat \<Rightarrow> nat option" where
  "strlen m s = do { e \<leftarrow> strlen_loop m s; Some (e - s) }"

definition strstr :: "u8 list \<Rightarrow> nat \<Rightarrow> nat \<Rightarrow> nat option option" where
  "strstr m haystack needle = do {
     n \<leftarrow> strlen m haystack;
     k \<leftarrow> strlen m needle;
     memmem m haystack n needle k
   }"

subsection \<open>Specification\<close>

text \<open>The \<open>n\<close> bytes at \<open>p\<close>.\<close>

definition area :: "u8 list \<Rightarrow> nat \<Rightarrow> nat \<Rightarrow> u8 list" where
  "area m p n = take n (drop p m)"

text \<open>The comparison of two areas: the difference of the first two bytes that differ.\<close>

fun cmp_bytes :: "u8 list \<Rightarrow> u8 list \<Rightarrow> int" where
  "cmp_bytes (x # xs) (y # ys) = (if x = y then cmp_bytes xs ys else uint x - uint y)"
| "cmp_bytes _ _ = 0"

text \<open>The positions where \<open>x\<close> occurs in \<open>y\<close>.\<close>

definition occurs :: "u8 list \<Rightarrow> u8 list \<Rightarrow> nat \<Rightarrow> bool" where
  "occurs x y j \<longleftrightarrow> j + length x \<le> length y \<and> take (length x) (drop j y) = x"

definition first_occurrence :: "u8 list \<Rightarrow> u8 list \<Rightarrow> nat option" where
  "first_occurrence x y = find (occurs x y) [0..<Suc (length y)]"

text \<open>What a copy of \<open>xs\<close> to \<open>q\<close> leaves.\<close>

definition overwrite :: "u8 list \<Rightarrow> nat \<Rightarrow> u8 list \<Rightarrow> u8 list" where
  "overwrite m q xs = take q m @ xs @ drop (q + length xs) m"

text \<open>The memory at \<open>s\<close> holds the string \<open>cs\<close>.\<close>

definition is_string :: "u8 list \<Rightarrow> nat \<Rightarrow> u8 list \<Rightarrow> bool" where
  "is_string m s cs \<longleftrightarrow> s + length cs < length m \<and> area m s (length cs + 1) = cs @ [0] \<and> 0 \<notin> set cs"

subsection \<open>Lemmas\<close>

declare memmem_loop.simps [simp del] strlen_loop.simps [simp del]

lemma length_overwrite [simp]: "q + length xs \<le> length m \<Longrightarrow> length (overwrite m q xs) = length m"
  by (simp add: overwrite_def)

lemma overwrite_Nil [simp]: "q \<le> length m \<Longrightarrow> overwrite m q [] = m"
  by (simp add: overwrite_def)

lemma overwrite_Cons: "q < length m \<Longrightarrow> overwrite m q (x # xs) = overwrite (m[q := x]) (q + 1) xs"
  by (simp add: overwrite_def take_Suc_conv_app_nth)

lemma overwrite_snoc: "q + length xs < length m \<Longrightarrow> overwrite m q (xs @ [x]) = overwrite (m[q + length xs := x]) q xs"
  by (simp add: overwrite_def drop_update_swap Cons_nth_drop_Suc [symmetric] nth_list_update)

lemma overwrite_update: "q + length xs \<le> i \<Longrightarrow> i < length m \<Longrightarrow> (overwrite m q xs)[i := v] = overwrite (m[i := v]) q xs"
  by (auto simp: overwrite_def list_update_append drop_update_swap)

lemma area_Suc: "p < length m \<Longrightarrow> area m p (Suc n) = m ! p # area m (p + 1) n"
  by (simp add: area_def Cons_nth_drop_Suc [symmetric])

lemma length_area [simp]: "p + n \<le> length m \<Longrightarrow> length (area m p n) = n"
  by (simp add: area_def)

lemma area_snoc: "p + n < length m \<Longrightarrow> area m p (Suc n) = area m p n @ [m ! (p + n)]"
  by (simp add: area_def take_Suc_conv_app_nth)

lemma area_update_before: "q < p \<Longrightarrow> area (m[q := x]) p n = area m p n"
  by (simp add: area_def)

lemma area_update_behind: "p + n \<le> q \<Longrightarrow> area (m[q := x]) p n = area m p n"
  by (simp add: area_def take_drop take_update_cancel)

lemma copy_up_spec:
  "q \<le> p \<or> p + n \<le> q \<Longrightarrow> p + n \<le> length m \<Longrightarrow> q + n \<le> length m \<Longrightarrow> copy_up m q p n = Some (overwrite m q (area m p n))"
proof (induction n arbitrary: m p q)
  case (Suc n)
  have "area (m[q := m ! p]) (p + 1) n = area m (p + 1) n"
    using Suc.prems by (cases "q \<le> p") (auto simp: area_update_before area_update_behind)
  then show ?case using Suc.IH [of "q + 1" "p + 1" "m[q := m ! p]"] Suc.prems
    by (cases "q \<le> p") (simp_all add: buf_simps area_Suc overwrite_Cons)
qed (simp add: area_def)

lemma copy_down_spec:
  "p \<le> q \<Longrightarrow> q + n \<le> length m \<Longrightarrow> copy_down m (q + n) (p + n) n = Some (overwrite m q (area m p n))"
proof (induction n arbitrary: m)
  case (Suc n)
  have "area (m[q + n := m ! (p + n)]) p n = area m p n" using Suc.prems by (simp add: area_update_behind)
  then show ?case using Suc by (simp add: buf_simps area_snoc overwrite_snoc)
qed (simp add: area_def)

text \<open>\<^verbatim>\<open>memmove\<close> copies the area as it was before the call, whether or not the two overlap; \<^verbatim>\<open>memcpy\<close> when they do not.\<close>

lemma memmove_spec: "src + n \<le> length m \<Longrightarrow> dst + n \<le> length m \<Longrightarrow> memmove m dst src n = Some (overwrite m dst (area m src n))"
  by (simp add: memmove_def copy_up_spec copy_down_spec)

lemma memcpy_copy_up: "memcpy m q p n = copy_up m q p n"
  by (induction n arbitrary: m q p) simp_all

lemma memcpy_spec:
  "dst \<le> src \<or> src + n \<le> dst \<Longrightarrow> src + n \<le> length m \<Longrightarrow> dst + n \<le> length m \<Longrightarrow> memcpy m dst src n = Some (overwrite m dst (area m src n))"
  by (simp add: memcpy_copy_up copy_up_spec)

lemma memset_spec: "q + n \<le> length m \<Longrightarrow> memset m q c n = Some (overwrite m q (replicate n c))"
  by (induction n arbitrary: m q) (simp_all add: buf_simps overwrite_Cons)

lemma memcmp_spec: "p + n \<le> length m \<Longrightarrow> q + n \<le> length m \<Longrightarrow> memcmp m p q n = Some (cmp_bytes (area m p n) (area m q n))"
proof (induction n arbitrary: p q)
  case (Suc n)
  then show ?case by (simp add: buf_simps area_Suc word_uint_eq_iff)
qed (simp add: area_def)

lemma memswap_spec:
  "p + n \<le> q \<Longrightarrow> q + n \<le> length m \<Longrightarrow> memswap m p q n = Some (overwrite (overwrite m p (area m q n)) q (area m p n))"
proof (induction n arbitrary: m p q)
  case (Suc n)
  let ?m = "m[p := m ! q, q := m ! p]"
  have "area ?m (q + 1) n = area m (q + 1) n" "area ?m (p + 1) n = area m (p + 1) n"
    using Suc.prems by (simp_all add: area_update_before area_update_behind)
  then show ?case
    using Suc.IH [of "p + 1" "q + 1" ?m] Suc.prems by (simp add: buf_simps area_Suc overwrite_Cons overwrite_update)
qed (simp add: area_def)

lemma find_upt_Some: "find P [0..<n] = Some j \<longleftrightarrow> j < n \<and> P j \<and> (\<forall>i < j. \<not> P i)"
  by (auto simp: find_Some_iff)

lemma first_occurrenceI:
  assumes "occurs x y j" "\<And>i. i < j \<Longrightarrow> \<not> occurs x y i"
  shows "first_occurrence x y = Some j"
  unfolding first_occurrence_def find_upt_Some using assms by (auto simp: occurs_def)

lemma no_occurrenceI: "(\<And>i. i + length x \<le> length y \<Longrightarrow> \<not> occurs x y i) \<Longrightarrow> first_occurrence x y = None"
  unfolding first_occurrence_def find_None_iff by (auto simp: occurs_def)

lemma first_occurrence_None:
  assumes "first_occurrence x y = None"
  shows "\<not> occurs x y i"
proof
  assume o: "occurs x y i"
  then have "i \<in> set [0..<Suc (length y)]" by (auto simp: occurs_def)
  then show False using assms o unfolding first_occurrence_def find_None_iff by blast
qed

lemma cmp_bytes_0: "length xs = length ys \<Longrightarrow> cmp_bytes xs ys = 0 \<longleftrightarrow> xs = ys"
  by (induction xs ys rule: list_induct2) (auto simp: word_uint_eq_iff)

lemma area_area: "j + k \<le> n \<Longrightarrow> area (area m y n) j k = area m (y + j) k"
  by (simp add: area_def take_drop min_def add.commute add.left_commute)

lemma occurs_area:
  assumes "x + k \<le> length m" "y + n \<le> length m"
  shows "occurs (area m x k) (area m y n) j \<longleftrightarrow> j + k \<le> n \<and> area m (y + j) k = area m x k"
  using assms area_area [of j k n m y] by (auto simp: occurs_def area_def [of "area m y n"])

lemma occurs_two:
  assumes "x + k \<le> length m" "y + n \<le> length m" "2 \<le> k"
  shows "occurs (area m x k) (area m y n) j \<longleftrightarrow> j + k \<le> n \<and> m ! x = m ! (y + j) \<and> m ! (x + 1) = m ! (y + j + 1) \<and>
    area m (x + 2) (k - 2) = area m (y + j + 2) (k - 2)"
proof -
  obtain k' where k: "k = Suc (Suc k')" using assms(3) by (metis Suc_le_D numeral_2_eq_2 Suc_le_mono)
  show ?thesis unfolding occurs_area [OF assms(1,2)] using assms by (auto simp: k area_Suc)
qed

lemma memmem_loop_spec:
  assumes "x + mm \<le> length m" "y + n \<le> length m" "2 \<le> mm" "mm \<le> n" "(k, l) = (if m ! x = m ! (x + 1) then (2, 1) else (1, 2))"
    and "\<And>i. i < j \<Longrightarrow> \<not> occurs (area m x mm) (area m y n) i"
  shows "memmem_loop m y n x mm k l j = Some (map_option ((+) y) (first_occurrence (area m x mm) (area m y n)))"
  using assms
proof (induction m y n x mm k l j rule: memmem_loop.induct)
  case (1 m y n x mm k l j)
  note occ = occurs_two [OF "1.prems"(1-3)]
  show ?case
  proof (cases "j \<le> n - mm")
    case False
    then have "first_occurrence (area m x mm) (area m y n) = None"
      using "1.prems" by (intro no_occurrenceI) auto
    then show ?thesis using False by (simp add: memmem_loop.simps)
  next
    case True
    then have g: "get8 m (x + 1) = Some (m ! (x + 1))" "get8 m (y + j + 1) = Some (m ! (y + j + 1))"
      "get8 m x = Some (m ! x)" "get8 m (y + j) = Some (m ! (y + j))"
      "memcmp m (x + 2) (y + j + 2) (mm - 2) = Some (cmp_bytes (area m (x + 2) (mm - 2)) (area m (y + j + 2) (mm - 2)))"
      using "1.prems" by (simp_all add: buf_simps memcmp_spec)
    have jm: "j + mm \<le> n" using True "1.prems"(4) by simp
    have kl: "j \<le> n - mm \<and> 0 < k \<and> 0 < l" using True "1.prems"(5) by (auto split: if_splits)
    note step = memmem_loop.simps [of m y n x mm k l j]
    have skip: "\<not> occurs (area m x mm) (area m y n) i"
      if "\<not> occurs (area m x mm) (area m y n) j" "i < j + d" "d = 2 \<longrightarrow> m ! x \<noteq> m ! (y + j + 1)" "d = 1 \<or> d = 2" for i d
    proof -
      from that have "i < j \<or> i = j \<or> i = j + 1 \<and> d = 2" by auto
      then show ?thesis using that "1.prems"(6) by (auto simp: occ)
    qed
    consider (second) "m ! (x + 1) \<noteq> m ! (y + j + 1)" | (found) "m ! (x + 1) = m ! (y + j + 1)" "occurs (area m x mm) (area m y n) j"
      | (other) "m ! (x + 1) = m ! (y + j + 1)" "\<not> occurs (area m x mm) (area m y n) j" by blast
    then show ?thesis
    proof cases
      case second
      have "memmem_loop m y n x mm k l (j + k) = Some (map_option ((+) y) (first_occurrence (area m x mm) (area m y n)))"
        by (rule "1.IH"(1) [OF kl g(1,2) second "1.prems"(1-5) skip [where d = k]])
          (use second "1.prems"(5) in \<open>auto simp: occ split: if_splits\<close>)
      then show ?thesis using second kl g by (simp add: step)
    next
      case found
      then show ?thesis using kl g first_occurrenceI [OF found(2) "1.prems"(6)] by (simp add: step occ cmp_bytes_0)
    next
      case other
      have "\<not> (cmp_bytes (area m (x + 2) (mm - 2)) (area m (y + j + 2) (mm - 2)) = 0 \<and> m ! x = m ! (y + j))"
        using other jm "1.prems"(1-4) by (auto simp: occ cmp_bytes_0)
      moreover from this have "memmem_loop m y n x mm k l (j + l) = Some (map_option ((+) y) (first_occurrence (area m x mm) (area m y n)))"
        by (intro "1.IH"(2) [OF kl g(1,2) _ g(5,3,4) _ "1.prems"(1-5) skip [where d = l]])
          (use other "1.prems"(5) in \<open>auto split: if_splits\<close>)
      ultimately show ?thesis using other kl g by (auto simp: step)
    qed
  qed
qed

lemma first_occurrence_byte:
  "first_occurrence [a] [] = None" "first_occurrence [a] (b # ys) = (if a = b then Some 0 else map_option Suc (first_occurrence [a] ys))"
proof -
  show "first_occurrence [a] [] = None" by (simp add: first_occurrence_def occurs_def)
  show "first_occurrence [a] (b # ys) = (if a = b then Some 0 else map_option Suc (first_occurrence [a] ys))"
  proof (cases "a = b")
    case True
    then show ?thesis by (auto intro!: first_occurrenceI simp: occurs_def)
  next
    case ne: False
    show ?thesis
    proof (cases "first_occurrence [a] ys")
      case None
      then have "\<not> occurs [a] ys i" for i by (rule first_occurrence_None)
      then have "\<not> occurs [a] (b # ys) i" for i using ne by (cases i) (auto simp: occurs_def)
      then show ?thesis using None ne by (simp add: no_occurrenceI)
    next
      case (Some j)
      then have "occurs [a] ys j" "\<And>i. i < j \<Longrightarrow> \<not> occurs [a] ys i"
        by (auto simp only: first_occurrence_def find_upt_Some)
      then have "first_occurrence [a] (b # ys) = Some (Suc j)"
        using ne by (intro first_occurrenceI) (auto simp: occurs_def less_Suc_eq_0_disj)
      then show ?thesis using Some ne by simp
    qed
  qed
qed

lemma memchr_spec: "p + n \<le> length m \<Longrightarrow> memchr m p c n = Some (map_option ((+) p) (first_occurrence [c] (area m p n)))"
proof (induction n arbitrary: p)
  case 0
  then show ?case by (simp add: area_def first_occurrence_byte)
next
  case (Suc n)
  then show ?case by (auto simp: buf_simps area_Suc first_occurrence_byte option.map_comp comp_def)
qed

lemma memrchr_spec:
  assumes "s + n \<le> length m"
  shows "\<exists>r. memrchr m s c n = Some r \<and> (case r of None \<Rightarrow> c \<notin> set (area m s n)
    | Some p \<Rightarrow> s \<le> p \<and> p < s + n \<and> m ! p = c \<and> c \<notin> set (area m (p + 1) (s + n - (p + 1))))"
  using assms unfolding memrchr_def
proof (induction n)
  case (Suc n)
  show ?case
  proof (cases "m ! (s + n) = c")
    case True
    then show ?thesis using Suc.prems by (simp add: buf_simps area_def)
  next
    case False
    obtain r where r: "memrchr_loop m (s + n) c n = Some r" and c: "case r of None \<Rightarrow> c \<notin> set (area m s n)
        | Some p \<Rightarrow> s \<le> p \<and> p < s + n \<and> m ! p = c \<and> c \<notin> set (area m (p + 1) (s + n - (p + 1)))"
      using Suc.IH Suc.prems by auto
    have "area m (p + 1) (s + Suc n - (p + 1)) = area m (p + 1) (s + n - (p + 1)) @ [m ! (s + n)]" if lt: "p < s + n" for p
    proof -
      obtain k where "s + n = p + 1 + k" using le_Suc_ex [of "p + 1" "s + n"] lt by auto
      then show ?thesis using Suc.prems area_snoc [of "p + 1" k m] by simp
    qed
    then show ?thesis using r c False Suc.prems area_snoc [of s n m]
      by (intro exI [of _ r]) (auto simp: buf_simps simp del: Suc_eq_plus1 split: option.splits)
  qed
qed (simp add: area_def)

lemma memccpy_spec:
  assumes "q + n \<le> p \<or> p + n \<le> q" "p + n \<le> length m" "q + n \<le> length m"
  shows "memccpy m q p c n = Some (case first_occurrence [c] (area m p n) of
      None \<Rightarrow> (None, overwrite m q (area m p n))
    | Some i \<Rightarrow> (Some (q + i + 1), overwrite m q (area m p (i + 1))))"
  using assms
proof (induction n arbitrary: m p q)
  case (Suc n)
  have u: "area (m[q := m ! p]) (p + 1) k = area m (p + 1) k" if "k \<le> n" for k
    using Suc.prems(1) that by (auto simp: area_update_before area_update_behind)
  have "i < n" if "first_occurrence [c] (area m (p + 1) n) = Some i" for i
    using that Suc.prems(2) by (auto simp: first_occurrence_def find_Some_iff occurs_def simp del: upt_Suc)
  then show ?case
    using Suc.IH [of "q + 1" "p + 1" "m[q := m ! p]"] Suc.prems u [of n] u
    by (auto simp: buf_simps area_Suc first_occurrence_byte overwrite_Cons area_update_before area_update_behind area_def [of _ _ 0] split: option.splits)
qed (simp add: area_def first_occurrence_byte)

lemma memmem_byte_memchr: "x < length m \<Longrightarrow> memmem_byte m y x n = memchr m y (m ! x) n"
  by (induction n arbitrary: y) (simp_all add: buf_simps cong: if_cong)

lemma memmem_spec:
  assumes "x + k \<le> length m" "y + n \<le> length m"
  shows "memmem m y n x k = Some (if k = 0 then None else map_option ((+) y) (first_occurrence (area m x k) (area m y n)))"
proof -
  consider "k = 0 \<or> n < k" | "k = 1" "k \<le> n" | "2 \<le> k" "k \<le> n" by linarith
  then show ?thesis
  proof cases
    case 1
    then show ?thesis using no_occurrenceI [of "area m x k" "area m y n"] assms by (auto simp: memmem_def)
  next
    case 2
    then show ?thesis using memmem_byte_memchr [of x m y n] memchr_spec [of y n m] assms by (simp add: memmem_def area_Suc) (simp add: area_def)
  next
    case 3
    then show ?thesis using assms memmem_loop_spec [OF assms 3, of _ _ 0] by (simp add: memmem_def buf_simps)
  qed
qed

lemma strlen_loop_spec: "m ! (s + n) = 0 \<Longrightarrow> s + n < length m \<Longrightarrow> 0 \<notin> set (area m s n) \<Longrightarrow> strlen_loop m s = Some (s + n)"
  by (induction n arbitrary: s) (auto simp: strlen_loop.simps [of m] buf_simps area_Suc)

lemma strlen_spec: "is_string m s cs \<Longrightarrow> strlen m s = Some (length cs)"
  using strlen_loop_spec [of m s "length cs"] area_snoc [of s "length cs" m] by (auto simp: is_string_def strlen_def)

lemma strstr_spec:
  assumes "is_string m h hs" "is_string m s ss"
  shows "strstr m h s = Some (if ss = [] then None else map_option ((+) h) (first_occurrence ss hs))"
proof -
  have "area m h (length hs) = hs" "area m s (length ss) = ss"
    using assms area_snoc [of h "length hs" m] area_snoc [of s "length ss" m] by (auto simp: is_string_def)
  then show ?thesis
    using assms memmem_spec [of s "length ss" m h "length hs"] strlen_spec [OF assms(1)] strlen_spec [OF assms(2)]
    by (auto simp: strstr_def is_string_def)
qed
end
