(* ===== verification/Libc_Sort.thy ===== *)
theory Libc_Sort
  imports Libc_Mem
begin

text \<open>
  \<^verbatim>\<open>qsort\<close>, which is a comb sort, and \<^verbatim>\<open>bsearch\<close> of \<^verbatim>\<open>libs/baselibc/src\<close> on the bytes of an array. Counts and
  indices are 32-bit \<^verbatim>\<open>size_t\<close> values; the comparison function gets the memory and two pointers. What the standard
  asks of it is the locale \<open>comparator\<close>, which is interpreted for \<^verbatim>\<open>memcmp\<close>.
\<close>

subsection \<open>qsort.c\<close>

type_synonym compar = "u8 list \<Rightarrow> nat \<Rightarrow> nat \<Rightarrow> int option"

definition newgap :: "u32 \<Rightarrow> u32" where
  "newgap gap = (let gap = (gap * 10) div 13;
                     gap = (if gap = 9 \<or> gap = 10 then 11 else gap)
                 in if gap < 1 then 1 else gap)"

text \<open>The inner loop; \<open>p1\<close> is the pointer to the element \<open>i\<close>.\<close>

function sort_pass :: "compar \<Rightarrow> nat \<Rightarrow> u32 \<Rightarrow> u32 \<Rightarrow> u32 \<Rightarrow> u32 \<Rightarrow> nat \<Rightarrow> bool \<Rightarrow> u8 list \<Rightarrow> (bool \<times> u8 list) option" where
  "sort_pass compar base nmemb sz gap i p1 swapped m =
     (if i < nmemb - gap then do {
        let j = i + gap;
        let p2 = base + unat (j * sz);
        d \<leftarrow> compar m p1 p2;
        (swapped, m) \<leftarrow> (if d > 0 then do { m \<leftarrow> memswap m p1 p2 (unat sz); Some (True, m) } else Some (swapped, m));
        sort_pass compar base nmemb sz gap (i + 1) (p1 + unat sz) swapped m
      } else Some (swapped, m))"
  by pat_completeness auto
termination
proof (relation "measure (\<lambda>(compar, base, nmemb, sz, gap, i, p1, swapped, m). unat (nmemb - gap) - unat i)", goal_cases)
  case (2 compar base nmemb sz gap i)
  then have i: "unat i < unat (nmemb - gap)" by (simp add: word_less_nat_alt)
  moreover have "unat (nmemb - gap) < 2 ^ 32" using unsigned_less [where ?'a = nat and w = "nmemb - gap"] by simp
  ultimately show ?case by (simp add: unat_word_ariths)
qed simp

partial_function (option) sort_loop :: "compar \<Rightarrow> nat \<Rightarrow> u32 \<Rightarrow> u32 \<Rightarrow> u32 \<Rightarrow> u8 list \<Rightarrow> u8 list option" where
  "sort_loop compar base nmemb sz gap m = do {
     let gap = newgap gap;
     (swapped, m) \<leftarrow> sort_pass compar base nmemb sz gap 0 base False m;
     if gap > 1 \<or> swapped then sort_loop compar base nmemb sz gap m else Some m
   }"

lemmas [code] = sort_loop.simps

definition qsort :: "compar \<Rightarrow> nat \<Rightarrow> u32 \<Rightarrow> u32 \<Rightarrow> u8 list \<Rightarrow> u8 list option" where
  "qsort compar base nmemb sz m = (if nmemb = 0 then Some m else sort_loop compar base nmemb sz nmemb m)"

subsection \<open>bsearch.c\<close>

function bsearch :: "compar \<Rightarrow> u8 list \<Rightarrow> nat \<Rightarrow> nat \<Rightarrow> u32 \<Rightarrow> u32 \<Rightarrow> nat option option" where
  "bsearch cmp m key base nmemb sz =
     (if nmemb \<noteq> 0 then do {
        let mididx = nmemb div 2;
        let midobj = base + unat (mididx * sz);
        diff \<leftarrow> cmp m key midobj;
        if diff = 0 then Some (Some midobj)
        else if diff > 0 then bsearch cmp m key (midobj + unat sz) (nmemb - (mididx + 1)) sz
        else bsearch cmp m key base mididx sz
      } else Some None)"
  by pat_completeness auto
termination
proof (relation "measure (\<lambda>(cmp, m, key, base, nmemb, sz). unat nmemb)", goal_cases)
  case (2 cmp m key base nmemb)
  then have n: "0 < unat nmemb" by (simp add: unat_gt_0)
  then have "unat nmemb div 2 + 1 \<le> unat nmemb" by linarith
  moreover have "unat nmemb < 2 ^ 32" using unsigned_less [where ?'a = nat and w = nmemb] by simp
  ultimately have "unat (nmemb div 2 + 1) = unat nmemb div 2 + 1" by (simp add: unat_word_ariths unat_div_distrib)
  then show ?case using n 2 \<open>unat nmemb div 2 + 1 \<le> unat nmemb\<close> by (simp add: unat_sub word_le_nat_alt)
next
  case (3 cmp m key base nmemb)
  moreover from this have "0 < unat nmemb" by (simp add: unat_gt_0)
  ultimately show ?case by (simp add: unat_div_distrib)
qed simp

subsection \<open>Specification\<close>

text \<open>The elements of an array of \<open>n\<close> elements.\<close>

definition elems :: "u8 list \<Rightarrow> nat \<Rightarrow> nat \<Rightarrow> nat \<Rightarrow> u8 list list" where
  "elems m base sz n = map (\<lambda>i. area m (base + i * sz) sz) [0..<n]"

text \<open>The memory outside the \<open>n\<close> bytes at \<open>base\<close> is the same.\<close>

definition same_elsewhere :: "nat \<Rightarrow> nat \<Rightarrow> u8 list \<Rightarrow> u8 list \<Rightarrow> bool" where
  "same_elsewhere base n m m' \<longleftrightarrow> length m' = length m \<and> (\<forall>p. p < base \<or> base + n \<le> p \<longrightarrow> m' ! p = m ! p)"

text \<open>A pass over a list of elements with \<open>k\<close> comparisons left.\<close>

primrec pass :: "('a \<Rightarrow> 'a \<Rightarrow> int) \<Rightarrow> nat \<Rightarrow> nat \<Rightarrow> nat \<Rightarrow> bool \<Rightarrow> 'a list \<Rightarrow> bool \<times> 'a list" where
  "pass f g 0 i sw xs = (sw, xs)"
| "pass f g (Suc k) i sw xs =
     (if f (xs ! i) (xs ! (i + g)) > 0 then pass f g k (i + 1) True (xs[i := xs ! (i + g), i + g := xs ! i])
      else pass f g k (i + 1) sw xs)"

text \<open>The number of pairs in the wrong order.\<close>

fun inversions :: "('a \<Rightarrow> 'a \<Rightarrow> int) \<Rightarrow> 'a list \<Rightarrow> nat" where
  "inversions f [] = 0"
| "inversions f (x # xs) = length (filter (\<lambda>y. f x y > 0) xs) + inversions f xs"

text \<open>
  What the standard asks of a comparison function: its result depends on the bytes of the two elements, and the comparison
  of values \<open>f\<close> it makes gives opposite signs for exchanged arguments and is transitive.
\<close>

definition is_comparison :: "compar \<Rightarrow> nat \<Rightarrow> (u8 list \<Rightarrow> u8 list \<Rightarrow> int) \<Rightarrow> bool" where
  "is_comparison compar sz f \<longleftrightarrow>
     (\<forall>m p q. p + sz \<le> length m \<longrightarrow> q + sz \<le> length m \<longrightarrow> compar m p q = Some (f (area m p sz) (area m q sz))) \<and>
     (\<forall>x y. length x = sz \<longrightarrow> length y = sz \<longrightarrow> (f x y > 0 \<longleftrightarrow> f y x < 0)) \<and>
     (\<forall>x y z. length x = sz \<longrightarrow> length y = sz \<longrightarrow> length z = sz \<longrightarrow> f x y \<le> 0 \<longrightarrow> f y z \<le> 0 \<longrightarrow> f x z \<le> 0)"

text \<open>The result of a search for \<open>k\<close> in the elements \<open>xs\<close> at \<open>base\<close>.\<close>

definition found :: "(u8 list \<Rightarrow> u8 list \<Rightarrow> int) \<Rightarrow> u8 list \<Rightarrow> u8 list list \<Rightarrow> nat \<Rightarrow> nat \<Rightarrow> nat option \<Rightarrow> bool" where
  "found f k xs base sz r = (case r of None \<Rightarrow> \<forall>x \<in> set xs. f k x \<noteq> 0
     | Some p \<Rightarrow> \<exists>i < length xs. p = base + i * sz \<and> f k (xs ! i) = 0)"

subsection \<open>Lemmas\<close>

declare sort_pass.simps [simp del] bsearch.simps [simp del]

lemma u32_less: "unat (x :: u32) < 2 ^ 32"
  using unsigned_less [where ?'a = nat and w = x] by simp

lemma len32: "LENGTH(32) = 32"
  by simp

lemma newgap_bounds: "1 \<le> unat (newgap g)" "1 < unat g \<Longrightarrow> unat (newgap g) < unat g" "g = 1 \<Longrightarrow> newgap g = 1"
proof -
  let ?v = "unat (g * 10) div 13"
  have v: "unat ((g * 10) div 13) = ?v" by (simp add: unat_div_distrib)
  have le: "unat (g * 10) \<le> unat g * 10" by (simp add: unat_word_ariths)
  have n: "unat (newgap g) = (if ?v = 9 \<or> ?v = 10 then 11 else if ?v < 1 then 1 else ?v)"
    by (auto simp: newgap_def Let_def word_unat_eq_iff word_less_nat_alt v)
  show "1 \<le> unat (newgap g)" unfolding n by simp
  have "13 * ?v \<le> unat (g * 10)" by (rule times_div_less_eq_dividend)
  then have "13 * ?v \<le> unat g * 10" using le by linarith
  then show "unat (newgap g) < unat g" if "1 < unat g" unfolding n using that by (auto split: if_splits)
  show "newgap g = 1" if "g = 1" using that by (simp add: newgap_def)
qed

subsubsection \<open>Passes over a list\<close>

lemma pass_mset: "i + k + g \<le> length xs \<Longrightarrow> mset (snd (pass f g k i sw xs)) = mset xs \<and> length (snd (pass f g k i sw xs)) = length xs"
proof (induction k arbitrary: i sw xs)
  case (Suc k)
  have "mset (xs[i := xs ! (i + g), i + g := xs ! i]) = mset xs" using Suc.prems by (intro mset_swap) auto
  then show ?case using Suc by simp
qed simp

lemma inversions_append: "inversions f (xs @ ys) = inversions f xs + inversions f ys + (\<Sum>x\<leftarrow>xs. length (filter (\<lambda>y. f x y > 0) ys))"
  by (induction xs) simp_all

lemma inversions_swap:
  assumes "f a b > 0" "\<not> f b a > 0"
  shows "inversions f (as @ b # a # bs) < inversions f (as @ a # b # bs)"
proof -
  have "(\<Sum>x\<leftarrow>as. length (filter (\<lambda>y. f x y > 0) (b # a # bs))) = (\<Sum>x\<leftarrow>as. length (filter (\<lambda>y. f x y > 0) (a # b # bs)))"
    by (intro arg_cong [where f = sum_list] map_cong refl) simp
  moreover have "inversions f (b # a # bs) < inversions f (a # b # bs)" using assms by simp
  ultimately show ?thesis unfolding inversions_append by linarith
qed

lemma swap_decomp:
  assumes "Suc i < length xs"
  shows "xs = take i xs @ xs ! i # xs ! Suc i # drop (i + 2) xs" "xs[i := xs ! Suc i, Suc i := xs ! i] = take i xs @ xs ! Suc i # xs ! i # drop (i + 2) xs"
proof -
  show 1: "xs = take i xs @ xs ! i # xs ! Suc i # drop (i + 2) xs"
    using assms by (simp add: Cons_nth_drop_Suc id_take_nth_drop [symmetric])
  show "xs[i := xs ! Suc i, Suc i := xs ! i] = take i xs @ xs ! Suc i # xs ! i # drop (i + 2) xs"
    by (subst (1) 1) (use assms in \<open>simp add: list_update_append min_def\<close>)
qed

lemma pass_one:
  assumes asym: "\<And>x y. x \<in> set xs \<Longrightarrow> y \<in> set xs \<Longrightarrow> f x y > 0 \<Longrightarrow> \<not> f y x > 0" and "i + k + 1 \<le> length xs"
  shows "inversions f (snd (pass f 1 k i sw xs)) \<le> inversions f xs"
    and "fst (pass f 1 k i sw xs) \<Longrightarrow> \<not> sw \<Longrightarrow> inversions f (snd (pass f 1 k i sw xs)) < inversions f xs"
    and "\<not> fst (pass f 1 k i sw xs) \<Longrightarrow> snd (pass f 1 k i sw xs) = xs \<and> (\<forall>l. i \<le> l \<and> l < i + k \<longrightarrow> f (xs ! l) (xs ! Suc l) \<le> 0)"
proof -
  have "inversions f (snd (pass f 1 k i sw xs)) \<le> inversions f xs \<and>
    (fst (pass f 1 k i sw xs) \<longrightarrow> \<not> sw \<longrightarrow> inversions f (snd (pass f 1 k i sw xs)) < inversions f xs) \<and>
    (\<not> fst (pass f 1 k i sw xs) \<longrightarrow> \<not> sw \<and> snd (pass f 1 k i sw xs) = xs \<and> (\<forall>l. i \<le> l \<and> l < i + k \<longrightarrow> f (xs ! l) (xs ! Suc l) \<le> 0))"
    using assms
  proof (induction k arbitrary: i sw xs)
    case (Suc k)
    show ?case
    proof (cases "f (xs ! i) (xs ! Suc i) > 0")
      case True
      let ?ys = "xs[i := xs ! Suc i, Suc i := xs ! i]"
      have len: "Suc i < length xs" using Suc.prems(2) by simp
      have "mset ?ys = mset xs" using len by (intro mset_swap) auto
      then have set: "set ?ys = set xs" by (metis set_mset_mset)
      have lt: "inversions f ?ys < inversions f xs"
        unfolding swap_decomp(2) [OF len] using inversions_swap [of f "xs ! i" "xs ! Suc i" "take i xs" "drop (i + 2) xs"]
          True Suc.prems(1) [of "xs ! i" "xs ! Suc i"] len swap_decomp(1) [OF len, symmetric] by simp
      have ih: "inversions f (snd (pass f 1 k (i + 1) True ?ys)) \<le> inversions f ?ys \<and> fst (pass f 1 k (i + 1) True ?ys)"
      proof -
        have "\<not> f y x > 0" if "x \<in> set ?ys" "y \<in> set ?ys" "f x y > 0" for x y
          using Suc.prems(1) that unfolding set by blast
        from Suc.IH [of ?ys "i + 1" True, OF this] show ?thesis using Suc.prems(2) by simp
      qed
      have e: "pass f 1 (Suc k) i sw xs = pass f 1 k (i + 1) True ?ys" using True by simp
      show ?thesis unfolding e using lt ih by auto
    next
      case False
      have e: "pass f 1 (Suc k) i sw xs = pass f 1 k (i + 1) sw xs" using False by simp
      have len: "i + 1 + k + 1 \<le> length xs" using Suc.prems(2) by simp
      have ih: "inversions f (snd (pass f 1 k (i + 1) sw xs)) \<le> inversions f xs"
        "fst (pass f 1 k (i + 1) sw xs) \<longrightarrow> \<not> sw \<longrightarrow> inversions f (snd (pass f 1 k (i + 1) sw xs)) < inversions f xs"
        "\<not> fst (pass f 1 k (i + 1) sw xs) \<longrightarrow> \<not> sw \<and> snd (pass f 1 k (i + 1) sw xs) = xs \<and>
          (\<forall>l. i + 1 \<le> l \<and> l < i + 1 + k \<longrightarrow> f (xs ! l) (xs ! Suc l) \<le> 0)"
        using Suc.IH [of xs "i + 1" sw, OF Suc.prems(1) len] by blast+
      have "f (xs ! l) (xs ! Suc l) \<le> 0" if "\<not> fst (pass f 1 k (i + 1) sw xs)" "i \<le> l \<and> l < i + Suc k" for l
        using ih(3) that False by (cases "l = i") simp_all
      then show ?thesis unfolding e using ih by blast
    qed
  qed simp
  then show "inversions f (snd (pass f 1 k i sw xs)) \<le> inversions f xs"
    and "fst (pass f 1 k i sw xs) \<Longrightarrow> \<not> sw \<Longrightarrow> inversions f (snd (pass f 1 k i sw xs)) < inversions f xs"
    and "\<not> fst (pass f 1 k i sw xs) \<Longrightarrow> snd (pass f 1 k i sw xs) = xs \<and> (\<forall>l. i \<le> l \<and> l < i + k \<longrightarrow> f (xs ! l) (xs ! Suc l) \<le> 0)"
    by blast+
qed

subsubsection \<open>Arrays in memory\<close>

lemma overwrite_nth: "q + length xs \<le> length m \<Longrightarrow> p < q \<or> q + length xs \<le> p \<Longrightarrow> overwrite m q xs ! p = m ! p"
  by (auto simp: overwrite_def nth_append)

lemma area_overwrite_same: "q + length xs \<le> length m \<Longrightarrow> area (overwrite m q xs) q (length xs) = xs"
  by (simp add: overwrite_def area_def)

lemma area_overwrite_other:
  assumes "q + length xs \<le> length m" "p + k \<le> q \<or> q + length xs \<le> p"
  shows "area (overwrite m q xs) p k = area m p k"
  unfolding area_def using assms by (intro nth_equalityI) (auto simp: overwrite_nth)

lemma same_elsewhere_overwrite:
  "base \<le> q \<Longrightarrow> q + length xs \<le> base + n \<Longrightarrow> base + n \<le> length m \<Longrightarrow> same_elsewhere base n m (overwrite m q xs)"
  by (auto simp: same_elsewhere_def overwrite_nth)

lemma same_elsewhere_trans: "same_elsewhere base n a b \<Longrightarrow> same_elsewhere base n b c \<Longrightarrow> same_elsewhere base n a c"
  by (simp add: same_elsewhere_def)

lemma length_elems [simp]: "length (elems m base sz n) = n"
  by (simp add: elems_def)

lemma nth_elems: "i < n \<Longrightarrow> elems m base sz n ! i = area m (base + i * sz) sz"
  by (simp add: elems_def)

lemma elems_drop: "k \<le> n \<Longrightarrow> elems m (base + k * sz) sz (n - k) = drop k (elems m base sz n)"
  by (intro nth_equalityI) (simp_all add: nth_elems distrib_right add.assoc)

lemma elems_take: "k \<le> n \<Longrightarrow> elems m base sz k = take k (elems m base sz n)"
  by (intro nth_equalityI) (simp_all add: nth_elems)

lemma elem_inside: "i < n \<Longrightarrow> base + n * sz \<le> length m \<Longrightarrow> base + i * sz + sz \<le> base + n * sz" for base :: nat
  by (metis Suc_leI add.assoc add_left_mono add.commute mult_Suc mult_le_mono1)

lemma elems_distance: "i < j \<Longrightarrow> base + i * sz + sz \<le> base + j * sz" for base :: nat
  by (metis Suc_leI add.assoc add_left_mono add.commute mult_Suc mult_le_mono1)

lemma memswap_elems:
  assumes "i < j" "j < n" "base + n * sz \<le> length m"
  shows "\<exists>m'. memswap m (base + i * sz) (base + j * sz) sz = Some m' \<and> same_elsewhere base (n * sz) m m' \<and>
    elems m' base sz n = (elems m base sz n)[i := elems m base sz n ! j, j := elems m base sz n ! i]"
proof -
  let ?p = "base + i * sz" and ?q = "base + j * sz"
  let ?a = "overwrite m ?p (area m ?q sz)" let ?b = "overwrite ?a ?q (area m ?p sz)"
  have inn: "?p + sz \<le> ?q" "?q + sz \<le> base + n * sz" using elems_distance [OF assms(1)] elem_inside [OF assms(2,3)] by auto
  have len: "length (area m ?q sz) = sz" "length (area m ?p sz) = sz" using inn assms(3) by simp_all
  have "memswap m ?p ?q sz = Some ?b" using inn assms(3) by (intro memswap_spec) auto
  moreover have "same_elsewhere base (n * sz) m ?b"
    using inn len assms(3) by (intro same_elsewhere_trans [OF same_elsewhere_overwrite [of base ?p] same_elsewhere_overwrite [of base ?q]]) auto
  moreover have "elems ?b base sz n ! k = (elems m base sz n)[i := elems m base sz n ! j, j := elems m base sz n ! i] ! k" if "k < n" for k
  proof -
    let ?r = "base + k * sz"
    have d: "?r + sz \<le> base + l * sz \<or> base + l * sz + sz \<le> ?r" if "k \<noteq> l" for l
      using elems_distance [of k l base sz] elems_distance [of l k base sz] that by (auto simp: neq_iff)
    have la: "length ?a = length m" using inn len assms(3) by simp
    have "area ?b ?r sz = (if k = j then area m ?p sz else if k = i then area m ?q sz else area m ?r sz)"
      using d [of i] d [of j] inn len la assms(3) area_overwrite_same [of ?q "area m ?p sz" ?a]
        area_overwrite_same [of ?p "area m ?q sz" m] area_overwrite_other [of ?q "area m ?p sz" ?a ?r sz]
        area_overwrite_other [of ?p "area m ?q sz" m ?r sz]
      by (cases "k = j"; cases "k = i") auto
    then show ?thesis using that assms(1,2) by (simp add: nth_elems nth_list_update)
  qed
  ultimately show ?thesis by (auto intro!: nth_equalityI)
qed

subsubsection \<open>Searching\<close>

lemma found_drop:
  assumes "found f k (drop n xs) (base + n * sz) sz r" "\<forall>x \<in> set (take n xs). f k x \<noteq> 0" "n \<le> length xs"
  shows "found f k xs base sz r"
proof (cases r)
  case None
  then show ?thesis using assms set_append [of "take n xs" "drop n xs"] by (auto simp: found_def)
next
  case (Some p)
  then obtain i where "i < length xs - n" "p = base + n * sz + i * sz" "f k (xs ! (n + i)) = 0"
    using assms by (auto simp: found_def)
  then have "n + i < length xs \<and> p = base + (n + i) * sz \<and> f k (xs ! (n + i)) = 0" by (simp add: distrib_right)
  then show ?thesis using Some by (auto simp: found_def)
qed

lemma found_take:
  assumes "found f k (take n xs) base sz r" "\<forall>x \<in> set (drop n xs). f k x \<noteq> 0"
  shows "found f k xs base sz r"
proof (cases r)
  case None
  then show ?thesis using assms set_append [of "take n xs" "drop n xs"] by (auto simp: found_def)
qed (use assms in \<open>auto simp: found_def\<close>)

lemma half_words:
  fixes nmemb :: u32
  assumes "unat nmemb div 2 < unat nmemb"
  shows "unat (nmemb div 2) = unat nmemb div 2" "unat (nmemb - (nmemb div 2 + 1)) = unat nmemb - (unat nmemb div 2 + 1)"
proof -
  show 1: "unat (nmemb div 2) = unat nmemb div 2" by (simp add: unat_div_distrib)
  have "unat nmemb div 2 + 1 < 2 ^ 32" using assms u32_less [of nmemb] by linarith
  then have "unat (nmemb div 2 + 1) = unat nmemb div 2 + 1" using 1 by (simp add: unat_word_ariths unat_div_distrib)
  then show "unat (nmemb - (nmemb div 2 + 1)) = unat nmemb - (unat nmemb div 2 + 1)"
    using assms by (simp add: unat_sub word_le_nat_alt)
qed

lemma mid_size: "k < n \<Longrightarrow> n * sz = k * sz + sz + (n - (k + 1)) * sz" for k :: nat
  by (auto dest!: less_imp_Suc_add simp: distrib_right)

subsubsection \<open>Refinement of the passes\<close>

locale comparator =
  fixes compar :: compar and sz :: nat and f :: "u8 list \<Rightarrow> u8 list \<Rightarrow> int"
  assumes compar_eq: "p + sz \<le> length m \<Longrightarrow> q + sz \<le> length m \<Longrightarrow> compar m p q = Some (f (area m p sz) (area m q sz))"
    and opposite: "length x = sz \<Longrightarrow> length y = sz \<Longrightarrow> f x y > 0 \<longleftrightarrow> f y x < 0"
    and trans: "length x = sz \<Longrightarrow> length y = sz \<Longrightarrow> length z = sz \<Longrightarrow> f x y \<le> 0 \<Longrightarrow> f y z \<le> 0 \<Longrightarrow> f x z \<le> 0"
begin

lemma sort_pass_refines:
  assumes "unat w = sz" "unat nmemb * sz < 2 ^ 32" "base + unat nmemb * sz \<le> length m" "1 \<le> unat gap" "gap \<le> nmemb"
    and "unat i + k = unat nmemb - unat gap"
  shows "\<exists>m'. sort_pass compar base nmemb w gap i (base + unat i * sz) sw m =
      Some (fst (pass f (unat gap) k (unat i) sw (elems m base sz (unat nmemb))), m') \<and>
    elems m' base sz (unat nmemb) = snd (pass f (unat gap) k (unat i) sw (elems m base sz (unat nmemb))) \<and>
    same_elsewhere base (unat nmemb * sz) m m'"
  using assms(3,6)
proof (induction k arbitrary: i sw m)
  case 0
  have "unat (nmemb - gap) = unat nmemb - unat gap" using assms(5) by (simp add: unat_sub)
  then show ?case using 0 by (subst sort_pass.simps) (simp add: word_less_nat_alt same_elsewhere_def)
next
  case (Suc k)
  let ?n = "unat nmemb" and ?g = "unat gap" let ?xs = "elems m base sz ?n"
  have sub: "unat (nmemb - gap) = ?n - ?g" using assms(5) by (simp add: unat_sub)
  have i: "unat i + ?g < ?n" using Suc.prems(2) by simp
  have n32: "?n < 2 ^ 32" by (rule u32_less)
  have j: "unat (i + gap) = unat i + ?g" using i n32 by (simp add: unat_word_ariths)
  have i1: "unat (i + 1) = unat i + 1" using i n32 by (simp add: unat_word_ariths)
  have "(unat i + ?g) * sz \<le> ?n * sz" using i by (intro mult_le_mono1) simp
  then have "unat (i + gap) * unat w < 2 ^ LENGTH(32)" unfolding j assms(1) using assms(2) by (metis le_less_trans len32)
  then have p2: "unat ((i + gap) * w) = (unat i + ?g) * sz" unfolding unat_mult_lem by (simp only: j assms(1))
  let ?p1 = "base + unat i * sz" and ?p2 = "base + (unat i + ?g) * sz"
  have c: "compar m ?p1 ?p2 = Some (f (?xs ! unat i) (?xs ! (unat i + ?g)))"
    using elem_inside [of "unat i" ?n base sz m] elem_inside [of "unat i + ?g" ?n base sz m] i Suc.prems(1)
    by (subst compar_eq) (auto simp: nth_elems)
  have lt: "i < nmemb - gap" using i sub by (simp add: word_less_nat_alt)
  have next_i: "base + unat (i + 1) * sz = ?p1 + sz" by (simp add: i1)
  show ?case
  proof (cases "f (?xs ! unat i) (?xs ! (unat i + ?g)) > 0")
    case True
    obtain m1 where m1: "memswap m ?p1 ?p2 sz = Some m1" "same_elsewhere base (?n * sz) m m1"
      "elems m1 base sz ?n = ?xs[unat i := ?xs ! (unat i + ?g), unat i + ?g := ?xs ! unat i]"
      using memswap_elems [of "unat i" "unat i + ?g" ?n base sz m] assms(4) i Suc.prems(1) by auto
    have "base + ?n * sz \<le> length m1" using m1(2) Suc.prems(1) by (simp add: same_elsewhere_def)
    moreover have "unat (i + 1) + k = ?n - ?g" using Suc.prems(2) i1 by simp
    moreover have "sort_pass compar base nmemb w gap i ?p1 sw m = sort_pass compar base nmemb w gap (i + 1) (base + unat (i + 1) * sz) True m1"
      using True lt c p2 m1(1) assms(1) by (subst sort_pass.simps) (simp add: Let_def next_i)
    ultimately show ?thesis
      using Suc.IH [of m1 "i + 1" True] m1(2,3) True i1 by (auto intro: same_elsewhere_trans)
  next
    case False
    have "unat (i + 1) + k = ?n - ?g" using Suc.prems(2) i1 by simp
    moreover have "sort_pass compar base nmemb w gap i ?p1 sw m = sort_pass compar base nmemb w gap (i + 1) (base + unat (i + 1) * sz) sw m"
      using False lt c p2 assms(1) by (subst sort_pass.simps) (simp add: Let_def next_i)
    ultimately show ?thesis
      using Suc.IH [of m "i + 1" sw] Suc.prems(1) False i1 by auto
  qed
qed

lemma elems_size: "x \<in> set (elems m base sz n) \<Longrightarrow> base + n * sz \<le> length m \<Longrightarrow> length x = sz"
proof -
  assume "x \<in> set (elems m base sz n)" and m: "base + n * sz \<le> length m"
  then obtain i where "i < n" "x = area m (base + i * sz) sz" by (auto simp: elems_def)
  then show ?thesis using elem_inside [of i n base sz m] m by simp
qed

lemma adjacent_sorted:
  assumes "\<And>x. x \<in> set xs \<Longrightarrow> length x = sz" "\<And>l. l + 1 < length xs \<Longrightarrow> f (xs ! l) (xs ! Suc l) \<le> 0"
  shows "sorted_wrt (\<lambda>x y. f x y \<le> 0) xs"
proof -
  let ?P = "\<lambda>x y. length x = sz \<and> length y = sz \<and> f x y \<le> 0"
  have "transp ?P" using trans by (auto intro!: transpI)
  then have "sorted_wrt ?P xs" using assms by (subst sorted_wrt_iff_nth_Suc_transp) auto
  then show ?thesis by (rule sorted_wrt_mono_rel [rotated]) simp
qed

lemma sort_loop_sorts:
  assumes w: "unat w = sz" "unat nmemb * sz < 2 ^ 32" and "base + unat nmemb * sz \<le> length m" "1 \<le> unat gap" "gap \<le> nmemb"
  shows "\<exists>m'. sort_loop compar base nmemb w gap m = Some m' \<and> sorted_wrt (\<lambda>x y. f x y \<le> 0) (elems m' base sz (unat nmemb)) \<and>
    mset (elems m' base sz (unat nmemb)) = mset (elems m base sz (unat nmemb)) \<and> same_elsewhere base (unat nmemb * sz) m m'"
  using assms(3-)
proof (induction "(unat gap, inversions f (elems m base sz (unat nmemb)))" arbitrary: gap m rule: wf_induct_rule [OF wf_lex_prod [OF wf_less_than wf_less_than]])
  case (1 gap m)
  let ?h = "newgap gap" and ?n = "unat nmemb" let ?xs = "elems m base sz ?n"
  have h: "1 \<le> unat ?h" "unat ?h \<le> unat gap"
    using newgap_bounds(1,2) [of gap] newgap_bounds(3) [of gap] "1.prems"(2) by (cases "unat gap = 1"; force simp: word_unat_eq_iff)+
  then have hn: "?h \<le> nmemb" using "1.prems"(3) by (simp add: word_le_nat_alt)
  define r where "r = pass f (unat ?h) (?n - unat ?h) 0 False ?xs"
  obtain m1 where m1: "sort_pass compar base nmemb w ?h 0 base False m = Some (fst r, m1)"
    "elems m1 base sz ?n = snd r" "same_elsewhere base (?n * sz) m m1"
    using sort_pass_refines [OF w "1.prems"(1) h(1) hn, of 0 "?n - unat ?h" False] by (auto simp: r_def)
  have ms: "mset (snd r) = mset ?xs" using pass_mset [of 0 "?n - unat ?h" "unat ?h" ?xs f False] hn by (simp add: r_def word_le_nat_alt)
  have inside: "base + ?n * sz \<le> length m1" using m1(3) "1.prems"(1) by (simp add: same_elsewhere_def)
  have asym: "\<not> f y x > 0" if "x \<in> set ?xs" "y \<in> set ?xs" "f x y > 0" for x y
    using that opposite elems_size "1.prems"(1) by fastforce
  note one = pass_one [where xs = ?xs and f = f and i = 0 and k = "?n - 1" and sw = False, OF asym]
  show ?case
  proof (cases "?h > 1 \<or> fst r")
    case True
    have "((unat ?h, inversions f (elems m1 base sz ?n)), unat gap, inversions f ?xs) \<in> less_than <*lex*> less_than"
    proof (cases "1 < unat gap")
      case False
      then have "gap = 1" using "1.prems"(2) by (simp add: word_unat_eq_iff)
      moreover from this have "?h = 1" by (rule newgap_bounds(3))
      ultimately show ?thesis using one(2) True m1(2) "1.prems"(2,3) by (simp add: r_def word_le_nat_alt)
    qed (use newgap_bounds(2) in simp)
    from "1.hyps" [OF this inside h(1) hn] True show ?thesis
      using m1 ms by (subst sort_loop.simps) (auto simp: Let_def intro: same_elsewhere_trans)
  next
    case False
    then have "unat ?h = 1" using h(1) by (simp add: word_less_nat_alt)
    with False have "snd r = ?xs" "\<And>l. l + 1 < ?n \<Longrightarrow> f (?xs ! l) (?xs ! Suc l) \<le> 0"
      using one(3) hn by (auto simp: r_def word_le_nat_alt)
    then have "sorted_wrt (\<lambda>x y. f x y \<le> 0) (elems m1 base sz ?n)"
      using m1(2) elems_size "1.prems"(1) by (intro adjacent_sorted) auto
    then show ?thesis using m1 ms False by (subst sort_loop.simps) (simp add: Let_def)
  qed
qed

lemma qsort_sorts:
  assumes "unat w = sz" "unat nmemb * sz < 2 ^ 32" "base + unat nmemb * sz \<le> length m"
  shows "\<exists>m'. qsort compar base nmemb w m = Some m' \<and> sorted_wrt (\<lambda>x y. f x y \<le> 0) (elems m' base sz (unat nmemb)) \<and>
    mset (elems m' base sz (unat nmemb)) = mset (elems m base sz (unat nmemb)) \<and> same_elsewhere base (unat nmemb * sz) m m'"
proof (cases "nmemb = 0")
  case True
  then show ?thesis by (simp add: qsort_def elems_def same_elsewhere_def)
next
  case False
  then have "1 \<le> unat nmemb" by (simp add: Suc_le_eq unat_gt_0)
  then show ?thesis using sort_loop_sorts [OF assms _ order_refl] False by (simp add: qsort_def)
qed

text \<open>What is known of the elements on both sides of one that does not compare equal to the key.\<close>

lemma key_above:
  assumes "length k = sz" "length x = sz" "length y = sz" "f x y \<le> 0" "f k y > 0"
  shows "f k x \<noteq> 0"
  using trans [OF assms(1-3) _ assms(4)] assms(5) by auto

lemma key_below:
  assumes "length k = sz" "length x = sz" "length y = sz" "f y x \<le> 0" "f k y < 0"
  shows "f k x \<noteq> 0"
  using trans [OF assms(3,2,1,4)] opposite [OF assms(2,1)] opposite [OF assms(3,1)] opposite [OF assms(1,2)] assms(5) by auto

lemma bsearch_finds:
  assumes w: "unat w = sz" and key: "key + sz \<le> length m"
    and "unat nmemb * sz < 2 ^ 32" "base + unat nmemb * sz \<le> length m"
    and "sorted_wrt (\<lambda>x y. f x y \<le> 0) (elems m base sz (unat nmemb))"
  shows "\<exists>r. bsearch compar m key base nmemb w = Some r \<and> found f (area m key sz) (elems m base sz (unat nmemb)) base sz r"
  using assms(3-)
proof (induction "unat nmemb" arbitrary: base nmemb rule: less_induct)
  case less
  let ?n = "unat nmemb" and ?k = "area m key sz" let ?mid = "?n div 2" and ?xs = "elems m base sz ?n"
  show ?case
  proof (cases "nmemb = 0")
    case True
    then show ?thesis by (subst bsearch.simps) (simp add: found_def elems_def)
  next
    case False
    then have mid: "?mid < ?n" by (simp add: unat_gt_0)
    note half = half_words [OF mid] and ms = mid_size [OF mid, of sz]
    have "?mid * sz < 2 ^ 32" using ms less.prems(1) by linarith
    then have pm: "unat (nmemb div 2 * w) = ?mid * sz" using unat_mult_lem [of "nmemb div 2" w] half(1) w by simp
    define d where "d = f ?k (?xs ! ?mid)"
    have c: "compar m key (base + ?mid * sz) = Some d"
      using key elem_inside [OF mid less.prems(2)] less.prems(2) mid by (subst compar_eq) (auto simp: d_def nth_elems)
    have lk: "length ?k = sz" using key by simp
    have lx: "length (?xs ! i) = sz" if "i < ?n" for i using elems_size [OF nth_mem less.prems(2)] that by simp
    have so: "f (?xs ! i) (?xs ! j) \<le> 0" if "i < j" "j < ?n" for i j
      using sorted_wrt_nth_less [OF less.prems(3) that(1)] that(2) by simp
    note step = bsearch.simps [of compar m key base nmemb w]
    consider "d = 0" | "d > 0" | "d < 0" by linarith
    then show ?thesis
    proof cases
      case 1
      then show ?thesis using False c pm mid d_def by (subst step) (auto simp: Let_def found_def)
    next
      case 2
      let ?b = "base + (?mid + 1) * sz" and ?m = "nmemb - (nmemb div 2 + 1)"
      have e: "elems m ?b sz (unat ?m) = drop (?mid + 1) ?xs" unfolding half(2) by (rule elems_drop) (use mid in simp)
      have "f ?k (?xs ! i) \<noteq> 0" if "i < ?mid + 1" for i
        using key_above [of ?k "?xs ! i" "?xs ! ?mid"] lk lx so [of i ?mid] that mid 2 d_def by (cases "i = ?mid") auto
      then have up: "\<forall>x \<in> set (take (?mid + 1) ?xs). f ?k x \<noteq> 0" by (auto simp: in_set_conv_nth)
      have "\<exists>r. bsearch compar m key ?b ?m w = Some r \<and> found f ?k (elems m ?b sz (unat ?m)) ?b sz r"
        by (rule less.hyps) (use mid half(2) ms less.prems e sorted_wrt_drop in \<open>simp_all add: add.commute add.left_commute\<close>)
      then obtain r where r: "bsearch compar m key ?b ?m w = Some r" "found f ?k (drop (?mid + 1) ?xs) ?b sz r" unfolding e by blast
      have "found f ?k ?xs base sz r" by (rule found_drop [OF r(2) up]) (use mid in simp)
      then show ?thesis using False c pm 2 r(1) w by (subst step) (simp add: Let_def add.commute add.left_commute)
    next
      case 3
      let ?m = "nmemb div 2"
      have e: "elems m base sz (unat ?m) = take ?mid ?xs" unfolding half(1) by (rule elems_take) simp
      have "f ?k (?xs ! i) \<noteq> 0" if "?mid \<le> i" "i < ?n" for i
        using key_below [of ?k "?xs ! i" "?xs ! ?mid"] lk lx so [of ?mid i] that mid 3 d_def by (cases "i = ?mid") auto
      then have down: "\<forall>x \<in> set (drop ?mid ?xs). f ?k x \<noteq> 0" by (auto simp: in_set_conv_nth)
      have "\<exists>r. bsearch compar m key base ?m w = Some r \<and> found f ?k (elems m base sz (unat ?m)) base sz r"
        by (rule less.hyps) (use mid half(1) ms less.prems e sorted_wrt_take in simp_all)
      then obtain r where r: "bsearch compar m key base ?m w = Some r" "found f ?k (take ?mid ?xs) base sz r" unfolding e by blast
      then show ?thesis using found_take [OF r(2) down] False c pm 3 by (subst step) (simp add: Let_def)
    qed
  qed
qed

end

subsubsection \<open>Comparison by bytes\<close>

lemma cmp_bytes_opposite: "length x = length y \<Longrightarrow> cmp_bytes x y > 0 \<longleftrightarrow> cmp_bytes y x < 0"
  by (induction x y rule: list_induct2) auto

lemma cmp_bytes_trans:
  assumes "length x = length y" "length y = length z" "cmp_bytes x y \<le> 0" "cmp_bytes y z \<le> 0"
  shows "cmp_bytes x z \<le> 0"
  using assms
proof (induction x y z rule: list_induct3)
  case (Cons x xs y ys z zs)
  then show ?case by (auto simp: word_uint_eq_iff split: if_splits)
qed simp

interpretation bytes: comparator "\<lambda>m p q. memcmp m p q sz" sz cmp_bytes for sz
proof
  show "memcmp m p q sz = Some (cmp_bytes (area m p sz) (area m q sz))" if "p + sz \<le> length m" "q + sz \<le> length m" for m p q
    using that by (rule memcmp_spec)
  show "cmp_bytes x y > 0 \<longleftrightarrow> cmp_bytes y x < 0" if "length x = sz" "length y = sz" for x y
    using that by (simp add: cmp_bytes_opposite)
  show "cmp_bytes x z \<le> 0" if "length x = sz" "length y = sz" "length z = sz" "cmp_bytes x y \<le> 0" "cmp_bytes y z \<le> 0" for x y z
    using that cmp_bytes_trans [of x y z] by simp
qed

lemma comparison_comparator: "is_comparison compar sz f \<Longrightarrow> comparator compar sz f"
  unfolding is_comparison_def comparator_def by blast

lemma memcmp_comparison: "is_comparison (\<lambda>m p q. memcmp m p q sz) sz cmp_bytes"
  unfolding is_comparison_def by (intro conjI allI impI bytes.compar_eq bytes.opposite) (assumption+, rule bytes.trans)

subsection \<open>Theorems\<close>

text \<open>
  C36: \<^verbatim>\<open>qsort\<close> and \<^verbatim>\<open>bsearch\<close> are correct for every comparison function that compares the bytes of two elements, gives
  opposite signs for exchanged arguments and is transitive. \<^verbatim>\<open>qsort\<close> returns, the elements are then in order and the
  same as before with their multiplicities, and no byte outside the array has changed; \<^verbatim>\<open>bsearch\<close> on the sorted array
  returns a pointer to an element that compares equal to the key, or null when there is none.
\<close>

theorem qsort_bsearch:
  assumes "is_comparison compar (unat w) f"
    and size: "unat nmemb * unat w < 2 ^ 32" "base + unat nmemb * unat w \<le> length m"
  shows "\<exists>m'. qsort compar base nmemb w m = Some m' \<and>
    sorted_wrt (\<lambda>x y. f x y \<le> 0) (elems m' base (unat w) (unat nmemb)) \<and>
    mset (elems m' base (unat w) (unat nmemb)) = mset (elems m base (unat w) (unat nmemb)) \<and>
    same_elsewhere base (unat nmemb * unat w) m m' \<and>
    (\<forall>key. key + unat w \<le> length m' \<longrightarrow> (\<exists>r. bsearch compar m' key base nmemb w = Some r \<and>
       found f (area m' key (unat w)) (elems m' base (unat w) (unat nmemb)) base (unat w) r))"
proof -
  have c: "comparator compar (unat w) f" using assms(1) by (rule comparison_comparator)
  obtain m' where m': "qsort compar base nmemb w m = Some m'" "sorted_wrt (\<lambda>x y. f x y \<le> 0) (elems m' base (unat w) (unat nmemb))"
    "mset (elems m' base (unat w) (unat nmemb)) = mset (elems m base (unat w) (unat nmemb))" "same_elsewhere base (unat nmemb * unat w) m m'"
    using comparator.qsort_sorts [OF c refl size] by blast
  have "base + unat nmemb * unat w \<le> length m'" using m'(4) size(2) by (simp add: same_elsewhere_def)
  then show ?thesis using m' comparator.bsearch_finds [OF c refl _ size(1) _ m'(2)] by blast
qed

theorem qsort_bsearch_witness:
  "\<exists>m'. qsort (\<lambda>m p q. memcmp m p q 2) 1 3 2 [9, 7, 1, 2, 200, 7, 0, 9] = Some m' \<and>
     sorted_wrt (\<lambda>x y. cmp_bytes x y \<le> 0) (elems m' 1 2 3) \<and>
     mset (elems m' 1 2 3) = {#[7, 1], [2, 200], [7, 0]#} \<and> same_elsewhere 1 6 [9, 7, 1, 2, 200, 7, 0, 9] m'"
proof -
  have w: "unat (2 :: u32) = 2" "unat (3 :: u32) = 3" by simp_all
  have e: "elems [9, 7, 1, 2, 200, 7, 0, 9] 1 2 3 = [[7, 1], [2, 200], [7, 0]]" by code_simp
  have c: "is_comparison (\<lambda>m p q. memcmp m p q 2) 2 cmp_bytes" by (rule memcmp_comparison)
  have x: "mset [[7, 1], [2, 200], [7, 0 :: u8]] = {#[7, 1], [2, 200], [7, 0]#}" and y: "(3 :: nat) * 2 = 6" by simp_all
  have s1: "(3 :: nat) * 2 < 2 ^ 32" and s2: "1 + 3 * 2 \<le> length [9, 7, 1, 2, 200, 7, 0, 9 :: u8]" by simp_all
  from qsort_bsearch [of "\<lambda>m p q. memcmp m p q 2" 2 cmp_bytes 3 1 "[9, 7, 1, 2, 200, 7, 0, 9]", unfolded w, OF c s1 s2] show ?thesis
    unfolding e x y by blast
qed
end
