(* ===== verification/Ble_Util.thy ===== *)
theory Ble_Util
  imports Mynewt_Prelude
begin

text \<open>
  \<^verbatim>\<open>net/nimble/src/util.c\<close>: integers in packets, least significant byte first. A buffer is a list of bytes and a
  pointer into it an offset; an access outside the buffer has no result.
\<close>

subsection \<open>util.c\<close>

type_synonym u64 = "64 word"

definition htole16 :: "u8 list \<Rightarrow> nat \<Rightarrow> u16 \<Rightarrow> u8 list option" where
  "htole16 buf i x = do {
     buf \<leftarrow> put8 buf i (ucast x);
     put8 buf (i + 1) (ucast (drop_bit 8 x))
   }"

definition htole32 :: "u8 list \<Rightarrow> nat \<Rightarrow> u32 \<Rightarrow> u8 list option" where
  "htole32 buf i x = do {
     buf \<leftarrow> put8 buf i (ucast x);
     buf \<leftarrow> put8 buf (i + 1) (ucast (drop_bit 8 x));
     buf \<leftarrow> put8 buf (i + 2) (ucast (drop_bit 16 x));
     put8 buf (i + 3) (ucast (drop_bit 24 x))
   }"

definition htole64 :: "u8 list \<Rightarrow> nat \<Rightarrow> u64 \<Rightarrow> u8 list option" where
  "htole64 buf i x = do {
     buf \<leftarrow> put8 buf i (ucast x);
     buf \<leftarrow> put8 buf (i + 1) (ucast (drop_bit 8 x));
     buf \<leftarrow> put8 buf (i + 2) (ucast (drop_bit 16 x));
     buf \<leftarrow> put8 buf (i + 3) (ucast (drop_bit 24 x));
     buf \<leftarrow> put8 buf (i + 4) (ucast (drop_bit 32 x));
     buf \<leftarrow> put8 buf (i + 5) (ucast (drop_bit 40 x));
     buf \<leftarrow> put8 buf (i + 6) (ucast (drop_bit 48 x));
     put8 buf (i + 7) (ucast (drop_bit 56 x))
   }"

definition le16toh :: "u8 list \<Rightarrow> nat \<Rightarrow> u16 option" where
  "le16toh buf i = do {
     b0 \<leftarrow> get8 buf i;
     b1 \<leftarrow> get8 buf (i + 1);
     Some (ucast b0 OR push_bit 8 (ucast b1))
   }"

definition le32toh :: "u8 list \<Rightarrow> nat \<Rightarrow> u32 option" where
  "le32toh buf i = do {
     b0 \<leftarrow> get8 buf i;
     b1 \<leftarrow> get8 buf (i + 1);
     b2 \<leftarrow> get8 buf (i + 2);
     b3 \<leftarrow> get8 buf (i + 3);
     Some (ucast b0 OR push_bit 8 (ucast b1) OR push_bit 16 (ucast b2) OR push_bit 24 (ucast b3))
   }"

definition le64toh :: "u8 list \<Rightarrow> nat \<Rightarrow> u64 option" where
  "le64toh buf i = do {
     b0 \<leftarrow> get8 buf i;
     b1 \<leftarrow> get8 buf (i + 1);
     b2 \<leftarrow> get8 buf (i + 2);
     b3 \<leftarrow> get8 buf (i + 3);
     b4 \<leftarrow> get8 buf (i + 4);
     b5 \<leftarrow> get8 buf (i + 5);
     b6 \<leftarrow> get8 buf (i + 6);
     b7 \<leftarrow> get8 buf (i + 7);
     Some (ucast b0 OR push_bit 8 (ucast b1) OR push_bit 16 (ucast b2) OR push_bit 24 (ucast b3) OR
       push_bit 32 (ucast b4) OR push_bit 40 (ucast b5) OR push_bit 48 (ucast b6) OR push_bit 54 (ucast b7))
   }"

subsection \<open>Lemmas\<close>

lemma le16_bytes [simp]: "ucast (ucast x :: u8) OR push_bit 8 (ucast (ucast (drop_bit 8 x) :: u8)) = (x :: u16)"
proof (rule bit_word_eqI)
  fix n assume n: "n < LENGTH(16)"
  have "n < 8 \<or> 8 \<le> n \<and> n < 16" using n by auto
  then show "bit (ucast (ucast x :: u8) OR push_bit 8 (ucast (ucast (drop_bit 8 x) :: u8)) :: u16) n = bit x n"
    by (elim disjE conjE) (simp_all add: bit_simps less_diff_conv2)
qed

lemma le32_bytes [simp]:
  "ucast (ucast x :: u8) OR push_bit 8 (ucast (ucast (drop_bit 8 x) :: u8)) OR push_bit 16 (ucast (ucast (drop_bit 16 x) :: u8)) OR
   push_bit 24 (ucast (ucast (drop_bit 24 x) :: u8)) = (x :: u32)" (is "?y = x")
proof (rule bit_word_eqI)
  fix n assume n: "n < LENGTH(32)"
  have "n < 8 \<or> 8 \<le> n \<and> n < 16 \<or> 16 \<le> n \<and> n < 24 \<or> 24 \<le> n \<and> n < 32" using n by auto
  then show "bit ?y n = bit x n" by (elim disjE conjE) (simp_all add: bit_simps less_diff_conv2)
qed

lemma htole16_eq [buf_simps]:
  "i + 1 < length p \<Longrightarrow> htole16 p i x = Some (p[i := ucast x, i + 1 := ucast (drop_bit 8 x)])"
  by (simp add: htole16_def put8_def)

lemma le16toh_eq [buf_simps]: "i + 1 < length p \<Longrightarrow> le16toh p i = Some (ucast (p ! i) OR push_bit 8 (ucast (p ! (i + 1))))"
  by (simp add: le16toh_def get8_def)

lemma htole16_le16toh: "i + 1 < length p \<Longrightarrow> \<exists>p'. htole16 p i x = Some p' \<and> le16toh p' i = Some x"
  by (simp add: buf_simps)

lemma htole32_le32toh: "i + 3 < length p \<Longrightarrow> \<exists>p'. htole32 p i x = Some p' \<and> le32toh p' i = Some x"
  by (simp add: htole32_def le32toh_def buf_simps)

text \<open>The last byte of a 64-bit integer is shifted by 54 instead of 56 bits when it is read.\<close>

lemma le64toh_wrong:
  "(do { p \<leftarrow> htole64 (replicate 8 0) 0 0x0100000000000000; le64toh p 0 }) = Some 0x0040000000000000"
  by code_simp

end
