(* ===== verification/Ble_Att_Cmd.thy ===== *)
theory Ble_Att_Cmd
  imports Ble_Util
begin

text \<open>
  \<^verbatim>\<open>net/nimble/host/src/ble_att_cmd.c\<close>: parsing and writing the fixed part of every command of the attribute
  protocol. A parser gives the structure, or the error code as the left value. The contract every pair of functions
  keeps, that a written command is read back whatever follows it and that a short buffer is refused, is the locale
  \<open>att_codec\<close>; it is interpreted for every command.
\<close>

subsection \<open>ble\_att\_cmd.c\<close>

definition BLE_HS_EINVAL :: int where "BLE_HS_EINVAL = 3"

definition BLE_HS_EMSGSIZE :: int where "BLE_HS_EMSGSIZE = 4"

definition BLE_ATT_ERROR_RSP_SZ :: int where "BLE_ATT_ERROR_RSP_SZ = 5"

definition BLE_ATT_OP_ERROR_RSP :: u8 where "BLE_ATT_OP_ERROR_RSP = 0x01"

record ble_att_error_rsp =
  baep_req_op :: u8
  baep_handle :: u16
  baep_error_code :: u8

definition ble_att_error_rsp_parse :: "u8 list \<Rightarrow> int \<Rightarrow> (int + ble_att_error_rsp) option" where
  "ble_att_error_rsp_parse payload len =
     (if len < BLE_ATT_ERROR_RSP_SZ then Some (Inl BLE_HS_EMSGSIZE)
      else do {
        op \<leftarrow> get8 payload 0;
        if op \<noteq> BLE_ATT_OP_ERROR_RSP then Some (Inl BLE_HS_EINVAL)
        else do {
           a \<leftarrow> get8 payload 1;
           b \<leftarrow> le16toh payload 2;
           c \<leftarrow> get8 payload 4;
           Some (Inr \<lparr>baep_req_op = a, baep_handle = b, baep_error_code = c\<rparr>)
        }
      })"

definition ble_att_error_rsp_write :: "u8 list \<Rightarrow> int \<Rightarrow> ble_att_error_rsp \<Rightarrow> (int \<times> u8 list) option" where
  "ble_att_error_rsp_write payload len cmd =
     (if len < BLE_ATT_ERROR_RSP_SZ then Some (BLE_HS_EMSGSIZE, payload)
      else do {
        p \<leftarrow> put8 payload 0 BLE_ATT_OP_ERROR_RSP;
        p \<leftarrow> put8 p 1 (baep_req_op cmd);
        p \<leftarrow> htole16 p 2 (baep_handle cmd);
        p \<leftarrow> put8 p 4 (baep_error_code cmd);
        Some (0, p)
      })"

definition BLE_ATT_MTU_CMD_SZ :: int where "BLE_ATT_MTU_CMD_SZ = 3"

definition BLE_ATT_OP_MTU_REQ :: u8 where "BLE_ATT_OP_MTU_REQ = 0x02"

definition BLE_ATT_OP_MTU_RSP :: u8 where "BLE_ATT_OP_MTU_RSP = 0x03"

record ble_att_mtu_cmd =
  bamc_mtu :: u16

definition ble_att_mtu_cmd_parse :: "u8 list \<Rightarrow> int \<Rightarrow> (int + ble_att_mtu_cmd) option" where
  "ble_att_mtu_cmd_parse payload len =
     (if len < BLE_ATT_MTU_CMD_SZ then Some (Inl BLE_HS_EMSGSIZE)
      else do {
        op \<leftarrow> get8 payload 0;
        if op \<noteq> BLE_ATT_OP_MTU_REQ \<and> op \<noteq> BLE_ATT_OP_MTU_RSP then Some (Inl BLE_HS_EINVAL)
        else do {
           a \<leftarrow> le16toh payload 1;
           Some (Inr \<lparr>bamc_mtu = a\<rparr>)
        }
      })"

definition ble_att_mtu_req_write :: "u8 list \<Rightarrow> int \<Rightarrow> ble_att_mtu_cmd \<Rightarrow> (int \<times> u8 list) option" where
  "ble_att_mtu_req_write payload len cmd =
     (if len < BLE_ATT_MTU_CMD_SZ then Some (BLE_HS_EMSGSIZE, payload)
      else do {
        p \<leftarrow> put8 payload 0 BLE_ATT_OP_MTU_REQ;
        p \<leftarrow> htole16 p 1 (bamc_mtu cmd);
        Some (0, p)
      })"

definition ble_att_mtu_rsp_write :: "u8 list \<Rightarrow> int \<Rightarrow> ble_att_mtu_cmd \<Rightarrow> (int \<times> u8 list) option" where
  "ble_att_mtu_rsp_write payload len cmd =
     (if len < BLE_ATT_MTU_CMD_SZ then Some (BLE_HS_EMSGSIZE, payload)
      else do {
        p \<leftarrow> put8 payload 0 BLE_ATT_OP_MTU_RSP;
        p \<leftarrow> htole16 p 1 (bamc_mtu cmd);
        Some (0, p)
      })"

definition BLE_ATT_FIND_INFO_REQ_SZ :: int where "BLE_ATT_FIND_INFO_REQ_SZ = 5"

definition BLE_ATT_OP_FIND_INFO_REQ :: u8 where "BLE_ATT_OP_FIND_INFO_REQ = 0x04"

record ble_att_find_info_req =
  bafq_start_handle :: u16
  bafq_end_handle :: u16

definition ble_att_find_info_req_parse :: "u8 list \<Rightarrow> int \<Rightarrow> (int + ble_att_find_info_req) option" where
  "ble_att_find_info_req_parse payload len =
     (if len < BLE_ATT_FIND_INFO_REQ_SZ then Some (Inl BLE_HS_EMSGSIZE)
      else do {
        op \<leftarrow> get8 payload 0;
        if op \<noteq> BLE_ATT_OP_FIND_INFO_REQ then Some (Inl BLE_HS_EINVAL)
        else do {
           a \<leftarrow> le16toh payload 1;
           b \<leftarrow> le16toh payload 3;
           Some (Inr \<lparr>bafq_start_handle = a, bafq_end_handle = b\<rparr>)
        }
      })"

definition ble_att_find_info_req_write :: "u8 list \<Rightarrow> int \<Rightarrow> ble_att_find_info_req \<Rightarrow> (int \<times> u8 list) option" where
  "ble_att_find_info_req_write payload len cmd =
     (if len < BLE_ATT_FIND_INFO_REQ_SZ then Some (BLE_HS_EMSGSIZE, payload)
      else do {
        p \<leftarrow> put8 payload 0 BLE_ATT_OP_FIND_INFO_REQ;
        p \<leftarrow> htole16 p 1 (bafq_start_handle cmd);
        p \<leftarrow> htole16 p 3 (bafq_end_handle cmd);
        Some (0, p)
      })"

definition BLE_ATT_FIND_INFO_RSP_BASE_SZ :: int where "BLE_ATT_FIND_INFO_RSP_BASE_SZ = 2"

definition BLE_ATT_OP_FIND_INFO_RSP :: u8 where "BLE_ATT_OP_FIND_INFO_RSP = 0x05"

record ble_att_find_info_rsp =
  bafp_format :: u8

definition ble_att_find_info_rsp_parse :: "u8 list \<Rightarrow> int \<Rightarrow> (int + ble_att_find_info_rsp) option" where
  "ble_att_find_info_rsp_parse payload len =
     (if len < BLE_ATT_FIND_INFO_RSP_BASE_SZ then Some (Inl BLE_HS_EMSGSIZE)
      else do {
        op \<leftarrow> get8 payload 0;
        if op \<noteq> BLE_ATT_OP_FIND_INFO_RSP then Some (Inl BLE_HS_EINVAL)
        else do {
           a \<leftarrow> get8 payload 1;
           Some (Inr \<lparr>bafp_format = a\<rparr>)
        }
      })"

definition ble_att_find_info_rsp_write :: "u8 list \<Rightarrow> int \<Rightarrow> ble_att_find_info_rsp \<Rightarrow> (int \<times> u8 list) option" where
  "ble_att_find_info_rsp_write payload len cmd =
     (if len < BLE_ATT_FIND_INFO_RSP_BASE_SZ then Some (BLE_HS_EMSGSIZE, payload)
      else do {
        p \<leftarrow> put8 payload 0 BLE_ATT_OP_FIND_INFO_RSP;
        p \<leftarrow> put8 p 1 (bafp_format cmd);
        Some (0, p)
      })"

definition BLE_ATT_FIND_TYPE_VALUE_REQ_BASE_SZ :: int where "BLE_ATT_FIND_TYPE_VALUE_REQ_BASE_SZ = 7"

definition BLE_ATT_OP_FIND_TYPE_VALUE_REQ :: u8 where "BLE_ATT_OP_FIND_TYPE_VALUE_REQ = 0x06"

record ble_att_find_type_value_req =
  bavq_start_handle :: u16
  bavq_end_handle :: u16
  bavq_attr_type :: u16

definition ble_att_find_type_value_req_parse :: "u8 list \<Rightarrow> int \<Rightarrow> (int + ble_att_find_type_value_req) option" where
  "ble_att_find_type_value_req_parse payload len =
     (if len < BLE_ATT_FIND_TYPE_VALUE_REQ_BASE_SZ then Some (Inl BLE_HS_EMSGSIZE)
      else do {
        op \<leftarrow> get8 payload 0;
        if op \<noteq> BLE_ATT_OP_FIND_TYPE_VALUE_REQ then Some (Inl BLE_HS_EINVAL)
        else do {
           a \<leftarrow> le16toh payload 1;
           b \<leftarrow> le16toh payload 3;
           c \<leftarrow> le16toh payload 5;
           Some (Inr \<lparr>bavq_start_handle = a, bavq_end_handle = b, bavq_attr_type = c\<rparr>)
        }
      })"

definition ble_att_find_type_value_req_write :: "u8 list \<Rightarrow> int \<Rightarrow> ble_att_find_type_value_req \<Rightarrow> (int \<times> u8 list) option" where
  "ble_att_find_type_value_req_write payload len cmd =
     (if len < BLE_ATT_FIND_TYPE_VALUE_REQ_BASE_SZ then Some (BLE_HS_EMSGSIZE, payload)
      else do {
        p \<leftarrow> put8 payload 0 BLE_ATT_OP_FIND_TYPE_VALUE_REQ;
        p \<leftarrow> htole16 p 1 (bavq_start_handle cmd);
        p \<leftarrow> htole16 p 3 (bavq_end_handle cmd);
        p \<leftarrow> htole16 p 5 (bavq_attr_type cmd);
        Some (0, p)
      })"

definition BLE_ATT_READ_TYPE_REQ_BASE_SZ :: int where "BLE_ATT_READ_TYPE_REQ_BASE_SZ = 5"

definition BLE_ATT_OP_READ_TYPE_REQ :: u8 where "BLE_ATT_OP_READ_TYPE_REQ = 0x08"

record ble_att_read_type_req =
  batq_start_handle :: u16
  batq_end_handle :: u16

definition ble_att_read_type_req_parse :: "u8 list \<Rightarrow> int \<Rightarrow> (int + ble_att_read_type_req) option" where
  "ble_att_read_type_req_parse payload len =
     (if len < BLE_ATT_READ_TYPE_REQ_BASE_SZ then Some (Inl BLE_HS_EMSGSIZE)
      else do {
        op \<leftarrow> get8 payload 0;
        if op \<noteq> BLE_ATT_OP_READ_TYPE_REQ then Some (Inl BLE_HS_EINVAL)
        else do {
           a \<leftarrow> le16toh payload 1;
           b \<leftarrow> le16toh payload 3;
           Some (Inr \<lparr>batq_start_handle = a, batq_end_handle = b\<rparr>)
        }
      })"

definition ble_att_read_type_req_write :: "u8 list \<Rightarrow> int \<Rightarrow> ble_att_read_type_req \<Rightarrow> (int \<times> u8 list) option" where
  "ble_att_read_type_req_write payload len cmd =
     (if len < BLE_ATT_READ_TYPE_REQ_BASE_SZ then Some (BLE_HS_EMSGSIZE, payload)
      else do {
        p \<leftarrow> put8 payload 0 BLE_ATT_OP_READ_TYPE_REQ;
        p \<leftarrow> htole16 p 1 (batq_start_handle cmd);
        p \<leftarrow> htole16 p 3 (batq_end_handle cmd);
        Some (0, p)
      })"

definition BLE_ATT_READ_TYPE_RSP_BASE_SZ :: int where "BLE_ATT_READ_TYPE_RSP_BASE_SZ = 2"

definition BLE_ATT_OP_READ_TYPE_RSP :: u8 where "BLE_ATT_OP_READ_TYPE_RSP = 0x09"

record ble_att_read_type_rsp =
  batp_length :: u8

definition ble_att_read_type_rsp_parse :: "u8 list \<Rightarrow> int \<Rightarrow> (int + ble_att_read_type_rsp) option" where
  "ble_att_read_type_rsp_parse payload len =
     (if len < BLE_ATT_READ_TYPE_RSP_BASE_SZ then Some (Inl BLE_HS_EMSGSIZE)
      else do {
        a \<leftarrow> get8 payload 1;
        Some (Inr \<lparr>batp_length = a\<rparr>)
      })"

definition ble_att_read_type_rsp_write :: "u8 list \<Rightarrow> int \<Rightarrow> ble_att_read_type_rsp \<Rightarrow> (int \<times> u8 list) option" where
  "ble_att_read_type_rsp_write payload len cmd =
     (if len < BLE_ATT_READ_TYPE_RSP_BASE_SZ then Some (BLE_HS_EMSGSIZE, payload)
      else do {
        p \<leftarrow> put8 payload 0 BLE_ATT_OP_READ_TYPE_RSP;
        p \<leftarrow> put8 p 1 (batp_length cmd);
        Some (0, p)
      })"

definition BLE_ATT_READ_REQ_SZ :: int where "BLE_ATT_READ_REQ_SZ = 3"

definition BLE_ATT_OP_READ_REQ :: u8 where "BLE_ATT_OP_READ_REQ = 0x0a"

record ble_att_read_req =
  barq_handle :: u16

definition ble_att_read_req_parse :: "u8 list \<Rightarrow> int \<Rightarrow> (int + ble_att_read_req) option" where
  "ble_att_read_req_parse payload len =
     (if len < BLE_ATT_READ_REQ_SZ then Some (Inl BLE_HS_EMSGSIZE)
      else do {
        op \<leftarrow> get8 payload 0;
        if op \<noteq> BLE_ATT_OP_READ_REQ then Some (Inl BLE_HS_EINVAL)
        else do {
           a \<leftarrow> le16toh payload 1;
           Some (Inr \<lparr>barq_handle = a\<rparr>)
        }
      })"

definition ble_att_read_req_write :: "u8 list \<Rightarrow> int \<Rightarrow> ble_att_read_req \<Rightarrow> (int \<times> u8 list) option" where
  "ble_att_read_req_write payload len cmd =
     (if len < BLE_ATT_READ_REQ_SZ then Some (BLE_HS_EMSGSIZE, payload)
      else do {
        p \<leftarrow> put8 payload 0 BLE_ATT_OP_READ_REQ;
        p \<leftarrow> htole16 p 1 (barq_handle cmd);
        Some (0, p)
      })"

definition BLE_ATT_READ_BLOB_REQ_SZ :: int where "BLE_ATT_READ_BLOB_REQ_SZ = 5"

definition BLE_ATT_OP_READ_BLOB_REQ :: u8 where "BLE_ATT_OP_READ_BLOB_REQ = 0x0c"

record ble_att_read_blob_req =
  babq_handle :: u16
  babq_offset :: u16

definition ble_att_read_blob_req_parse :: "u8 list \<Rightarrow> int \<Rightarrow> (int + ble_att_read_blob_req) option" where
  "ble_att_read_blob_req_parse payload len =
     (if len < BLE_ATT_READ_BLOB_REQ_SZ then Some (Inl BLE_HS_EMSGSIZE)
      else do {
        op \<leftarrow> get8 payload 0;
        if op \<noteq> BLE_ATT_OP_READ_BLOB_REQ then Some (Inl BLE_HS_EINVAL)
        else do {
           a \<leftarrow> le16toh payload 1;
           b \<leftarrow> le16toh payload 3;
           Some (Inr \<lparr>babq_handle = a, babq_offset = b\<rparr>)
        }
      })"

definition ble_att_read_blob_req_write :: "u8 list \<Rightarrow> int \<Rightarrow> ble_att_read_blob_req \<Rightarrow> (int \<times> u8 list) option" where
  "ble_att_read_blob_req_write payload len cmd =
     (if len < BLE_ATT_READ_BLOB_REQ_SZ then Some (BLE_HS_EMSGSIZE, payload)
      else do {
        p \<leftarrow> put8 payload 0 BLE_ATT_OP_READ_BLOB_REQ;
        p \<leftarrow> htole16 p 1 (babq_handle cmd);
        p \<leftarrow> htole16 p 3 (babq_offset cmd);
        Some (0, p)
      })"

definition BLE_ATT_READ_MULT_REQ_BASE_SZ :: int where "BLE_ATT_READ_MULT_REQ_BASE_SZ = 1"

definition BLE_ATT_OP_READ_MULT_REQ :: u8 where "BLE_ATT_OP_READ_MULT_REQ = 0x0e"

definition ble_att_read_mult_req_parse :: "u8 list \<Rightarrow> int \<Rightarrow> (int + unit) option" where
  "ble_att_read_mult_req_parse payload len =
     (if len < BLE_ATT_READ_MULT_REQ_BASE_SZ then Some (Inl BLE_HS_EMSGSIZE)
      else do {
        op \<leftarrow> get8 payload 0;
        if op \<noteq> BLE_ATT_OP_READ_MULT_REQ then Some (Inl BLE_HS_EINVAL)
        else Some (Inr ())
      })"

definition ble_att_read_mult_req_write :: "u8 list \<Rightarrow> int \<Rightarrow> unit \<Rightarrow> (int \<times> u8 list) option" where
  "ble_att_read_mult_req_write payload len cmd =
     (if len < BLE_ATT_READ_MULT_REQ_BASE_SZ then Some (BLE_HS_EMSGSIZE, payload)
      else do {
        p \<leftarrow> put8 payload 0 BLE_ATT_OP_READ_MULT_REQ;
        Some (0, p)
      })"

definition BLE_ATT_READ_MULT_RSP_BASE_SZ :: int where "BLE_ATT_READ_MULT_RSP_BASE_SZ = 1"

definition BLE_ATT_OP_READ_MULT_RSP :: u8 where "BLE_ATT_OP_READ_MULT_RSP = 0x0f"

definition ble_att_read_mult_rsp_parse :: "u8 list \<Rightarrow> int \<Rightarrow> (int + unit) option" where
  "ble_att_read_mult_rsp_parse payload len =
     (if len < BLE_ATT_READ_MULT_RSP_BASE_SZ then Some (Inl BLE_HS_EMSGSIZE)
      else do {
        op \<leftarrow> get8 payload 0;
        if op \<noteq> BLE_ATT_OP_READ_MULT_RSP then Some (Inl BLE_HS_EINVAL)
        else Some (Inr ())
      })"

definition ble_att_read_mult_rsp_write :: "u8 list \<Rightarrow> int \<Rightarrow> unit \<Rightarrow> (int \<times> u8 list) option" where
  "ble_att_read_mult_rsp_write payload len cmd =
     (if len < BLE_ATT_READ_MULT_RSP_BASE_SZ then Some (BLE_HS_EMSGSIZE, payload)
      else do {
        p \<leftarrow> put8 payload 0 BLE_ATT_OP_READ_MULT_RSP;
        Some (0, p)
      })"

definition BLE_ATT_READ_GROUP_TYPE_REQ_BASE_SZ :: int where "BLE_ATT_READ_GROUP_TYPE_REQ_BASE_SZ = 5"

definition BLE_ATT_OP_READ_GROUP_TYPE_REQ :: u8 where "BLE_ATT_OP_READ_GROUP_TYPE_REQ = 0x10"

record ble_att_read_group_type_req =
  bagq_start_handle :: u16
  bagq_end_handle :: u16

definition ble_att_read_group_type_req_parse :: "u8 list \<Rightarrow> int \<Rightarrow> (int + ble_att_read_group_type_req) option" where
  "ble_att_read_group_type_req_parse payload len =
     (if len < BLE_ATT_READ_GROUP_TYPE_REQ_BASE_SZ then Some (Inl BLE_HS_EMSGSIZE)
      else do {
        op \<leftarrow> get8 payload 0;
        if op \<noteq> BLE_ATT_OP_READ_GROUP_TYPE_REQ then Some (Inl BLE_HS_EINVAL)
        else do {
           a \<leftarrow> le16toh payload 1;
           b \<leftarrow> le16toh payload 3;
           Some (Inr \<lparr>bagq_start_handle = a, bagq_end_handle = b\<rparr>)
        }
      })"

definition ble_att_read_group_type_req_write :: "u8 list \<Rightarrow> int \<Rightarrow> ble_att_read_group_type_req \<Rightarrow> (int \<times> u8 list) option" where
  "ble_att_read_group_type_req_write payload len cmd =
     (if len < BLE_ATT_READ_GROUP_TYPE_REQ_BASE_SZ then Some (BLE_HS_EMSGSIZE, payload)
      else do {
        p \<leftarrow> put8 payload 0 BLE_ATT_OP_READ_GROUP_TYPE_REQ;
        p \<leftarrow> htole16 p 1 (bagq_start_handle cmd);
        p \<leftarrow> htole16 p 3 (bagq_end_handle cmd);
        Some (0, p)
      })"

definition BLE_ATT_READ_GROUP_TYPE_RSP_BASE_SZ :: int where "BLE_ATT_READ_GROUP_TYPE_RSP_BASE_SZ = 2"

definition BLE_ATT_OP_READ_GROUP_TYPE_RSP :: u8 where "BLE_ATT_OP_READ_GROUP_TYPE_RSP = 0x11"

record ble_att_read_group_type_rsp =
  bagp_length :: u8

definition ble_att_read_group_type_rsp_parse :: "u8 list \<Rightarrow> int \<Rightarrow> (int + ble_att_read_group_type_rsp) option" where
  "ble_att_read_group_type_rsp_parse payload len =
     (if len < BLE_ATT_READ_GROUP_TYPE_RSP_BASE_SZ then Some (Inl BLE_HS_EMSGSIZE)
      else do {
        op \<leftarrow> get8 payload 0;
        if op \<noteq> BLE_ATT_OP_READ_GROUP_TYPE_RSP then Some (Inl BLE_HS_EINVAL)
        else do {
           a \<leftarrow> get8 payload 1;
           Some (Inr \<lparr>bagp_length = a\<rparr>)
        }
      })"

definition ble_att_read_group_type_rsp_write :: "u8 list \<Rightarrow> int \<Rightarrow> ble_att_read_group_type_rsp \<Rightarrow> (int \<times> u8 list) option" where
  "ble_att_read_group_type_rsp_write payload len cmd =
     (if len < BLE_ATT_READ_GROUP_TYPE_RSP_BASE_SZ then Some (BLE_HS_EMSGSIZE, payload)
      else do {
        p \<leftarrow> put8 payload 0 BLE_ATT_OP_READ_GROUP_TYPE_RSP;
        p \<leftarrow> put8 p 1 (bagp_length cmd);
        Some (0, p)
      })"

definition BLE_ATT_WRITE_REQ_BASE_SZ :: int where "BLE_ATT_WRITE_REQ_BASE_SZ = 3"

definition BLE_ATT_OP_WRITE_REQ :: u8 where "BLE_ATT_OP_WRITE_REQ = 0x12"

definition BLE_ATT_OP_WRITE_CMD :: u8 where "BLE_ATT_OP_WRITE_CMD = 0x52"

record ble_att_write_req =
  bawq_handle :: u16

definition ble_att_write_req_parse :: "u8 list \<Rightarrow> int \<Rightarrow> (int + ble_att_write_req) option" where
  "ble_att_write_req_parse payload len =
     (if len < BLE_ATT_WRITE_REQ_BASE_SZ then Some (Inl BLE_HS_EMSGSIZE)
      else do {
        op \<leftarrow> get8 payload 0;
        if op \<noteq> BLE_ATT_OP_WRITE_REQ then Some (Inl BLE_HS_EINVAL)
        else do {
           a \<leftarrow> le16toh payload 1;
           Some (Inr \<lparr>bawq_handle = a\<rparr>)
        }
      })"

definition ble_att_write_cmd_parse :: "u8 list \<Rightarrow> int \<Rightarrow> (int + ble_att_write_req) option" where
  "ble_att_write_cmd_parse payload len =
     (if len < BLE_ATT_WRITE_REQ_BASE_SZ then Some (Inl BLE_HS_EMSGSIZE)
      else do {
        op \<leftarrow> get8 payload 0;
        if op \<noteq> BLE_ATT_OP_WRITE_CMD then Some (Inl BLE_HS_EINVAL)
        else do {
           a \<leftarrow> le16toh payload 1;
           Some (Inr \<lparr>bawq_handle = a\<rparr>)
        }
      })"

definition ble_att_write_req_write :: "u8 list \<Rightarrow> int \<Rightarrow> ble_att_write_req \<Rightarrow> (int \<times> u8 list) option" where
  "ble_att_write_req_write payload len cmd =
     (if len < BLE_ATT_WRITE_REQ_BASE_SZ then Some (BLE_HS_EMSGSIZE, payload)
      else do {
        p \<leftarrow> put8 payload 0 BLE_ATT_OP_WRITE_REQ;
        p \<leftarrow> htole16 p 1 (bawq_handle cmd);
        Some (0, p)
      })"

definition ble_att_write_cmd_write :: "u8 list \<Rightarrow> int \<Rightarrow> ble_att_write_req \<Rightarrow> (int \<times> u8 list) option" where
  "ble_att_write_cmd_write payload len cmd =
     (if len < BLE_ATT_WRITE_REQ_BASE_SZ then Some (BLE_HS_EMSGSIZE, payload)
      else do {
        p \<leftarrow> put8 payload 0 BLE_ATT_OP_WRITE_CMD;
        p \<leftarrow> htole16 p 1 (bawq_handle cmd);
        Some (0, p)
      })"

definition BLE_ATT_PREP_WRITE_CMD_BASE_SZ :: int where "BLE_ATT_PREP_WRITE_CMD_BASE_SZ = 5"

definition BLE_ATT_OP_PREP_WRITE_REQ :: u8 where "BLE_ATT_OP_PREP_WRITE_REQ = 0x16"

definition BLE_ATT_OP_PREP_WRITE_RSP :: u8 where "BLE_ATT_OP_PREP_WRITE_RSP = 0x17"

record ble_att_prep_write_cmd =
  bapc_handle :: u16
  bapc_offset :: u16

definition ble_att_prep_write_cmd_parse :: "u8 list \<Rightarrow> int \<Rightarrow> bool \<Rightarrow> (int + ble_att_prep_write_cmd) option" where
  "ble_att_prep_write_cmd_parse payload len is_req =
     (if len < BLE_ATT_PREP_WRITE_CMD_BASE_SZ then Some (Inl BLE_HS_EMSGSIZE)
      else do {
        op \<leftarrow> get8 payload 0;
        if op \<noteq> (if is_req then BLE_ATT_OP_PREP_WRITE_REQ else BLE_ATT_OP_PREP_WRITE_RSP) then Some (Inl BLE_HS_EINVAL)
        else do {
           a \<leftarrow> le16toh payload 1;
           b \<leftarrow> le16toh payload 3;
           Some (Inr \<lparr>bapc_handle = a, bapc_offset = b\<rparr>)
        }
      })"

definition ble_att_prep_write_cmd_write :: "u8 list \<Rightarrow> int \<Rightarrow> ble_att_prep_write_cmd \<Rightarrow> bool \<Rightarrow> (int \<times> u8 list) option" where
  "ble_att_prep_write_cmd_write payload len cmd is_req =
     (if len < BLE_ATT_PREP_WRITE_CMD_BASE_SZ then Some (BLE_HS_EMSGSIZE, payload)
      else do {
        p \<leftarrow> put8 payload 0 (if is_req then BLE_ATT_OP_PREP_WRITE_REQ else BLE_ATT_OP_PREP_WRITE_RSP);
        p \<leftarrow> htole16 p 1 (bapc_handle cmd);
        p \<leftarrow> htole16 p 3 (bapc_offset cmd);
        Some (0, p)
      })"

definition ble_att_prep_write_req_parse :: "u8 list \<Rightarrow> int \<Rightarrow> (int + ble_att_prep_write_cmd) option" where
  "ble_att_prep_write_req_parse payload len = ble_att_prep_write_cmd_parse payload len True"

definition ble_att_prep_write_req_write :: "u8 list \<Rightarrow> int \<Rightarrow> ble_att_prep_write_cmd \<Rightarrow> (int \<times> u8 list) option" where
  "ble_att_prep_write_req_write payload len cmd = ble_att_prep_write_cmd_write payload len cmd True"

definition ble_att_prep_write_rsp_parse :: "u8 list \<Rightarrow> int \<Rightarrow> (int + ble_att_prep_write_cmd) option" where
  "ble_att_prep_write_rsp_parse payload len = ble_att_prep_write_cmd_parse payload len False"

definition ble_att_prep_write_rsp_write :: "u8 list \<Rightarrow> int \<Rightarrow> ble_att_prep_write_cmd \<Rightarrow> (int \<times> u8 list) option" where
  "ble_att_prep_write_rsp_write payload len cmd = ble_att_prep_write_cmd_write payload len cmd False"

definition BLE_ATT_EXEC_WRITE_REQ_SZ :: int where "BLE_ATT_EXEC_WRITE_REQ_SZ = 2"

definition BLE_ATT_OP_EXEC_WRITE_REQ :: u8 where "BLE_ATT_OP_EXEC_WRITE_REQ = 0x18"

record ble_att_exec_write_req =
  baeq_flags :: u8

definition ble_att_exec_write_req_parse :: "u8 list \<Rightarrow> int \<Rightarrow> (int + ble_att_exec_write_req) option" where
  "ble_att_exec_write_req_parse payload len =
     (if len < BLE_ATT_EXEC_WRITE_REQ_SZ then Some (Inl BLE_HS_EMSGSIZE)
      else do {
        op \<leftarrow> get8 payload 0;
        if op \<noteq> BLE_ATT_OP_EXEC_WRITE_REQ then Some (Inl BLE_HS_EINVAL)
        else do {
           a \<leftarrow> get8 payload 1;
           Some (Inr \<lparr>baeq_flags = a\<rparr>)
        }
      })"

definition ble_att_exec_write_req_write :: "u8 list \<Rightarrow> int \<Rightarrow> ble_att_exec_write_req \<Rightarrow> (int \<times> u8 list) option" where
  "ble_att_exec_write_req_write payload len cmd =
     (if len < BLE_ATT_EXEC_WRITE_REQ_SZ then Some (BLE_HS_EMSGSIZE, payload)
      else do {
        p \<leftarrow> put8 payload 0 BLE_ATT_OP_EXEC_WRITE_REQ;
        p \<leftarrow> put8 p 1 (baeq_flags cmd);
        Some (0, p)
      })"

definition BLE_ATT_EXEC_WRITE_RSP_SZ :: int where "BLE_ATT_EXEC_WRITE_RSP_SZ = 1"

definition BLE_ATT_OP_EXEC_WRITE_RSP :: u8 where "BLE_ATT_OP_EXEC_WRITE_RSP = 0x19"

definition ble_att_exec_write_rsp_parse :: "u8 list \<Rightarrow> int \<Rightarrow> (int + unit) option" where
  "ble_att_exec_write_rsp_parse payload len =
     (if len < BLE_ATT_EXEC_WRITE_RSP_SZ then Some (Inl BLE_HS_EMSGSIZE)
      else do {
        op \<leftarrow> get8 payload 0;
        if op \<noteq> BLE_ATT_OP_EXEC_WRITE_RSP then Some (Inl BLE_HS_EINVAL)
        else Some (Inr ())
      })"

definition ble_att_exec_write_rsp_write :: "u8 list \<Rightarrow> int \<Rightarrow> unit \<Rightarrow> (int \<times> u8 list) option" where
  "ble_att_exec_write_rsp_write payload len cmd =
     (if len < BLE_ATT_EXEC_WRITE_RSP_SZ then Some (BLE_HS_EMSGSIZE, payload)
      else do {
        p \<leftarrow> put8 payload 0 BLE_ATT_OP_EXEC_WRITE_RSP;
        Some (0, p)
      })"

definition BLE_ATT_NOTIFY_REQ_BASE_SZ :: int where "BLE_ATT_NOTIFY_REQ_BASE_SZ = 3"

definition BLE_ATT_OP_NOTIFY_REQ :: u8 where "BLE_ATT_OP_NOTIFY_REQ = 0x1b"

record ble_att_notify_req =
  banq_handle :: u16

definition ble_att_notify_req_parse :: "u8 list \<Rightarrow> int \<Rightarrow> (int + ble_att_notify_req) option" where
  "ble_att_notify_req_parse payload len =
     (if len < BLE_ATT_NOTIFY_REQ_BASE_SZ then Some (Inl BLE_HS_EMSGSIZE)
      else do {
        op \<leftarrow> get8 payload 0;
        if op \<noteq> BLE_ATT_OP_NOTIFY_REQ then Some (Inl BLE_HS_EINVAL)
        else do {
           a \<leftarrow> le16toh payload 1;
           Some (Inr \<lparr>banq_handle = a\<rparr>)
        }
      })"

definition ble_att_notify_req_write :: "u8 list \<Rightarrow> int \<Rightarrow> ble_att_notify_req \<Rightarrow> (int \<times> u8 list) option" where
  "ble_att_notify_req_write payload len cmd =
     (if len < BLE_ATT_NOTIFY_REQ_BASE_SZ then Some (BLE_HS_EMSGSIZE, payload)
      else do {
        p \<leftarrow> put8 payload 0 BLE_ATT_OP_NOTIFY_REQ;
        p \<leftarrow> htole16 p 1 (banq_handle cmd);
        Some (0, p)
      })"

definition BLE_ATT_INDICATE_REQ_BASE_SZ :: int where "BLE_ATT_INDICATE_REQ_BASE_SZ = 3"

definition BLE_ATT_OP_INDICATE_REQ :: u8 where "BLE_ATT_OP_INDICATE_REQ = 0x1d"

record ble_att_indicate_req =
  baiq_handle :: u16

definition ble_att_indicate_req_parse :: "u8 list \<Rightarrow> int \<Rightarrow> (int + ble_att_indicate_req) option" where
  "ble_att_indicate_req_parse payload len =
     (if len < BLE_ATT_INDICATE_REQ_BASE_SZ then Some (Inl BLE_HS_EMSGSIZE)
      else do {
        op \<leftarrow> get8 payload 0;
        if op \<noteq> BLE_ATT_OP_INDICATE_REQ then Some (Inl BLE_HS_EINVAL)
        else do {
           a \<leftarrow> le16toh payload 1;
           Some (Inr \<lparr>baiq_handle = a\<rparr>)
        }
      })"

definition ble_att_indicate_req_write :: "u8 list \<Rightarrow> int \<Rightarrow> ble_att_indicate_req \<Rightarrow> (int \<times> u8 list) option" where
  "ble_att_indicate_req_write payload len cmd =
     (if len < BLE_ATT_INDICATE_REQ_BASE_SZ then Some (BLE_HS_EMSGSIZE, payload)
      else do {
        p \<leftarrow> put8 payload 0 BLE_ATT_OP_INDICATE_REQ;
        p \<leftarrow> htole16 p 1 (baiq_handle cmd);
        Some (0, p)
      })"

definition BLE_ATT_INDICATE_RSP_SZ :: int where "BLE_ATT_INDICATE_RSP_SZ = 1"

definition BLE_ATT_OP_INDICATE_RSP :: u8 where "BLE_ATT_OP_INDICATE_RSP = 0x1e"

definition ble_att_indicate_rsp_parse :: "u8 list \<Rightarrow> int \<Rightarrow> (int + unit) option" where
  "ble_att_indicate_rsp_parse payload len =
     (if len < BLE_ATT_INDICATE_RSP_SZ then Some (Inl BLE_HS_EMSGSIZE)
      else do {
        op \<leftarrow> get8 payload 0;
        if op \<noteq> BLE_ATT_OP_INDICATE_RSP then Some (Inl BLE_HS_EINVAL)
        else Some (Inr ())
      })"

definition ble_att_indicate_rsp_write :: "u8 list \<Rightarrow> int \<Rightarrow> unit \<Rightarrow> (int \<times> u8 list) option" where
  "ble_att_indicate_rsp_write payload len cmd =
     (if len < BLE_ATT_INDICATE_RSP_SZ then Some (BLE_HS_EMSGSIZE, payload)
      else do {
        p \<leftarrow> put8 payload 0 BLE_ATT_OP_INDICATE_RSP;
        Some (0, p)
      })"

subsection \<open>The contract of a command\<close>

text \<open>
  What a pair of functions is for, \<open>p\<close> the buffer the command is written to: read back whatever data follows it, nothing
  behind its fixed part touched, a short buffer refused by both sides, no read outside the length given.
\<close>

definition command_survives ::
  "(u8 list \<Rightarrow> int \<Rightarrow> (int + 'r) option) \<Rightarrow> (u8 list \<Rightarrow> int \<Rightarrow> 'r \<Rightarrow> (int \<times> u8 list) option) \<Rightarrow> int \<Rightarrow> u8 \<Rightarrow> bool" where
  "command_survives dec enc sz op \<longleftrightarrow>
     (\<forall>p r. if int (length p) < sz
            then enc p (int (length p)) r = Some (BLE_HS_EMSGSIZE, p) \<and> dec p (int (length p)) = Some (Inl BLE_HS_EMSGSIZE)
            else \<exists>p'. enc p (int (length p)) r = Some (0, p') \<and> length p' = length p \<and> drop (nat sz) p' = drop (nat sz) p \<and>
                   p' ! 0 = op \<and> (\<forall>data. dec (take (nat sz) p' @ data) (sz + int (length data)) = Some (Inr r))) \<and>
     (\<forall>p len. len \<le> int (length p) \<longrightarrow> dec p len \<noteq> None)"

locale att_codec =
  fixes dec :: "u8 list \<Rightarrow> int \<Rightarrow> (int + 'r) option"
    and enc :: "u8 list \<Rightarrow> int \<Rightarrow> 'r \<Rightarrow> (int \<times> u8 list) option"
    and sz :: int
    and op :: u8
  assumes sz_pos: "0 < sz"
    and short: "len < sz \<Longrightarrow> enc p len r = Some (BLE_HS_EMSGSIZE, p) \<and> dec p len = Some (Inl BLE_HS_EMSGSIZE)"
    and enc_dec: "sz \<le> len \<Longrightarrow> len \<le> int (length p) \<Longrightarrow> \<exists>p'. enc p len r = Some (0, p') \<and> length p' = length p \<and>
      drop (nat sz) p' = drop (nat sz) p \<and> p' ! 0 = op \<and> dec p' len = Some (Inr r)"
    and dec_prefix: "sz \<le> len \<Longrightarrow> len \<le> int (length p) \<Longrightarrow> dec (take (nat sz) p @ d) (sz + int (length d)) = dec p len"
    and dec_total: "len \<le> int (length p) \<Longrightarrow> dec p len \<noteq> None"
begin

lemma survives: "command_survives dec enc sz op"
proof -
  have "\<exists>p'. enc p (int (length p)) r = Some (0, p') \<and> length p' = length p \<and> drop (nat sz) p' = drop (nat sz) p \<and>
      p' ! 0 = op \<and> (\<forall>data. dec (take (nat sz) p' @ data) (sz + int (length data)) = Some (Inr r))"
    if n: "sz \<le> int (length p)" for p r
  proof -
    obtain p' where "enc p (int (length p)) r = Some (0, p')" "length p' = length p" "drop (nat sz) p' = drop (nat sz) p"
      "p' ! 0 = op" "dec p' (int (length p)) = Some (Inr r)"
      using enc_dec [OF n order_refl] by blast
    then show ?thesis using dec_prefix [of "int (length p)" p'] n by auto
  qed
  then show ?thesis using short dec_total by (simp add: command_survives_def)
qed

text \<open>Two records with the same encoding are equal.\<close>

lemma enc_inj:
  assumes "sz \<le> len" "len \<le> int (length p)" "enc p len r = enc p len r'"
  shows "r = r'"
  using enc_dec [OF assms(1,2), of r] enc_dec [OF assms(1,2), of r'] assms(3) by auto

end

lemma att_codecI:
  assumes n: "sz = int n" "0 < n"
    and "\<And>len p r. len < int n \<Longrightarrow> enc p len r = Some (BLE_HS_EMSGSIZE, p)"
    and "\<And>len p. len < int n \<Longrightarrow> dec p len = Some (Inl BLE_HS_EMSGSIZE)"
    and "\<And>len p r. int n \<le> len \<Longrightarrow> n \<le> length p \<Longrightarrow> \<exists>p'. enc p len r = Some (0, p') \<and> length p' = length p \<and>
      drop n p' = drop n p \<and> p' ! 0 = op \<and> dec p' len = Some (Inr r)"
    and "\<And>len p d. int n \<le> len \<Longrightarrow> n \<le> length p \<Longrightarrow> dec (take n p @ d) (int n + int (length d)) = dec p len"
    and "\<And>len p. int n \<le> len \<Longrightarrow> n \<le> length p \<Longrightarrow> dec p len \<noteq> None"
  shows "att_codec dec enc sz op"
proof
  show "dec p len \<noteq> None" if "len \<le> int (length p)" for len p
    using that assms(4) [of len p] assms(7) [of len p] by (cases "len < int n") auto
qed (use assms in auto)

lemmas att_consts = BLE_HS_EINVAL_def BLE_HS_EMSGSIZE_def
  BLE_ATT_ERROR_RSP_SZ_def BLE_ATT_MTU_CMD_SZ_def BLE_ATT_FIND_INFO_REQ_SZ_def BLE_ATT_FIND_INFO_RSP_BASE_SZ_def BLE_ATT_FIND_TYPE_VALUE_REQ_BASE_SZ_def BLE_ATT_READ_TYPE_REQ_BASE_SZ_def BLE_ATT_READ_TYPE_RSP_BASE_SZ_def BLE_ATT_READ_REQ_SZ_def BLE_ATT_READ_BLOB_REQ_SZ_def BLE_ATT_READ_MULT_REQ_BASE_SZ_def BLE_ATT_READ_MULT_RSP_BASE_SZ_def BLE_ATT_READ_GROUP_TYPE_REQ_BASE_SZ_def BLE_ATT_READ_GROUP_TYPE_RSP_BASE_SZ_def BLE_ATT_WRITE_REQ_BASE_SZ_def BLE_ATT_PREP_WRITE_CMD_BASE_SZ_def BLE_ATT_EXEC_WRITE_REQ_SZ_def BLE_ATT_EXEC_WRITE_RSP_SZ_def BLE_ATT_NOTIFY_REQ_BASE_SZ_def BLE_ATT_INDICATE_REQ_BASE_SZ_def BLE_ATT_INDICATE_RSP_SZ_def
  BLE_ATT_OP_ERROR_RSP_def BLE_ATT_OP_MTU_REQ_def BLE_ATT_OP_MTU_RSP_def BLE_ATT_OP_FIND_INFO_REQ_def BLE_ATT_OP_FIND_INFO_RSP_def BLE_ATT_OP_FIND_TYPE_VALUE_REQ_def BLE_ATT_OP_READ_TYPE_REQ_def BLE_ATT_OP_READ_TYPE_RSP_def BLE_ATT_OP_READ_REQ_def BLE_ATT_OP_READ_BLOB_REQ_def BLE_ATT_OP_READ_MULT_REQ_def BLE_ATT_OP_READ_MULT_RSP_def BLE_ATT_OP_READ_GROUP_TYPE_REQ_def BLE_ATT_OP_READ_GROUP_TYPE_RSP_def BLE_ATT_OP_WRITE_REQ_def BLE_ATT_OP_WRITE_CMD_def BLE_ATT_OP_PREP_WRITE_REQ_def BLE_ATT_OP_PREP_WRITE_RSP_def BLE_ATT_OP_EXEC_WRITE_REQ_def BLE_ATT_OP_EXEC_WRITE_RSP_def BLE_ATT_OP_NOTIFY_REQ_def BLE_ATT_OP_INDICATE_REQ_def BLE_ATT_OP_INDICATE_RSP_def

interpretation error_rsp: att_codec ble_att_error_rsp_parse ble_att_error_rsp_write BLE_ATT_ERROR_RSP_SZ BLE_ATT_OP_ERROR_RSP
  by (rule att_codecI [of _ 5])
    (auto simp: ble_att_error_rsp_parse_def ble_att_error_rsp_write_def att_consts buf_simps nth_list_update nth_append simp del: length_greater_0_conv split: if_splits)

interpretation mtu_req: att_codec ble_att_mtu_cmd_parse ble_att_mtu_req_write BLE_ATT_MTU_CMD_SZ BLE_ATT_OP_MTU_REQ
  by (rule att_codecI [of _ 3])
    (auto simp: ble_att_mtu_cmd_parse_def ble_att_mtu_req_write_def att_consts buf_simps nth_list_update nth_append simp del: length_greater_0_conv split: if_splits)

interpretation mtu_rsp: att_codec ble_att_mtu_cmd_parse ble_att_mtu_rsp_write BLE_ATT_MTU_CMD_SZ BLE_ATT_OP_MTU_RSP
  by (rule att_codecI [of _ 3])
    (auto simp: ble_att_mtu_cmd_parse_def ble_att_mtu_rsp_write_def att_consts buf_simps nth_list_update nth_append simp del: length_greater_0_conv split: if_splits)

interpretation find_info_req: att_codec ble_att_find_info_req_parse ble_att_find_info_req_write BLE_ATT_FIND_INFO_REQ_SZ BLE_ATT_OP_FIND_INFO_REQ
  by (rule att_codecI [of _ 5])
    (auto simp: ble_att_find_info_req_parse_def ble_att_find_info_req_write_def att_consts buf_simps nth_list_update nth_append simp del: length_greater_0_conv split: if_splits)

interpretation find_info_rsp: att_codec ble_att_find_info_rsp_parse ble_att_find_info_rsp_write BLE_ATT_FIND_INFO_RSP_BASE_SZ BLE_ATT_OP_FIND_INFO_RSP
  by (rule att_codecI [of _ 2])
    (auto simp: ble_att_find_info_rsp_parse_def ble_att_find_info_rsp_write_def att_consts buf_simps nth_list_update nth_append simp del: length_greater_0_conv split: if_splits)

interpretation find_type_value_req: att_codec ble_att_find_type_value_req_parse ble_att_find_type_value_req_write BLE_ATT_FIND_TYPE_VALUE_REQ_BASE_SZ BLE_ATT_OP_FIND_TYPE_VALUE_REQ
  by (rule att_codecI [of _ 7])
    (auto simp: ble_att_find_type_value_req_parse_def ble_att_find_type_value_req_write_def att_consts buf_simps nth_list_update nth_append simp del: length_greater_0_conv split: if_splits)

interpretation read_type_req: att_codec ble_att_read_type_req_parse ble_att_read_type_req_write BLE_ATT_READ_TYPE_REQ_BASE_SZ BLE_ATT_OP_READ_TYPE_REQ
  by (rule att_codecI [of _ 5])
    (auto simp: ble_att_read_type_req_parse_def ble_att_read_type_req_write_def att_consts buf_simps nth_list_update nth_append simp del: length_greater_0_conv split: if_splits)

interpretation read_type_rsp: att_codec ble_att_read_type_rsp_parse ble_att_read_type_rsp_write BLE_ATT_READ_TYPE_RSP_BASE_SZ BLE_ATT_OP_READ_TYPE_RSP
  by (rule att_codecI [of _ 2])
    (auto simp: ble_att_read_type_rsp_parse_def ble_att_read_type_rsp_write_def att_consts buf_simps nth_list_update nth_append simp del: length_greater_0_conv split: if_splits)

interpretation read_req: att_codec ble_att_read_req_parse ble_att_read_req_write BLE_ATT_READ_REQ_SZ BLE_ATT_OP_READ_REQ
  by (rule att_codecI [of _ 3])
    (auto simp: ble_att_read_req_parse_def ble_att_read_req_write_def att_consts buf_simps nth_list_update nth_append simp del: length_greater_0_conv split: if_splits)

interpretation read_blob_req: att_codec ble_att_read_blob_req_parse ble_att_read_blob_req_write BLE_ATT_READ_BLOB_REQ_SZ BLE_ATT_OP_READ_BLOB_REQ
  by (rule att_codecI [of _ 5])
    (auto simp: ble_att_read_blob_req_parse_def ble_att_read_blob_req_write_def att_consts buf_simps nth_list_update nth_append simp del: length_greater_0_conv split: if_splits)

interpretation read_mult_req: att_codec ble_att_read_mult_req_parse ble_att_read_mult_req_write BLE_ATT_READ_MULT_REQ_BASE_SZ BLE_ATT_OP_READ_MULT_REQ
  by (rule att_codecI [of _ 1])
    (auto simp: ble_att_read_mult_req_parse_def ble_att_read_mult_req_write_def att_consts buf_simps nth_list_update nth_append simp del: length_greater_0_conv split: if_splits)

interpretation read_mult_rsp: att_codec ble_att_read_mult_rsp_parse ble_att_read_mult_rsp_write BLE_ATT_READ_MULT_RSP_BASE_SZ BLE_ATT_OP_READ_MULT_RSP
  by (rule att_codecI [of _ 1])
    (auto simp: ble_att_read_mult_rsp_parse_def ble_att_read_mult_rsp_write_def att_consts buf_simps nth_list_update nth_append simp del: length_greater_0_conv split: if_splits)

interpretation read_group_type_req: att_codec ble_att_read_group_type_req_parse ble_att_read_group_type_req_write BLE_ATT_READ_GROUP_TYPE_REQ_BASE_SZ BLE_ATT_OP_READ_GROUP_TYPE_REQ
  by (rule att_codecI [of _ 5])
    (auto simp: ble_att_read_group_type_req_parse_def ble_att_read_group_type_req_write_def att_consts buf_simps nth_list_update nth_append simp del: length_greater_0_conv split: if_splits)

interpretation read_group_type_rsp: att_codec ble_att_read_group_type_rsp_parse ble_att_read_group_type_rsp_write BLE_ATT_READ_GROUP_TYPE_RSP_BASE_SZ BLE_ATT_OP_READ_GROUP_TYPE_RSP
  by (rule att_codecI [of _ 2])
    (auto simp: ble_att_read_group_type_rsp_parse_def ble_att_read_group_type_rsp_write_def att_consts buf_simps nth_list_update nth_append simp del: length_greater_0_conv split: if_splits)

interpretation write_req: att_codec ble_att_write_req_parse ble_att_write_req_write BLE_ATT_WRITE_REQ_BASE_SZ BLE_ATT_OP_WRITE_REQ
  by (rule att_codecI [of _ 3])
    (auto simp: ble_att_write_req_parse_def ble_att_write_req_write_def att_consts buf_simps nth_list_update nth_append simp del: length_greater_0_conv split: if_splits)

interpretation write_cmd: att_codec ble_att_write_cmd_parse ble_att_write_cmd_write BLE_ATT_WRITE_REQ_BASE_SZ BLE_ATT_OP_WRITE_CMD
  by (rule att_codecI [of _ 3])
    (auto simp: ble_att_write_cmd_parse_def ble_att_write_cmd_write_def att_consts buf_simps nth_list_update nth_append simp del: length_greater_0_conv split: if_splits)

interpretation prep_write_req: att_codec ble_att_prep_write_req_parse ble_att_prep_write_req_write BLE_ATT_PREP_WRITE_CMD_BASE_SZ BLE_ATT_OP_PREP_WRITE_REQ
  by (rule att_codecI [of _ 5])
    (auto simp: ble_att_prep_write_req_parse_def ble_att_prep_write_req_write_def ble_att_prep_write_cmd_parse_def ble_att_prep_write_cmd_write_def att_consts buf_simps nth_list_update nth_append simp del: length_greater_0_conv split: if_splits)

interpretation prep_write_rsp: att_codec ble_att_prep_write_rsp_parse ble_att_prep_write_rsp_write BLE_ATT_PREP_WRITE_CMD_BASE_SZ BLE_ATT_OP_PREP_WRITE_RSP
  by (rule att_codecI [of _ 5])
    (auto simp: ble_att_prep_write_rsp_parse_def ble_att_prep_write_rsp_write_def ble_att_prep_write_cmd_parse_def ble_att_prep_write_cmd_write_def att_consts buf_simps nth_list_update nth_append simp del: length_greater_0_conv split: if_splits)

interpretation exec_write_req: att_codec ble_att_exec_write_req_parse ble_att_exec_write_req_write BLE_ATT_EXEC_WRITE_REQ_SZ BLE_ATT_OP_EXEC_WRITE_REQ
  by (rule att_codecI [of _ 2])
    (auto simp: ble_att_exec_write_req_parse_def ble_att_exec_write_req_write_def att_consts buf_simps nth_list_update nth_append simp del: length_greater_0_conv split: if_splits)

interpretation exec_write_rsp: att_codec ble_att_exec_write_rsp_parse ble_att_exec_write_rsp_write BLE_ATT_EXEC_WRITE_RSP_SZ BLE_ATT_OP_EXEC_WRITE_RSP
  by (rule att_codecI [of _ 1])
    (auto simp: ble_att_exec_write_rsp_parse_def ble_att_exec_write_rsp_write_def att_consts buf_simps nth_list_update nth_append simp del: length_greater_0_conv split: if_splits)

interpretation notify_req: att_codec ble_att_notify_req_parse ble_att_notify_req_write BLE_ATT_NOTIFY_REQ_BASE_SZ BLE_ATT_OP_NOTIFY_REQ
  by (rule att_codecI [of _ 3])
    (auto simp: ble_att_notify_req_parse_def ble_att_notify_req_write_def att_consts buf_simps nth_list_update nth_append simp del: length_greater_0_conv split: if_splits)

interpretation indicate_req: att_codec ble_att_indicate_req_parse ble_att_indicate_req_write BLE_ATT_INDICATE_REQ_BASE_SZ BLE_ATT_OP_INDICATE_REQ
  by (rule att_codecI [of _ 3])
    (auto simp: ble_att_indicate_req_parse_def ble_att_indicate_req_write_def att_consts buf_simps nth_list_update nth_append simp del: length_greater_0_conv split: if_splits)

interpretation indicate_rsp: att_codec ble_att_indicate_rsp_parse ble_att_indicate_rsp_write BLE_ATT_INDICATE_RSP_SZ BLE_ATT_OP_INDICATE_RSP
  by (rule att_codecI [of _ 1])
    (auto simp: ble_att_indicate_rsp_parse_def ble_att_indicate_rsp_write_def att_consts buf_simps nth_list_update nth_append simp del: length_greater_0_conv split: if_splits)

subsection \<open>All commands\<close>

text \<open>
  C37: Every command of the attribute protocol survives transmission. For each of the 23 pairs of functions, a command
  written at the start of a buffer that has room for it is read back unchanged, whatever data follows it in the
  packet; the writer touches nothing behind the fixed part, a buffer that is too short is refused by both sides with
  \<^verbatim>\<open>BLE_HS_EMSGSIZE\<close>, the parser never reads outside the length it was given, and the opcodes are different.
\<close>

theorem att_commands_roundtrip:
  "command_survives ble_att_error_rsp_parse ble_att_error_rsp_write BLE_ATT_ERROR_RSP_SZ BLE_ATT_OP_ERROR_RSP \<and>
   command_survives ble_att_mtu_cmd_parse ble_att_mtu_req_write BLE_ATT_MTU_CMD_SZ BLE_ATT_OP_MTU_REQ \<and>
   command_survives ble_att_mtu_cmd_parse ble_att_mtu_rsp_write BLE_ATT_MTU_CMD_SZ BLE_ATT_OP_MTU_RSP \<and>
   command_survives ble_att_find_info_req_parse ble_att_find_info_req_write BLE_ATT_FIND_INFO_REQ_SZ BLE_ATT_OP_FIND_INFO_REQ \<and>
   command_survives ble_att_find_info_rsp_parse ble_att_find_info_rsp_write BLE_ATT_FIND_INFO_RSP_BASE_SZ BLE_ATT_OP_FIND_INFO_RSP \<and>
   command_survives ble_att_find_type_value_req_parse ble_att_find_type_value_req_write BLE_ATT_FIND_TYPE_VALUE_REQ_BASE_SZ BLE_ATT_OP_FIND_TYPE_VALUE_REQ \<and>
   command_survives ble_att_read_type_req_parse ble_att_read_type_req_write BLE_ATT_READ_TYPE_REQ_BASE_SZ BLE_ATT_OP_READ_TYPE_REQ \<and>
   command_survives ble_att_read_type_rsp_parse ble_att_read_type_rsp_write BLE_ATT_READ_TYPE_RSP_BASE_SZ BLE_ATT_OP_READ_TYPE_RSP \<and>
   command_survives ble_att_read_req_parse ble_att_read_req_write BLE_ATT_READ_REQ_SZ BLE_ATT_OP_READ_REQ \<and>
   command_survives ble_att_read_blob_req_parse ble_att_read_blob_req_write BLE_ATT_READ_BLOB_REQ_SZ BLE_ATT_OP_READ_BLOB_REQ \<and>
   command_survives ble_att_read_mult_req_parse ble_att_read_mult_req_write BLE_ATT_READ_MULT_REQ_BASE_SZ BLE_ATT_OP_READ_MULT_REQ \<and>
   command_survives ble_att_read_mult_rsp_parse ble_att_read_mult_rsp_write BLE_ATT_READ_MULT_RSP_BASE_SZ BLE_ATT_OP_READ_MULT_RSP \<and>
   command_survives ble_att_read_group_type_req_parse ble_att_read_group_type_req_write BLE_ATT_READ_GROUP_TYPE_REQ_BASE_SZ BLE_ATT_OP_READ_GROUP_TYPE_REQ \<and>
   command_survives ble_att_read_group_type_rsp_parse ble_att_read_group_type_rsp_write BLE_ATT_READ_GROUP_TYPE_RSP_BASE_SZ BLE_ATT_OP_READ_GROUP_TYPE_RSP \<and>
   command_survives ble_att_write_req_parse ble_att_write_req_write BLE_ATT_WRITE_REQ_BASE_SZ BLE_ATT_OP_WRITE_REQ \<and>
   command_survives ble_att_write_cmd_parse ble_att_write_cmd_write BLE_ATT_WRITE_REQ_BASE_SZ BLE_ATT_OP_WRITE_CMD \<and>
   command_survives ble_att_prep_write_req_parse ble_att_prep_write_req_write BLE_ATT_PREP_WRITE_CMD_BASE_SZ BLE_ATT_OP_PREP_WRITE_REQ \<and>
   command_survives ble_att_prep_write_rsp_parse ble_att_prep_write_rsp_write BLE_ATT_PREP_WRITE_CMD_BASE_SZ BLE_ATT_OP_PREP_WRITE_RSP \<and>
   command_survives ble_att_exec_write_req_parse ble_att_exec_write_req_write BLE_ATT_EXEC_WRITE_REQ_SZ BLE_ATT_OP_EXEC_WRITE_REQ \<and>
   command_survives ble_att_exec_write_rsp_parse ble_att_exec_write_rsp_write BLE_ATT_EXEC_WRITE_RSP_SZ BLE_ATT_OP_EXEC_WRITE_RSP \<and>
   command_survives ble_att_notify_req_parse ble_att_notify_req_write BLE_ATT_NOTIFY_REQ_BASE_SZ BLE_ATT_OP_NOTIFY_REQ \<and>
   command_survives ble_att_indicate_req_parse ble_att_indicate_req_write BLE_ATT_INDICATE_REQ_BASE_SZ BLE_ATT_OP_INDICATE_REQ \<and>
   command_survives ble_att_indicate_rsp_parse ble_att_indicate_rsp_write BLE_ATT_INDICATE_RSP_SZ BLE_ATT_OP_INDICATE_RSP \<and>
   distinct [BLE_ATT_OP_ERROR_RSP, BLE_ATT_OP_MTU_REQ, BLE_ATT_OP_MTU_RSP, BLE_ATT_OP_FIND_INFO_REQ, BLE_ATT_OP_FIND_INFO_RSP, BLE_ATT_OP_FIND_TYPE_VALUE_REQ, BLE_ATT_OP_READ_TYPE_REQ, BLE_ATT_OP_READ_TYPE_RSP, BLE_ATT_OP_READ_REQ, BLE_ATT_OP_READ_BLOB_REQ, BLE_ATT_OP_READ_MULT_REQ, BLE_ATT_OP_READ_MULT_RSP, BLE_ATT_OP_READ_GROUP_TYPE_REQ, BLE_ATT_OP_READ_GROUP_TYPE_RSP, BLE_ATT_OP_WRITE_REQ, BLE_ATT_OP_WRITE_CMD, BLE_ATT_OP_PREP_WRITE_REQ, BLE_ATT_OP_PREP_WRITE_RSP, BLE_ATT_OP_EXEC_WRITE_REQ, BLE_ATT_OP_EXEC_WRITE_RSP, BLE_ATT_OP_NOTIFY_REQ, BLE_ATT_OP_INDICATE_REQ, BLE_ATT_OP_INDICATE_RSP]"
  by (intro conjI error_rsp.survives mtu_req.survives mtu_rsp.survives find_info_req.survives find_info_rsp.survives find_type_value_req.survives read_type_req.survives read_type_rsp.survives read_req.survives read_blob_req.survives read_mult_req.survives read_mult_rsp.survives read_group_type_req.survives read_group_type_rsp.survives write_req.survives write_cmd.survives prep_write_req.survives prep_write_rsp.survives exec_write_req.survives exec_write_rsp.survives notify_req.survives indicate_req.survives indicate_rsp.survives) (simp add: att_consts)

text \<open>The parser of the answer to a read by type is the only one that does not look at the opcode.\<close>

lemma ble_att_read_type_rsp_any_opcode: "ble_att_read_type_rsp_parse [BLE_ATT_OP_ERROR_RSP, n] 2 = Some (Inr \<lparr>batp_length = n\<rparr>)"
  by (simp add: ble_att_read_type_rsp_parse_def att_consts buf_simps)

end
