(* ===== verification/Ble_Hs_Adv.thy ===== *)
theory Ble_Hs_Adv
  imports Ble_Att_Cmd
begin

text \<open>
  \<^verbatim>\<open>net/nimble/host/src/ble_hs_adv.c\<close>: writing and reading the fields of an advertisement, a sequence of records with a
  length, a type and data, and the two functions of \<^verbatim>\<open>ble_gap.c\<close> that build the advertising data from them. The code is
  read with \<^verbatim>\<open>NIMBLE_OPT_ADVERTISE\<close> on, as \<^verbatim>\<open>nimble_opt.h\<close> has it.

  A pointer of \<^verbatim>\<open>struct ble_hs_adv_fields\<close> is the memory from where it points to the end of its buffer, or \<open>None\<close> for
  \<^verbatim>\<open>NULL\<close>; so a pointer the parser stores is a rest of the packet. The memory of a 16-bit or a 32-bit integer is its
  bytes with the least significant first, as on all the processors the system runs on.

  The specification is \<open>item_of\<close>, the data a structure has under each type of record: writing gives the items in the order
  of their types, reading gives them back.
\<close>

subsection \<open>ble\_hs\_adv.h\<close>

definition BLE_HS_EBADDATA :: int where "BLE_HS_EBADDATA = 10"

definition BLE_HS_ADV_TYPE_FLAGS :: u8 where "BLE_HS_ADV_TYPE_FLAGS = 0x1"

definition BLE_HS_ADV_TYPE_INCOMP_UUIDS16 :: u8 where "BLE_HS_ADV_TYPE_INCOMP_UUIDS16 = 0x2"

definition BLE_HS_ADV_TYPE_COMP_UUIDS16 :: u8 where "BLE_HS_ADV_TYPE_COMP_UUIDS16 = 0x3"

definition BLE_HS_ADV_TYPE_INCOMP_UUIDS32 :: u8 where "BLE_HS_ADV_TYPE_INCOMP_UUIDS32 = 0x4"

definition BLE_HS_ADV_TYPE_COMP_UUIDS32 :: u8 where "BLE_HS_ADV_TYPE_COMP_UUIDS32 = 0x5"

definition BLE_HS_ADV_TYPE_INCOMP_UUIDS128 :: u8 where "BLE_HS_ADV_TYPE_INCOMP_UUIDS128 = 0x6"

definition BLE_HS_ADV_TYPE_COMP_UUIDS128 :: u8 where "BLE_HS_ADV_TYPE_COMP_UUIDS128 = 0x7"

definition BLE_HS_ADV_TYPE_INCOMP_NAME :: u8 where "BLE_HS_ADV_TYPE_INCOMP_NAME = 0x8"

definition BLE_HS_ADV_TYPE_COMP_NAME :: u8 where "BLE_HS_ADV_TYPE_COMP_NAME = 0x9"

definition BLE_HS_ADV_TYPE_TX_PWR_LVL :: u8 where "BLE_HS_ADV_TYPE_TX_PWR_LVL = 0xa"

definition BLE_HS_ADV_TYPE_DEVICE_CLASS :: u8 where "BLE_HS_ADV_TYPE_DEVICE_CLASS = 0xd"

definition BLE_HS_ADV_TYPE_SLAVE_ITVL_RANGE :: u8 where "BLE_HS_ADV_TYPE_SLAVE_ITVL_RANGE = 0x12"

definition BLE_HS_ADV_TYPE_SVC_DATA_UUID16 :: u8 where "BLE_HS_ADV_TYPE_SVC_DATA_UUID16 = 0x16"

definition BLE_HS_ADV_TYPE_PUBLIC_TGT_ADDR :: u8 where "BLE_HS_ADV_TYPE_PUBLIC_TGT_ADDR = 0x17"

definition BLE_HS_ADV_TYPE_APPEARANCE :: u8 where "BLE_HS_ADV_TYPE_APPEARANCE = 0x19"

definition BLE_HS_ADV_TYPE_ADV_ITVL :: u8 where "BLE_HS_ADV_TYPE_ADV_ITVL = 0x1a"

definition BLE_HS_ADV_TYPE_LE_ADDR :: u8 where "BLE_HS_ADV_TYPE_LE_ADDR = 0x1b"

definition BLE_HS_ADV_TYPE_LE_ROLE :: u8 where "BLE_HS_ADV_TYPE_LE_ROLE = 0x1c"

definition BLE_HS_ADV_TYPE_SVC_DATA_UUID32 :: u8 where "BLE_HS_ADV_TYPE_SVC_DATA_UUID32 = 0x20"

definition BLE_HS_ADV_TYPE_SVC_DATA_UUID128 :: u8 where "BLE_HS_ADV_TYPE_SVC_DATA_UUID128 = 0x21"

definition BLE_HS_ADV_TYPE_URI :: u8 where "BLE_HS_ADV_TYPE_URI = 0x24"

definition BLE_HS_ADV_TYPE_MFG_DATA :: u8 where "BLE_HS_ADV_TYPE_MFG_DATA = 0xff"

definition BLE_HS_ADV_FLAGS_LEN :: u8 where "BLE_HS_ADV_FLAGS_LEN = 1"

definition BLE_HS_ADV_TX_PWR_LVL_LEN :: u8 where "BLE_HS_ADV_TX_PWR_LVL_LEN = 1"

definition BLE_HS_ADV_DEVICE_CLASS_LEN :: u8 where "BLE_HS_ADV_DEVICE_CLASS_LEN = 3"

definition BLE_HS_ADV_SLAVE_ITVL_RANGE_LEN :: u8 where "BLE_HS_ADV_SLAVE_ITVL_RANGE_LEN = 4"

definition BLE_HS_ADV_SVC_DATA_UUID16_MIN_LEN :: u8 where "BLE_HS_ADV_SVC_DATA_UUID16_MIN_LEN = 2"

definition BLE_HS_ADV_PUBLIC_TGT_ADDR_ENTRY_LEN :: u8 where "BLE_HS_ADV_PUBLIC_TGT_ADDR_ENTRY_LEN = 6"

definition BLE_HS_ADV_APPEARANCE_LEN :: u8 where "BLE_HS_ADV_APPEARANCE_LEN = 2"

definition BLE_HS_ADV_ADV_ITVL_LEN :: u8 where "BLE_HS_ADV_ADV_ITVL_LEN = 2"

definition BLE_HS_ADV_LE_ADDR_LEN :: u8 where "BLE_HS_ADV_LE_ADDR_LEN = 7"

definition BLE_HS_ADV_LE_ROLE_LEN :: u8 where "BLE_HS_ADV_LE_ROLE_LEN = 1"

definition BLE_HS_ADV_SVC_DATA_UUID32_MIN_LEN :: u8 where "BLE_HS_ADV_SVC_DATA_UUID32_MIN_LEN = 4"

definition BLE_HS_ADV_SVC_DATA_UUID128_MIN_LEN :: u8 where "BLE_HS_ADV_SVC_DATA_UUID128_MIN_LEN = 16"

record ble_hs_adv_fields =
  flags :: u8
  flags_is_present :: bool
  uuids16 :: "u8 list option"
  num_uuids16 :: u8
  uuids16_is_complete :: bool
  uuids32 :: "u8 list option"
  num_uuids32 :: u8
  uuids32_is_complete :: bool
  uuids128 :: "u8 list option"
  num_uuids128 :: u8
  uuids128_is_complete :: bool
  name :: "u8 list option"
  name_len :: u8
  name_is_complete :: bool
  tx_pwr_lvl :: u8
  tx_pwr_lvl_is_present :: bool
  device_class :: "u8 list option"
  slave_itvl_range :: "u8 list option"
  svc_data_uuid16 :: "u8 list option"
  svc_data_uuid16_len :: u8
  public_tgt_addr :: "u8 list option"
  num_public_tgt_addrs :: u8
  appearance :: u16
  appearance_is_present :: bool
  adv_itvl :: u16
  adv_itvl_is_present :: bool
  le_addr :: "u8 list option"
  le_role :: u8
  le_role_is_present :: bool
  svc_data_uuid32 :: "u8 list option"
  svc_data_uuid32_len :: u8
  svc_data_uuid128 :: "u8 list option"
  svc_data_uuid128_len :: u8
  uri :: "u8 list option"
  uri_len :: u8
  mfg_data :: "u8 list option"
  mfg_data_len :: u8

text \<open>The structure after \<^verbatim>\<open>memset(adv_fields, 0, sizeof *adv_fields)\<close>.\<close>

definition adv_fields_zero :: ble_hs_adv_fields where
  "adv_fields_zero =
     \<lparr>flags = 0, flags_is_present = False, uuids16 = None, num_uuids16 = 0, uuids16_is_complete = False,
      uuids32 = None, num_uuids32 = 0, uuids32_is_complete = False,
      uuids128 = None, num_uuids128 = 0, uuids128_is_complete = False,
      name = None, name_len = 0, name_is_complete = False, tx_pwr_lvl = 0, tx_pwr_lvl_is_present = False,
      device_class = None, slave_itvl_range = None, svc_data_uuid16 = None, svc_data_uuid16_len = 0,
      public_tgt_addr = None, num_public_tgt_addrs = 0, appearance = 0, appearance_is_present = False,
      adv_itvl = 0, adv_itvl_is_present = False, le_addr = None, le_role = 0, le_role_is_present = False,
      svc_data_uuid32 = None, svc_data_uuid32_len = 0, svc_data_uuid128 = None, svc_data_uuid128_len = 0,
      uri = None, uri_len = 0, mfg_data = None, mfg_data_len = 0\<rparr>"

subsection \<open>Writing\<close>

definition ble_hs_adv_set_hdr :: "u8 \<Rightarrow> u8 \<Rightarrow> u8 \<Rightarrow> u8 list \<Rightarrow> u8 \<Rightarrow> (int \<times> u8 list \<times> u8) option" where
  "ble_hs_adv_set_hdr type data_len max_len dst dst_len =
     (if unat dst_len + 2 + unat data_len > unat max_len then Some (BLE_HS_EMSGSIZE, dst, dst_len)
      else do {
        dst \<leftarrow> put8 dst (unat dst_len) (data_len + 1);
        dst \<leftarrow> put8 dst (unat dst_len + 1) type;
        Some (0, dst, dst_len + 2)
      })"

text \<open>\<^verbatim>\<open>memcpy(dst + off, data, n)\<close>.\<close>

definition copy_into :: "u8 list \<Rightarrow> nat \<Rightarrow> u8 list \<Rightarrow> nat \<Rightarrow> u8 list option" where
  "copy_into dst off data n =
     (if n \<le> length data \<and> off + n \<le> length dst then Some (take off dst @ take n data @ drop (off + n) dst) else None)"

text \<open>The length is an \<^verbatim>\<open>int\<close> here and a byte in the call of \<^verbatim>\<open>ble_hs_adv_set_hdr\<close>.\<close>

definition ble_hs_adv_set_flat ::
  "u8 \<Rightarrow> int \<Rightarrow> u8 list option \<Rightarrow> u8 list \<Rightarrow> u8 \<Rightarrow> u8 \<Rightarrow> (int \<times> u8 list \<times> u8) option" where
  "ble_hs_adv_set_flat type data_len data dst dst_len max_len =
     (if data_len \<le> 0 then None
      else do {
        (rc, dst, dst_len) \<leftarrow> ble_hs_adv_set_hdr type (word_of_int data_len) max_len dst dst_len;
        if rc \<noteq> 0 then Some (rc, dst, dst_len)
        else do {
          d \<leftarrow> data;
          dst \<leftarrow> copy_into dst (unat dst_len) d (nat data_len);
          Some (0, dst, dst_len + word_of_int data_len)
        }
      })"

text \<open>The loops: \<open>n\<close> elements are left and \<open>i\<close> is the index of the next.\<close>

fun put_elems16 :: "nat \<Rightarrow> nat \<Rightarrow> u8 list \<Rightarrow> u8 list \<Rightarrow> u8 \<Rightarrow> (u8 list \<times> u8) option" where
  "put_elems16 0 i elems dst dst_len = Some (dst, dst_len)"
| "put_elems16 (Suc n) i elems dst dst_len = do {
     x \<leftarrow> le16toh elems (2 * i);
     dst \<leftarrow> htole16 dst (unat dst_len) x;
     put_elems16 n (i + 1) elems dst (dst_len + 2)
   }"

definition ble_hs_adv_set_array16 ::
  "u8 \<Rightarrow> u8 \<Rightarrow> u8 list option \<Rightarrow> u8 list \<Rightarrow> u8 \<Rightarrow> u8 \<Rightarrow> (int \<times> u8 list \<times> u8) option" where
  "ble_hs_adv_set_array16 type num_elems elems dst dst_len max_len = do {
     (rc, dst, dst_len) \<leftarrow> ble_hs_adv_set_hdr type (num_elems * 2) max_len dst dst_len;
     if rc \<noteq> 0 then Some (rc, dst, dst_len)
     else do {
       e \<leftarrow> elems;
       (dst, dst_len) \<leftarrow> put_elems16 (unat num_elems) 0 e dst dst_len;
       Some (0, dst, dst_len)
     }
   }"

fun put_elems32 :: "nat \<Rightarrow> nat \<Rightarrow> u8 list \<Rightarrow> u8 list \<Rightarrow> u8 \<Rightarrow> (u8 list \<times> u8) option" where
  "put_elems32 0 i elems dst dst_len = Some (dst, dst_len)"
| "put_elems32 (Suc n) i elems dst dst_len = do {
     x \<leftarrow> le32toh elems (4 * i);
     dst \<leftarrow> htole32 dst (unat dst_len) x;
     put_elems32 n (i + 1) elems dst (dst_len + 4)
   }"

definition ble_hs_adv_set_array32 ::
  "u8 \<Rightarrow> u8 \<Rightarrow> u8 list option \<Rightarrow> u8 list \<Rightarrow> u8 \<Rightarrow> u8 \<Rightarrow> (int \<times> u8 list \<times> u8) option" where
  "ble_hs_adv_set_array32 type num_elems elems dst dst_len max_len = do {
     (rc, dst, dst_len) \<leftarrow> ble_hs_adv_set_hdr type (num_elems * 4) max_len dst dst_len;
     if rc \<noteq> 0 then Some (rc, dst, dst_len)
     else do {
       e \<leftarrow> elems;
       (dst, dst_len) \<leftarrow> put_elems32 (unat num_elems) 0 e dst dst_len;
       Some (0, dst, dst_len)
     }
   }"

text \<open>The memory of a 16-bit integer.\<close>

definition bytes16 :: "u16 \<Rightarrow> u8 list" where
  "bytes16 x = [ucast x, ucast (drop_bit 8 x)]"

text \<open>\<^verbatim>\<open>if (cond) { rc = call; if (rc != 0) { return rc; } }\<close> and what comes after it.\<close>

definition set_if ::
  "bool \<Rightarrow> (u8 list \<Rightarrow> u8 \<Rightarrow> (int \<times> u8 list \<times> u8) option) \<Rightarrow> (u8 list \<Rightarrow> u8 \<Rightarrow> (int \<times> u8 list \<times> u8) option) \<Rightarrow>
   u8 list \<Rightarrow> u8 \<Rightarrow> (int \<times> u8 list \<times> u8) option" where
  "set_if c call rest dst dst_len =
     (if c then do {
        (rc, dst, dst_len) \<leftarrow> call dst dst_len;
        if rc \<noteq> 0 then Some (rc, dst, dst_len) else rest dst dst_len
      } else rest dst dst_len)"

definition ble_hs_adv_set_fields :: "ble_hs_adv_fields \<Rightarrow> u8 list \<Rightarrow> u8 \<Rightarrow> (int \<times> u8 list \<times> u8) option" where
  "ble_hs_adv_set_fields f dst max_len =
     ((set_if (uuids16 f \<noteq> None \<and> num_uuids16 f \<noteq> 0)
        (\<lambda>d n. ble_hs_adv_set_array16 (if uuids16_is_complete f then BLE_HS_ADV_TYPE_COMP_UUIDS16 else BLE_HS_ADV_TYPE_INCOMP_UUIDS16)
          (num_uuids16 f) (uuids16 f) d n max_len)
     (set_if (uuids32 f \<noteq> None \<and> num_uuids32 f \<noteq> 0)
        (\<lambda>d n. ble_hs_adv_set_array32 (if uuids32_is_complete f then BLE_HS_ADV_TYPE_COMP_UUIDS32 else BLE_HS_ADV_TYPE_INCOMP_UUIDS32)
          (num_uuids32 f) (uuids32 f) d n max_len)
     (set_if (uuids128 f \<noteq> None \<and> num_uuids128 f > 0)
        (\<lambda>d n. ble_hs_adv_set_flat (if uuids128_is_complete f then BLE_HS_ADV_TYPE_COMP_UUIDS128 else BLE_HS_ADV_TYPE_INCOMP_UUIDS128)
          (uint (num_uuids128 f) * 16) (uuids128 f) d n max_len)
     (set_if (name f \<noteq> None \<and> name_len f > 0)
        (\<lambda>d n. ble_hs_adv_set_flat (if name_is_complete f then BLE_HS_ADV_TYPE_COMP_NAME else BLE_HS_ADV_TYPE_INCOMP_NAME)
          (uint (name_len f)) (name f) d n max_len)
     (set_if (device_class f \<noteq> None)
        (\<lambda>d n. ble_hs_adv_set_flat BLE_HS_ADV_TYPE_DEVICE_CLASS (uint BLE_HS_ADV_DEVICE_CLASS_LEN) (device_class f) d n max_len)
     (set_if (slave_itvl_range f \<noteq> None)
        (\<lambda>d n. ble_hs_adv_set_flat BLE_HS_ADV_TYPE_SLAVE_ITVL_RANGE (uint BLE_HS_ADV_SLAVE_ITVL_RANGE_LEN) (slave_itvl_range f) d n max_len)
     (set_if (svc_data_uuid16 f \<noteq> None)
        (\<lambda>d n. ble_hs_adv_set_flat BLE_HS_ADV_TYPE_SVC_DATA_UUID16 (uint (svc_data_uuid16_len f)) (svc_data_uuid16 f) d n max_len)
     (set_if (public_tgt_addr f \<noteq> None \<and> num_public_tgt_addrs f \<noteq> 0)
        (\<lambda>d n. ble_hs_adv_set_flat BLE_HS_ADV_TYPE_PUBLIC_TGT_ADDR
          (uint BLE_HS_ADV_PUBLIC_TGT_ADDR_ENTRY_LEN * uint (num_public_tgt_addrs f)) (public_tgt_addr f) d n max_len)
     (set_if (appearance_is_present f)
        (\<lambda>d n. ble_hs_adv_set_flat BLE_HS_ADV_TYPE_APPEARANCE (uint BLE_HS_ADV_APPEARANCE_LEN) (Some (bytes16 (appearance f))) d n max_len)
     (set_if (adv_itvl_is_present f)
        (\<lambda>d n. ble_hs_adv_set_array16 BLE_HS_ADV_TYPE_ADV_ITVL 1 (Some (bytes16 (adv_itvl f))) d n max_len)
     (set_if (le_addr f \<noteq> None)
        (\<lambda>d n. ble_hs_adv_set_flat BLE_HS_ADV_TYPE_LE_ADDR (uint BLE_HS_ADV_LE_ADDR_LEN) (le_addr f) d n max_len)
     (set_if (le_role_is_present f)
        (\<lambda>d n. ble_hs_adv_set_flat BLE_HS_ADV_TYPE_LE_ROLE (uint BLE_HS_ADV_LE_ROLE_LEN) (Some [le_role f]) d n max_len)
     (set_if (svc_data_uuid32 f \<noteq> None)
        (\<lambda>d n. ble_hs_adv_set_flat BLE_HS_ADV_TYPE_SVC_DATA_UUID32 (uint (svc_data_uuid32_len f)) (svc_data_uuid32 f) d n max_len)
     (set_if (svc_data_uuid128 f \<noteq> None)
        (\<lambda>d n. ble_hs_adv_set_flat BLE_HS_ADV_TYPE_SVC_DATA_UUID128 (uint (svc_data_uuid128_len f)) (svc_data_uuid128 f) d n max_len)
     (set_if (uri f \<noteq> None)
        (\<lambda>d n. ble_hs_adv_set_flat BLE_HS_ADV_TYPE_URI (uint (uri_len f)) (uri f) d n max_len)
     (set_if (mfg_data f \<noteq> None)
        (\<lambda>d n. ble_hs_adv_set_flat BLE_HS_ADV_TYPE_MFG_DATA (uint (mfg_data_len f)) (mfg_data f) d n max_len)
     (\<lambda>d n. Some (0, d, n))))))))))))))))))) dst 0"

subsection \<open>Reading\<close>

text \<open>The \<^verbatim>\<open>switch\<close> over the type of a record.\<close>

definition store_field :: "ble_hs_adv_fields \<Rightarrow> u8 \<Rightarrow> u8 list \<Rightarrow> u8 \<Rightarrow> (int \<times> ble_hs_adv_fields) option" where
  "store_field f type data data_len =
     (if type = BLE_HS_ADV_TYPE_FLAGS then
        (if data_len \<noteq> BLE_HS_ADV_FLAGS_LEN then Some (BLE_HS_EBADDATA, f)
        else do { x \<leftarrow> get8 data 0; Some (0, f\<lparr>flags := x, flags_is_present := True\<rparr>) })
      else if type = BLE_HS_ADV_TYPE_INCOMP_UUIDS16 then
        (if data_len mod 2 \<noteq> 0 then Some (BLE_HS_EBADDATA, f)
        else Some (0, f\<lparr>uuids16 := Some data, num_uuids16 := data_len div 2, uuids16_is_complete := False\<rparr>))
      else if type = BLE_HS_ADV_TYPE_COMP_UUIDS16 then
        (if data_len mod 2 \<noteq> 0 then Some (BLE_HS_EBADDATA, f)
        else Some (0, f\<lparr>uuids16 := Some data, num_uuids16 := data_len div 2, uuids16_is_complete := True\<rparr>))
      else if type = BLE_HS_ADV_TYPE_INCOMP_UUIDS32 then
        (if data_len mod 4 \<noteq> 0 then Some (BLE_HS_EBADDATA, f)
        else Some (0, f\<lparr>uuids32 := Some data, num_uuids32 := data_len div 4, uuids32_is_complete := False\<rparr>))
      else if type = BLE_HS_ADV_TYPE_COMP_UUIDS32 then
        (if data_len mod 4 \<noteq> 0 then Some (BLE_HS_EBADDATA, f)
        else Some (0, f\<lparr>uuids32 := Some data, num_uuids32 := data_len div 4, uuids32_is_complete := True\<rparr>))
      else if type = BLE_HS_ADV_TYPE_INCOMP_UUIDS128 then
        (if data_len mod 16 \<noteq> 0 then Some (BLE_HS_EBADDATA, f)
        else Some (0, f\<lparr>uuids128 := Some data, num_uuids128 := data_len div 16, uuids128_is_complete := False\<rparr>))
      else if type = BLE_HS_ADV_TYPE_COMP_UUIDS128 then
        (if data_len mod 16 \<noteq> 0 then Some (BLE_HS_EBADDATA, f)
        else Some (0, f\<lparr>uuids128 := Some data, num_uuids128 := data_len div 16, uuids128_is_complete := True\<rparr>))
      else if type = BLE_HS_ADV_TYPE_INCOMP_NAME then
        (Some (0, f\<lparr>name := Some data, name_len := data_len, name_is_complete := False\<rparr>))
      else if type = BLE_HS_ADV_TYPE_COMP_NAME then
        (Some (0, f\<lparr>name := Some data, name_len := data_len, name_is_complete := True\<rparr>))
      else if type = BLE_HS_ADV_TYPE_TX_PWR_LVL then
        (if data_len \<noteq> BLE_HS_ADV_TX_PWR_LVL_LEN then Some (BLE_HS_EBADDATA, f)
        else do { x \<leftarrow> get8 data 0; Some (0, f\<lparr>tx_pwr_lvl := x, tx_pwr_lvl_is_present := True\<rparr>) })
      else if type = BLE_HS_ADV_TYPE_DEVICE_CLASS then
        (if data_len \<noteq> BLE_HS_ADV_DEVICE_CLASS_LEN then Some (BLE_HS_EBADDATA, f)
        else Some (0, f\<lparr>device_class := Some data\<rparr>))
      else if type = BLE_HS_ADV_TYPE_SLAVE_ITVL_RANGE then
        (if data_len \<noteq> BLE_HS_ADV_SLAVE_ITVL_RANGE_LEN then Some (BLE_HS_EBADDATA, f)
        else Some (0, f\<lparr>slave_itvl_range := Some data\<rparr>))
      else if type = BLE_HS_ADV_TYPE_SVC_DATA_UUID16 then
        (if data_len < BLE_HS_ADV_SVC_DATA_UUID16_MIN_LEN then Some (BLE_HS_EBADDATA, f)
        else Some (0, f\<lparr>svc_data_uuid16 := Some data\<rparr>))
      else if type = BLE_HS_ADV_TYPE_PUBLIC_TGT_ADDR then
        (if data_len mod BLE_HS_ADV_PUBLIC_TGT_ADDR_ENTRY_LEN \<noteq> 0 then Some (BLE_HS_EBADDATA, f)
        else Some (0, f\<lparr>public_tgt_addr := Some data, num_public_tgt_addrs := data_len div BLE_HS_ADV_PUBLIC_TGT_ADDR_ENTRY_LEN\<rparr>))
      else if type = BLE_HS_ADV_TYPE_APPEARANCE then
        (if data_len \<noteq> BLE_HS_ADV_APPEARANCE_LEN then Some (BLE_HS_EBADDATA, f)
        else do { x \<leftarrow> le16toh data 0; Some (0, f\<lparr>appearance := x, appearance_is_present := True\<rparr>) })
      else if type = BLE_HS_ADV_TYPE_ADV_ITVL then
        (if data_len \<noteq> BLE_HS_ADV_ADV_ITVL_LEN then Some (BLE_HS_EBADDATA, f)
        else do { x \<leftarrow> le16toh data 0; Some (0, f\<lparr>adv_itvl := x, adv_itvl_is_present := True\<rparr>) })
      else if type = BLE_HS_ADV_TYPE_LE_ADDR then
        (if data_len \<noteq> BLE_HS_ADV_LE_ADDR_LEN then Some (BLE_HS_EBADDATA, f)
        else Some (0, f\<lparr>le_addr := Some data\<rparr>))
      else if type = BLE_HS_ADV_TYPE_LE_ROLE then
        (if data_len \<noteq> BLE_HS_ADV_LE_ROLE_LEN then Some (BLE_HS_EBADDATA, f)
        else do { x \<leftarrow> get8 data 0; Some (0, f\<lparr>le_role := x, le_role_is_present := True\<rparr>) })
      else if type = BLE_HS_ADV_TYPE_SVC_DATA_UUID32 then
        (if data_len < BLE_HS_ADV_SVC_DATA_UUID32_MIN_LEN then Some (BLE_HS_EBADDATA, f)
        else Some (0, f\<lparr>svc_data_uuid32 := Some data\<rparr>))
      else if type = BLE_HS_ADV_TYPE_SVC_DATA_UUID128 then
        (if data_len < BLE_HS_ADV_SVC_DATA_UUID128_MIN_LEN then Some (BLE_HS_EBADDATA, f)
        else Some (0, f\<lparr>svc_data_uuid128 := Some data\<rparr>))
      else if type = BLE_HS_ADV_TYPE_URI then
        (Some (0, f\<lparr>uri := Some data, uri_len := data_len\<rparr>))
      else if type = BLE_HS_ADV_TYPE_MFG_DATA then
        (Some (0, f\<lparr>mfg_data := Some data, mfg_data_len := data_len\<rparr>))
      else Some (0, f))"

text \<open>\<^verbatim>\<open>total_len\<close> is an output; \<open>total_len\<close> is what it holds before the call.\<close>

definition ble_hs_adv_parse_one_field ::
  "ble_hs_adv_fields \<Rightarrow> u8 \<Rightarrow> u8 list \<Rightarrow> u8 \<Rightarrow> (int \<times> u8 \<times> ble_hs_adv_fields) option" where
  "ble_hs_adv_parse_one_field f total_len src src_len =
     (if src_len < 1 then Some (BLE_HS_EMSGSIZE, total_len, f)
      else do {
        b \<leftarrow> get8 src 0;
        let total_len = b + 1;
        if src_len < total_len then Some (BLE_HS_EMSGSIZE, total_len, f)
        else do {
          type \<leftarrow> get8 src 1;
          (rc, f) \<leftarrow> store_field f type (drop 2 src) (total_len - 2);
          Some (rc, total_len, f)
        }
      })"

partial_function (option) parse_loop ::
  "ble_hs_adv_fields \<Rightarrow> u8 \<Rightarrow> u8 list \<Rightarrow> u8 \<Rightarrow> (int \<times> ble_hs_adv_fields) option" where
  "parse_loop f field_len src src_len =
     (if src_len > 0 then do {
        (rc, field_len, f) \<leftarrow> ble_hs_adv_parse_one_field f field_len src src_len;
        if rc \<noteq> 0 then Some (rc, f)
        else parse_loop f field_len (drop (unat field_len) src) (src_len - field_len)
      } else Some (0, f))"

lemmas [code] = parse_loop.simps

text \<open>The variable \<^verbatim>\<open>field_len\<close> is not initialised; it is written before it is read.\<close>

definition ble_hs_adv_parse_fields :: "u8 list \<Rightarrow> u8 \<Rightarrow> (int \<times> ble_hs_adv_fields) option" where
  "ble_hs_adv_parse_fields src src_len = parse_loop adv_fields_zero 0 src src_len"

subsection \<open>ble\_gap.c\<close>

definition BLE_HCI_MAX_ADV_DATA_LEN :: u8 where "BLE_HCI_MAX_ADV_DATA_LEN = 31"

definition BLE_GAP_ADV_DATA_LIMIT :: u8 where "BLE_GAP_ADV_DATA_LIMIT = BLE_HCI_MAX_ADV_DATA_LEN - 6"

definition BLE_GAP_OP_NULL :: u8 where "BLE_GAP_OP_NULL = 0"

definition BLE_GAP_DISC_MODE_NON :: u8 where "BLE_GAP_DISC_MODE_NON = 0"

definition BLE_GAP_DISC_MODE_LTD :: u8 where "BLE_GAP_DISC_MODE_LTD = 1"

definition BLE_GAP_DISC_MODE_GEN :: u8 where "BLE_GAP_DISC_MODE_GEN = 2"

definition BLE_HS_ADV_F_DISC_LTD :: u8 where "BLE_HS_ADV_F_DISC_LTD = 0x01"

definition BLE_HS_ADV_F_DISC_GEN :: u8 where "BLE_HS_ADV_F_DISC_GEN = 0x02"

definition BLE_HS_ADV_F_BREDR_UNSUP :: u8 where "BLE_HS_ADV_F_BREDR_UNSUP = 0x04"

text \<open>The members of \<^verbatim>\<open>ble_gap_slave\<close> the advertising data is made of.\<close>

record gap_slave =
  gs_op :: u8
  gs_disc_mode :: u8
  gs_tx_pwr_lvl :: u8
  gs_adv_data_len :: u8
  gs_adv_data :: "u8 list"

definition ble_gap_adv_set_fields :: "ble_hs_adv_fields \<Rightarrow> gap_slave \<Rightarrow> (int \<times> gap_slave) option" where
  "ble_gap_adv_set_fields adv_fields s = do {
     (rc, d, n) \<leftarrow> ble_hs_adv_set_fields adv_fields (gs_adv_data s) BLE_GAP_ADV_DATA_LIMIT;
     Some (rc, s\<lparr>gs_adv_data := d, gs_adv_data_len := n\<rparr>)
   }"

text \<open>
  \<^verbatim>\<open>ble_gap_adv_data_tx\<close> up to the command to the controller: the length of the data passed to it, and the state.
\<close>

definition ble_gap_adv_data :: "gap_slave \<Rightarrow> (u8 \<times> gap_slave) option" where
  "ble_gap_adv_data s = do {
     _ \<leftarrow> (if gs_op s \<noteq> BLE_GAP_OP_NULL then Some () else None);
     flags \<leftarrow> (if gs_disc_mode s = BLE_GAP_DISC_MODE_NON then Some 0
              else if gs_disc_mode s = BLE_GAP_DISC_MODE_LTD then Some (0 OR BLE_HS_ADV_F_DISC_LTD)
              else if gs_disc_mode s = BLE_GAP_DISC_MODE_GEN then Some (0 OR BLE_HS_ADV_F_DISC_GEN)
              else None);
     let flags = flags OR BLE_HS_ADV_F_BREDR_UNSUP;
     (d, n) \<leftarrow> (if flags \<noteq> 0 then do {
         (rc, d, n) \<leftarrow> ble_hs_adv_set_flat BLE_HS_ADV_TYPE_FLAGS 1 (Some [flags]) (gs_adv_data s) (gs_adv_data_len s)
                        BLE_HCI_MAX_ADV_DATA_LEN;
         if rc = 0 then Some (d, n) else None
       } else Some (gs_adv_data s, gs_adv_data_len s));
     (rc, d, n) \<leftarrow> ble_hs_adv_set_flat BLE_HS_ADV_TYPE_TX_PWR_LVL 1 (Some [gs_tx_pwr_lvl s]) d n BLE_HCI_MAX_ADV_DATA_LEN;
     if rc = 0 then Some (n, s\<lparr>gs_adv_data := d\<rparr>) else None
   }"

subsection \<open>Specification\<close>

text \<open>The data a structure has under a type.\<close>

definition item_of :: "ble_hs_adv_fields \<Rightarrow> u8 \<Rightarrow> u8 list option" where
  "item_of f t =
     (if t = 0x01 then (if flags_is_present f then Some [flags f] else None)
      else if t = 0x02 then (if num_uuids16 f \<noteq> 0 \<and> \<not> uuids16_is_complete f then map_option (take (2 * unat (num_uuids16 f))) (uuids16 f) else None)
      else if t = 0x03 then (if num_uuids16 f \<noteq> 0 \<and> uuids16_is_complete f then map_option (take (2 * unat (num_uuids16 f))) (uuids16 f) else None)
      else if t = 0x04 then (if num_uuids32 f \<noteq> 0 \<and> \<not> uuids32_is_complete f then map_option (take (4 * unat (num_uuids32 f))) (uuids32 f) else None)
      else if t = 0x05 then (if num_uuids32 f \<noteq> 0 \<and> uuids32_is_complete f then map_option (take (4 * unat (num_uuids32 f))) (uuids32 f) else None)
      else if t = 0x06 then (if num_uuids128 f \<noteq> 0 \<and> \<not> uuids128_is_complete f then map_option (take (16 * unat (num_uuids128 f))) (uuids128 f) else None)
      else if t = 0x07 then (if num_uuids128 f \<noteq> 0 \<and> uuids128_is_complete f then map_option (take (16 * unat (num_uuids128 f))) (uuids128 f) else None)
      else if t = 0x08 then (if name_len f \<noteq> 0 \<and> \<not> name_is_complete f then map_option (take (unat (name_len f))) (name f) else None)
      else if t = 0x09 then (if name_len f \<noteq> 0 \<and> name_is_complete f then map_option (take (unat (name_len f))) (name f) else None)
      else if t = 0x0a then (if tx_pwr_lvl_is_present f then Some [tx_pwr_lvl f] else None)
      else if t = 0x0d then map_option (take 3) (device_class f)
      else if t = 0x12 then map_option (take 4) (slave_itvl_range f)
      else if t = 0x16 then map_option (take (unat (svc_data_uuid16_len f))) (svc_data_uuid16 f)
      else if t = 0x17 then (if num_public_tgt_addrs f \<noteq> 0 then map_option (take (6 * unat (num_public_tgt_addrs f))) (public_tgt_addr f) else None)
      else if t = 0x19 then (if appearance_is_present f then Some (bytes16 (appearance f)) else None)
      else if t = 0x1a then (if adv_itvl_is_present f then Some (bytes16 (adv_itvl f)) else None)
      else if t = 0x1b then map_option (take 7) (le_addr f)
      else if t = 0x1c then (if le_role_is_present f then Some [le_role f] else None)
      else if t = 0x20 then map_option (take (unat (svc_data_uuid32_len f))) (svc_data_uuid32 f)
      else if t = 0x21 then map_option (take (unat (svc_data_uuid128_len f))) (svc_data_uuid128 f)
      else if t = 0x24 then map_option (take (unat (uri_len f))) (uri f)
      else if t = 0xff then map_option (take (unat (mfg_data_len f))) (mfg_data f)
      else None)"

text \<open>The types the caller gives data for, in the order they are written in.\<close>

definition set_types :: "u8 list" where
  "set_types = [0x02, 0x03, 0x04, 0x05, 0x06, 0x07, 0x08, 0x09, 0x0d, 0x12, 0x16, 0x17, 0x19, 0x1a, 0x1b, 0x1c, 0x20, 0x21, 0x24, 0xff]"

definition items_at :: "u8 list \<Rightarrow> (u8 \<Rightarrow> u8 list option) \<Rightarrow> (u8 \<times> u8 list) list" where
  "items_at ts g = concat (map (\<lambda>t. case g t of None \<Rightarrow> [] | Some d \<Rightarrow> [(t, d)]) ts)"

text \<open>The records of a list of items.\<close>

definition item_bytes :: "u8 \<times> u8 list \<Rightarrow> u8 list" where
  "item_bytes td = of_nat (length (snd td) + 1) # fst td # snd td"

definition adv_bytes :: "(u8 \<times> u8 list) list \<Rightarrow> u8 list" where
  "adv_bytes items = concat (map item_bytes items)"

text \<open>
  What the code relies on: a pointer has as many bytes behind it as its length says, no field has more than 253 bytes, so
  that its record has a length byte, and the service data, URI and manufacturer data, if there is a pointer, is not
  empty, as \<^verbatim>\<open>ble_hs_adv_set_flat\<close> asserts. A field of more than 253 bytes is not refused:
  \<open>ble_hs_adv_set_flat_overflow\<close>.
\<close>

definition ptr_ok :: "nat \<Rightarrow> u8 list option \<Rightarrow> bool" where
  "ptr_ok n p = (case p of None \<Rightarrow> True | Some d \<Rightarrow> n \<le> length d \<and> n \<le> 253)"

definition adv_fields_ok :: "ble_hs_adv_fields \<Rightarrow> bool" where
  "adv_fields_ok f \<longleftrightarrow>
     ptr_ok (2 * unat (num_uuids16 f)) (uuids16 f) \<and> ptr_ok (4 * unat (num_uuids32 f)) (uuids32 f) \<and>
     ptr_ok (16 * unat (num_uuids128 f)) (uuids128 f) \<and> ptr_ok (unat (name_len f)) (name f) \<and>
     ptr_ok 3 (device_class f) \<and> ptr_ok 4 (slave_itvl_range f) \<and>
     ptr_ok (unat (svc_data_uuid16_len f)) (svc_data_uuid16 f) \<and> (svc_data_uuid16 f \<noteq> None \<longrightarrow> svc_data_uuid16_len f \<noteq> 0) \<and>
     ptr_ok (6 * unat (num_public_tgt_addrs f)) (public_tgt_addr f) \<and> ptr_ok 7 (le_addr f) \<and>
     ptr_ok (unat (svc_data_uuid32_len f)) (svc_data_uuid32 f) \<and> (svc_data_uuid32 f \<noteq> None \<longrightarrow> svc_data_uuid32_len f \<noteq> 0) \<and>
     ptr_ok (unat (svc_data_uuid128_len f)) (svc_data_uuid128 f) \<and> (svc_data_uuid128 f \<noteq> None \<longrightarrow> svc_data_uuid128_len f \<noteq> 0) \<and>
     ptr_ok (unat (uri_len f)) (uri f) \<and> (uri f \<noteq> None \<longrightarrow> uri_len f \<noteq> 0) \<and>
     ptr_ok (unat (mfg_data_len f)) (mfg_data f) \<and> (mfg_data f \<noteq> None \<longrightarrow> mfg_data_len f \<noteq> 0)"

text \<open>Service data that starts with its UUID.\<close>

definition svc_data_ok :: "ble_hs_adv_fields \<Rightarrow> bool" where
  "svc_data_ok f \<longleftrightarrow> (svc_data_uuid16 f \<noteq> None \<longrightarrow> 2 \<le> svc_data_uuid16_len f) \<and>
     (svc_data_uuid32 f \<noteq> None \<longrightarrow> 4 \<le> svc_data_uuid32_len f) \<and> (svc_data_uuid128 f \<noteq> None \<longrightarrow> 16 \<le> svc_data_uuid128_len f)"

text \<open>The items the parser accepts.\<close>

definition item_ok :: "u8 \<Rightarrow> u8 list \<Rightarrow> bool" where
  "item_ok t d \<longleftrightarrow> length d \<le> 253 \<and>
     (if t \<in> {0x01, 0x0a, 0x1c} then length d = 1
      else if t \<in> {0x02, 0x03} then d \<noteq> [] \<and> length d mod 2 = 0
      else if t \<in> {0x04, 0x05} then d \<noteq> [] \<and> length d mod 4 = 0
      else if t \<in> {0x06, 0x07} then d \<noteq> [] \<and> length d mod 16 = 0
      else if t \<in> {0x08, 0x09, 0x24, 0xff} then d \<noteq> []
      else if t = 0x0d then length d = 3
      else if t = 0x12 then length d = 4
      else if t = 0x16 then 2 \<le> length d
      else if t = 0x17 then d \<noteq> [] \<and> length d mod 6 = 0
      else if t \<in> {0x19, 0x1a} then length d = 2
      else if t = 0x1b then length d = 7
      else if t = 0x20 then 4 \<le> length d
      else if t = 0x21 then 16 \<le> length d
      else False)"

text \<open>
  What a reader sees in a structure: the items \<open>v\<close>. The length of service data is not stored by the parser; the pointer is
  all that is left of it.
\<close>

definition svc_data :: "ble_hs_adv_fields \<Rightarrow> u8 \<Rightarrow> u8 list option" where
  "svc_data g t = (if t = 0x16 then svc_data_uuid16 g else if t = 0x20 then svc_data_uuid32 g else svc_data_uuid128 g)"

definition shows_item :: "ble_hs_adv_fields \<Rightarrow> u8 \<Rightarrow> u8 list option \<Rightarrow> bool" where
  "shows_item g t x =
     (if t \<in> {0x16, 0x20, 0x21}
      then (case x of None \<Rightarrow> svc_data g t = None | Some d \<Rightarrow> map_option (take (length d)) (svc_data g t) = Some d)
      else item_of g t = x)"

definition all_types :: "u8 list" where
  "all_types = 0x01 # 0x0a # set_types"

definition shows_items :: "ble_hs_adv_fields \<Rightarrow> (u8 \<Rightarrow> u8 list option) \<Rightarrow> bool" where
  "shows_items g v \<longleftrightarrow> (\<forall>t \<in> set all_types. shows_item g t (v t))"

text \<open>A structure with no length of service data in it.\<close>

definition no_svc_len :: "ble_hs_adv_fields \<Rightarrow> bool" where
  "no_svc_len f \<longleftrightarrow> svc_data_uuid16_len f = 0 \<and> svc_data_uuid32_len f = 0 \<and> svc_data_uuid128_len f = 0"

text \<open>The complete and the incomplete lists of one kind are kept in the same place.\<close>

definition family :: "u8 \<Rightarrow> u8" where
  "family t = (if t \<in> {0x03, 0x05, 0x07, 0x09} then t - 1 else t)"

definition siblings :: "(u8 \<times> u8) set" where
  "siblings = {(0x02, 0x03), (0x03, 0x02), (0x04, 0x05), (0x05, 0x04), (0x06, 0x07), (0x07, 0x06), (0x08, 0x09), (0x09, 0x08)}"

definition put_item :: "u8 \<Rightarrow> u8 list \<Rightarrow> (u8 \<Rightarrow> u8 list option) \<Rightarrow> u8 \<Rightarrow> u8 list option" where
  "put_item t d v = (\<lambda>u. if u = t then Some d else if family u = family t then None else v u)"

text \<open>The result of writing all of \<open>items\<close> to the buffer \<open>dst\<close> with the limit \<open>m\<close>.\<close>

definition written :: "u8 list \<Rightarrow> nat \<Rightarrow> (u8 \<times> u8 list) list \<Rightarrow> (int \<times> u8 list \<times> u8) option \<Rightarrow> bool" where
  "written dst m items res =
     (let b = adv_bytes items in
      if length b \<le> m then res = Some (0, b @ drop (length b) dst, of_nat (length b))
      else (case res of Some (rc, d, n) \<Rightarrow> rc = BLE_HS_EMSGSIZE \<and> length d = length dst \<and> unat n \<le> m | None \<Rightarrow> False))"

text \<open>A step of \<open>ble_hs_adv_set_fields\<close> appends \<open>items\<close> to what has been written before.\<close>

definition appends :: "u8 list \<Rightarrow> nat \<Rightarrow> (u8 list \<Rightarrow> u8 \<Rightarrow> (int \<times> u8 list \<times> u8) option) \<Rightarrow> (u8 \<times> u8 list) list \<Rightarrow> bool" where
  "appends dst m step items \<longleftrightarrow>
     (\<forall>before. length (adv_bytes before) \<le> m \<longrightarrow>
        written dst m (before @ items)
          (step (adv_bytes before @ drop (length (adv_bytes before)) dst) (of_nat (length (adv_bytes before)))))"

text \<open>The pointers the parser stores have as many bytes behind them as it says.\<close>

definition has_bytes :: "nat \<Rightarrow> u8 list option \<Rightarrow> bool" where
  "has_bytes n p = (case p of None \<Rightarrow> True | Some d \<Rightarrow> n \<le> length d)"

definition in_packet :: "ble_hs_adv_fields \<Rightarrow> bool" where
  "in_packet g \<longleftrightarrow>
     has_bytes (2 * unat (num_uuids16 g)) (uuids16 g) \<and> has_bytes (4 * unat (num_uuids32 g)) (uuids32 g) \<and>
     has_bytes (16 * unat (num_uuids128 g)) (uuids128 g) \<and> has_bytes (unat (name_len g)) (name g) \<and>
     has_bytes 3 (device_class g) \<and> has_bytes 4 (slave_itvl_range g) \<and> has_bytes 2 (svc_data_uuid16 g) \<and>
     has_bytes (6 * unat (num_public_tgt_addrs g)) (public_tgt_addr g) \<and> has_bytes 7 (le_addr g) \<and>
     has_bytes 4 (svc_data_uuid32 g) \<and> has_bytes 16 (svc_data_uuid128 g) \<and> has_bytes (unat (uri_len g)) (uri g) \<and>
     has_bytes (unat (mfg_data_len g)) (mfg_data g)"

text \<open>
  A packet none of whose length bytes is 0 or 255, where the walk over the records ends or finds a record that is too long.
\<close>

fun lengths_ok :: "u8 list \<Rightarrow> bool" where
  "lengths_ok [] = True"
| "lengths_ok (b # src) = (b \<noteq> 0 \<and> b \<noteq> 255 \<and> lengths_ok (drop (unat b) src))"

text \<open>A structure with a complete list of two 16-bit UUIDs, a name and manufacturer data.\<close>

definition demo_fields :: ble_hs_adv_fields where
  "demo_fields = adv_fields_zero\<lparr>uuids16 := Some [0x0f, 0x18, 0x0a, 0x18], num_uuids16 := 2, uuids16_is_complete := True,
     name := Some [0x6d, 0x79, 0x6e, 0x65, 0x77, 0x74], name_len := 6, name_is_complete := True,
     mfg_data := Some [0xff, 0xff, 0x2a], mfg_data_len := 3\<rparr>"

subsection \<open>Lemmas\<close>

lemma item_bytes_length [simp]: "length (item_bytes td) = length (snd td) + 2"
  by (simp add: item_bytes_def)

lemma adv_bytes_simps [simp]:
  "adv_bytes [] = []" "adv_bytes (td # its) = item_bytes td @ adv_bytes its"
  "adv_bytes (xs @ ys) = adv_bytes xs @ adv_bytes ys"
  by (simp_all add: adv_bytes_def)

lemma unat_byte [simp]: "n \<le> 255 \<Longrightarrow> unat (of_nat n :: u8) = n"
  by (simp add: unat_of_nat)

lemma byte_le: "unat (x :: u8) \<le> 255"
  using unsigned_less [where ?'a = nat and w = x] by simp

lemma put8_append: "put8 (xs @ ys) (length xs) x = (case ys of [] \<Rightarrow> None | y # ys \<Rightarrow> Some (xs @ x # ys))"
  by (auto simp: put8_def list_update_append split: list.splits)

lemma put8_append2: "put8 (xs @ a # ys) (Suc (length xs)) x = (case ys of [] \<Rightarrow> None | y # ys \<Rightarrow> Some (xs @ a # x # ys))"
  using put8_append [of "xs @ [a]" ys x] by (simp split: list.splits)

text \<open>A header after \<open>pre\<close>, in a buffer with enough room.\<close>

lemma set_hdr:
  assumes "length pre \<le> 255" "n \<le> 253" "unat max_len \<le> length pre + length post"
  shows "ble_hs_adv_set_hdr t (of_nat n) max_len (pre @ post) (of_nat (length pre)) =
    (if length pre + 2 + n > unat max_len then Some (BLE_HS_EMSGSIZE, pre @ post, of_nat (length pre))
     else Some (0, pre @ of_nat (n + 1) # t # drop 2 post, of_nat (length pre + 2)))"
proof (cases "length pre + 2 + n > unat max_len")
  case False
  then obtain a b post' where "post = a # b # post'"
    using assms(3) by (cases post rule: remdups_adj.cases) auto
  then show ?thesis using False assms by (simp add: ble_hs_adv_set_hdr_def put8_append put8_append2 add.commute)
qed (use assms in \<open>simp add: ble_hs_adv_set_hdr_def\<close>)

lemma copy_into_append:
  "n \<le> length d \<Longrightarrow> n \<le> length post \<Longrightarrow> copy_into (pre @ post) (length pre) d n = Some (pre @ take n d @ drop n post)"
  by (simp add: copy_into_def)

lemma set_flat:
  assumes "length pre \<le> 255" "0 < n" "n \<le> 253" "n \<le> length p" "unat max_len \<le> length pre + length post"
  shows "ble_hs_adv_set_flat t (int n) (Some p) (pre @ post) (of_nat (length pre)) max_len =
    (if length pre + 2 + n > unat max_len then Some (BLE_HS_EMSGSIZE, pre @ post, of_nat (length pre))
     else Some (0, pre @ item_bytes (t, take n p) @ drop (2 + n) post, of_nat (length pre + 2 + n)))"
proof (cases "length pre + 2 + n > unat max_len")
  case False
  moreover have "unat max_len \<le> 255" by (rule byte_le)
  ultimately have "length pre + 2 \<le> 255" "n \<le> length (drop 2 post)" using assms by auto
  then show ?thesis
    using False assms set_hdr [of pre n max_len post t] copy_into_append [of n p "drop 2 post" "pre @ [of_nat (n + 1), t]"]
    by (simp add: ble_hs_adv_set_flat_def item_bytes_def add.commute add.left_commute del: of_nat_Suc of_nat_add)
      (simp add: add.commute add.left_commute)
qed (use assms set_hdr [of pre n max_len post t] in \<open>simp add: ble_hs_adv_set_flat_def BLE_HS_EMSGSIZE_def\<close>)

lemma bit_byte_beyond [simp]: "8 \<le> n \<Longrightarrow> \<not> bit (a :: u8) n"
  using bit_imp_le_length [of a n] by auto

lemma le16_low [simp]: "ucast (ucast (a :: u8) OR push_bit 8 (ucast (b :: u8)) :: u16) = a"
  by (rule bit_word_eqI) (simp add: bit_simps)

lemma le16_high [simp]: "ucast (drop_bit 8 (ucast (a :: u8) OR push_bit 8 (ucast (b :: u8)) :: u16)) = b"
  by (rule bit_word_eqI) (auto simp: bit_simps)

lemma le32_split [simp]:
  fixes a b c d :: u8
  defines "x \<equiv> ucast a OR push_bit 8 (ucast b) OR push_bit 16 (ucast c) OR push_bit 24 (ucast d) :: u32"
  shows "ucast x = a" "ucast (drop_bit 8 x) = b" "ucast (drop_bit 16 x) = c" "ucast (drop_bit 24 x) = d"
  unfolding x_def by (rule bit_word_eqI; auto simp: bit_simps)+

lemma htole16_append: "htole16 (pre @ a # b # post) (length pre) x = Some (pre @ ucast x # ucast (drop_bit 8 x) # post)"
  by (simp add: htole16_def put8_append put8_append2)

lemma htole32_append:
  "htole32 (pre @ a # b # c # d # post) (length pre) x =
   Some (pre @ ucast x # ucast (drop_bit 8 x) # ucast (drop_bit 16 x) # ucast (drop_bit 24 x) # post)"
  using put8_append [of pre "a # b # c # d # post" "ucast x"]
    put8_append [of "pre @ [ucast x]" "b # c # d # post" "ucast (drop_bit 8 x)"]
    put8_append [of "pre @ [ucast x, ucast (drop_bit 8 x)]" "c # d # post" "ucast (drop_bit 16 x)"]
    put8_append [of "pre @ [ucast x, ucast (drop_bit 8 x), ucast (drop_bit 16 x)]" "d # post" "ucast (drop_bit 24 x)"]
  by (simp add: htole32_def numeral_3_eq_3)

lemma drop_two: "i + 1 < length xs \<Longrightarrow> drop i xs = xs ! i # xs ! (i + 1) # drop (i + 2) xs"
  using Cons_nth_drop_Suc [of i xs] Cons_nth_drop_Suc [of "Suc i" xs] by simp

lemma put_elems16_eq:
  assumes "2 * (i + n) \<le> length elems" "2 * n \<le> length post" "length pre + 2 * n \<le> 255"
  shows "put_elems16 n i elems (pre @ post) (of_nat (length pre)) =
    Some (pre @ take (2 * n) (drop (2 * i) elems) @ drop (2 * n) post, of_nat (length pre + 2 * n))"
  using assms
proof (induction n arbitrary: i pre post)
  case (Suc n)
  have post: "post = post ! 0 # post ! 1 # drop 2 post" using drop_two [of 0 post] Suc.prems(2) by (simp add: eval_nat_numeral)
  have e: "drop (2 * i) elems = elems ! (2 * i) # elems ! (2 * i + 1) # drop (2 * Suc i) elems"
    using drop_two [of "2 * i" elems] Suc.prems(1) by simp
  show ?case
    using Suc.IH [of "Suc i" "drop 2 post" "pre @ [elems ! (2 * i), elems ! (2 * i + 1)]"] Suc.prems
      htole16_append [of pre "post ! 0" "post ! 1" "drop 2 post"]
    by (subst (1) post, subst e) (simp add: le16toh_eq add.commute del: drop_bit_or)
qed simp

lemma take_four: "take (4 + n) (a # b # c # d # xs) = a # b # c # d # take n xs"
  by (simp add: eval_nat_numeral)

lemma put_elems32_eq:
  assumes "4 * (i + n) \<le> length elems" "4 * n \<le> length post" "length pre + 4 * n \<le> 255"
  shows "put_elems32 n i elems (pre @ post) (of_nat (length pre)) =
    Some (pre @ take (4 * n) (drop (4 * i) elems) @ drop (4 * n) post, of_nat (length pre + 4 * n))"
  using assms
proof (induction n arbitrary: i pre post)
  case (Suc n)
  have post: "post = post ! 0 # post ! 1 # post ! 2 # post ! 3 # drop 4 post"
    using drop_two [of 0 post] drop_two [of 2 post] Suc.prems(2) by (simp add: eval_nat_numeral)
  have e: "drop (4 * i) elems = elems ! (4 * i) # elems ! (4 * i + 1) # elems ! (4 * i + 2) # elems ! (4 * i + 3) # drop (4 * Suc i) elems"
    using drop_two [of "4 * i" elems] drop_two [of "4 * i + 2" elems] Suc.prems(1) by (simp add: eval_nat_numeral)
  show ?case
    using Suc.IH [of "Suc i" "drop 4 post" "pre @ [elems ! (4 * i), elems ! (4 * i + 1), elems ! (4 * i + 2), elems ! (4 * i + 3)]"] Suc.prems
      htole32_append [of pre "post ! 0" "post ! 1" "post ! 2" "post ! 3" "drop 4 post"]
    by (subst (1) post, subst e) (simp add: le32toh_def get8_def take_four add.commute del: drop_bit_or)
qed simp

lemma set_array16:
  assumes "length pre \<le> 255" "2 * unat k \<le> 253" "2 * unat k \<le> length e" "unat max_len \<le> length pre + length post"
  shows "ble_hs_adv_set_array16 t k (Some e) (pre @ post) (of_nat (length pre)) max_len =
    (if length pre + 2 + 2 * unat k > unat max_len then Some (BLE_HS_EMSGSIZE, pre @ post, of_nat (length pre))
     else Some (0, pre @ item_bytes (t, take (2 * unat k) e) @ drop (2 + 2 * unat k) post, of_nat (length pre + 2 + 2 * unat k)))"
proof -
  have k: "k * 2 = of_nat (2 * unat k)" by (simp add: mult.commute)
  show ?thesis
  proof (cases "length pre + 2 + 2 * unat k > unat max_len")
    case False
    then have "2 * unat k \<le> length (drop 2 post)" "length (pre @ [of_nat (2 * unat k + 1), t]) + 2 * unat k \<le> 255"
      using assms byte_le [of max_len] by auto
    from put_elems16_eq [OF _ this, of 0 e] show ?thesis
      using False assms set_hdr [of pre "2 * unat k" max_len post t]
      by (simp add: ble_hs_adv_set_array16_def k item_bytes_def add.commute add.left_commute del: of_nat_mult)
  qed (use assms set_hdr [of pre "2 * unat k" max_len post t] in
      \<open>simp add: ble_hs_adv_set_array16_def k BLE_HS_EMSGSIZE_def del: of_nat_mult\<close>)
qed

lemma set_array32:
  assumes "length pre \<le> 255" "4 * unat k \<le> 253" "4 * unat k \<le> length e" "unat max_len \<le> length pre + length post"
  shows "ble_hs_adv_set_array32 t k (Some e) (pre @ post) (of_nat (length pre)) max_len =
    (if length pre + 2 + 4 * unat k > unat max_len then Some (BLE_HS_EMSGSIZE, pre @ post, of_nat (length pre))
     else Some (0, pre @ item_bytes (t, take (4 * unat k) e) @ drop (2 + 4 * unat k) post, of_nat (length pre + 2 + 4 * unat k)))"
proof -
  have k: "k * 4 = of_nat (4 * unat k)" by (simp add: mult.commute)
  show ?thesis
  proof (cases "length pre + 2 + 4 * unat k > unat max_len")
    case False
    then have "4 * unat k \<le> length (drop 2 post)" "length (pre @ [of_nat (4 * unat k + 1), t]) + 4 * unat k \<le> 255"
      using assms byte_le [of max_len] by auto
    from put_elems32_eq [OF _ this, of 0 e] show ?thesis
      using False assms set_hdr [of pre "4 * unat k" max_len post t]
      by (simp add: ble_hs_adv_set_array32_def k item_bytes_def add.commute add.left_commute del: of_nat_mult)
  qed (use assms set_hdr [of pre "4 * unat k" max_len post t] in
      \<open>simp add: ble_hs_adv_set_array32_def k BLE_HS_EMSGSIZE_def del: of_nat_mult\<close>)
qed

lemma appendsI:
  assumes m: "unat (max_len :: u8) \<le> length dst"
    and step: "\<And>pre post. length pre \<le> unat max_len \<Longrightarrow> unat max_len \<le> length pre + length post \<Longrightarrow>
      step (pre @ post) (of_nat (length pre)) =
        (if length pre + 2 + length d > unat max_len then Some (BLE_HS_EMSGSIZE, pre @ post, of_nat (length pre))
         else Some (0, pre @ item_bytes (t, d) @ drop (2 + length d) post, of_nat (length pre + 2 + length d)))"
  shows "appends dst (unat max_len) step [(t, d)]"
  unfolding appends_def
proof (intro allI impI)
  fix before assume b: "length (adv_bytes before) \<le> unat max_len"
  then have le: "unat max_len \<le> length (adv_bytes before) + length (drop (length (adv_bytes before)) dst)" using m by simp
  show "written dst (unat max_len) (before @ [(t, d)])
      (step (adv_bytes before @ drop (length (adv_bytes before)) dst) (of_nat (length (adv_bytes before))))"
    using b m byte_le [of max_len] unfolding step [OF b le]
    by (simp add: written_def Let_def add.commute add.left_commute)
qed

lemma appends_flat:
  assumes "unat max_len \<le> length dst" "int n = k" "0 < n" "n \<le> 253" "n \<le> length p"
  shows "appends dst (unat max_len) (\<lambda>d i. ble_hs_adv_set_flat t k (Some p) d i max_len) [(t, take n p)]"
  by (rule appendsI [OF assms(1)])
    (use assms(3-5) byte_le [of max_len] set_flat [of _ n p max_len _ t] in \<open>simp add: assms(2) [symmetric]\<close>)

lemma appends_array16:
  assumes "unat max_len \<le> length dst" "2 * unat k \<le> 253" "2 * unat k \<le> length e"
  shows "appends dst (unat max_len) (\<lambda>d i. ble_hs_adv_set_array16 t k (Some e) d i max_len) [(t, take (2 * unat k) e)]"
  by (rule appendsI [OF assms(1)]) (use assms(2,3) byte_le [of max_len] set_array16 [of _ k e max_len _ t] in simp)

lemma appends_array32:
  assumes "unat max_len \<le> length dst" "4 * unat k \<le> 253" "4 * unat k \<le> length e"
  shows "appends dst (unat max_len) (\<lambda>d i. ble_hs_adv_set_array32 t k (Some e) d i max_len) [(t, take (4 * unat k) e)]"
  by (rule appendsI [OF assms(1)]) (use assms(2,3) byte_le [of max_len] set_array32 [of _ k e max_len _ t] in simp)

lemma appends_done: "appends dst m (\<lambda>d n. Some (0, d, n)) []"
  by (simp add: appends_def written_def)

lemma appends_if:
  assumes call: "c \<Longrightarrow> appends dst m call here" and rest: "appends dst m rest after" and none: "\<not> c \<Longrightarrow> here = []"
  shows "appends dst m (set_if c call rest) (here @ after)"
  unfolding appends_def
proof (intro allI impI)
  fix before assume b: "length (adv_bytes before) \<le> m"
  let ?s = "set_if c call rest (adv_bytes before @ drop (length (adv_bytes before)) dst) (of_nat (length (adv_bytes before)))"
  show "written dst m (before @ here @ after) ?s"
  proof (cases c)
    case True
    then have w: "written dst m (before @ here)
        (call (adv_bytes before @ drop (length (adv_bytes before)) dst) (of_nat (length (adv_bytes before))))"
      using call b by (simp add: appends_def)
    show ?thesis
    proof (cases "length (adv_bytes (before @ here)) \<le> m")
      case fit: True
      then show ?thesis using w rest [unfolded appends_def, rule_format, OF fit] True
        by (simp add: set_if_def written_def Let_def)
    next
      case False
      then show ?thesis using w True by (auto simp: set_if_def written_def Let_def BLE_HS_EMSGSIZE_def split: option.splits prod.splits)
    qed
  next
    case False
    then show ?thesis using rest b none by (simp add: set_if_def appends_def)
  qed
qed

lemma appends_flatI:
  assumes "unat max_len \<le> length dst" "x \<noteq> None" "0 < k" "ptr_ok (nat k) x" "its = [(t, take (nat k) (the x))]"
  shows "appends dst (unat max_len) (\<lambda>d i. ble_hs_adv_set_flat t k x d i max_len) its"
  using assms appends_flat [of max_len dst "nat k" k "the x" t] by (auto simp: ptr_ok_def)

lemma appends_array16I:
  assumes "unat max_len \<le> length dst" "x \<noteq> None" "ptr_ok (2 * unat k) x" "its = [(t, take (2 * unat k) (the x))]"
  shows "appends dst (unat max_len) (\<lambda>d i. ble_hs_adv_set_array16 t k x d i max_len) its"
  using assms appends_array16 [of max_len dst k "the x" t] by (auto simp: ptr_ok_def)

lemma appends_array32I:
  assumes "unat max_len \<le> length dst" "x \<noteq> None" "ptr_ok (4 * unat k) x" "its = [(t, take (4 * unat k) (the x))]"
  shows "appends dst (unat max_len) (\<lambda>d i. ble_hs_adv_set_array32 t k x d i max_len) its"
  using assms appends_array32 [of max_len dst k "the x" t] by (auto simp: ptr_ok_def)

lemmas adv_consts = BLE_HS_EMSGSIZE_def BLE_HS_EBADDATA_def
  BLE_HS_ADV_TYPE_FLAGS_def BLE_HS_ADV_TYPE_INCOMP_UUIDS16_def BLE_HS_ADV_TYPE_COMP_UUIDS16_def BLE_HS_ADV_TYPE_INCOMP_UUIDS32_def
  BLE_HS_ADV_TYPE_COMP_UUIDS32_def BLE_HS_ADV_TYPE_INCOMP_UUIDS128_def BLE_HS_ADV_TYPE_COMP_UUIDS128_def
  BLE_HS_ADV_TYPE_INCOMP_NAME_def BLE_HS_ADV_TYPE_COMP_NAME_def BLE_HS_ADV_TYPE_TX_PWR_LVL_def BLE_HS_ADV_TYPE_DEVICE_CLASS_def
  BLE_HS_ADV_TYPE_SLAVE_ITVL_RANGE_def BLE_HS_ADV_TYPE_SVC_DATA_UUID16_def BLE_HS_ADV_TYPE_PUBLIC_TGT_ADDR_def
  BLE_HS_ADV_TYPE_APPEARANCE_def BLE_HS_ADV_TYPE_ADV_ITVL_def BLE_HS_ADV_TYPE_LE_ADDR_def BLE_HS_ADV_TYPE_LE_ROLE_def
  BLE_HS_ADV_TYPE_SVC_DATA_UUID32_def BLE_HS_ADV_TYPE_SVC_DATA_UUID128_def BLE_HS_ADV_TYPE_URI_def BLE_HS_ADV_TYPE_MFG_DATA_def
  BLE_HS_ADV_FLAGS_LEN_def BLE_HS_ADV_TX_PWR_LVL_LEN_def BLE_HS_ADV_DEVICE_CLASS_LEN_def BLE_HS_ADV_SLAVE_ITVL_RANGE_LEN_def
  BLE_HS_ADV_SVC_DATA_UUID16_MIN_LEN_def BLE_HS_ADV_PUBLIC_TGT_ADDR_ENTRY_LEN_def BLE_HS_ADV_APPEARANCE_LEN_def
  BLE_HS_ADV_ADV_ITVL_LEN_def BLE_HS_ADV_LE_ADDR_LEN_def BLE_HS_ADV_LE_ROLE_LEN_def BLE_HS_ADV_SVC_DATA_UUID32_MIN_LEN_def
  BLE_HS_ADV_SVC_DATA_UUID128_MIN_LEN_def

lemma items_at_append: "items_at (ts @ us) g = items_at ts g @ items_at us g"
  by (simp add: items_at_def)

lemma set_types_split:
  "set_types = [0x02, 0x03] @ [0x04, 0x05] @ [0x06, 0x07] @ [0x08, 0x09] @ [0x0d] @ [0x12] @ [0x16] @ [0x17] @ [0x19] @ [0x1a] @
     [0x1b] @ [0x1c] @ [0x20] @ [0x21] @ [0x24] @ [0xff] @ []"
  by (simp add: set_types_def)

lemma appends_start: "appends dst m (set_if c call rest) its \<Longrightarrow> written dst m its (set_if c call rest dst 0)"
  unfolding appends_def by (drule spec [of _ "[]"]) simp

lemma uint_pos [simp]: "0 < uint x \<longleftrightarrow> x \<noteq> 0" for x :: u8
  using uint_0_iff [of x] by (auto simp: less_le)

lemmas item_of_types =
  item_of_def [of _ "0x01", simplified] item_of_def [of _ "0x02", simplified] item_of_def [of _ "0x03", simplified]
  item_of_def [of _ "0x04", simplified] item_of_def [of _ "0x05", simplified] item_of_def [of _ "0x06", simplified]
  item_of_def [of _ "0x07", simplified] item_of_def [of _ "0x08", simplified] item_of_def [of _ "0x09", simplified]
  item_of_def [of _ "0x0a", simplified] item_of_def [of _ "0x0d", simplified] item_of_def [of _ "0x12", simplified]
  item_of_def [of _ "0x16", simplified] item_of_def [of _ "0x17", simplified] item_of_def [of _ "0x19", simplified]
  item_of_def [of _ "0x1a", simplified] item_of_def [of _ "0x1b", simplified] item_of_def [of _ "0x1c", simplified]
  item_of_def [of _ "0x20", simplified] item_of_def [of _ "0x21", simplified] item_of_def [of _ "0x24", simplified]
  item_of_def [of _ "0xff", simplified]

lemma items_at_simps:
  "items_at [] g = []"
  "items_at (t # ts) g = (case g t of None \<Rightarrow> [] | Some d \<Rightarrow> [(t, d)]) @ items_at ts g"
  by (simp_all add: items_at_def)

lemma ptr_ok_consts:
  "ptr_ok 2 (Some (bytes16 x))" "ptr_ok (Suc 0) (Some [y])" "take 2 (bytes16 x) = bytes16 x"
  by (simp_all add: ptr_ok_def bytes16_def)

lemma adv_fields_okD:
  assumes "adv_fields_ok f"
  shows "uuids32 f = Some y \<Longrightarrow> ptr_ok (unat (num_uuids32 f) * 4) (Some y)"
    and "uuids128 f = Some y \<Longrightarrow> ptr_ok (unat (num_uuids128 f) * 16) (Some y)"
    and "public_tgt_addr f = Some y \<Longrightarrow> ptr_ok (unat (num_public_tgt_addrs f) * 6) (Some y)"
    and "svc_data_uuid16 f = Some y \<Longrightarrow> svc_data_uuid16_len f \<noteq> 0"
    and "svc_data_uuid32 f = Some y \<Longrightarrow> svc_data_uuid32_len f \<noteq> 0"
    and "svc_data_uuid128 f = Some y \<Longrightarrow> svc_data_uuid128_len f \<noteq> 0"
  using assms by (auto simp: adv_fields_ok_def mult.commute)

lemma set_fields_written:
  assumes ok: "adv_fields_ok f" and m: "unat max_len \<le> length dst"
  shows "written dst (unat max_len) (items_at set_types (item_of f)) (ble_hs_adv_set_fields f dst max_len)"
  unfolding set_types_split items_at_append ble_hs_adv_set_fields_def
proof (rule appends_start, intro appends_if appends_flatI appends_array16I appends_array32I m)
qed (simp_all only: items_at_simps item_of_types,
    auto simp: adv_consts ok [unfolded adv_fields_ok_def] ptr_ok_consts appends_done nat_mult_distrib mult.commute word_gt_0
      dest: adv_fields_okD [OF ok])

lemma ptr_okD:
  assumes "adv_fields_ok f" "svc_data_ok f"
  shows "uuids16 f = Some y \<Longrightarrow> 2 * unat (num_uuids16 f) \<le> length y \<and> 2 * unat (num_uuids16 f) \<le> 253"
    and "uuids32 f = Some y \<Longrightarrow> 4 * unat (num_uuids32 f) \<le> length y \<and> 4 * unat (num_uuids32 f) \<le> 253"
    and "uuids128 f = Some y \<Longrightarrow> 16 * unat (num_uuids128 f) \<le> length y \<and> 16 * unat (num_uuids128 f) \<le> 253"
    and "name f = Some y \<Longrightarrow> unat (name_len f) \<le> length y \<and> unat (name_len f) \<le> 253"
    and "device_class f = Some y \<Longrightarrow> 3 \<le> length y" and "slave_itvl_range f = Some y \<Longrightarrow> 4 \<le> length y"
    and "svc_data_uuid16 f = Some y \<Longrightarrow> unat (svc_data_uuid16_len f) \<le> length y \<and> unat (svc_data_uuid16_len f) \<le> 253 \<and> 2 \<le> unat (svc_data_uuid16_len f)"
    and "public_tgt_addr f = Some y \<Longrightarrow> 6 * unat (num_public_tgt_addrs f) \<le> length y \<and> 6 * unat (num_public_tgt_addrs f) \<le> 253"
    and "le_addr f = Some y \<Longrightarrow> 7 \<le> length y"
    and "svc_data_uuid32 f = Some y \<Longrightarrow> unat (svc_data_uuid32_len f) \<le> length y \<and> unat (svc_data_uuid32_len f) \<le> 253 \<and> 4 \<le> unat (svc_data_uuid32_len f)"
    and "svc_data_uuid128 f = Some y \<Longrightarrow> unat (svc_data_uuid128_len f) \<le> length y \<and> unat (svc_data_uuid128_len f) \<le> 253 \<and> 16 \<le> unat (svc_data_uuid128_len f)"
    and "uri f = Some y \<Longrightarrow> unat (uri_len f) \<le> length y \<and> unat (uri_len f) \<le> 253 \<and> 0 < unat (uri_len f)"
    and "mfg_data f = Some y \<Longrightarrow> unat (mfg_data_len f) \<le> length y \<and> unat (mfg_data_len f) \<le> 253 \<and> 0 < unat (mfg_data_len f)"
  using assms by (simp_all add: adv_fields_ok_def svc_data_ok_def ptr_ok_def word_le_nat_alt unat_gt_0)

lemma item_of_ok:
  assumes ok: "adv_fields_ok f" "svc_data_ok f" and t: "t \<in> set set_types" and d: "item_of f t = Some d"
  shows "item_ok t d"
proof -
  have nz: "0 < unat x" if "x \<noteq> 0" for x :: u8 using that by (simp add: unat_gt_0)
  show ?thesis
    using t d unfolding set_types_def list.set insert_iff empty_iff
    by (elim disjE FalseE; clarsimp simp only: item_of_types)
      (auto simp: item_ok_def bytes16_def dest!: ptr_okD [OF ok] nz split: if_splits)
qed

lemma item_ok_types: "item_ok t d \<Longrightarrow> t \<in> set all_types"
  by (auto simp: item_ok_def all_types_def set_types_def split: if_splits)

lemma byte_div:
  assumes "length d \<le> 253" "length d mod m = 0" "d \<noteq> []" "0 < m" "m \<le> 255"
  shows "(of_nat (length d) :: u8) mod of_nat m = 0" "m * unat ((of_nat (length d) :: u8) div of_nat m) = length d"
    "(of_nat (length d) :: u8) div of_nat m \<noteq> 0"
proof -
  show "(of_nat (length d) :: u8) mod of_nat m = 0" using assms by (simp add: word_arith_nat_mod)
  show eq: "m * unat ((of_nat (length d) :: u8) div of_nat m) = length d"
    using assms by (simp add: unat_div_distrib dvd_eq_mod_eq_0 dvd_mult_div_cancel)
  show "(of_nat (length d) :: u8) div of_nat m \<noteq> 0" using eq assms(3) by auto
qed

lemmas byte_divs = byte_div [where m = 2, simplified] byte_div [where m = 4, simplified] byte_div [where m = 6, simplified]
  byte_div [where m = 16, simplified]

text \<open>What a record changes is seen under its own type, and under the other type of its family, only.\<close>

lemma shows_item_frames:
  "u \<noteq> 0x01 \<Longrightarrow> shows_item (f\<lparr>flags := a, flags_is_present := b\<rparr>) u x = shows_item f u x"
  "u \<noteq> 0x02 \<Longrightarrow> u \<noteq> 0x03 \<Longrightarrow> shows_item (f\<lparr>uuids16 := p, num_uuids16 := a, uuids16_is_complete := b\<rparr>) u x = shows_item f u x"
  "u \<noteq> 0x04 \<Longrightarrow> u \<noteq> 0x05 \<Longrightarrow> shows_item (f\<lparr>uuids32 := p, num_uuids32 := a, uuids32_is_complete := b\<rparr>) u x = shows_item f u x"
  "u \<noteq> 0x06 \<Longrightarrow> u \<noteq> 0x07 \<Longrightarrow> shows_item (f\<lparr>uuids128 := p, num_uuids128 := a, uuids128_is_complete := b\<rparr>) u x = shows_item f u x"
  "u \<noteq> 0x08 \<Longrightarrow> u \<noteq> 0x09 \<Longrightarrow> shows_item (f\<lparr>name := p, name_len := a, name_is_complete := b\<rparr>) u x = shows_item f u x"
  "u \<noteq> 0x0a \<Longrightarrow> shows_item (f\<lparr>tx_pwr_lvl := a, tx_pwr_lvl_is_present := b\<rparr>) u x = shows_item f u x"
  "u \<noteq> 0x0d \<Longrightarrow> shows_item (f\<lparr>device_class := p\<rparr>) u x = shows_item f u x"
  "u \<noteq> 0x12 \<Longrightarrow> shows_item (f\<lparr>slave_itvl_range := p\<rparr>) u x = shows_item f u x"
  "u \<noteq> 0x16 \<Longrightarrow> shows_item (f\<lparr>svc_data_uuid16 := p\<rparr>) u x = shows_item f u x"
  "u \<noteq> 0x17 \<Longrightarrow> shows_item (f\<lparr>public_tgt_addr := p, num_public_tgt_addrs := a\<rparr>) u x = shows_item f u x"
  "u \<noteq> 0x19 \<Longrightarrow> shows_item (f\<lparr>appearance := w, appearance_is_present := b\<rparr>) u x = shows_item f u x"
  "u \<noteq> 0x1a \<Longrightarrow> shows_item (f\<lparr>adv_itvl := w, adv_itvl_is_present := b\<rparr>) u x = shows_item f u x"
  "u \<noteq> 0x1b \<Longrightarrow> shows_item (f\<lparr>le_addr := p\<rparr>) u x = shows_item f u x"
  "u \<noteq> 0x1c \<Longrightarrow> shows_item (f\<lparr>le_role := a, le_role_is_present := b\<rparr>) u x = shows_item f u x"
  "u \<noteq> 0x20 \<Longrightarrow> shows_item (f\<lparr>svc_data_uuid32 := p\<rparr>) u x = shows_item f u x"
  "u \<noteq> 0x21 \<Longrightarrow> shows_item (f\<lparr>svc_data_uuid128 := p\<rparr>) u x = shows_item f u x"
  "u \<noteq> 0x24 \<Longrightarrow> shows_item (f\<lparr>uri := p, uri_len := a\<rparr>) u x = shows_item f u x"
  "u \<noteq> 0xff \<Longrightarrow> shows_item (f\<lparr>mfg_data := p, mfg_data_len := a\<rparr>) u x = shows_item f u x"
  by (simp_all add: shows_item_def svc_data_def item_of_def cong: if_cong option.case_cong)

lemma family_cases: "family u = family t \<longleftrightarrow> u = t \<or> (t, u) \<in> siblings"
  unfolding siblings_def by (auto simp: family_def split: if_splits)

lemma shows_put:
  assumes "shows_items f v" "shows_item f' t (Some d)"
    and "\<And>u. (t, u) \<in> siblings \<Longrightarrow> shows_item f' u None"
    and "\<And>u x. u \<noteq> t \<Longrightarrow> (t, u) \<notin> siblings \<Longrightarrow> shows_item f' u x = shows_item f u x"
  shows "shows_items f' (put_item t d v)"
  using assms by (auto simp: shows_items_def put_item_def family_cases)

lemma bytes_back:
  "length d = 2 \<Longrightarrow> bytes16 (ucast (d ! 0) OR push_bit 8 (ucast (d ! Suc 0))) = d" "length d = Suc 0 \<Longrightarrow> [d ! 0] = d"
  by (auto simp: bytes16_def length_Suc_conv numeral_2_eq_2 simp del: drop_bit_or)

lemma byte_length_0: "length d \<le> 253 \<Longrightarrow> (of_nat (length d) :: u8) = 0 \<longleftrightarrow> d = []"
  using unat_byte [of "length d"] by (auto simp: unat_eq_zero [symmetric] simp del: unat_byte unat_of_nat)

lemma store_shows:
  assumes "item_ok t d" "shows_items f v"
  shows "\<exists>f'. store_field f t (d @ r) (of_nat (length d)) = Some (0, f') \<and> shows_items f' (put_item t d v)"
proof -
  have t: "t \<in> set all_types" using assms(1) by (rule item_ok_types)
  show ?thesis
    by (insert t assms, unfold all_types_def set_types_def list.set insert_iff empty_iff)
      (elim disjE FalseE; simp add: store_field_def adv_consts item_ok_def byte_divs get8_def le16toh_def word_less_nat_alt;
       erule shows_put; (simp add: shows_item_frames siblings_def)?;
       (simp add: shows_item_def svc_data_def item_of_types byte_divs nth_append bytes_back byte_length_0)?)
qed

lemma parse_one_item:
  assumes "item_ok t d" "shows_items f v" "length d + 2 \<le> unat n"
  shows "\<exists>f'. ble_hs_adv_parse_one_field f l (item_bytes (t, d) @ r) n = Some (0, of_nat (length d + 2), f') \<and> shows_items f' (put_item t d v)"
proof -
  obtain f' where f': "store_field f t (d @ r) (of_nat (length d)) = Some (0, f')" "shows_items f' (put_item t d v)"
    using store_shows [OF assms(1,2)] by blast
  have "\<not> n < 1" "\<not> n < of_nat (length d + 2)" using assms(3) byte_le [of n] by (simp_all add: word_less_nat_alt del: of_nat_add of_nat_Suc)
  then show ?thesis using f' by (simp add: ble_hs_adv_parse_one_field_def item_bytes_def get8_def)
qed

lemma parse_loop_items:
  assumes "\<forall>(t, d) \<in> set its. item_ok t d" "shows_items f v" "length (adv_bytes its) \<le> 255"
  shows "\<exists>g. parse_loop f l (adv_bytes its @ r) (of_nat (length (adv_bytes its))) = Some (0, g) \<and>
    shows_items g (fold (\<lambda>(t, d). put_item t d) its v)"
  using assms
proof (induction its arbitrary: f v l)
  case Nil
  then show ?case by (simp add: parse_loop.simps)
next
  case (Cons td its)
  obtain t d where td: "td = (t, d)" by (cases td)
  let ?n = "of_nat (length (adv_bytes (td # its))) :: u8"
  have le: "length d + 2 \<le> unat ?n" unfolding unat_byte [OF Cons.prems(3)] by (simp add: td)
  obtain f' where f': "ble_hs_adv_parse_one_field f l (item_bytes (t, d) @ adv_bytes its @ r) ?n = Some (0, of_nat (length d + 2), f')"
    "shows_items f' (put_item t d v)"
    using parse_one_item [of t d f v ?n l "adv_bytes its @ r"] Cons.prems le td by auto
  have "?n \<noteq> 0" using le by auto
  moreover have "?n - of_nat (length d + 2) = of_nat (length (adv_bytes its))" by (simp add: td)
  moreover have "unat (of_nat (length d + 2) :: u8) = length d + 2" by (rule unat_byte) (use Cons.prems(3) td in simp)
  ultimately show ?case
    using Cons.IH [OF _ f'(2)] Cons.prems td f'(1) by (subst parse_loop.simps) (simp add: word_gt_0 del: of_nat_add of_nat_Suc)
qed

lemma fold_put_item:
  assumes "distinct (map (family \<circ> fst) its)"
  shows "fold (\<lambda>(t, d). put_item t d) its v =
    (\<lambda>u. case map_of its u of Some d \<Rightarrow> Some d | None \<Rightarrow> if family u \<in> family ` fst ` set its then None else v u)"
  using assms
proof (induction its arbitrary: v)
  case (Cons td its)
  have "u \<notin> dom (map_of its)" if "family u \<notin> family ` fst ` set its" for u
    using that by (auto simp: dom_map_of_conv_image_fst)
  then show ?case using Cons by (cases td) (auto simp: fun_eq_iff put_item_def split: option.splits)
qed simp

lemma map_of_items_at: "map_of (items_at ts g) u = (if u \<in> set ts then g u else None)"
  by (induction ts) (auto simp: items_at_simps map_add_def split: option.splits)

lemma fst_items_at: "map fst (items_at ts g) = filter (\<lambda>t. g t \<noteq> None) ts"
  by (induction ts) (auto simp: items_at_simps split: option.splits)

lemma item_of_siblings: "(t, u) \<in> siblings \<Longrightarrow> item_of f t = None \<or> item_of f u = None"
  by (auto simp: siblings_def item_of_types)

lemma distinct_set_types: "distinct set_types"
  by (simp add: set_types_def)

lemma distinct_family_items: "distinct (map (family \<circ> fst) (items_at set_types (item_of f)))"
proof -
  let ?ts = "filter (\<lambda>t. item_of f t \<noteq> None) set_types"
  have "t = u" if "t \<in> set ?ts" "u \<in> set ?ts" "family t = family u" for t u
    using that item_of_siblings [of u t f] by (simp only: family_cases set_filter mem_Collect_eq) blast
  then have "inj_on family (set ?ts)" by (rule inj_onI)
  then have "distinct (map family ?ts)" by (simp add: distinct_map distinct_set_types)
  then show ?thesis by (simp only: fst_items_at flip: map_map)
qed

lemma items_at_ok: "adv_fields_ok f \<Longrightarrow> svc_data_ok f \<Longrightarrow> \<forall>(t, d) \<in> set (items_at set_types (item_of f)). item_ok t d"
  using item_of_ok [of f] by (auto simp: items_at_def split: option.splits)

lemma shows_zero: "shows_items adv_fields_zero (\<lambda>_. None)"
  by (simp add: shows_items_def shows_item_def svc_data_def item_of_def adv_fields_zero_def)

lemma parse_items:
  assumes "\<forall>(t, d) \<in> set its. item_ok t d" "distinct (map (family \<circ> fst) its)" "length (adv_bytes its) \<le> 255"
  shows "\<exists>g. ble_hs_adv_parse_fields (adv_bytes its @ r) (of_nat (length (adv_bytes its))) = Some (0, g) \<and> shows_items g (map_of its)"
proof -
  have "fold (\<lambda>(t, d). put_item t d) its (\<lambda>_. None) = map_of its"
    unfolding fold_put_item [OF assms(2)] by (auto simp: fun_eq_iff split: option.splits)
  then show ?thesis
    using parse_loop_items [OF assms(1) shows_zero assms(3), of 0 r] by (simp add: ble_hs_adv_parse_fields_def)
qed

text \<open>The parser stores no length of service data.\<close>

lemma store_field_svc_len: "store_field f ty data n = Some (rc, g) \<Longrightarrow> no_svc_len f \<Longrightarrow> no_svc_len g"
  by (auto simp: store_field_def no_svc_len_def Let_def bind_eq_Some_conv split: if_splits)

lemma parse_one_svc_len:
  "ble_hs_adv_parse_one_field f l src n = Some (rc, l', g) \<Longrightarrow> no_svc_len f \<Longrightarrow> no_svc_len g"
  by (auto simp: ble_hs_adv_parse_one_field_def Let_def bind_eq_Some_conv split: if_splits intro: store_field_svc_len)

lemma parse_loop_svc_len: "parse_loop f l src n = Some r \<Longrightarrow> no_svc_len f \<longrightarrow> no_svc_len (snd r)"
proof (erule parse_loop.raw_induct [where P = "\<lambda>f l src n r. no_svc_len f \<longrightarrow> no_svc_len (snd r)", rotated], rule impI)
  fix rec f l src n r
  assume ih: "\<And>f l src n r. rec f l src n = Some r \<Longrightarrow> no_svc_len f \<longrightarrow> no_svc_len (snd r)"
    and r: "(if n > 0 then do { (rc, l', g) \<leftarrow> ble_hs_adv_parse_one_field f l src n;
        if rc \<noteq> 0 then Some (rc, g) else rec g l' (drop (unat l') src) (n - l') } else Some (0, f)) = Some r"
    and f: "no_svc_len f"
  show "no_svc_len (snd r)"
  proof (cases "n > 0")
    case True
    then obtain rc l' g where o: "ble_hs_adv_parse_one_field f l src n = Some (rc, l', g)"
        "(if rc \<noteq> 0 then Some (rc, g) else rec g l' (drop (unat l') src) (n - l')) = Some r"
      using r by (auto simp: bind_eq_Some_conv)
    then show ?thesis using ih parse_one_svc_len [OF o(1) f] by (auto split: if_splits)
  next
    case False
    then show ?thesis using r f by auto
  qed
qed

lemma parse_no_svc_len:
  "ble_hs_adv_parse_fields src n = Some (rc, g) \<Longrightarrow>
   svc_data_uuid16_len g = 0 \<and> svc_data_uuid32_len g = 0 \<and> svc_data_uuid128_len g = 0"
  using parse_loop_svc_len [of adv_fields_zero 0 src n "(rc, g)"] by (simp add: ble_hs_adv_parse_fields_def adv_fields_zero_def no_svc_len_def)

lemma set_byte:
  assumes "length pre + length post = 31" "length pre \<le> 28"
  shows "ble_hs_adv_set_flat t 1 (Some [x]) (pre @ post) (of_nat (length pre)) 31 =
    Some (0, pre @ item_bytes (t, [x]) @ drop 3 post, of_nat (length pre + 3))"
  using set_flat [of pre 1 "[x]" 31 post t] assms by (simp add: numeral_3_eq_3)

lemma gap_adv_data_eq:
  assumes op: "gs_op s \<noteq> BLE_GAP_OP_NULL"
    and mode: "gs_disc_mode s \<in> {BLE_GAP_DISC_MODE_NON, BLE_GAP_DISC_MODE_LTD, BLE_GAP_DISC_MODE_GEN}"
    and s: "gs_adv_data s = pre @ post" "gs_adv_data_len s = of_nat (length pre)" "length (pre @ post) = 31" "length pre \<le> 25"
  shows "ble_gap_adv_data s = Some (of_nat (length pre + 6),
    s\<lparr>gs_adv_data := pre @ adv_bytes [(0x01, [gs_disc_mode s OR 0x04]), (0x0a, [gs_tx_pwr_lvl s])] @ drop 6 post\<rparr>)"
proof -
  have m: "gs_disc_mode s = 0 \<or> gs_disc_mode s = 1 \<or> gs_disc_mode s = 2"
    using mode by (auto simp: BLE_GAP_DISC_MODE_NON_def BLE_GAP_DISC_MODE_LTD_def BLE_GAP_DISC_MODE_GEN_def)
  have f: "ble_hs_adv_set_flat 1 1 (Some [x]) (pre @ post) (of_nat (length pre)) 31 =
      Some (0, pre @ item_bytes (1, [x]) @ drop 3 post, of_nat (length pre + 3))" for x
    using s(3,4) by (intro set_byte) auto
  have p: "ble_hs_adv_set_flat 10 1 (Some [y]) (pre @ item_bytes (1, [x]) @ drop 3 post) (of_nat (length pre + 3)) 31 =
      Some (0, pre @ item_bytes (1, [x]) @ item_bytes (10, [y]) @ drop 6 post, of_nat (length pre + 6))" for x y
    using set_byte [of "pre @ item_bytes (1, [x])" "drop 3 post" 10 y] s(3,4) by (simp add: add.commute)
  show ?thesis
    using m by (elim disjE) (simp_all add: ble_gap_adv_data_def op s f p [simplified] BLE_GAP_DISC_MODE_NON_def BLE_GAP_DISC_MODE_LTD_def
      BLE_GAP_DISC_MODE_GEN_def BLE_HS_ADV_F_DISC_LTD_def BLE_HS_ADV_F_DISC_GEN_def BLE_HS_ADV_F_BREDR_UNSUP_def
      BLE_HCI_MAX_ADV_DATA_LEN_def adv_consts)
qed

lemma in_packet_zero: "in_packet adv_fields_zero"
  by (simp add: in_packet_def adv_fields_zero_def has_bytes_def)

lemma has_bytes_Some: "has_bytes n (Some d) \<longleftrightarrow> n \<le> length d"
  by (simp add: has_bytes_def)

lemma store_safe:
  assumes "in_packet f" "unat n \<le> length data"
  shows "\<exists>rc f'. store_field f t data n = Some (rc, f') \<and> rc \<in> {0, BLE_HS_EBADDATA} \<and> in_packet f'"
proof (cases "t \<in> set all_types")
  case True
  have k: "m * unat (n div of_nat m) \<le> length data" if "0 < m" "m \<le> 255" for m
    using assms(2) that by (simp add: unat_div_distrib) (meson le_trans times_div_less_eq_dividend)
  have le: "m \<le> length data" if "\<not> n < of_nat m" "m \<le> 255" for m
    using assms(2) that by (simp add: word_less_nat_alt)
  have "n \<noteq> of_nat m \<or> m \<le> length data" if "m \<le> 255" for m using assms(2) that by auto
  note eqs = this [of 1, simplified] this [of 2, simplified] this [of 3, simplified] this [of 4, simplified] this [of 7, simplified]
    k [of 2, simplified] k [of 4, simplified] k [of 6, simplified] k [of 16, simplified] le [of 2, simplified] le [of 4, simplified] le [of 16, simplified]
  show ?thesis
    by (insert True assms, unfold all_types_def set_types_def list.set insert_iff empty_iff)
      (elim disjE FalseE; insert eqs; simp add: store_field_def adv_consts in_packet_def has_bytes_Some get8_def le16toh_def; auto)
next
  case False
  then show ?thesis using assms(1) by (simp add: store_field_def adv_consts all_types_def set_types_def)
qed

lemma parse_loop_safe:
  assumes "in_packet f" "length src = unat n" "lengths_ok src"
  shows "\<exists>rc g. parse_loop f l src n = Some (rc, g) \<and> rc \<in> {0, BLE_HS_EMSGSIZE, BLE_HS_EBADDATA} \<and> in_packet g"
  using assms
proof (induction src arbitrary: f l n rule: lengths_ok.induct)
  case 1
  then show ?case by (subst parse_loop.simps) (simp add: unat_eq_zero)
next
  case (2 b src)
  let ?t = "b + 1"
  have h: "0 < unat b" "unat b < 255" "lengths_ok (drop (unat b) src)"
    using "2.prems"(3) byte_le [of b] by (simp_all add: word_unat_eq_iff)
  have ut: "unat ?t = unat b + 1" using h(2) by (simp add: unat_word_ariths)
  have n: "n > 0" using "2.prems"(2) by (auto simp: word_gt_0)
  show ?case
  proof (cases "n < ?t")
    case True
    then show ?thesis using n "2.prems"(1)
      by (subst parse_loop.simps) (auto simp: ble_hs_adv_parse_one_field_def get8_def BLE_HS_EMSGSIZE_def)
  next
    case le: False
    then have len: "unat b \<le> length src" using ut "2.prems"(2) by (simp add: word_less_nat_alt)
    have d: "unat (?t - 2) \<le> length (drop 2 (b # src))" using ut len h(1) by (auto simp: unat_sub word_le_nat_alt)
    obtain rc f' where s: "store_field f (src ! 0) (drop 2 (b # src)) (?t - 2) = Some (rc, f')" "rc \<in> {0, BLE_HS_EBADDATA}" "in_packet f'"
      using store_safe [OF "2.prems"(1) d] by blast
    have "length (drop (unat b) src) = unat (n - ?t)" using le "2.prems"(2) ut by (simp add: unat_sub not_less)
    moreover have "src \<noteq> []" using len h(1) by auto
    then have "parse_loop f l (b # src) n =
        (if rc \<noteq> 0 then Some (rc, f') else parse_loop f' ?t (drop (unat b) src) (n - ?t))"
      using n le len s(1) h(1) ut by (subst parse_loop.simps) (simp add: ble_hs_adv_parse_one_field_def get8_def word_less_nat_alt)
    ultimately show ?thesis using "2.IH" [OF s(3) _ h(3)] s(2,3) "2.prems"(3) by auto
  qed
qed

lemma parse_loop_hangs:
  assumes "0 < n"
  shows "parse_loop f l (255 # 0 # r) n = None"
proof (cases "parse_loop f l (255 # 0 # r) n")
  case (Some res)
  have z: "(256 :: u8) = 0" by simp
  have "\<not> (255 # 0 # r = 255 # 0 # r \<and> n = n)"
    by (rule parse_loop.raw_induct [OF _ Some, of "\<lambda>f l src m res. \<not> (src = 255 # 0 # r \<and> m = n)"])
      (use assms in \<open>auto simp: z ble_hs_adv_parse_one_field_def get8_def store_field_def adv_consts word_less_nat_alt split: option.splits\<close>, blast)
  then show ?thesis by simp
qed

text \<open>The fields of the application together with the two the advertiser adds.\<close>

lemma set_types_neq: "t \<in> set set_types \<Longrightarrow> family t \<noteq> 0x01 \<and> family t \<noteq> 0x0a \<and> t \<noteq> 0x01 \<and> t \<noteq> 0x0a"
  by (auto simp: set_types_def family_def)

lemma distinct_family_all: "distinct (map (family \<circ> fst) (items_at set_types (item_of f) @ [(0x01, x), (0x0a, y)]))"
proof -
  have "fst td \<in> set set_types" if "td \<in> set (items_at set_types (item_of f))" for td
    using that by (auto simp: items_at_def split: option.splits)
  then have "family (fst td) \<noteq> 0x01 \<and> family (fst td) \<noteq> 0x0a" if "td \<in> set (items_at set_types (item_of f))" for td
    using set_types_neq that by blast
  moreover have "family 0x01 = 0x01" "family 0x0a = 0x0a" by (simp_all add: family_def)
  ultimately show ?thesis using distinct_family_items [of f] by (auto simp del: One_nat_def)
qed

lemma shows_all:
  "shows_items g (map_of (items_at set_types (item_of f) @ [(0x01, x), (0x0a, y)])) = shows_items g ((item_of f)(0x01 \<mapsto> x, 0x0a \<mapsto> y))"
proof -
  have "map_of (items_at set_types (item_of f) @ [(0x01, x), (0x0a, y)]) u = ((item_of f)(0x01 \<mapsto> x, 0x0a \<mapsto> y)) u"
    if "u \<in> set all_types" for u
    using that set_types_neq [of u] set_types_neq [of "0x01"] set_types_neq [of "0x0a"]
    by (auto simp: all_types_def map_add_def map_of_items_at split: option.splits)
  then show ?thesis by (simp add: shows_items_def del: map_of_append)
qed

subsection \<open>Theorems\<close>

text \<open>
  C38: What \<^verbatim>\<open>ble_hs_adv_set_fields\<close> writes. For every structure whose pointers are as long as it says, in which no field
  has more than 253 bytes and the service data, the URI and the manufacturer data, if given, are not empty, the buffer
  starts with one record per field that is present, in the order of the types, each a length byte, the type and the data,
  and the rest of the buffer is unchanged; when the records do not fit the limit the answer is \<^verbatim>\<open>BLE_HS_EMSGSIZE\<close> and
  nothing is written outside the buffer.
\<close>

theorem adv_set_fields_exact:
  assumes "adv_fields_ok f" "unat max_len \<le> length dst"
  shows "let b = adv_bytes (items_at set_types (item_of f)) in
    if length b \<le> unat max_len
    then ble_hs_adv_set_fields f dst max_len = Some (0, b @ drop (length b) dst, of_nat (length b))
    else \<exists>d n. ble_hs_adv_set_fields f dst max_len = Some (BLE_HS_EMSGSIZE, d, n) \<and> length d = length dst \<and> n \<le> max_len"
  using set_fields_written [OF assms] by (auto simp: written_def Let_def word_le_nat_alt split: if_splits option.splits)

text \<open>
  C39: An advertisement is received as it was sent, but for the lengths of service data. For every structure whose
  pointers are as long as it says, whose URI and manufacturer data, if given, are not empty and whose service data, if given,
  starts with its UUID, when the application's fields take at most 25 bytes,
  \<^verbatim>\<open>ble_gap_adv_set_fields\<close> accepts them, the assertions of \<^verbatim>\<open>ble_gap_adv_data_tx\<close> hold in every discoverable mode while
  a GAP operation is in progress, the data it gives to the controller is at most 31 bytes long, and
  \<^verbatim>\<open>ble_hs_adv_parse_fields\<close> reads from it the application's fields, the flags of the mode and the transmit power, and
  no others. Of service data it stores where the data starts, with the right bytes there, but never the length: all
  three lengths are 0 in what it returns.
\<close>

theorem advertisement_received:
  assumes "adv_fields_ok f" "svc_data_ok f" "length (gs_adv_data s) = 31" and op: "gs_op s \<noteq> BLE_GAP_OP_NULL"
    and "gs_disc_mode s \<in> {BLE_GAP_DISC_MODE_NON, BLE_GAP_DISC_MODE_LTD, BLE_GAP_DISC_MODE_GEN}"
    and "length (adv_bytes (items_at set_types (item_of f))) \<le> 25"
  shows "\<exists>s1 n s2 g. ble_gap_adv_set_fields f s = Some (0, s1) \<and> ble_gap_adv_data s1 = Some (n, s2) \<and> n \<le> 31 \<and>
    ble_hs_adv_parse_fields (gs_adv_data s2) n = Some (0, g) \<and>
    shows_items g ((item_of f)(0x01 \<mapsto> [gs_disc_mode s OR BLE_HS_ADV_F_BREDR_UNSUP], 0x0a \<mapsto> [gs_tx_pwr_lvl s])) \<and>
    svc_data_uuid16_len g = 0 \<and> svc_data_uuid32_len g = 0 \<and> svc_data_uuid128_len g = 0"
proof -
  let ?its = "items_at set_types (item_of f)" and ?own = "[(0x01, [gs_disc_mode s OR 0x04]), (0x0a, [gs_tx_pwr_lvl s])]"
  let ?b = "adv_bytes ?its" and ?all = "?its @ ?own"
  let ?s1 = "s\<lparr>gs_adv_data := ?b @ drop (length ?b) (gs_adv_data s), gs_adv_data_len := of_nat (length ?b)\<rparr>"
  let ?s2 = "?s1\<lparr>gs_adv_data := ?b @ adv_bytes ?own @ drop 6 (drop (length ?b) (gs_adv_data s))\<rparr>"
  have limit: "unat BLE_GAP_ADV_DATA_LIMIT = 25" by (simp add: BLE_GAP_ADV_DATA_LIMIT_def BLE_HCI_MAX_ADV_DATA_LEN_def)
  have 1: "ble_gap_adv_set_fields f s = Some (0, ?s1)"
    using set_fields_written [OF assms(1), of BLE_GAP_ADV_DATA_LIMIT "gs_adv_data s"] assms(3,6) limit
    by (simp add: ble_gap_adv_set_fields_def written_def Let_def)
  have 2: "ble_gap_adv_data ?s1 = Some (of_nat (length ?b + 6), ?s2)"
    using gap_adv_data_eq [of ?s1 ?b "drop (length ?b) (gs_adv_data s)"] assms(3-6) by simp
  have len: "length (adv_bytes ?all) = length ?b + 6" by simp
  have mem: "gs_adv_data ?s2 = adv_bytes ?all @ drop 6 (drop (length ?b) (gs_adv_data s))" by simp
  have ok: "\<forall>(t, d) \<in> set ?all. item_ok t d" using items_at_ok [OF assms(1,2)] by (auto simp: item_ok_def)
  have "length (adv_bytes ?all) \<le> 255" unfolding len using assms(6) by simp
  from parse_items [OF ok distinct_family_all this] obtain g
    where "ble_hs_adv_parse_fields (gs_adv_data ?s2) (of_nat (length ?b + 6)) = Some (0, g)" "shows_items g (map_of ?all)"
    unfolding mem len by blast
  moreover have "shows_items g (map_of ?all) = shows_items g ((item_of f)(0x01 \<mapsto> [gs_disc_mode s OR 0x04], 0x0a \<mapsto> [gs_tx_pwr_lvl s]))"
    by (rule shows_all)
  moreover have "(of_nat (length ?b + 6) :: u8) \<le> 31" using assms(6) by (simp add: word_le_nat_alt unat_of_nat del: of_nat_add)
  ultimately show ?thesis using 1 2 parse_no_svc_len by (fastforce simp: BLE_HS_ADV_F_BREDR_UNSUP_def)
qed

text \<open>
  C40: Reading a packet from the air is safe when no record in it has a length byte of 0 or 255. The parser returns, with
  success or one of two errors, reads nothing outside the packet, and every pointer it stores has as many bytes of the
  packet behind it as the structure says.
\<close>

theorem adv_parse_safe:
  assumes "length src = unat n" "lengths_ok src"
  shows "\<exists>rc g. ble_hs_adv_parse_fields src n = Some (rc, g) \<and> rc \<in> {0, BLE_HS_EMSGSIZE, BLE_HS_EBADDATA} \<and> in_packet g"
  unfolding ble_hs_adv_parse_fields_def by (rule parse_loop_safe [OF in_packet_zero assms])

text \<open>A length byte of 255 makes the loop run forever; a length byte of 0 at the end makes it read behind the packet.\<close>

lemma ble_hs_adv_parse_fields_hangs: "0 < n \<Longrightarrow> ble_hs_adv_parse_fields (255 # 0 # r) n = None"
  by (simp add: ble_hs_adv_parse_fields_def parse_loop_hangs)

lemma ble_hs_adv_parse_fields_overread: "ble_hs_adv_parse_fields [0] 1 = None"
  by (simp add: ble_hs_adv_parse_fields_def parse_loop.simps ble_hs_adv_parse_one_field_def get8_def word_less_nat_alt)

text \<open>The parser keeps the service data and not its length.\<close>

lemma ble_hs_adv_parse_fields_no_svc_len:
  "map_option (\<lambda>(rc, g). (rc, svc_data_uuid16 g, svc_data_uuid16_len g)) (ble_hs_adv_parse_fields [4, 0x16, 0x0f, 0x18, 0x64] 5) =
     Some (0, Some [0x0f, 0x18, 0x64], 0)"
  by code_simp

text \<open>Sixteen UUIDs of 128 bits are 256 bytes, which the check of the room takes for 0: the copy leaves the buffer.\<close>

lemma ble_hs_adv_set_flat_overflow: "length dst = 31 \<Longrightarrow> ble_hs_adv_set_flat t (16 * 16) (Some (replicate 256 0)) dst 0 31 = None"
  by (simp add: ble_hs_adv_set_flat_def ble_hs_adv_set_hdr_def put8_def copy_into_def)

lemma demo_fields_ok: "adv_fields_ok demo_fields" "svc_data_ok demo_fields" "length (adv_bytes (items_at set_types (item_of demo_fields))) = 19"
  by (simp add: demo_fields_def adv_fields_zero_def adv_fields_ok_def ptr_ok_def)
    (simp add: demo_fields_def adv_fields_zero_def svc_data_ok_def,
     simp add: demo_fields_def adv_fields_zero_def set_types_def items_at_simps item_of_types)

theorem adv_set_fields_exact_witness:
  "ble_hs_adv_set_fields demo_fields (replicate 31 0) 25 =
     Some (0, adv_bytes (items_at set_types (item_of demo_fields)) @ replicate 12 0, 19)"
  using adv_set_fields_exact [of demo_fields 25 "replicate 31 0"] demo_fields_ok by (simp add: Let_def)

theorem advertisement_received_witness:
  "\<exists>s1 n s2 g. ble_gap_adv_set_fields demo_fields \<lparr>gs_op = 2, gs_disc_mode = 2, gs_tx_pwr_lvl = 7, gs_adv_data_len = 0, gs_adv_data = replicate 31 0\<rparr> = Some (0, s1) \<and>
     ble_gap_adv_data s1 = Some (n, s2) \<and> ble_hs_adv_parse_fields (gs_adv_data s2) n = Some (0, g) \<and>
     shows_items g ((item_of demo_fields)(0x01 \<mapsto> [0x06], 0x0a \<mapsto> [7]))"
  using advertisement_received [of demo_fields "\<lparr>gs_op = 2, gs_disc_mode = 2, gs_tx_pwr_lvl = 7, gs_adv_data_len = 0, gs_adv_data = replicate 31 0\<rparr>"]
    demo_fields_ok by (auto simp: BLE_GAP_OP_NULL_def BLE_GAP_DISC_MODE_GEN_def BLE_HS_ADV_F_BREDR_UNSUP_def)

theorem adv_parse_safe_witness:
  "\<exists>rc g. ble_hs_adv_parse_fields [2, 0x01, 6, 3, 0x09, 0x6d, 0x79, 9, 0xff] 9 = Some (rc, g) \<and> in_packet g"
  using adv_parse_safe [of "[2, 0x01, 6, 3, 0x09, 0x6d, 0x79, 9, 0xff]" 9] by auto

end
