(* ===== verification/Spec2Isabelle.thy ===== *)
theory Spec2Isabelle
  imports Os_Task Os_Mbuf_Edit Os_Queues Util_Base64 Util_Cbmem Boot_Native Os_Heap Libc_Sort Ble_Hs_Adv
begin

text \<open>
  \<^bold>\<open>A verification of the Apache Mynewt operating system\<close>

  Mynewt is an operating system for small processors, written in C. This development models the parts of it that are
  algorithms on data in memory, from the kernel to the formats of Bluetooth packets, and proves what they promise. All
  file names are relative to \<^verbatim>\<open>src/\<close>.

  \<^bold>\<open>The program and how its parts work together\<close>

  The kernel, \<^verbatim>\<open>libs/os\<close>, schedules tasks by priority. A task that waits for a semaphore, a mutex, an event or a time is
  taken off the list of ready tasks; a release, an event or the tick interrupt puts it back. Callouts are timers that post
  events. Memory pools hand out blocks of one size; mbufs are packets made of chained blocks; packet queues pair a list of
  mbufs with an event. Above the kernel, \<^verbatim>\<open>libs/util\<close> has base64 and a circular buffer protected by a mutex, and
  \<^verbatim>\<open>libs/os/src/os_heap.c\<close> puts a mutex around the allocator of the C library \<^verbatim>\<open>libs/baselibc\<close>.

  Flash is reached through drivers, \<^verbatim>\<open>hw/hal/src/hal_flash.c\<close>, and through named areas of it, \<^verbatim>\<open>hw/hal/src/flash_map.c\<close>;
  files through an interface to the registered file system, \<^verbatim>\<open>fs/fs\<close>. The boot loader, \<^verbatim>\<open>libs/bootutil\<close>, uses both to
  choose an image, to exchange two images in flash and to record how far it has come.

  The Bluetooth host, \<^verbatim>\<open>net/nimble/host\<close>, writes and reads the commands of the attribute protocol and the records of
  advertisements.

  \<^bold>\<open>How the code is modelled\<close>

  \<^item> Structures are records or, where a part has many objects of a kind, functions from object numbers to records. A
    pointer is an object number, an offset into a buffer or a 32-bit address, and \<^verbatim>\<open>NULL\<close> is \<open>None\<close> or 0. Integers are
    words of their width where the code can overflow them.
  \<^item> A function of the source is a function from its arguments and the state to its result and the new state. The type
    \<open>'a option\<close> of a result has \<open>None\<close> for a failed assertion, an access outside an object and a loop that does not
    end. Error codes are values inside \<open>Some\<close>. A theorem that a call has the form \<open>Some r\<close> therefore says that it
    returns, without a failed assertion and without a stray access.
  \<^item> Lists linked through their elements are lists in the kernel (macros of \<^verbatim>\<open>queue.h\<close>) and chains of pointers in
    memory where the code of the part is about the chain: memory pools, mbufs and the heap.
  \<^item> A kernel call that blocks ends where the scheduler switches to another task. What the call does after the task has
    been switched to again is an operation of its own, with the suffix \<open>_resume\<close>.
  \<^item> Interrupts are disabled in the kernel's critical sections, so that each kernel call and each tick is one step.

  \<^bold>\<open>Theories\<close>

  \<^item> \<open>Mynewt_Prelude\<close>: words, \<^verbatim>\<open>queue.h\<close>, tick comparison, byte buffers; the locales \<open>prio_list\<close> (a list kept in priority
    order) and \<open>fifo\<close> (a queue that delivers in order) with the lemmas their users share.
  \<^item> \<open>Os_Kernel\<close>: the structures of \<^verbatim>\<open>libs/os/include/os\<close> and the record \<open>os_state\<close> of the kernel's memory. \<open>Os_Sched\<close>:
    \<^verbatim>\<open>os_sched.c\<close> and \<^verbatim>\<open>os_time.c\<close>, with the invariant that ties the lists to the task states. \<open>Os_Wait\<close>: what the blocking
    services share. \<open>Os_Sem\<close>, \<open>Os_Mutex\<close>, \<open>Os_Eventq\<close>, \<open>Os_Callout\<close>: \<^verbatim>\<open>os_sem.c\<close>, \<^verbatim>\<open>os_mutex.c\<close>, \<^verbatim>\<open>os_eventq.c\<close>,
    \<^verbatim>\<open>os_callout.c\<close> and the tick interrupt \<^verbatim>\<open>timer_handler\<close>. Each has the effect of every operation on every branch, that
    the operation keeps the invariant, and what it means to the tasks: order of wake-ups, priority inheritance, times.
    \<open>sem_contract\<close> is the contract of a counting semaphore.
  \<^item> \<open>Os_System\<close>: the kernel as a transition system (\<open>reaches\<close>) of calls by the running task, resumed calls and ticks, with
    mutual exclusion, absence of failures and the priority rule for all reachable states. All calls on semaphores, mutexes,
    event queues and callouts are steps, initialisation and deletion included; what the callers must respect is the
    predicate \<open>allowed\<close>, listed at the head of that theory. Tasks are created before the start. \<open>Os_Task\<close>: \<^verbatim>\<open>os_task.c\<close>,
    \<^verbatim>\<open>os_sanity.c\<close>, \<^verbatim>\<open>os.c\<close> and the start-up that establishes the invariant.
  \<^item> \<open>Os_Mempool\<close>, \<open>Os_Mbuf\<close>, \<open>Os_Mbuf_Edit\<close>, \<open>Os_Queues\<close>: \<^verbatim>\<open>os_mempool.c\<close>, \<^verbatim>\<open>os_mbuf.c\<close>, \<^verbatim>\<open>libs/util/src/tpq.c\<close>. A pool
    implements a list of free blocks (\<open>block_pool\<close>); an operation on a chain of mbufs is related to an operation on the
    bytes it holds; the queues meet \<open>fifo\<close>.
  \<^item> \<open>Util_Base64\<close>, \<open>Util_Cbmem\<close>: \<^verbatim>\<open>libs/util/src/base64.c\<close> and \<^verbatim>\<open>cbmem.c\<close>, a round trip and the entries that are kept.
  \<^item> \<open>Libc_Malloc\<close>: \<^verbatim>\<open>malloc.c\<close>, \<^verbatim>\<open>calloc.c\<close>, \<^verbatim>\<open>realloc.c\<close> of \<^verbatim>\<open>libs/baselibc/src\<close> with \<^verbatim>\<open>_sbrk\<close> of a board; the heap after
    any history of requests below a bound (\<open>heap_run\<close>). \<open>Os_Heap\<close>: the same under the kernel's mutex. \<open>Libc_Mem\<close>, \<open>Libc_Sort\<close>: memory areas, search
    of bytes, \<^verbatim>\<open>qsort\<close>, \<^verbatim>\<open>bsearch\<close>; what a comparison function must do is the locale \<open>comparator\<close>.
  \<^item> \<open>Hal_Flash\<close>, \<open>Hal_Flash_Map\<close>: \<^verbatim>\<open>hal_flash.c\<close> over drivers, the driver of the native processor, \<^verbatim>\<open>flash_map.c\<close>. The
    promises of a flash are the locales \<open>flash_bank\<close> (also when operations fail), \<open>reliable_flash\<close> and \<open>contiguous_flash\<close>,
    interpreted for the native driver and for one that fails.
  \<^item> \<open>Fs_Interface\<close>, \<open>Boot_Loader\<close>, \<open>Boot_Swap\<close>, \<open>Boot_Native\<close>: \<^verbatim>\<open>fs/fs/src\<close>, \<^verbatim>\<open>libs/bootutil/src\<close>, \<^verbatim>\<open>project/boot\<close> and the
    flash map of the native board: from the request to the image that is booted, with and without failing flash and
    files. The laws of a file system (\<open>fs_laws\<close>) allow every operation to report an error; that the operations on the files
    of the boot loader succeed is the separate condition \<open>boot_fs_works\<close> on a state. The state of the file system is kept
    apart from the bytes of the image areas: its own areas are none of them.
  \<^item> \<open>Ble_Util\<close>, \<open>Ble_Att_Cmd\<close>, \<open>Ble_Hs_Adv\<close>: \<^verbatim>\<open>net/nimble/src/util.c\<close>, \<^verbatim>\<open>ble_att_cmd.c\<close>, \<^verbatim>\<open>ble_hs_adv.c\<close> and the advertising
    data of \<^verbatim>\<open>ble_gap.c\<close>. The contract of a pair of functions that write and read a command is the locale \<open>att_codec\<close>,
    interpreted for all 23 commands.

  \<^bold>\<open>Theorems\<close>

  \<^item> Kernel (C1 to C14): mutual exclusion, absence of failed assertions and the priority rule in every reachable state; what
    a tick, a callout, a delay, a release, an event and a pend do exactly; start-up; the watchdog.
  \<^item> Memory and packets (C15 to C24): a pool hands out as many distinct blocks as it was made for and refuses other
    addresses; append, copy, compare, trim, prepend and pull up change the bytes of a chain as they should and lose no block;
    queues deliver packets in order.
  \<^item> Utilities (C25, C26): decoding inverts encoding; the circular buffer keeps the newest entries.
  \<^item> Flash and boot (C27 to C32): an update of the flash is read back and nothing else changes; areas are isolated,
    for ranges whose end does not wrap, and are translated exactly; a test image is swapped in and booted, when its parts,
    counted without the header, hold the header too; no part of an image is lost by failing flash or files, though the
    record of where it is can be lost by a failing write of the status file, and a part is lost by a swap that finds a part
    in the scratch area.
  \<^item> C library (C33 to C36): the shape of the heap after any history of requests below \<open>2^31 - 64\<close> bytes,
    termination of the allocator, reuse of freed memory; sorting and searching.
  \<^item> Bluetooth (C37 to C40): every command is read back as written; what is written for an advertisement, that it is
    received as sent but for the lengths of service data, which the parser does not store, and that reading one is safe.

  Lemmas that show defects stand next to the theorems of their theory, among them \<open>os_sem_delete_inverts\<close>,
  \<open>os_sem_release_wraps\<close>, \<open>nested_release_keeps_boost\<close>, \<open>os_mbuf_adj_overflow\<close>, \<open>cbmem_append_no_payload\<close>,
  \<open>flash_area_write_wraps\<close>, \<open>flash_area_to_nffs_desc_overflows\<close>, \<open>boot_write_status_full\<close>, \<open>malloc_hangs\<close>, \<open>malloc_oversized\<close>,
  \<open>calloc_wraps\<close>, \<open>le64toh_wrong\<close>, \<open>ble_hs_adv_parse_fields_hangs\<close> and \<open>ble_hs_adv_set_flat_overflow\<close>. Theorems exclude
  these cases by a hypothesis that their text states.

  \<^bold>\<open>Loops and bounds\<close>

  No definition has fuel. A loop over a list or a counted loop is structural recursion, or recursion with a measure
  (\<open>decode_loop\<close>, \<open>sort_pass\<close>, \<open>bsearch\<close>, \<open>memmem_loop\<close>, \<open>strlen_loop\<close>). A loop that may run forever is a partial function
  whose value is then \<open>None\<close>: the walks over chains of mbufs and of the heap, the loops of the boot loader, the outer
  loop of \<^verbatim>\<open>qsort\<close>, the loop of the advertisement parser, the deletion of a semaphore and of a mutex, and others; that they
  end is part of the theorems, which give \<open>Some\<close> results. Where a theorem needs a bound, it is one of its hypotheses with
  the reason in the code: timeouts below \<open>2^31\<close> ticks (the signed comparison of ticks), chains of fewer than
  \<open>2^31\<close> bytes (an \<^verbatim>\<open>int\<close> counts them), requests below \<open>2^31 - 64\<close> bytes (\<^verbatim>\<open>_sbrk\<close> takes an \<^verbatim>\<open>int\<close>), arrays below
  \<open>2^32\<close> bytes (\<^verbatim>\<open>size_t\<close>), records of at most 253 bytes of data (their length byte), offsets and lengths in a flash area whose sum is below \<open>2^32\<close> (the
  checks add them in 32 bits). The 16-bit token counter of a semaphore is counted modulo \<open>2^16\<close>.

  \<^bold>\<open>Parameters\<close>

  Code that applications, boards or the host provide is an argument: the stack frame of a new task, the check functions of
  the watchdog (which leave the kernel's memory alone), the callback of a walk, the flash drivers and their states, the
  file system behind \<^verbatim>\<open>struct fs_ops\<close>, the start of that file system and the result of \<^verbatim>\<open>malloc\<close> in the boot loader,
  the locking hooks of the allocator, comparison functions. What the code relies on is stated as a hypothesis (\<open>fs_laws\<close>,
  \<open>boot_fs_works\<close>, \<open>flash_bank\<close>, \<open>is_comparison\<close>) and shown to hold for an instance.

  \<^bold>\<open>Not modelled\<close>

  \<^item> The context switch and start-up code in assembler, drivers, board support and vendor headers: accesses to registers and
    host devices, with no behaviour in the source that a model could be compared with. The effect of a context switch on
    the kernel's state is modelled, as are the native flash and its board.
  \<^item> The controller of \<^verbatim>\<open>net/nimble\<close>, and the procedures of its host: they react to a radio or to a controller by callbacks
    and timers; the formats they exchange are modelled for the attribute protocol and for advertisements. Of
    \<^verbatim>\<open>ble_gap_adv_data_tx\<close> the part before the command to the controller is modelled.
  \<^item> The file system \<^verbatim>\<open>fs/nffs\<close>: the boot loader is proved against the interface, for any file system that keeps its laws.
    That \<^verbatim>\<open>nffs_detect\<close> finds a file system with the boot loader's files, and that it has room for them, is a
    hypothesis where it is needed; without a file system, or with a full one, the operations report errors.
  \<^item> Shell, console, management protocol, JSON, configuration, log and statistics: text input and output and registries of
    callbacks; formatted input and output, the conversion of numbers and most string functions of \<^verbatim>\<open>libs/baselibc\<close>.
  \<^item> The Lua interpreter, a copy of foreign code; applications, tools and tests.
  \<^item> Time that passes inside a kernel call, interrupts other than the tick, and the contents of stacks.
\<close>

end
